(* ===== verification/Prelude.thy ===== *)
theory Prelude
  imports Main "HOL-Library.Word" "HOL-Library.Monad_Syntax"
begin

text \<open>
  Shared vocabulary of the development: the machine types of the target (x86-64, ILP32 \<open>int\<close>,
  64-bit \<open>size_t\<close>), the C idioms that several components use, and the generic lemmas on words,
  bit fields and lists that carry their proofs.
\<close>

unbundle bit_operations_syntax

named_theorems field_simps_bits \<open>facts on masks and bit fields\<close>

named_theorems heap_simps \<open>facts on reads after writes in an explicit store\<close>

section \<open>Machine types\<close>

type_synonym byte = "8 word"
type_synonym u32 = "32 word"
type_synonym u64 = "64 word"

text \<open>C's conversions to a signed 32-bit \<open>int\<close> and to a signed 64-bit \<open>ptrdiff_t\<close> wrap on the
  target.\<close>

definition wrap32 :: "int \<Rightarrow> int" where
  "wrap32 x = signed_take_bit 31 x"

definition wrap64 :: "int \<Rightarrow> int" where
  "wrap64 x = signed_take_bit 63 x"

lemma wrap32_id [simp]: "- (2 ^ 31) \<le> x \<Longrightarrow> x < 2 ^ 31 \<Longrightarrow> wrap32 x = x"
  by (simp add: wrap32_def signed_take_bit_int_eq_self)

lemma wrap64_id [simp]: "- (2 ^ 63) \<le> x \<Longrightarrow> x < 2 ^ 63 \<Longrightarrow> wrap64 x = x"
  by (simp add: wrap64_def signed_take_bit_int_eq_self)

text \<open>The C string at the start of a buffer: what \<open>strlen\<close>, \<open>strcpy\<close> and \<open>strchr\<close> see of it.\<close>

definition c_str :: "string \<Rightarrow> string" where
  "c_str s = takeWhile (\<lambda>c. c \<noteq> CHR 0x00) s"

lemma c_str_id: "CHR 0x00 \<notin> set s \<Longrightarrow> c_str s = s"
  unfolding c_str_def by (induction s) auto

lemma c_str_no_zero [simp]: "CHR 0x00 \<notin> set (c_str s)"
  unfolding c_str_def by (induction s) auto

section \<open>Bit fields of a word\<close>

text \<open>A field of \<open>n\<close> bits at position \<open>p\<close>: reading it, and writing it with the other bits kept.\<close>

definition field_get :: "nat \<Rightarrow> nat \<Rightarrow> 'a::len word \<Rightarrow> 'a word" where
  "field_get n p w = drop_bit p w AND mask n"

definition field_set :: "nat \<Rightarrow> nat \<Rightarrow> 'a::len word \<Rightarrow> 'a word \<Rightarrow> 'a word" where
  "field_set n p w u = (w AND NOT (push_bit p (mask n))) OR (push_bit p u AND push_bit p (mask n))"

lemma mask_as_shift [field_simps_bits]:
  "NOT (push_bit n (NOT (0::'a::len word))) = mask n"
  by (rule bit_word_eqI) (auto simp: bit_simps)

lemma field_get_set_same [field_simps_bits]:
  assumes "p + n \<le> LENGTH('a::len)"
  shows "field_get n p (field_set n p w u) = take_bit n (u :: 'a word)"
  using assms by (intro bit_word_eqI) (auto simp: field_get_def field_set_def bit_simps)

lemma field_get_set_other [field_simps_bits]:
  assumes "p + n \<le> q \<or> q + m \<le> p"
  shows "field_get m q (field_set n p w u) = field_get m q (w :: 'a::len word)"
  using assms
  by (intro bit_word_eqI)
    (auto simp: field_get_def field_set_def bit_simps dest: bit_imp_le_length)

lemma field_set_get [field_simps_bits]: "field_set n p w (field_get n p w) = w"
  by (rule bit_word_eqI) (auto simp: field_get_def field_set_def bit_simps)

lemma field_get_or [field_simps_bits]:
  "field_get n p (v OR w) = field_get n p v OR field_get n p w"
  by (rule bit_word_eqI) (auto simp: field_get_def bit_simps)

lemma field_get_push_same [field_simps_bits]:
  "p + n \<le> LENGTH('a::len) \<Longrightarrow> field_get n p (push_bit p u) = take_bit n (u :: 'a word)"
  by (rule bit_word_eqI) (auto simp: field_get_def bit_simps)

lemma field_get_push_above [field_simps_bits]:
  "p + n \<le> q \<Longrightarrow> field_get n p (push_bit q (u :: 'a::len word)) = 0"
  by (rule bit_word_eqI) (auto simp: field_get_def bit_simps)

lemma field_get_push_below [field_simps_bits]:
  assumes "q + m \<le> p" and "take_bit m u = u"
  shows "field_get n p (push_bit q (u :: 'a::len word)) = 0"
proof (rule bit_word_eqI)
  fix k
  have "\<not> bit u (p + k - q)"
    using assms by (metis add.commute add_leD1 bit_take_bit_iff le_diff_conv2 not_less trans_le_add1)
  then show "bit (field_get n p (push_bit q u)) k = bit (0 :: 'a word) k"
    by (auto simp: field_get_def bit_simps)
qed

lemma bit_of_small: "0 \<le> x \<Longrightarrow> x < 2 ^ n \<Longrightarrow> n \<le> k \<Longrightarrow> \<not> bit (x::int) k"
  by (metis bit_take_bit_iff not_less take_bit_int_eq_self)

lemma take_bit_word_of_int_small:
  "0 \<le> x \<Longrightarrow> x < 2 ^ n \<Longrightarrow> take_bit n (word_of_int x :: 'a::len word) = word_of_int x"
  using bit_of_small [of x n] by (intro bit_word_eqI) (auto simp: bit_simps not_le [symmetric])

lemma unat_field_get_less: "n < LENGTH('a) \<Longrightarrow> unat (field_get n p (w :: 'a::len word)) < 2 ^ n"
  unfolding field_get_def take_bit_eq_mask [symmetric]
  by (simp add: unsigned_take_bit_eq)

lemma uint_take_bit_small:
  assumes "0 \<le> x" and "x < 2 ^ n" and "n \<le> LENGTH('a::len)"
  shows "uint (take_bit n (word_of_int x :: 'a word)) = x"
proof -
  have "x < 2 ^ LENGTH('a)"
    using assms by (meson less_le_trans one_le_numeral power_increasing)
  with assms show ?thesis
    by (simp add: uint_word_of_int_eq take_bit_int_eq_self unsigned_take_bit_eq)
qed

lemma uint_field_get_less: "n < LENGTH('a) \<Longrightarrow> uint (field_get n p (w :: 'a::len word)) < 2 ^ n"
  unfolding field_get_def take_bit_eq_mask [symmetric]
  by (simp add: unsigned_take_bit_eq)

section \<open>Lists\<close>

lemma nth_list_update_if [simp]:
  "i < length xs \<Longrightarrow> xs[j := v] ! i = (if i = j then v else xs ! i)"
  by (simp add: nth_list_update)

lemma unat_byte_less [simp]: "unat (b :: byte) < 256"
proof -
  have "unat b < 2 ^ LENGTH(8)" by (rule unsigned_less)
  then show ?thesis by simp
qed

text \<open>Little-endian bytes of a natural number, the layout of the target's integers in memory.\<close>

fun le_bytes :: "nat \<Rightarrow> nat \<Rightarrow> byte list" where
  "le_bytes 0 x = []"
| "le_bytes (Suc n) x = of_nat (x mod 256) # le_bytes n (x div 256)"

fun le_value :: "byte list \<Rightarrow> nat" where
  "le_value [] = 0"
| "le_value (b # bs) = unat b + 256 * le_value bs"

lemma length_le_bytes [simp]: "length (le_bytes n x) = n"
  by (induction n arbitrary: x) auto

lemma le_value_le_bytes: "x < 256 ^ n \<Longrightarrow> le_value (le_bytes n x) = x"
proof (induction n arbitrary: x)
  case 0
  then show ?case by simp
next
  case (Suc n)
  have "x div 256 < 256 ^ n"
    using Suc.prems by (simp add: less_mult_imp_div_less mult.commute)
  then have "le_value (le_bytes n (x div 256)) = x div 256"
    by (rule Suc.IH)
  moreover have "unat (of_nat (x mod 256) :: byte) = x mod 256"
    by (simp add: unat_of_nat)
  ultimately show ?case by simp
qed

lemma le_bytes_le_value: "le_bytes (length bs) (le_value bs) = bs"
proof (induction bs)
  case Nil
  then show ?case by simp
next
  case (Cons b bs)
  have "unat b < 256"
    by (rule unat_byte_less)
  then have "(unat b + 256 * le_value bs) mod 256 = unat b"
    and "(unat b + 256 * le_value bs) div 256 = le_value bs"
    by simp_all
  then show ?case
    using Cons.IH by simp
qed

lemma le_value_less: "le_value bs < 256 ^ length bs"
proof (induction bs)
  case Nil
  then show ?case by simp
next
  case (Cons b bs)
  have "unat b + 256 * le_value bs < 256 * (le_value bs + 1)" by simp
  also have "\<dots> \<le> 256 * 256 ^ length bs"
    using Cons.IH by (intro mult_le_mono) simp_all
  finally show ?case by simp
qed

section \<open>Characters and memory images\<close>

definition byte_of_char :: "char \<Rightarrow> byte" where
  "byte_of_char c = of_nat (of_char c)"

definition char_of_byte :: "byte \<Rightarrow> char" where
  "char_of_byte b = char_of (unat b)"

lemma char_byte_inverse [simp]: "char_of_byte (byte_of_char c) = c" "byte_of_char (char_of_byte b) = b"
proof -
  have "(of_char c :: nat) < 256" by simp
  then show "char_of_byte (byte_of_char c) = c"
    by (simp add: char_of_byte_def byte_of_char_def unat_of_nat)
  show "byte_of_char (char_of_byte b) = b"
    by (simp add: char_of_byte_def byte_of_char_def)
qed

text \<open>A 32-bit \<open>int\<close> and back.\<close>

definition int_bytes :: "int \<Rightarrow> byte list" where
  "int_bytes x = le_bytes 4 (nat (x mod 2 ^ 32))"

definition bytes_int :: "byte list \<Rightarrow> int" where
  "bytes_int bs = sint (of_nat (le_value bs) :: u32)"

lemma length_int_bytes [simp]: "length (int_bytes x) = 4"
  by (simp add: int_bytes_def)

lemma bytes_int_inverse:
  assumes "- (2 ^ 31) \<le> x" and "x < 2 ^ 31"
  shows "bytes_int (int_bytes x) = x"
proof -
  have "nat (x mod 2 ^ 32) < 256 ^ 4" by (simp add: nat_less_iff)
  then have "le_value (int_bytes x) = nat (x mod 2 ^ 32)"
    unfolding int_bytes_def by (rule le_value_le_bytes)
  moreover have "(of_nat (nat (x mod 2 ^ 32)) :: u32) = word_of_int x"
  proof -
    have "(of_nat (nat (x mod 2 ^ 32)) :: u32) = word_of_int (int (nat (x mod 2 ^ 32)))" by simp
    also have "int (nat (x mod 2 ^ 32)) = x mod 2 ^ 32" by simp
    also have "(word_of_int (x mod 2 ^ 32) :: u32) = word_of_int x"
      unfolding word_of_int_eq_iff take_bit_eq_mod by simp
    finally show ?thesis .
  qed
  ultimately have "bytes_int (int_bytes x) = signed_take_bit 31 x"
    by (simp add: bytes_int_def sint_sbintrunc')
  also have "\<dots> = x" using assms by (simp add: signed_take_bit_int_eq_self)
  finally show ?thesis .
qed

text \<open>Cutting a block into \<open>n\<close> items of \<open>w\<close> bytes.\<close>

fun chunks :: "nat \<Rightarrow> nat \<Rightarrow> 'a list \<Rightarrow> 'a list list" where
  "chunks 0 w bs = []"
| "chunks (Suc n) w bs = take w bs # chunks n w (drop w bs)"

lemma chunks_concat:
  "(\<And>x. x \<in> set xs \<Longrightarrow> length (f x) = w) \<Longrightarrow> chunks (length xs) w (concat (map f xs)) = map f xs"
  by (induction xs) simp_all

lemma length_concat_const:
  "(\<And>x. x \<in> set xs \<Longrightarrow> length (f x) = w) \<Longrightarrow> length (concat (map f xs)) = length xs * w"
  by (induction xs) simp_all

end
