(* ===== verification/EventQueue.thy ===== *)
theory EventQueue
  imports Prelude
begin

text \<open>
  The event queue of the computer (\<open>src/queue.h\<close>, \<open>src/queue.c\<close>): a singly linked list of heap
  cells with a front and a back pointer, which \<open>os.queueEvent\<close> and the interrupt handlers fill and
  \<open>os.pullEvent\<close> drains. Cells live in an explicit store, so dangling pointers, reads after
  \<open>free\<close> and leaks can be expressed; an operation that dereferences an address with no cell is
  \<open>None\<close>. The locale \<open>fifo\<close> is the contract the event loop relies on.
\<close>

section \<open>The store\<close>

text \<open>A pointer is NULL (\<open>None\<close>) or an address. \<open>brk\<close> is an address above every one handed out,
  so that \<open>malloc\<close> returns a fresh cell.\<close>

type_synonym ptr = "nat option"

record pointer_type =
  p_data :: ptr
  p_next :: ptr

record queue_t =
  cells :: "nat \<rightharpoonup> pointer_type"
  brk :: nat
  q_front :: ptr
  q_back :: ptr

definition deref :: "queue_t \<Rightarrow> ptr \<Rightarrow> pointer_type option" where
  "deref q p = (case p of None \<Rightarrow> None | Some a \<Rightarrow> cells q a)"

definition malloc_cell :: "queue_t \<Rightarrow> pointer_type \<Rightarrow> queue_t \<times> ptr" where
  "malloc_cell q c = (q\<lparr>cells := (cells q)(brk q \<mapsto> c), brk := Suc (brk q)\<rparr>, Some (brk q))"

definition free_cell :: "queue_t \<Rightarrow> ptr \<Rightarrow> queue_t" where
  "free_cell q p = (case p of None \<Rightarrow> q | Some a \<Rightarrow> q\<lparr>cells := (cells q)(a := None)\<rparr>)"

section \<open>Operations\<close>

definition queue_empty :: "queue_t \<Rightarrow> bool" where
  "queue_empty q \<longleftrightarrow> q_back q = None"

text \<open>The loop of \<open>queue_size\<close> counts in an \<open>int\<close> and converts to \<open>size_t\<close>. On a cyclic chain it
  does not return, which is \<open>None\<close> here.\<close>

partial_function (option) queue_count :: "queue_t \<Rightarrow> ptr \<Rightarrow> int \<Rightarrow> int option" where
  "queue_count q current i =
     (if current = None then Some i
      else do { c \<leftarrow> deref q current; queue_count q (p_next c) (wrap32 (i + 1)) })"

definition queue_size :: "queue_t \<Rightarrow> u64 option" where
  "queue_size q = do { i \<leftarrow> queue_count q (q_front q) 0; Some (word_of_int i) }"

definition queue_front :: "queue_t \<Rightarrow> ptr option" where
  "queue_front q =
     (if q_front q = None then Some None
      else do { c \<leftarrow> deref q (q_front q); Some (p_data c) })"

definition queue_back :: "queue_t \<Rightarrow> ptr option" where
  "queue_back q =
     (if q_back q = None then Some None
      else do { c \<leftarrow> deref q (q_back q); Some (p_data c) })"

definition queue_push :: "queue_t \<Rightarrow> ptr \<Rightarrow> queue_t option" where
  "queue_push q val =
     (let (q1, p) = malloc_cell q \<lparr>p_data = val, p_next = None\<rparr>
      in do {
        q2 \<leftarrow> (if q_back q1 \<noteq> None \<and> q_front q1 \<noteq> None then
                do { c \<leftarrow> deref q1 (q_back q1);
                     Some (q1\<lparr>cells := (cells q1)(the (q_back q1) \<mapsto> c\<lparr>p_next := p\<rparr>)\<rparr>) }
              else Some q1);
        let q3 = q2\<lparr>q_back := p\<rparr>;
        Some (if q_front q3 = None then q3\<lparr>q_front := p\<rparr> else q3) })"

definition queue_pop :: "queue_t \<Rightarrow> queue_t option" where
  "queue_pop q =
     (if q_front q = None then Some q
      else do {
        c \<leftarrow> deref q (q_front q);
        let q1 = q\<lparr>q_front := p_next c\<rparr>;
        let q2 = (if q_front q1 = None then q1\<lparr>q_back := None\<rparr> else q1);
        Some (free_cell q2 (q_front q)) })"

section \<open>The invariant and the abstract contents\<close>

text \<open>\<open>chain h p as\<close>: following \<open>next\<close> from \<open>p\<close> visits exactly the cells \<open>as\<close> and ends at NULL.\<close>

fun chain :: "(nat \<rightharpoonup> pointer_type) \<Rightarrow> ptr \<Rightarrow> nat list \<Rightarrow> bool" where
  "chain h p [] \<longleftrightarrow> p = None"
| "chain h p (a # as) \<longleftrightarrow> p = Some a \<and> (\<exists>c. h a = Some c \<and> chain h (p_next c) as)"

definition contents :: "queue_t \<Rightarrow> nat list \<Rightarrow> ptr list" where
  "contents q as = map (\<lambda>a. p_data (the (cells q a))) as"

text \<open>\<open>queue_rep q as\<close>: the queue's cells are \<open>as\<close> in order, they are distinct and exactly the
  allocated cells, and the back pointer is the last of them.\<close>

definition queue_rep :: "queue_t \<Rightarrow> nat list \<Rightarrow> bool" where
  "queue_rep q as \<longleftrightarrow> chain (cells q) (q_front q) as \<and> distinct as \<and> dom (cells q) = set as
     \<and> (\<forall>a \<in> set as. a < brk q) \<and> q_back q = (if as = [] then None else Some (last as))"

definition represents :: "queue_t \<Rightarrow> ptr list \<Rightarrow> bool" where
  "represents q xs \<longleftrightarrow> (\<exists>as. queue_rep q as \<and> contents q as = xs)"

definition queue_init :: queue_t where
  "queue_init = \<lparr>cells = Map.empty, brk = 0, q_front = None, q_back = None\<rparr>"

lemma chain_dom: "chain h p as \<Longrightarrow> set as \<subseteq> dom h"
  by (induction as arbitrary: p) auto

lemma chain_upd_other [heap_simps]: "a \<notin> set as \<Longrightarrow> chain (h(a := x)) p as = chain h p as"
  by (induction as arbitrary: p) auto

lemma chain_append:
  "chain h p (as @ [b]) \<Longrightarrow> b \<notin> set as \<Longrightarrow> d \<notin> set (as @ [b]) \<Longrightarrow> h b = Some c \<Longrightarrow>
   chain (h(b \<mapsto> c\<lparr>p_next := Some d\<rparr>, d \<mapsto> \<lparr>p_data = v, p_next = None\<rparr>)) p (as @ [b, d])"
  by (induction as arbitrary: p) auto

lemma chain_head: "chain h p as \<Longrightarrow> p = None \<longleftrightarrow> as = []"
  by (cases as) auto

lemma represents_init: "represents queue_init []"
  by (simp add: represents_def queue_rep_def queue_init_def contents_def)

lemma queue_empty_represents: "represents q xs \<Longrightarrow> queue_empty q \<longleftrightarrow> xs = []"
  by (auto simp: represents_def queue_rep_def queue_empty_def contents_def)

lemma queue_front_represents:
  assumes "represents q xs"
  shows "queue_front q = Some (if xs = [] then None else hd xs)"
proof -
  from assms obtain as where as: "queue_rep q as" "contents q as = xs"
    by (auto simp: represents_def)
  then show ?thesis
    by (cases as) (auto simp: queue_rep_def queue_front_def contents_def deref_def)
qed

lemma queue_back_represents:
  assumes "represents q xs"
  shows "queue_back q = Some (if xs = [] then None else last xs)"
proof -
  from assms obtain as where as: "queue_rep q as" "contents q as = xs"
    by (auto simp: represents_def)
  show ?thesis
  proof (cases "as = []")
    case True
    with as show ?thesis by (simp add: queue_rep_def queue_back_def contents_def)
  next
    case False
    with as have "last as \<in> dom (cells q)" by (simp add: queue_rep_def)
    then obtain c where "cells q (last as) = Some c" by blast
    with as False show ?thesis
      by (auto simp: queue_rep_def queue_back_def contents_def deref_def last_map)
  qed
qed

lemma queue_count_chain:
  "chain (cells q) p as \<Longrightarrow> 0 \<le> i \<Longrightarrow> i + int (length as) < 2 ^ 31 \<Longrightarrow>
   queue_count q p i = Some (i + int (length as))"
proof (induction as arbitrary: p i)
  case Nil
  then show ?case by (simp add: queue_count.simps)
next
  case (Cons a as)
  then obtain c where c: "p = Some a" "cells q a = Some c" "chain (cells q) (p_next c) as"
    by auto
  with Cons.prems Cons.IH [of "p_next c" "i + 1"] show ?case
    by (subst queue_count.simps) (simp add: deref_def)
qed

lemma queue_size_represents:
  assumes "represents q xs" and "length xs < 2 ^ 31"
  shows "queue_size q = Some (of_nat (length xs))"
proof -
  from assms obtain as where as: "queue_rep q as" "length as = length xs"
    by (auto simp: represents_def contents_def)
  with assms have "queue_count q (q_front q) 0 = Some (0 + int (length as))"
    by (intro queue_count_chain) (auto simp: queue_rep_def)
  with as show ?thesis by (simp add: queue_size_def)
qed

lemma queue_push_represents:
  assumes "represents q xs"
  shows "\<exists>q'. queue_push q v = Some q' \<and> represents q' (xs @ [v])"
proof -
  from assms obtain as where rep: "queue_rep q as" and xs: "contents q as = xs"
    by (auto simp: represents_def)
  have fresh: "brk q \<notin> set as" using rep by (auto simp: queue_rep_def)
  show ?thesis
  proof (cases as rule: rev_cases)
    case Nil
    with rep xs show ?thesis
      by (auto simp: represents_def queue_rep_def queue_push_def malloc_cell_def contents_def
          Let_def intro!: exI [of _ "[brk q]"])
  next
    case (snoc bs b)
    from rep snoc obtain c where c: "cells q b = Some c"
      by (auto simp: queue_rep_def dom_def)
    from rep snoc have nf: "q_front q \<noteq> None" and bk: "q_back q = Some b" and bb: "b \<noteq> brk q"
      and dist: "b \<notin> set bs"
      by (auto simp: queue_rep_def chain_head)
    define q' where "q' = q\<lparr>cells := (cells q)(b \<mapsto> c\<lparr>p_next := Some (brk q)\<rparr>,
        brk q \<mapsto> \<lparr>p_data = v, p_next = None\<rparr>), brk := Suc (brk q), q_back := Some (brk q)\<rparr>"
    have "queue_push q v = Some q'"
      using c nf bk bb by (simp add: queue_push_def malloc_cell_def deref_def q'_def Let_def fun_upd_twist)
    moreover have "queue_rep q' (as @ [brk q])"
      using rep snoc fresh c dist chain_append [of "cells q" "q_front q" bs b "brk q" c v]
      by (auto simp: queue_rep_def q'_def less_Suc_eq)
    moreover have "contents q' (as @ [brk q]) = xs @ [v]"
      using xs fresh c snoc by (auto simp: contents_def q'_def)
    ultimately show ?thesis by (auto simp: represents_def)
  qed
qed

lemma queue_pop_represents:
  assumes "represents q xs"
  shows "\<exists>q'. queue_pop q = Some q' \<and> represents q' (tl xs)"
proof -
  from assms obtain as where rep: "queue_rep q as" and xs: "contents q as = xs"
    by (auto simp: represents_def)
  show ?thesis
  proof (cases as)
    case Nil
    with rep xs show ?thesis
      by (auto simp: queue_rep_def queue_pop_def represents_def contents_def)
  next
    case (Cons a bs)
    from rep Cons obtain c where c: "q_front q = Some a" "cells q a = Some c"
        "chain (cells q) (p_next c) bs" and dist: "a \<notin> set bs"
      by (auto simp: queue_rep_def)
    define q' where "q' = q\<lparr>cells := (cells q)(a := None), q_front := p_next c,
        q_back := (if bs = [] then None else q_back q)\<rparr>"
    have "queue_pop q = Some q'"
      using c chain_head [OF c(3)] by (simp add: queue_pop_def deref_def free_cell_def q'_def)
    moreover have "queue_rep q' bs"
      using rep Cons c dist by (auto simp: queue_rep_def q'_def heap_simps)
    moreover have "contents q' bs = tl xs"
      using xs Cons dist by (auto simp: contents_def q'_def)
    ultimately show ?thesis by (auto simp: represents_def)
  qed
qed

section \<open>The contract\<close>

datatype 'a queue_op = Push 'a | Pop

text \<open>A sequence of operations run on an implementation, stopping where one fails, and what it should
  do to a list.\<close>

fun run_ops :: "('s \<Rightarrow> 'a \<Rightarrow> 's option) \<Rightarrow> ('s \<Rightarrow> 's option) \<Rightarrow> 's \<Rightarrow> 'a queue_op list \<Rightarrow> 's option"
where
  "run_ops push pop s [] = Some s"
| "run_ops push pop s (Push v # ops) = do { s' \<leftarrow> push s v; run_ops push pop s' ops }"
| "run_ops push pop s (Pop # ops) = do { s' \<leftarrow> pop s; run_ops push pop s' ops }"

fun fifo_run :: "'a list \<Rightarrow> 'a queue_op list \<Rightarrow> 'a list" where
  "fifo_run xs [] = xs"
| "fifo_run xs (Push v # ops) = fifo_run (xs @ [v]) ops"
| "fifo_run xs (Pop # ops) = fifo_run (tl xs) ops"

text \<open>A queue whose state \<open>s\<close> stands for the list \<open>xs\<close> when \<open>abs s xs\<close>; operations may fail, and
  the contract says they do not.\<close>

locale fifo =
  fixes abs :: "'s \<Rightarrow> 'a list \<Rightarrow> bool"
    and push :: "'s \<Rightarrow> 'a \<Rightarrow> 's option"
    and pop :: "'s \<Rightarrow> 's option"
    and front :: "'s \<Rightarrow> 'a option"
    and is_empty :: "'s \<Rightarrow> bool"
    and null :: 'a
  assumes push_abs: "abs s xs \<Longrightarrow> \<exists>s'. push s v = Some s' \<and> abs s' (xs @ [v])"
    and pop_abs: "abs s xs \<Longrightarrow> \<exists>s'. pop s = Some s' \<and> abs s' (tl xs)"
    and front_abs: "abs s xs \<Longrightarrow> front s = Some (if xs = [] then null else hd xs)"
    and is_empty_abs: "abs s xs \<Longrightarrow> is_empty s \<longleftrightarrow> xs = []"
begin

lemma run_refines: "abs s xs \<Longrightarrow> \<exists>s'. run_ops push pop s ops = Some s' \<and> abs s' (fifo_run xs ops)"
proof (induction ops arbitrary: s xs)
  case Nil
  then show ?case by simp
next
  case (Cons x ops)
  show ?case
  proof (cases x)
    case (Push v)
    from push_abs [OF Cons.prems, of v] obtain s' where "push s v = Some s'" "abs s' (xs @ [v])"
      by blast
    with Cons.IH Push show ?thesis by simp
  next
    case Pop
    from pop_abs [OF Cons.prems] obtain s' where "pop s = Some s'" "abs s' (tl xs)"
      by blast
    with Cons.IH Pop show ?thesis by simp
  qed
qed

end

interpretation eq: fifo represents queue_push queue_pop queue_front queue_empty None
  by unfold_locales
    (simp_all add: queue_push_represents queue_pop_represents queue_front_represents
      queue_empty_represents)

section \<open>Properties\<close>

text \<open>
  C7: any sequence of pushes and pops from an empty queue runs without touching a freed or missing
  cell, and leaves a queue that stands for what the same sequence does to a FIFO list: the live cells
  are exactly the queued ones, the front is the oldest unread event (NULL when there is none), the
  back is the newest, and emptiness is reported exactly.
\<close>

theorem queue_refines_fifo:
  "\<exists>q. run_ops queue_push queue_pop queue_init ops = Some q
     \<and> represents q (fifo_run [] ops)
     \<and> queue_front q = Some (if fifo_run [] ops = [] then None else hd (fifo_run [] ops))
     \<and> queue_back q = Some (if fifo_run [] ops = [] then None else last (fifo_run [] ops))
     \<and> queue_empty q = (fifo_run [] ops = [])"
proof -
  obtain q where "run_ops queue_push queue_pop queue_init ops = Some q"
    and "represents q (fifo_run [] ops)"
    using eq.run_refines [OF represents_init, of ops] by blast
  with eq.front_abs eq.is_empty_abs queue_back_represents show ?thesis by blast
qed

text \<open>
  the loop that counts the queued events returns, and gives their number, as long as the count
  fits the \<open>int\<close> it is kept in.
\<close>

theorem queue_size_counts:
  assumes "run_ops queue_push queue_pop queue_init ops = Some q"
    and "length (fifo_run [] ops) < 2 ^ 31"
  shows "queue_size q = Some (of_nat (length (fifo_run [] ops)))"
  using eq.run_refines [OF represents_init, of ops] assms queue_size_represents by fastforce

theorem queue_size_counts_witness:
  "\<exists>q. run_ops queue_push queue_pop queue_init [Push (Some 7), Push (Some 9), Pop] = Some q
     \<and> queue_size q = Some 1"
proof -
  obtain q where q: "run_ops queue_push queue_pop queue_init [Push (Some 7), Push (Some 9), Pop] = Some q"
    using eq.run_refines [OF represents_init] by blast
  from queue_size_counts [OF this] have "queue_size q = Some 1" by simp
  with q show ?thesis by blast
qed

end
