(* ===== verification/Opcodes.thy ===== *)
theory Opcodes
  imports Prelude
begin

text \<open>
  The instruction format of the Lua virtual machine (\<open>src/lua/lopcodes.h\<close>, \<open>lopcodes.c\<close>): field
  layout, accessor macros, RK operands, the opcode enumeration and its property table. The bit
  field laws are stated once, in the locale \<open>bitfield\<close>, and interpreted on each field of an
  instruction; the code generator, the bytecode checker and the loader rest on those facts.
\<close>

section \<open>Layout\<close>

type_synonym Instruction = u32

datatype OpMode = iABC | iABx | iAsBx

abbreviation (input) SIZE_C :: nat where "SIZE_C \<equiv> 9"
abbreviation (input) SIZE_B :: nat where "SIZE_B \<equiv> 9"
abbreviation (input) SIZE_Bx :: nat where "SIZE_Bx \<equiv> 18"
abbreviation (input) SIZE_A :: nat where "SIZE_A \<equiv> 8"
abbreviation (input) SIZE_OP :: nat where "SIZE_OP \<equiv> 6"
abbreviation (input) POS_OP :: nat where "POS_OP \<equiv> 0"
abbreviation (input) POS_A :: nat where "POS_A \<equiv> 6"
abbreviation (input) POS_C :: nat where "POS_C \<equiv> 14"
abbreviation (input) POS_B :: nat where "POS_B \<equiv> 23"
abbreviation (input) POS_Bx :: nat where "POS_Bx \<equiv> 14"

abbreviation (input) MAXARG_Bx :: int where "MAXARG_Bx \<equiv> 262143"
abbreviation (input) MAXARG_sBx :: int where "MAXARG_sBx \<equiv> 131071"
abbreviation (input) MAXARG_A :: int where "MAXARG_A \<equiv> 255"
abbreviation (input) MAXARG_B :: int where "MAXARG_B \<equiv> 511"
abbreviation (input) MAXARG_C :: int where "MAXARG_C \<equiv> 511"
abbreviation (input) NO_REG :: int where "NO_REG \<equiv> MAXARG_A"
abbreviation (input) LFIELDS_PER_FLUSH :: int where "LFIELDS_PER_FLUSH \<equiv> 50"

text \<open>The sizes and positions are the ones the macros compute.\<close>

lemma layout_arith:
  "SIZE_Bx = SIZE_C + SIZE_B" "POS_A = POS_OP + SIZE_OP" "POS_C = POS_A + SIZE_A"
  "POS_B = POS_C + SIZE_C" "POS_B + SIZE_B = 32"
  "MAXARG_Bx = 2 ^ SIZE_Bx - 1" "MAXARG_sBx = drop_bit 1 MAXARG_Bx"
  "MAXARG_A = 2 ^ SIZE_A - 1" "MAXARG_B = 2 ^ SIZE_B - 1" "MAXARG_C = 2 ^ SIZE_C - 1"
  by (simp_all add: drop_bit_eq_div)

definition MASK1 :: "nat \<Rightarrow> nat \<Rightarrow> Instruction" where
  "MASK1 n p = push_bit p (NOT (push_bit n (NOT 0)))"

definition MASK0 :: "nat \<Rightarrow> nat \<Rightarrow> Instruction" where
  "MASK0 n p = NOT (MASK1 n p)"

section \<open>Accessors\<close>

text \<open>Operands are C \<open>int\<close>s; the opcode is the raw enumeration value, which in a loaded chunk can
  be any 6-bit number.\<close>

definition GET_OPCODE :: "Instruction \<Rightarrow> nat" where
  "GET_OPCODE i = unat (drop_bit POS_OP i AND MASK1 SIZE_OP 0)"

definition SET_OPCODE :: "Instruction \<Rightarrow> nat \<Rightarrow> Instruction" where
  "SET_OPCODE i opc = (i AND MASK0 SIZE_OP POS_OP)
     OR (push_bit POS_OP (of_nat opc) AND MASK1 SIZE_OP POS_OP)"

definition GETARG_A :: "Instruction \<Rightarrow> int" where
  "GETARG_A i = uint (drop_bit POS_A i AND MASK1 SIZE_A 0)"

definition SETARG_A :: "Instruction \<Rightarrow> int \<Rightarrow> Instruction" where
  "SETARG_A i u = (i AND MASK0 SIZE_A POS_A)
     OR (push_bit POS_A (word_of_int u) AND MASK1 SIZE_A POS_A)"

definition GETARG_B :: "Instruction \<Rightarrow> int" where
  "GETARG_B i = uint (drop_bit POS_B i AND MASK1 SIZE_B 0)"

definition SETARG_B :: "Instruction \<Rightarrow> int \<Rightarrow> Instruction" where
  "SETARG_B i u = (i AND MASK0 SIZE_B POS_B)
     OR (push_bit POS_B (word_of_int u) AND MASK1 SIZE_B POS_B)"

definition GETARG_C :: "Instruction \<Rightarrow> int" where
  "GETARG_C i = uint (drop_bit POS_C i AND MASK1 SIZE_C 0)"

definition SETARG_C :: "Instruction \<Rightarrow> int \<Rightarrow> Instruction" where
  "SETARG_C i u = (i AND MASK0 SIZE_C POS_C)
     OR (push_bit POS_C (word_of_int u) AND MASK1 SIZE_C POS_C)"

definition GETARG_Bx :: "Instruction \<Rightarrow> int" where
  "GETARG_Bx i = uint (drop_bit POS_Bx i AND MASK1 SIZE_Bx 0)"

definition SETARG_Bx :: "Instruction \<Rightarrow> int \<Rightarrow> Instruction" where
  "SETARG_Bx i u = (i AND MASK0 SIZE_Bx POS_Bx)
     OR (push_bit POS_Bx (word_of_int u) AND MASK1 SIZE_Bx POS_Bx)"

definition GETARG_sBx :: "Instruction \<Rightarrow> int" where
  "GETARG_sBx i = GETARG_Bx i - MAXARG_sBx"

definition SETARG_sBx :: "Instruction \<Rightarrow> int \<Rightarrow> Instruction" where
  "SETARG_sBx i b = SETARG_Bx i (uint (word_of_int (b + MAXARG_sBx) :: u32))"

definition CREATE_ABC :: "nat \<Rightarrow> int \<Rightarrow> int \<Rightarrow> int \<Rightarrow> Instruction" where
  "CREATE_ABC opc a b c = push_bit POS_OP (of_nat opc) OR push_bit POS_A (word_of_int a)
     OR push_bit POS_B (word_of_int b) OR push_bit POS_C (word_of_int c)"

definition CREATE_ABx :: "nat \<Rightarrow> int \<Rightarrow> int \<Rightarrow> Instruction" where
  "CREATE_ABx opc a bc = push_bit POS_OP (of_nat opc) OR push_bit POS_A (word_of_int a)
     OR push_bit POS_Bx (word_of_int bc)"

section \<open>RK operands\<close>

definition BITRK :: int where
  "BITRK = push_bit (SIZE_B - 1) 1"

definition ISK :: "int \<Rightarrow> bool" where
  "ISK x \<longleftrightarrow> x AND BITRK \<noteq> 0"

definition INDEXK :: "int \<Rightarrow> int" where
  "INDEXK r = r AND NOT BITRK"

definition MAXINDEXRK :: int where
  "MAXINDEXRK = BITRK - 1"

definition RKASK :: "int \<Rightarrow> int" where
  "RKASK x = x OR BITRK"

section \<open>Opcodes and their properties\<close>

datatype OpCode =
    OP_MOVE | OP_LOADK | OP_LOADBOOL | OP_LOADNIL | OP_GETUPVAL
  | OP_GETGLOBAL | OP_GETTABLE | OP_SETGLOBAL | OP_SETUPVAL | OP_SETTABLE
  | OP_NEWTABLE | OP_SELF | OP_ADD | OP_SUB | OP_MUL
  | OP_DIV | OP_MOD | OP_POW | OP_UNM | OP_NOT
  | OP_LEN | OP_CONCAT | OP_JMP | OP_EQ | OP_LT
  | OP_LE | OP_TEST | OP_TESTSET | OP_CALL | OP_TAILCALL
  | OP_RETURN | OP_FORLOOP | OP_FORPREP | OP_TFORLOOP | OP_SETLIST
  | OP_CLOSE | OP_CLOSURE | OP_VARARG 

definition all_opcodes :: "OpCode list" where
  "all_opcodes =
    [OP_MOVE, OP_LOADK, OP_LOADBOOL, OP_LOADNIL, OP_GETUPVAL,
     OP_GETGLOBAL, OP_GETTABLE, OP_SETGLOBAL, OP_SETUPVAL, OP_SETTABLE,
     OP_NEWTABLE, OP_SELF, OP_ADD, OP_SUB, OP_MUL,
     OP_DIV, OP_MOD, OP_POW, OP_UNM, OP_NOT,
     OP_LEN, OP_CONCAT, OP_JMP, OP_EQ, OP_LT,
     OP_LE, OP_TEST, OP_TESTSET, OP_CALL, OP_TAILCALL,
     OP_RETURN, OP_FORLOOP, OP_FORPREP, OP_TFORLOOP, OP_SETLIST,
     OP_CLOSE, OP_CLOSURE, OP_VARARG]" 

primrec opcode_num :: "OpCode \<Rightarrow> nat" where
    "opcode_num OP_MOVE = 0"
  | "opcode_num OP_LOADK = 1"
  | "opcode_num OP_LOADBOOL = 2"
  | "opcode_num OP_LOADNIL = 3"
  | "opcode_num OP_GETUPVAL = 4"
  | "opcode_num OP_GETGLOBAL = 5"
  | "opcode_num OP_GETTABLE = 6"
  | "opcode_num OP_SETGLOBAL = 7"
  | "opcode_num OP_SETUPVAL = 8"
  | "opcode_num OP_SETTABLE = 9"
  | "opcode_num OP_NEWTABLE = 10"
  | "opcode_num OP_SELF = 11"
  | "opcode_num OP_ADD = 12"
  | "opcode_num OP_SUB = 13"
  | "opcode_num OP_MUL = 14"
  | "opcode_num OP_DIV = 15"
  | "opcode_num OP_MOD = 16"
  | "opcode_num OP_POW = 17"
  | "opcode_num OP_UNM = 18"
  | "opcode_num OP_NOT = 19"
  | "opcode_num OP_LEN = 20"
  | "opcode_num OP_CONCAT = 21"
  | "opcode_num OP_JMP = 22"
  | "opcode_num OP_EQ = 23"
  | "opcode_num OP_LT = 24"
  | "opcode_num OP_LE = 25"
  | "opcode_num OP_TEST = 26"
  | "opcode_num OP_TESTSET = 27"
  | "opcode_num OP_CALL = 28"
  | "opcode_num OP_TAILCALL = 29"
  | "opcode_num OP_RETURN = 30"
  | "opcode_num OP_FORLOOP = 31"
  | "opcode_num OP_FORPREP = 32"
  | "opcode_num OP_TFORLOOP = 33"
  | "opcode_num OP_SETLIST = 34"
  | "opcode_num OP_CLOSE = 35"
  | "opcode_num OP_CLOSURE = 36"
  | "opcode_num OP_VARARG = 37"

text \<open>Reading an enumeration value back; numbers past the last opcode name none.\<close>

definition opcode_of :: "nat \<Rightarrow> OpCode option" where
  "opcode_of n = (if n < length all_opcodes then Some (all_opcodes ! n) else None)"

abbreviation (input) NUM_OPCODES :: nat where "NUM_OPCODES \<equiv> 38"

definition luaP_opnames :: "string list" where
  "luaP_opnames =
    [''MOVE'', ''LOADK'', ''LOADBOOL'', ''LOADNIL'', ''GETUPVAL'', ''GETGLOBAL'',
     ''GETTABLE'', ''SETGLOBAL'', ''SETUPVAL'', ''SETTABLE'', ''NEWTABLE'', ''SELF'',
     ''ADD'', ''SUB'', ''MUL'', ''DIV'', ''MOD'', ''POW'',
     ''UNM'', ''NOT'', ''LEN'', ''CONCAT'', ''JMP'', ''EQ'',
     ''LT'', ''LE'', ''TEST'', ''TESTSET'', ''CALL'', ''TAILCALL'',
     ''RETURN'', ''FORLOOP'', ''FORPREP'', ''TFORLOOP'', ''SETLIST'', ''CLOSE'',
     ''CLOSURE'', ''VARARG'']"

datatype OpArgMask = OpArgN | OpArgU | OpArgR | OpArgK

primrec argmask_num :: "OpArgMask \<Rightarrow> nat" where
    "argmask_num OpArgN = 0"
  | "argmask_num OpArgU = 1"
  | "argmask_num OpArgR = 2"
  | "argmask_num OpArgK = 3"

definition argmask_of :: "nat \<Rightarrow> OpArgMask" where
  "argmask_of n = [OpArgN, OpArgU, OpArgR, OpArgK] ! n"

primrec opmode_num :: "OpMode \<Rightarrow> nat" where
    "opmode_num iABC = 0"
  | "opmode_num iABx = 1"
  | "opmode_num iAsBx = 2"

definition opmode_of :: "nat \<Rightarrow> OpMode" where
  "opmode_of n = [iABC, iABx, iAsBx] ! n"

definition opmode :: "nat \<Rightarrow> nat \<Rightarrow> OpArgMask \<Rightarrow> OpArgMask \<Rightarrow> OpMode \<Rightarrow> byte" where
  "opmode t a b c m = push_bit 7 (of_nat t) OR push_bit 6 (of_nat a)
     OR push_bit 4 (of_nat (argmask_num b)) OR push_bit 2 (of_nat (argmask_num c))
     OR of_nat (opmode_num m)"

definition luaP_opmodes :: "byte list" where
  "luaP_opmodes =
    [ opmode 0 1 OpArgR OpArgN iABC, \<comment> \<open>OP_MOVE\<close>
      opmode 0 1 OpArgK OpArgN iABx, \<comment> \<open>OP_LOADK\<close>
      opmode 0 1 OpArgU OpArgU iABC, \<comment> \<open>OP_LOADBOOL\<close>
      opmode 0 1 OpArgR OpArgN iABC, \<comment> \<open>OP_LOADNIL\<close>
      opmode 0 1 OpArgU OpArgN iABC, \<comment> \<open>OP_GETUPVAL\<close>
      opmode 0 1 OpArgK OpArgN iABx, \<comment> \<open>OP_GETGLOBAL\<close>
      opmode 0 1 OpArgR OpArgK iABC, \<comment> \<open>OP_GETTABLE\<close>
      opmode 0 0 OpArgK OpArgN iABx, \<comment> \<open>OP_SETGLOBAL\<close>
      opmode 0 0 OpArgU OpArgN iABC, \<comment> \<open>OP_SETUPVAL\<close>
      opmode 0 0 OpArgK OpArgK iABC, \<comment> \<open>OP_SETTABLE\<close>
      opmode 0 1 OpArgU OpArgU iABC, \<comment> \<open>OP_NEWTABLE\<close>
      opmode 0 1 OpArgR OpArgK iABC, \<comment> \<open>OP_SELF\<close>
      opmode 0 1 OpArgK OpArgK iABC, \<comment> \<open>OP_ADD\<close>
      opmode 0 1 OpArgK OpArgK iABC, \<comment> \<open>OP_SUB\<close>
      opmode 0 1 OpArgK OpArgK iABC, \<comment> \<open>OP_MUL\<close>
      opmode 0 1 OpArgK OpArgK iABC, \<comment> \<open>OP_DIV\<close>
      opmode 0 1 OpArgK OpArgK iABC, \<comment> \<open>OP_MOD\<close>
      opmode 0 1 OpArgK OpArgK iABC, \<comment> \<open>OP_POW\<close>
      opmode 0 1 OpArgR OpArgN iABC, \<comment> \<open>OP_UNM\<close>
      opmode 0 1 OpArgR OpArgN iABC, \<comment> \<open>OP_NOT\<close>
      opmode 0 1 OpArgR OpArgN iABC, \<comment> \<open>OP_LEN\<close>
      opmode 0 1 OpArgR OpArgR iABC, \<comment> \<open>OP_CONCAT\<close>
      opmode 0 0 OpArgR OpArgN iAsBx, \<comment> \<open>OP_JMP\<close>
      opmode 1 0 OpArgK OpArgK iABC, \<comment> \<open>OP_EQ\<close>
      opmode 1 0 OpArgK OpArgK iABC, \<comment> \<open>OP_LT\<close>
      opmode 1 0 OpArgK OpArgK iABC, \<comment> \<open>OP_LE\<close>
      opmode 1 1 OpArgR OpArgU iABC, \<comment> \<open>OP_TEST\<close>
      opmode 1 1 OpArgR OpArgU iABC, \<comment> \<open>OP_TESTSET\<close>
      opmode 0 1 OpArgU OpArgU iABC, \<comment> \<open>OP_CALL\<close>
      opmode 0 1 OpArgU OpArgU iABC, \<comment> \<open>OP_TAILCALL\<close>
      opmode 0 0 OpArgU OpArgN iABC, \<comment> \<open>OP_RETURN\<close>
      opmode 0 1 OpArgR OpArgN iAsBx, \<comment> \<open>OP_FORLOOP\<close>
      opmode 0 1 OpArgR OpArgN iAsBx, \<comment> \<open>OP_FORPREP\<close>
      opmode 1 0 OpArgN OpArgU iABC, \<comment> \<open>OP_TFORLOOP\<close>
      opmode 0 0 OpArgU OpArgU iABC, \<comment> \<open>OP_SETLIST\<close>
      opmode 0 0 OpArgN OpArgN iABC, \<comment> \<open>OP_CLOSE\<close>
      opmode 0 1 OpArgU OpArgN iABx, \<comment> \<open>OP_CLOSURE\<close>
      opmode 0 1 OpArgU OpArgN iABC \<comment> \<open>OP_VARARG\<close> ]"

definition getOpMode :: "nat \<Rightarrow> OpMode" where
  "getOpMode m = opmode_of (unat (luaP_opmodes ! m AND 3))"

definition getBMode :: "nat \<Rightarrow> OpArgMask" where
  "getBMode m = argmask_of (unat (drop_bit 4 (luaP_opmodes ! m) AND 3))"

definition getCMode :: "nat \<Rightarrow> OpArgMask" where
  "getCMode m = argmask_of (unat (drop_bit 2 (luaP_opmodes ! m) AND 3))"

definition testAMode :: "nat \<Rightarrow> bool" where
  "testAMode m \<longleftrightarrow> luaP_opmodes ! m AND push_bit 6 1 \<noteq> 0"

definition testTMode :: "nat \<Rightarrow> bool" where
  "testTMode m \<longleftrightarrow> luaP_opmodes ! m AND push_bit 7 1 \<noteq> 0"

section \<open>Laws of the fields\<close>

text \<open>What a client of a field accessor pair relies on: a written value that fits is read back, a
  read is always in range, and writing back what was read changes nothing.\<close>

locale bitfield =
  fixes getf :: "Instruction \<Rightarrow> int"
    and setf :: "Instruction \<Rightarrow> int \<Rightarrow> Instruction"
    and lim :: int
  assumes get_set: "0 \<le> x \<Longrightarrow> x \<le> lim \<Longrightarrow> getf (setf i x) = x"
    and get_range: "0 \<le> getf i \<and> getf i \<le> lim"
    and set_get: "setf i (getf i) = i"
begin

lemma set_inj: "0 \<le> x \<Longrightarrow> x \<le> lim \<Longrightarrow> 0 \<le> y \<Longrightarrow> y \<le> lim \<Longrightarrow> setf i x = setf j y \<Longrightarrow> x = y"
  using get_set by metis

lemma covers: "\<exists>x. 0 \<le> x \<and> x \<le> lim \<and> setf i x = i"
  using get_range set_get by blast

end

text \<open>Two fields are independent when neither setter disturbs the other getter.\<close>

locale two_fields = f: bitfield getf setf lim + g: bitfield getg setg limg
  for getf setf lim getg setg limg +
  assumes get_other: "getg (setf i x) = getg i"
    and get_other': "getf (setg i x) = getf i"
begin

lemma both_readable:
  "0 \<le> x \<Longrightarrow> x \<le> lim \<Longrightarrow> 0 \<le> y \<Longrightarrow> y \<le> limg \<Longrightarrow>
   getf (setg (setf i x) y) = x \<and> getg (setg (setf i x) y) = y"
  by (simp add: get_other' f.get_set g.get_set)

end

lemma MASK1_mask: "MASK1 n p = push_bit p (mask n)"
  by (simp add: MASK1_def mask_as_shift)

lemma accessor_fields:
  "GET_OPCODE i = unat (field_get SIZE_OP POS_OP i)"
  "GETARG_A i = uint (field_get SIZE_A POS_A i)"
  "GETARG_B i = uint (field_get SIZE_B POS_B i)"
  "GETARG_C i = uint (field_get SIZE_C POS_C i)"
  "GETARG_Bx i = uint (field_get SIZE_Bx POS_Bx i)"
  by (simp_all add: GET_OPCODE_def GETARG_A_def GETARG_B_def GETARG_C_def GETARG_Bx_def
      MASK1_mask field_get_def)

lemma setter_fields:
  "SET_OPCODE i n = field_set SIZE_OP POS_OP i (of_nat n)"
  "SETARG_A i x = field_set SIZE_A POS_A i (word_of_int x)"
  "SETARG_B i x = field_set SIZE_B POS_B i (word_of_int x)"
  "SETARG_C i x = field_set SIZE_C POS_C i (word_of_int x)"
  "SETARG_Bx i x = field_set SIZE_Bx POS_Bx i (word_of_int x)"
  by (simp_all only: SET_OPCODE_def SETARG_A_def SETARG_B_def SETARG_C_def SETARG_Bx_def
      MASK1_mask MASK0_def field_set_def)

lemma bitfield_of_field:
  assumes "p + n \<le> 32" and "n < 32"
  shows "bitfield (\<lambda>i. uint (field_get n p i)) (\<lambda>i x. field_set n p i (word_of_int x)) (2 ^ n - 1)"
proof
  fix x :: int and i :: Instruction
  show "uint (field_get n p (field_set n p i (word_of_int x))) = x" if "0 \<le> x" "x \<le> 2 ^ n - 1"
    using that assms by (simp add: field_get_set_same uint_take_bit_small)
  show "0 \<le> uint (field_get n p i) \<and> uint (field_get n p i) \<le> 2 ^ n - 1"
    using assms uint_field_get_less [of n p i] by simp
  show "field_set n p i (word_of_int (uint (field_get n p i))) = i"
    by (simp add: field_set_get)
qed

lemma getter_eqs:
  "GETARG_A = (\<lambda>i. uint (field_get SIZE_A POS_A i))"
  "GETARG_B = (\<lambda>i. uint (field_get SIZE_B POS_B i))"
  "GETARG_C = (\<lambda>i. uint (field_get SIZE_C POS_C i))"
  "GETARG_Bx = (\<lambda>i. uint (field_get SIZE_Bx POS_Bx i))"
  by (rule ext, rule accessor_fields)+

lemma setter_eqs:
  "SETARG_A = (\<lambda>i x. field_set SIZE_A POS_A i (word_of_int x))"
  "SETARG_B = (\<lambda>i x. field_set SIZE_B POS_B i (word_of_int x))"
  "SETARG_C = (\<lambda>i x. field_set SIZE_C POS_C i (word_of_int x))"
  "SETARG_Bx = (\<lambda>i x. field_set SIZE_Bx POS_Bx i (word_of_int x))"
  by (rule ext, rule ext, rule setter_fields)+

interpretation fA: bitfield GETARG_A SETARG_A MAXARG_A
  unfolding getter_eqs setter_eqs using bitfield_of_field [of POS_A SIZE_A] by simp

interpretation fB: bitfield GETARG_B SETARG_B MAXARG_B
  unfolding getter_eqs setter_eqs using bitfield_of_field [of POS_B SIZE_B] by simp

interpretation fC: bitfield GETARG_C SETARG_C MAXARG_C
  unfolding getter_eqs setter_eqs using bitfield_of_field [of POS_C SIZE_C] by simp

interpretation fBx: bitfield GETARG_Bx SETARG_Bx MAXARG_Bx
  unfolding getter_eqs setter_eqs using bitfield_of_field [of POS_Bx SIZE_Bx] by simp

lemma field_frame [simp]:
  "GETARG_A (SETARG_B i x) = GETARG_A i" "GETARG_A (SETARG_C i x) = GETARG_A i"
  "GETARG_A (SETARG_Bx i x) = GETARG_A i" "GETARG_B (SETARG_A i x) = GETARG_B i"
  "GETARG_B (SETARG_C i x) = GETARG_B i" "GETARG_C (SETARG_A i x) = GETARG_C i"
  "GETARG_C (SETARG_B i x) = GETARG_C i" "GETARG_Bx (SETARG_A i x) = GETARG_Bx i"
  "GET_OPCODE (SETARG_A i x) = GET_OPCODE i" "GET_OPCODE (SETARG_B i x) = GET_OPCODE i"
  "GET_OPCODE (SETARG_C i x) = GET_OPCODE i" "GET_OPCODE (SETARG_Bx i x) = GET_OPCODE i"
  "GETARG_A (SET_OPCODE i n) = GETARG_A i" "GETARG_B (SET_OPCODE i n) = GETARG_B i"
  "GETARG_C (SET_OPCODE i n) = GETARG_C i" "GETARG_Bx (SET_OPCODE i n) = GETARG_Bx i"
  by (simp_all add: accessor_fields setter_fields field_get_set_other)

interpretation fAB: two_fields GETARG_A SETARG_A MAXARG_A GETARG_B SETARG_B MAXARG_B
  by unfold_locales simp_all

interpretation fAC: two_fields GETARG_A SETARG_A MAXARG_A GETARG_C SETARG_C MAXARG_C
  by unfold_locales simp_all

interpretation fBC: two_fields GETARG_B SETARG_B MAXARG_B GETARG_C SETARG_C MAXARG_C
  by unfold_locales simp_all

interpretation fABx: two_fields GETARG_A SETARG_A MAXARG_A GETARG_Bx SETARG_Bx MAXARG_Bx
  by unfold_locales simp_all

lemma GET_OPCODE_less: "GET_OPCODE i < 64"
  using unat_field_get_less [of SIZE_OP POS_OP i] by (simp add: accessor_fields)

lemma GET_SET_OPCODE:
  assumes "n < 64"
  shows "GET_OPCODE (SET_OPCODE i n) = n"
proof -
  have "field_get 6 0 (field_set 6 0 i (of_nat n)) = take_bit 6 (of_nat n :: u32)"
    by (rule field_get_set_same) simp
  moreover have "unat (take_bit 6 (of_nat n :: u32)) = n"
    using assms by (simp add: unsigned_take_bit_eq unsigned_of_nat take_bit_nat_eq_self)
  ultimately show ?thesis
    by (simp only: accessor_fields setter_fields)
qed

text \<open>The signed operand, in excess representation.\<close>

lemma GETARG_sBx_range: "- MAXARG_sBx \<le> GETARG_sBx i \<and> GETARG_sBx i \<le> MAXARG_sBx + 1"
  using fBx.get_range [of i] by (simp add: GETARG_sBx_def)

lemma GET_SET_sBx:
  assumes "- MAXARG_sBx \<le> x" and "x \<le> MAXARG_sBx + 1"
  shows "GETARG_sBx (SETARG_sBx i x) = x"
proof -
  have "uint (word_of_int (x + MAXARG_sBx) :: u32) = x + MAXARG_sBx"
    using assms by (subst uint_word_of_int_eq) (simp add: take_bit_int_eq_self)
  then show ?thesis
    using assms fBx.get_set [of "x + MAXARG_sBx" i] by (simp add: GETARG_sBx_def SETARG_sBx_def)
qed

lemma sBx_frame [simp]:
  "GET_OPCODE (SETARG_sBx i x) = GET_OPCODE i" "GETARG_A (SETARG_sBx i x) = GETARG_A i"
  by (simp_all add: SETARG_sBx_def)

section \<open>Building and taking apart whole instructions\<close>

lemma operand_small:
  "0 \<le> a \<Longrightarrow> a \<le> MAXARG_A \<Longrightarrow> take_bit 8 (word_of_int a :: u32) = word_of_int a"
  "0 \<le> b \<Longrightarrow> b \<le> MAXARG_B \<Longrightarrow> take_bit 9 (word_of_int b :: u32) = word_of_int b"
  "0 \<le> c \<Longrightarrow> c \<le> MAXARG_Bx \<Longrightarrow> take_bit 18 (word_of_int c :: u32) = word_of_int c"
  "n < 64 \<Longrightarrow> take_bit 6 (of_nat n :: u32) = of_nat n"
  using take_bit_word_of_int_small [of "int n" 6, where 'a = 32]
  by (simp_all add: take_bit_word_of_int_small)

lemma uint_operand:
  "0 \<le> x \<Longrightarrow> x \<le> MAXARG_Bx \<Longrightarrow> uint (word_of_int x :: u32) = x"
  by (simp add: uint_word_of_int_eq take_bit_int_eq_self)

lemma create_bits:
  assumes "n < 64" and "0 \<le> a" and "a \<le> MAXARG_A" and "0 \<le> b" and "b \<le> MAXARG_B"
    and "0 \<le> c" and "c \<le> MAXARG_C"
  shows "GETARG_A (CREATE_ABC n a b c) = a" "GETARG_B (CREATE_ABC n a b c) = b"
    "GETARG_C (CREATE_ABC n a b c) = c" "GET_OPCODE (CREATE_ABC n a b c) = n"
proof -
  note small = operand_small(1) [OF assms(2,3)] operand_small(2) [OF assms(4,5)]
    operand_small(2) [OF assms(6,7)] operand_small(4) [OF assms(1)]
  note parts = CREATE_ABC_def accessor_fields field_get_or
    field_get_push_below [of 0 6 _ "of_nat n", simplified] field_get_push_below [of 6 8 _ "word_of_int a"]
    field_get_push_below [of 14 9 _ "word_of_int c"] field_get_push_same
    field_get_push_same [of 0, simplified] field_get_push_above small
  show "GETARG_A (CREATE_ABC n a b c) = a" using assms by (simp add: parts uint_operand)
  show "GETARG_B (CREATE_ABC n a b c) = b" using assms by (simp add: parts uint_operand)
  show "GETARG_C (CREATE_ABC n a b c) = c" using assms by (simp add: parts uint_operand)
  show "GET_OPCODE (CREATE_ABC n a b c) = n"
    using assms by (simp add: parts unat_of_nat)
qed

lemma CREATE_ABC_of_fields:
  "CREATE_ABC (GET_OPCODE i) (GETARG_A i) (GETARG_B i) (GETARG_C i) = i"
proof (rule bit_word_eqI)
  fix n :: nat
  assume "n < LENGTH(32)"
  then consider "n < 6" | "6 \<le> n" "n < 14" | "14 \<le> n" "n < 23" | "23 \<le> n" "n < 32"
    by fastforce
  then show "bit (CREATE_ABC (GET_OPCODE i) (GETARG_A i) (GETARG_B i) (GETARG_C i)) n = bit i n"
    by cases (auto simp: accessor_fields CREATE_ABC_def field_get_def bit_simps)
qed

lemma CREATE_ABx_of_fields:
  "CREATE_ABx (GET_OPCODE i) (GETARG_A i) (GETARG_Bx i) = i"
proof (rule bit_word_eqI)
  fix n :: nat
  assume "n < LENGTH(32)"
  then consider "n < 6" | "6 \<le> n" "n < 14" | "14 \<le> n" "n < 32"
    by fastforce
  then show "bit (CREATE_ABx (GET_OPCODE i) (GETARG_A i) (GETARG_Bx i)) n = bit i n"
    by cases (auto simp: accessor_fields CREATE_ABx_def field_get_def bit_simps)
qed

lemma create_ABx_bits:
  assumes "n < 64" and "0 \<le> a" and "a \<le> MAXARG_A" and "0 \<le> bc" and "bc \<le> MAXARG_Bx"
  shows "GETARG_A (CREATE_ABx n a bc) = a" "GETARG_Bx (CREATE_ABx n a bc) = bc"
    "GET_OPCODE (CREATE_ABx n a bc) = n"
proof -
  note small = operand_small(1) [OF assms(2,3)] operand_small(3) [OF assms(4,5)]
    operand_small(4) [OF assms(1)]
  note parts = CREATE_ABx_def accessor_fields field_get_or
    field_get_push_below [of 0 6 _ "of_nat n", simplified]
    field_get_push_below [of 6 8 _ "word_of_int a"] field_get_push_same
    field_get_push_same [of 0, simplified] field_get_push_above small
  show "GETARG_A (CREATE_ABx n a bc) = a" using assms by (simp add: parts uint_operand)
  show "GETARG_Bx (CREATE_ABx n a bc) = bc" using assms by (simp add: parts uint_operand)
  show "GET_OPCODE (CREATE_ABx n a bc) = n" using assms by (simp add: parts unat_of_nat)
qed

section \<open>Opcode numbers and RK operands\<close>

lemma opcode_of_num [simp]: "opcode_of (opcode_num x) = Some x"
  by (cases x) (simp_all add: opcode_of_def all_opcodes_def)

lemma length_all_opcodes [simp]: "length all_opcodes = NUM_OPCODES"
  by (simp add: all_opcodes_def)

lemma opcode_num_less: "opcode_num x < NUM_OPCODES"
  by (cases x) simp_all

lemma opcode_num_inj: "opcode_num x = opcode_num y \<Longrightarrow> x = y"
  by (metis opcode_of_num option.inject)

lemma map_opcode_num: "map opcode_num all_opcodes = [0..<NUM_OPCODES]"
  by (simp add: all_opcodes_def upt_rec)

lemma opcode_of_SomeD: "opcode_of n = Some x \<Longrightarrow> n = opcode_num x"
proof -
  assume a: "opcode_of n = Some x"
  then have n: "n < NUM_OPCODES" "x = all_opcodes ! n"
    by (simp_all add: opcode_of_def split: if_splits)
  then have "opcode_num x = map opcode_num all_opcodes ! n" by simp
  with n show ?thesis by (simp add: map_opcode_num)
qed

lemma opcode_of_eq_None: "opcode_of n = None \<longleftrightarrow> NUM_OPCODES \<le> n"
  by (simp add: opcode_of_def)

lemma BITRK_val: "BITRK = 256"
  by (simp add: BITRK_def)

lemma ISK_iff: "ISK x \<longleftrightarrow> bit x 8"
  using and_exp_eq_0_iff_not_bit [of x 8] by (simp add: ISK_def BITRK_val)

lemma ISK_range:
  assumes "0 \<le> x" and "x \<le> MAXARG_B"
  shows "ISK x \<longleftrightarrow> 256 \<le> x"
proof -
  have "x div 256 = (if 256 \<le> x then 1 else 0)"
    using assms by auto
  then show ?thesis
    by (simp add: ISK_iff bit_iff_odd)
qed

lemma bit_BITRK: "bit BITRK n \<longleftrightarrow> n = 8"
  using bit_exp_iff [of 8 n, where 'a = int] by (simp add: BITRK_val)

lemma RKASK_plus: "0 \<le> x \<Longrightarrow> x \<le> MAXINDEXRK \<Longrightarrow> RKASK x = x + 256"
  using bit_of_small [of x 8] and_exp_eq_0_iff_not_bit [of x 8] disjunctive_add_eq_or [of x 256]
  by (simp add: RKASK_def MAXINDEXRK_def BITRK_val)

lemma INDEXK_minus:
  assumes "256 \<le> x" and "x \<le> MAXARG_B"
  shows "INDEXK x = x - 256"
proof -
  have "x = RKASK (x - 256)"
    using assms RKASK_plus [of "x - 256"] by (simp add: MAXINDEXRK_def BITRK_val)
  moreover have "INDEXK (RKASK (x - 256)) = x - 256"
    using assms bit_of_small [of "x - 256" 8]
    by (intro bit_eqI) (auto simp: INDEXK_def RKASK_def bit_BITRK bit_or_iff bit_and_iff
        bit_not_iff)
  ultimately show ?thesis by simp
qed

lemma INDEXK_RKASK: "0 \<le> x \<Longrightarrow> x \<le> MAXINDEXRK \<Longrightarrow> ISK (RKASK x) \<and> INDEXK (RKASK x) = x"
  using RKASK_plus [of x] INDEXK_minus [of "x + 256"] ISK_range [of "x + 256"]
  by (simp add: MAXINDEXRK_def BITRK_val)

section \<open>The property table\<close>

named_theorems mode_table \<open>the entries of luaP_opmodes\<close>

lemmas mode_defs = getOpMode_def getBMode_def getCMode_def testAMode_def testTMode_def

lemma length_opmodes [simp]: "length luaP_opmodes = NUM_OPCODES"
  by (simp add: luaP_opmodes_def)

text \<open>The table, read through the accessor macros.\<close>

lemma getOpMode_table [mode_table]:
  "getOpMode 0 = iABC" "getOpMode (Suc 0) = iABx" "getOpMode 2 = iABC" "getOpMode 3 = iABC"
  "getOpMode 4 = iABC" "getOpMode 5 = iABx" "getOpMode 6 = iABC" "getOpMode 7 = iABx"
  "getOpMode 8 = iABC" "getOpMode 9 = iABC" "getOpMode 10 = iABC" "getOpMode 11 = iABC"
  "getOpMode 12 = iABC" "getOpMode 13 = iABC" "getOpMode 14 = iABC" "getOpMode 15 = iABC"
  "getOpMode 16 = iABC" "getOpMode 17 = iABC" "getOpMode 18 = iABC" "getOpMode 19 = iABC"
  "getOpMode 20 = iABC" "getOpMode 21 = iABC" "getOpMode 22 = iAsBx" "getOpMode 23 = iABC"
  "getOpMode 24 = iABC" "getOpMode 25 = iABC" "getOpMode 26 = iABC" "getOpMode 27 = iABC"
  "getOpMode 28 = iABC" "getOpMode 29 = iABC" "getOpMode 30 = iABC" "getOpMode 31 = iAsBx"
  "getOpMode 32 = iAsBx" "getOpMode 33 = iABC" "getOpMode 34 = iABC" "getOpMode 35 = iABC"
  "getOpMode 36 = iABx" "getOpMode 37 = iABC"
  by (simp_all add: getOpMode_def luaP_opmodes_def opmode_def argmask_of_def opmode_of_def)

lemma getBMode_table [mode_table]:
  "getBMode 0 = OpArgR" "getBMode (Suc 0) = OpArgK" "getBMode 2 = OpArgU" "getBMode 3 = OpArgR"
  "getBMode 4 = OpArgU" "getBMode 5 = OpArgK" "getBMode 6 = OpArgR" "getBMode 7 = OpArgK"
  "getBMode 8 = OpArgU" "getBMode 9 = OpArgK" "getBMode 10 = OpArgU" "getBMode 11 = OpArgR"
  "getBMode 12 = OpArgK" "getBMode 13 = OpArgK" "getBMode 14 = OpArgK" "getBMode 15 = OpArgK"
  "getBMode 16 = OpArgK" "getBMode 17 = OpArgK" "getBMode 18 = OpArgR" "getBMode 19 = OpArgR"
  "getBMode 20 = OpArgR" "getBMode 21 = OpArgR" "getBMode 22 = OpArgR" "getBMode 23 = OpArgK"
  "getBMode 24 = OpArgK" "getBMode 25 = OpArgK" "getBMode 26 = OpArgR" "getBMode 27 = OpArgR"
  "getBMode 28 = OpArgU" "getBMode 29 = OpArgU" "getBMode 30 = OpArgU" "getBMode 31 = OpArgR"
  "getBMode 32 = OpArgR" "getBMode 33 = OpArgN" "getBMode 34 = OpArgU" "getBMode 35 = OpArgN"
  "getBMode 36 = OpArgU" "getBMode 37 = OpArgU"
  by (simp_all add: getBMode_def luaP_opmodes_def opmode_def argmask_of_def opmode_of_def)

lemma getCMode_table [mode_table]:
  "getCMode 0 = OpArgN" "getCMode (Suc 0) = OpArgN" "getCMode 2 = OpArgU" "getCMode 3 = OpArgN"
  "getCMode 4 = OpArgN" "getCMode 5 = OpArgN" "getCMode 6 = OpArgK" "getCMode 7 = OpArgN"
  "getCMode 8 = OpArgN" "getCMode 9 = OpArgK" "getCMode 10 = OpArgU" "getCMode 11 = OpArgK"
  "getCMode 12 = OpArgK" "getCMode 13 = OpArgK" "getCMode 14 = OpArgK" "getCMode 15 = OpArgK"
  "getCMode 16 = OpArgK" "getCMode 17 = OpArgK" "getCMode 18 = OpArgN" "getCMode 19 = OpArgN"
  "getCMode 20 = OpArgN" "getCMode 21 = OpArgR" "getCMode 22 = OpArgN" "getCMode 23 = OpArgK"
  "getCMode 24 = OpArgK" "getCMode 25 = OpArgK" "getCMode 26 = OpArgU" "getCMode 27 = OpArgU"
  "getCMode 28 = OpArgU" "getCMode 29 = OpArgU" "getCMode 30 = OpArgN" "getCMode 31 = OpArgN"
  "getCMode 32 = OpArgN" "getCMode 33 = OpArgU" "getCMode 34 = OpArgU" "getCMode 35 = OpArgN"
  "getCMode 36 = OpArgN" "getCMode 37 = OpArgN"
  by (simp_all add: getCMode_def luaP_opmodes_def opmode_def argmask_of_def opmode_of_def)

lemma testTMode_table [mode_table]:
  "\<not> testTMode 0" "\<not> testTMode (Suc 0)" "\<not> testTMode 2" "\<not> testTMode 3"
  "\<not> testTMode 4" "\<not> testTMode 5" "\<not> testTMode 6" "\<not> testTMode 7"
  "\<not> testTMode 8" "\<not> testTMode 9" "\<not> testTMode 10" "\<not> testTMode 11"
  "\<not> testTMode 12" "\<not> testTMode 13" "\<not> testTMode 14" "\<not> testTMode 15"
  "\<not> testTMode 16" "\<not> testTMode 17" "\<not> testTMode 18" "\<not> testTMode 19"
  "\<not> testTMode 20" "\<not> testTMode 21" "\<not> testTMode 22" "testTMode 23" "testTMode 24"
  "testTMode 25" "testTMode 26" "testTMode 27" "\<not> testTMode 28" "\<not> testTMode 29"
  "\<not> testTMode 30" "\<not> testTMode 31" "\<not> testTMode 32" "testTMode 33"
  "\<not> testTMode 34" "\<not> testTMode 35" "\<not> testTMode 36" "\<not> testTMode 37"
  by (simp_all add: testTMode_def luaP_opmodes_def opmode_def argmask_of_def opmode_of_def)

lemma testAMode_table [mode_table]:
  "testAMode 0" "testAMode (Suc 0)" "testAMode 2" "testAMode 3" "testAMode 4" "testAMode 5"
  "testAMode 6" "\<not> testAMode 7" "\<not> testAMode 8" "\<not> testAMode 9" "testAMode 10"
  "testAMode 11" "testAMode 12" "testAMode 13" "testAMode 14" "testAMode 15" "testAMode 16"
  "testAMode 17" "testAMode 18" "testAMode 19" "testAMode 20" "testAMode 21"
  "\<not> testAMode 22" "\<not> testAMode 23" "\<not> testAMode 24" "\<not> testAMode 25"
  "testAMode 26" "testAMode 27" "testAMode 28" "testAMode 29" "\<not> testAMode 30"
  "testAMode 31" "testAMode 32" "\<not> testAMode 33" "\<not> testAMode 34" "\<not> testAMode 35"
  "testAMode 36" "testAMode 37"
  by (simp_all add: testAMode_def luaP_opmodes_def opmode_def argmask_of_def opmode_of_def)

end
