(* ===== verification/LNumber.thy ===== *)
theory LNumber
  imports Prelude
begin

text \<open>
  Lua numbers (\<open>src/lua/luaconf.h\<close>, the \<open>LUA_NUMBER\<close> and \<open>luai_num*\<close> section): C doubles in the
  IEEE 754 binary64 format, kept as their 64-bit patterns so that hashing and dumping see the bytes
  the code sees. A finite double is an integer multiple of \<open>2 ^ -1074\<close>; arithmetic is done exactly
  on those integers and rounded to nearest, ties to even. Conversions to integers are the ones the
  x86-64 target performs (truncation; the "indefinite" value out of range). The payload of a NaN
  produced by arithmetic is the target's default one.
\<close>

type_synonym lua_Number = u64

section \<open>Decoding\<close>

definition d_neg :: "lua_Number \<Rightarrow> bool" where
  "d_neg w \<longleftrightarrow> 2 ^ 63 \<le> unat w"

definition d_mag :: "lua_Number \<Rightarrow> nat" where
  "d_mag w = unat w mod 2 ^ 63"

definition d_exp :: "lua_Number \<Rightarrow> nat" where
  "d_exp w = d_mag w div 2 ^ 52"

definition d_frac :: "lua_Number \<Rightarrow> nat" where
  "d_frac w = d_mag w mod 2 ^ 52"

definition d_isnan :: "lua_Number \<Rightarrow> bool" where
  "d_isnan w \<longleftrightarrow> d_exp w = 2047 \<and> d_frac w \<noteq> 0"

definition d_isinf :: "lua_Number \<Rightarrow> bool" where
  "d_isinf w \<longleftrightarrow> d_exp w = 2047 \<and> d_frac w = 0"

text \<open>The magnitude in units of \<open>2 ^ -1074\<close>; an infinity gets a value above every finite one, so
  that comparisons need no special case for it.\<close>

definition mag_units :: "nat \<Rightarrow> nat" where
  "mag_units m = (let e = m div 2 ^ 52; f = m mod 2 ^ 52
                  in if e = 0 then f else (2 ^ 52 + f) * 2 ^ (e - 1))"

definition d_units :: "lua_Number \<Rightarrow> int" where
  "d_units w = (if d_neg w then - int (mag_units (d_mag w)) else int (mag_units (d_mag w)))"

definition one_units :: nat where
  "one_units = 2 ^ 1074"

section \<open>Encoding and rounding\<close>

definition d_make :: "bool \<Rightarrow> nat \<Rightarrow> lua_Number" where
  "d_make s m = of_nat (m + (if s then 2 ^ 63 else 0))"

definition inf_mag :: nat where
  "inf_mag = 2047 * 2 ^ 52"

definition d_nan :: lua_Number where
  "d_nan = d_make True (inf_mag + 2 ^ 51)"

fun bitlen :: "nat \<Rightarrow> nat" where
  "bitlen n = (if n = 0 then 0 else Suc (bitlen (n div 2)))"

declare bitlen.simps [simp del]

definition round_half_even :: "nat \<Rightarrow> nat \<Rightarrow> nat" where
  "round_half_even n d =
     (let q = n div d; r = n mod d
      in if 2 * r < d then q else if d < 2 * r then Suc q else if even q then q else Suc q)"

text \<open>The magnitude nearest to \<open>num / den\<close> units.\<close>

definition round_mag :: "nat \<Rightarrow> nat \<Rightarrow> nat" where
  "round_mag num den =
     (let e = bitlen (num div den) - 53
      in min inf_mag (e * 2 ^ 52 + round_half_even num (den * 2 ^ e)))"

definition d_round :: "int \<Rightarrow> nat \<Rightarrow> lua_Number" where
  "d_round num den = d_make (num < 0) (round_mag (nat \<bar>num\<bar>) den)"

section \<open>The operations of luaconf.h\<close>

definition luai_numadd :: "lua_Number \<Rightarrow> lua_Number \<Rightarrow> lua_Number" where
  "luai_numadd a b =
     (if d_isnan a \<or> d_isnan b \<or> d_isinf a \<and> d_isinf b \<and> d_neg a \<noteq> d_neg b then d_nan
      else if d_isinf a then a else if d_isinf b then b
      else let s = d_units a + d_units b
           in if s = 0 then d_make (d_neg a \<and> d_neg b) 0 else d_round s 1)"

definition luai_numunm :: "lua_Number \<Rightarrow> lua_Number" where
  "luai_numunm a = a XOR push_bit 63 1"

definition luai_numsub :: "lua_Number \<Rightarrow> lua_Number \<Rightarrow> lua_Number" where
  "luai_numsub a b = luai_numadd a (luai_numunm b)"

definition luai_nummul :: "lua_Number \<Rightarrow> lua_Number \<Rightarrow> lua_Number" where
  "luai_nummul a b =
     (let s = (d_neg a \<noteq> d_neg b) in
      if d_isnan a \<or> d_isnan b \<or> d_isinf a \<and> d_mag b = 0 \<or> d_isinf b \<and> d_mag a = 0 then d_nan
      else if d_isinf a \<or> d_isinf b then d_make s inf_mag
      else d_make s (round_mag (nat \<bar>d_units a * d_units b\<bar>) one_units))"

definition luai_numdiv :: "lua_Number \<Rightarrow> lua_Number \<Rightarrow> lua_Number" where
  "luai_numdiv a b =
     (let s = (d_neg a \<noteq> d_neg b) in
      if d_isnan a \<or> d_isnan b \<or> d_isinf a \<and> d_isinf b \<or> d_mag a = 0 \<and> d_mag b = 0 then d_nan
      else if d_isinf a \<or> d_mag b = 0 then d_make s inf_mag
      else if d_isinf b then d_make s 0
      else d_make s (round_mag (nat \<bar>d_units a\<bar> * one_units) (nat \<bar>d_units b\<bar>)))"

text \<open>C's \<open>floor\<close>.\<close>

definition d_floor :: "lua_Number \<Rightarrow> lua_Number" where
  "d_floor a =
     (if d_isnan a \<or> d_isinf a \<or> d_mag a = 0 then a
      else let n = d_units a div int one_units
           in d_make (d_neg a) (round_mag (nat \<bar>n\<bar> * one_units) 1))"

definition luai_nummod :: "lua_Number \<Rightarrow> lua_Number \<Rightarrow> lua_Number" where
  "luai_nummod a b = luai_numsub a (luai_nummul (d_floor (luai_numdiv a b)) b)"

definition luai_numeq :: "lua_Number \<Rightarrow> lua_Number \<Rightarrow> bool" where
  "luai_numeq a b \<longleftrightarrow> \<not> d_isnan a \<and> \<not> d_isnan b \<and> d_units a = d_units b"

definition luai_numlt :: "lua_Number \<Rightarrow> lua_Number \<Rightarrow> bool" where
  "luai_numlt a b \<longleftrightarrow> \<not> d_isnan a \<and> \<not> d_isnan b \<and> d_units a < d_units b"

definition luai_numle :: "lua_Number \<Rightarrow> lua_Number \<Rightarrow> bool" where
  "luai_numle a b \<longleftrightarrow> \<not> d_isnan a \<and> \<not> d_isnan b \<and> d_units a \<le> d_units b"

definition luai_numisnan :: "lua_Number \<Rightarrow> bool" where
  "luai_numisnan a \<longleftrightarrow> \<not> luai_numeq a a"

text \<open>\<open>cast_num\<close> of an integer, and the truncating casts. \<open>cvttsd2si\<close> yields the most negative
  integer for a NaN, an infinity or a value that does not fit.\<close>

definition cast_num :: "int \<Rightarrow> lua_Number" where
  "cast_num n = d_round (n * int one_units) 1"

definition d_trunc :: "lua_Number \<Rightarrow> int" where
  "d_trunc a = (if d_neg a then - int (mag_units (d_mag a) div one_units)
                else int (mag_units (d_mag a) div one_units))"

definition lua_number2int :: "lua_Number \<Rightarrow> int" where
  "lua_number2int d =
     (let i = d_trunc d
      in if d_isnan d \<or> d_isinf d \<or> i < - (2 ^ 31) \<or> 2 ^ 31 \<le> i then - (2 ^ 31) else i)"

definition lua_number2integer :: "lua_Number \<Rightarrow> int" where
  "lua_number2integer d =
     (let i = d_trunc d
      in if d_isnan d \<or> d_isinf d \<or> i < - (2 ^ 63) \<or> 2 ^ 63 \<le> i then - (2 ^ 63) else i)"

section \<open>Exactness on integers\<close>

lemma bitlen_0 [simp]: "bitlen 0 = 0"
  by (simp add: bitlen.simps)

lemma bitlen_bounds: "n \<noteq> 0 \<Longrightarrow> 2 ^ (bitlen n - 1) \<le> n \<and> n < 2 ^ bitlen n \<and> 0 < bitlen n"
proof (induction n rule: bitlen.induct)
  case (1 n)
  show ?case
  proof (cases "n div 2 = 0")
    case True
    with "1.prems" have "n = 1" by simp
    then show ?thesis by (simp add: bitlen.simps)
  next
    case False
    with "1.IH" "1.prems" have ih: "2 ^ (bitlen (n div 2) - 1) \<le> n div 2" "n div 2 < 2 ^ bitlen (n div 2)"
        "0 < bitlen (n div 2)"
      by auto
    have b: "bitlen n = Suc (bitlen (n div 2))"
      using "1.prems" by (simp add: bitlen.simps)
    have "2 * 2 ^ (bitlen (n div 2) - 1) = (2::nat) ^ bitlen (n div 2)"
      using ih(3) by (simp flip: power_Suc)
    with ih have "2 ^ bitlen (n div 2) \<le> n" by linarith
    moreover have "n < 2 * 2 ^ bitlen (n div 2)" using ih(2) by linarith
    ultimately show ?thesis by (simp add: b)
  qed
qed

lemma round_half_even_exact: "0 < d \<Longrightarrow> d dvd n \<Longrightarrow> round_half_even n d = n div d"
  by (auto simp: round_half_even_def Let_def)

lemma mag_units_encode:
  assumes "2 ^ 52 \<le> m \<or> e = 0" and "m < 2 ^ 53"
  shows "mag_units (e * 2 ^ 52 + m) = m * 2 ^ e"
proof (cases "m < 2 ^ 52")
  case True
  with assms have "e = 0" by simp
  with True show ?thesis by (simp add: mag_units_def)
next
  case False
  then obtain f where f: "m = 2 ^ 52 + f" using le_Suc_ex not_less by blast
  with assms have fl: "f < 2 ^ 52" by simp
  have "e * 2 ^ 52 + m = Suc e * 2 ^ 52 + f" by (simp add: f)
  then have "(e * 2 ^ 52 + m) div 2 ^ 52 = Suc e" "(e * 2 ^ 52 + m) mod 2 ^ 52 = f"
    using fl by (simp_all only: div_mult_self3 div_mult_self1 mod_mult_self3 mod_mult_self1) simp_all
  then show ?thesis by (simp add: mag_units_def f)
qed

lemma round_mag_exact:
  assumes "0 < num" and "num < 2 ^ 2098" and "2 ^ (bitlen num - 53) dvd num"
  shows "mag_units (round_mag num 1) = num" and "round_mag num 1 < inf_mag"
proof -
  define e where "e = bitlen num - 53"
  define m where "m = num div 2 ^ e"
  have num: "num = m * 2 ^ e" using assms(3) by (simp add: m_def e_def)
  have b: "2 ^ (bitlen num - 1) \<le> num" "num < 2 ^ bitlen num"
    using bitlen_bounds [of num] assms(1) by auto
  then have "(2::nat) ^ (bitlen num - 1) < 2 ^ 2098" using assms(2) by linarith
  then have "bitlen num - 1 < 2098" by (rule power_less_imp_less_exp [rotated]) simp
  then have e: "e \<le> 2045" by (simp add: e_def)
  have m53: "m < 2 ^ 53"
  proof -
    have "(2::nat) ^ bitlen num \<le> 2 ^ 53 * 2 ^ e"
      unfolding e_def power_add [symmetric] by (rule power_increasing) simp_all
    with b(2) have "m * 2 ^ e < 2 ^ 53 * 2 ^ e" using num by linarith
    then show ?thesis by simp
  qed
  have m52: "2 ^ 52 \<le> m \<or> e = 0"
  proof (cases "e = 0")
    case False
    then have "bitlen num - 1 = 52 + e" by (simp add: e_def)
    with b(1) have "2 ^ 52 * 2 ^ e \<le> m * 2 ^ e" using num by (simp add: power_add)
    then show ?thesis by simp
  qed simp
  have "e * 2 ^ 52 + m < 2047 * 2 ^ 52"
  proof -
    have "e * 2 ^ 52 \<le> 2045 * 2 ^ 52" using e by (rule mult_le_mono1)
    with m53 show ?thesis by simp
  qed
  then have r: "round_mag num 1 = e * 2 ^ 52 + m" and "e * 2 ^ 52 + m < inf_mag"
    using assms(3) by (simp_all add: round_mag_def Let_def round_half_even_exact inf_mag_def e_def m_def)
  then show "round_mag num 1 < inf_mag" by simp
  show "mag_units (round_mag num 1) = num"
    using mag_units_encode [OF m52 m53] by (simp only: r num [symmetric])
qed

lemma d_make_decode:
  assumes "m < 2 ^ 63"
  shows "d_neg (d_make s m) = s" and "d_mag (d_make s m) = m"
proof -
  have "unat (d_make s m) = m + (if s then 2 ^ 63 else 0)"
    using assms unfolding d_make_def unat_of_nat by (cases s) simp_all
  with assms show "d_neg (d_make s m) = s" "d_mag (d_make s m) = m"
    by (simp_all add: d_neg_def d_mag_def)
qed

lemma finite_mag:
  assumes "d_mag w < inf_mag"
  shows "\<not> d_isnan w" and "\<not> d_isinf w"
  using assms by (auto simp: d_isnan_def d_isinf_def d_exp_def inf_mag_def)

lemma bitlen_le: "n < 2 ^ k \<Longrightarrow> bitlen n \<le> k"
proof (rule ccontr)
  assume a: "n < 2 ^ k" "\<not> bitlen n \<le> k"
  then have "n \<noteq> 0" by (cases "n = 0") auto
  then have "2 ^ (bitlen n - 1) \<le> n" using bitlen_bounds by blast
  moreover have "(2::nat) ^ k \<le> 2 ^ (bitlen n - 1)" using a(2) by (intro power_increasing) auto
  ultimately show False using a(1) by linarith
qed

lemma one_units_pos [simp]: "0 < one_units" "one_units \<noteq> 0"
  by (simp_all add: one_units_def)

lemma int_mag_exact:
  assumes "0 < k" and "k < 2 ^ 53"
  shows "mag_units (round_mag (k * one_units) 1) = k * one_units"
    and "round_mag (k * one_units) 1 < inf_mag"
proof -
  have "k * one_units < 2 ^ 53 * one_units" using assms(2) by simp
  then have lt: "k * one_units < 2 ^ 1127"
    unfolding one_units_def power_add [symmetric] by simp
  then have "bitlen (k * one_units) - 53 \<le> 1074"
    using bitlen_le [OF lt] by simp
  then have dvd: "2 ^ (bitlen (k * one_units) - 53) dvd k * one_units"
    unfolding one_units_def by (meson dvd_mult le_imp_power_dvd)
  have "(2::nat) ^ 1127 \<le> 2 ^ 2098" by (rule power_increasing) simp_all
  with lt have "k * one_units < 2 ^ 2098" by linarith
  from round_mag_exact [OF _ this dvd] assms(1)
  show "mag_units (round_mag (k * one_units) 1) = k * one_units"
    and "round_mag (k * one_units) 1 < inf_mag" by simp_all
qed

lemma round_mag_0 [simp]: "round_mag 0 d = 0"
  by (simp add: round_mag_def round_half_even_def inf_mag_def)

text \<open>Integers below \<open>2 ^ 53\<close> are represented exactly.\<close>

lemma cast_num_exact:
  assumes "\<bar>n\<bar> < 2 ^ 53"
  shows "d_units (cast_num n) = n * int one_units"
    and "\<not> d_isnan (cast_num n)" and "\<not> d_isinf (cast_num n)"
    and "d_trunc (cast_num n) = n"
proof -
  define k where "k = nat \<bar>n\<bar>"
  have k: "k < 2 ^ 53" using assms by (simp add: k_def)
  define m where "m = round_mag (k * one_units) 1"
  have neg: "n * int one_units < 0 \<longleftrightarrow> n < 0"
    by (simp add: mult_less_0_iff)
  have "nat \<bar>n * int one_units\<bar> = k * one_units"
    by (simp add: k_def abs_mult nat_mult_distrib)
  then have cn: "cast_num n = d_make (n < 0) m"
    by (simp only: cast_num_def d_round_def m_def neg)
  have m: "mag_units m = k * one_units \<and> m < inf_mag"
  proof (cases "k = 0")
    case True
    then show ?thesis by (simp add: m_def mag_units_def inf_mag_def)
  next
    case False
    then show ?thesis using int_mag_exact [OF _ k] by (simp add: m_def)
  qed
  then have m63: "m < 2 ^ 63" by (simp add: inf_mag_def)
  note dec = d_make_decode [OF m63, of "n < 0"]
  show "\<not> d_isnan (cast_num n)" "\<not> d_isinf (cast_num n)"
    using finite_mag [of "cast_num n"] m dec by (simp_all add: cn)
  show "d_units (cast_num n) = n * int one_units"
    using dec m by (cases "n < 0") (simp_all add: cn d_units_def k_def)
  show "d_trunc (cast_num n) = n"
    using dec m by (cases "n < 0") (simp_all add: cn d_trunc_def k_def)
qed

lemma number2int_cast: "- (2 ^ 31) \<le> n \<Longrightarrow> n < 2 ^ 31 \<Longrightarrow> lua_number2int (cast_num n) = n"
  using cast_num_exact [of n] by (simp add: lua_number2int_def Let_def)

lemma number2integer_cast: "\<bar>n\<bar> < 2 ^ 53 \<Longrightarrow> lua_number2integer (cast_num n) = n"
  using cast_num_exact [of n] by (simp add: lua_number2integer_def Let_def abs_less_iff)

lemma numeq_cast_iff:
  "\<bar>m\<bar> < 2 ^ 53 \<Longrightarrow> \<bar>n\<bar> < 2 ^ 53 \<Longrightarrow> luai_numeq (cast_num m) (cast_num n) \<longleftrightarrow> m = n"
  by (simp add: luai_numeq_def cast_num_exact)

lemma numeq_sym: "luai_numeq a b \<longleftrightarrow> luai_numeq b a"
  by (auto simp: luai_numeq_def)

lemma numeq_trans: "luai_numeq a b \<Longrightarrow> luai_numeq b c \<Longrightarrow> luai_numeq a c"
  by (simp add: luai_numeq_def)

lemma numisnan_iff: "luai_numisnan a \<longleftrightarrow> d_isnan a"
  by (simp add: luai_numisnan_def luai_numeq_def)

text \<open>Equal numbers truncate alike, so equality respects the integer casts.\<close>

lemma units_nonneg: "d_units a = d_units b \<Longrightarrow> d_trunc a = d_trunc b"
proof -
  have z: "int x = - int y \<Longrightarrow> x = 0 \<and> y = 0" "- int x = int y \<Longrightarrow> x = 0 \<and> y = 0" for x y
    by simp_all
  assume "d_units a = d_units b"
  then show ?thesis
    by (auto simp: d_units_def d_trunc_def split: if_splits dest!: z)
qed

end
