(* ===== verification/LObject.thy ===== *)
theory LObject
  imports Opcodes LNumber
begin

text \<open>
  Lua values and prototypes (\<open>src/lua/lobject.h\<close>) and the generic operations on them
  (\<open>src/lua/lobject.c\<close>): floating-point bytes, integer logarithm, raw equality and chunk names.
  Strings are interned, so a string value is identified with its contents; the other collectable
  values are identified by their address.
\<close>

section \<open>Values\<close>

abbreviation (input) LUA_TNIL :: int where "LUA_TNIL \<equiv> 0"
abbreviation (input) LUA_TBOOLEAN :: int where "LUA_TBOOLEAN \<equiv> 1"
abbreviation (input) LUA_TLIGHTUSERDATA :: int where "LUA_TLIGHTUSERDATA \<equiv> 2"
abbreviation (input) LUA_TNUMBER :: int where "LUA_TNUMBER \<equiv> 3"
abbreviation (input) LUA_TSTRING :: int where "LUA_TSTRING \<equiv> 4"
abbreviation (input) LUA_TTABLE :: int where "LUA_TTABLE \<equiv> 5"
abbreviation (input) LUA_TFUNCTION :: int where "LUA_TFUNCTION \<equiv> 6"
abbreviation (input) LUA_TUSERDATA :: int where "LUA_TUSERDATA \<equiv> 7"
abbreviation (input) LUA_TTHREAD :: int where "LUA_TTHREAD \<equiv> 8"
abbreviation (input) LUA_TDEADKEY :: int where "LUA_TDEADKEY \<equiv> 11"

type_synonym addr = u64

text \<open>\<open>VNullString\<close> is a string-tagged value with a NULL pointer (only a corrupt binary chunk makes
  one); \<open>VDeadKey\<close> is a table key whose object was collected.\<close>

datatype TValue =
    VNil
  | VBoolean bool
  | VLightUserdata addr
  | VNumber lua_Number
  | VString string
  | VNullString
  | VTable addr
  | VFunction addr
  | VUserdata addr
  | VThread addr
  | VDeadKey addr

fun ttype :: "TValue \<Rightarrow> int" where
  "ttype VNil = LUA_TNIL"
| "ttype (VBoolean _) = LUA_TBOOLEAN"
| "ttype (VLightUserdata _) = LUA_TLIGHTUSERDATA"
| "ttype (VNumber _) = LUA_TNUMBER"
| "ttype (VString _) = LUA_TSTRING"
| "ttype VNullString = LUA_TSTRING"
| "ttype (VTable _) = LUA_TTABLE"
| "ttype (VFunction _) = LUA_TFUNCTION"
| "ttype (VUserdata _) = LUA_TUSERDATA"
| "ttype (VThread _) = LUA_TTHREAD"
| "ttype (VDeadKey _) = LUA_TDEADKEY"

definition ttisnil :: "TValue \<Rightarrow> bool" where
  "ttisnil v \<longleftrightarrow> ttype v = LUA_TNIL"

definition ttisstring :: "TValue \<Rightarrow> bool" where
  "ttisstring v \<longleftrightarrow> ttype v = LUA_TSTRING"

definition ttisnumber :: "TValue \<Rightarrow> bool" where
  "ttisnumber v \<longleftrightarrow> ttype v = LUA_TNUMBER"

definition l_isfalse :: "TValue \<Rightarrow> bool" where
  "l_isfalse v \<longleftrightarrow> ttisnil v \<or> v = VBoolean False"

definition iscollectable :: "TValue \<Rightarrow> bool" where
  "iscollectable v \<longleftrightarrow> LUA_TSTRING \<le> ttype v"

lemma ttisnil_iff [simp]: "ttisnil v \<longleftrightarrow> v = VNil"
  by (cases v) (simp_all add: ttisnil_def)

lemma l_isfalse_simps [simp]:
  "l_isfalse VNil" "l_isfalse (VBoolean b) \<longleftrightarrow> \<not> b" "\<not> l_isfalse (VNumber n)" "\<not> l_isfalse (VString s)"
  by (auto simp: l_isfalse_def)

section \<open>Prototypes\<close>

record LocVar =
  varname :: "string option"
  startpc :: int
  endpc :: int

text \<open>\<open>struct Proto\<close>; each vector carries its own length, which the code keeps in a \<open>size...\<close>
  field beside it.\<close>

datatype Proto = Proto
  (proto_k: "TValue list")
  (proto_code: "Instruction list")
  (proto_p: "Proto list")
  (proto_lineinfo: "int list")
  (proto_locvars: "LocVar list")
  (proto_upvalues: "string option list")
  (proto_source: "string option")
  (linedefined: int)
  (lastlinedefined: int)
  (nups: byte)
  (numparams: byte)
  (is_vararg: byte)
  (maxstacksize: byte)

abbreviation (input) VARARG_HASARG :: byte where "VARARG_HASARG \<equiv> 1"
abbreviation (input) VARARG_ISVARARG :: byte where "VARARG_ISVARARG \<equiv> 2"
abbreviation (input) VARARG_NEEDSARG :: byte where "VARARG_NEEDSARG \<equiv> 4"

section \<open>Errors\<close>

text \<open>The status codes of \<open>src/lua/lua.h\<close> with the message left on the stack.\<close>

datatype lua_error = LUA_ERRRUN string | LUA_ERRSYNTAX string | LUA_ERRMEM | LUA_ERRERR

text \<open>The outcome of stateful C code: undefined behaviour, a raised Lua error, or a result.\<close>

datatype 'a res = RUndef | RErr lua_error | ROk 'a

definition rbind :: "'a res \<Rightarrow> ('a \<Rightarrow> 'b res) \<Rightarrow> 'b res" where
  "rbind m k = (case m of RUndef \<Rightarrow> RUndef | RErr e \<Rightarrow> RErr e | ROk x \<Rightarrow> k x)"

lemma rbind_simps [simp]: "rbind (ROk x) k = k x" "rbind (RErr e) k = RErr e" "rbind RUndef k = RUndef"
  by (simp_all add: rbind_def)

definition defined :: "'a option \<Rightarrow> 'a res" where
  "defined r = (case r of None \<Rightarrow> RUndef | Some x \<Rightarrow> ROk x)"

lemma defined_simps [simp]: "defined (Some x) = ROk x" "defined None = RUndef"
  by (simp_all add: defined_def)

text \<open>Reading and writing an array; an index outside it is undefined.\<close>

definition arr_get :: "'a list \<Rightarrow> int \<Rightarrow> 'a res" where
  "arr_get xs i = (if 0 \<le> i \<and> i < int (length xs) then ROk (xs ! nat i) else RUndef)"

definition arr_set :: "'a list \<Rightarrow> int \<Rightarrow> 'a \<Rightarrow> 'a list res" where
  "arr_set xs i v = (if 0 \<le> i \<and> i < int (length xs) then ROk (xs[nat i := v]) else RUndef)"

lemma arr_in [simp]:
  assumes "0 \<le> i" "i < int (length xs)"
  shows "arr_get xs i = ROk (xs ! nat i)" "arr_set xs i v = ROk (xs[nat i := v])"
  using assms by (simp_all add: arr_get_def arr_set_def)

lemma arr_out [simp]:
  assumes "i < 0 \<or> int (length xs) \<le> i"
  shows "arr_get xs i = RUndef" "arr_set xs i v = RUndef"
  using assms by (auto simp: arr_get_def arr_set_def)

section \<open>Floating-point bytes and logarithms\<close>







text \<open>The table of \<open>luaO_log2\<close>: entry \<open>x\<close> is the number of significant bits of \<open>x\<close>.\<close>

definition log_2 :: "nat list" where
  "log_2 = [0, 1, 2, 2] @ replicate 4 3 @ replicate 8 4 @ replicate 16 5 @ replicate 32 6
     @ replicate 64 7 @ replicate 128 8"

lemma drop_bit_8_unat: "unat (drop_bit 8 (w :: u32)) = unat w div 256"
  unfolding unat_drop_bit_eq by (simp add: drop_bit_eq_div)

function log2_loop :: "u32 \<Rightarrow> int \<Rightarrow> int" where
  "log2_loop x l = (if 256 \<le> x then log2_loop (drop_bit 8 x) (l + 8) else l + int (log_2 ! unat x))"
  by pat_completeness auto

termination
  by (relation "measure (\<lambda>(x, l). unat x)")
    (auto simp: drop_bit_8_unat word_le_nat_alt)

declare log2_loop.simps [simp del]

definition luaO_log2 :: "u32 \<Rightarrow> int" where
  "luaO_log2 x = log2_loop x (-1)"

definition ceillog2 :: "u32 \<Rightarrow> int" where
  "ceillog2 x = luaO_log2 (x - 1) + 1"

section \<open>Raw equality\<close>

definition luaO_rawequalObj :: "TValue \<Rightarrow> TValue \<Rightarrow> bool" where
  "luaO_rawequalObj t1 t2 =
     (if ttype t1 \<noteq> ttype t2 then False
      else case (t1, t2) of
        (VNil, VNil) \<Rightarrow> True
      | (VNumber a, VNumber b) \<Rightarrow> luai_numeq a b
      | (VBoolean a, VBoolean b) \<Rightarrow> a = b
      | (VLightUserdata a, VLightUserdata b) \<Rightarrow> a = b
      | _ \<Rightarrow> t1 = t2)"

section \<open>Chunk names\<close>





section \<open>Facts\<close>








lemma log_2_table: "x < 256 \<Longrightarrow> x \<noteq> 0 \<Longrightarrow> 2 ^ (log_2 ! x - 1) \<le> x \<and> x < 2 ^ (log_2 ! x) \<and> 0 < log_2 ! x"
proof -
  have "list_all (\<lambda>x. 2 ^ (log_2 ! x - 1) \<le> x \<and> x < 2 ^ (log_2 ! x) \<and> 0 < log_2 ! x) [1..<256]"
    by code_simp
  then show "x < 256 \<Longrightarrow> x \<noteq> 0 \<Longrightarrow> 2 ^ (log_2 ! x - 1) \<le> x \<and> x < 2 ^ (log_2 ! x) \<and> 0 < log_2 ! x"
    by (simp add: list_all_iff)
qed

lemma log2_loop_spec:
  "x \<noteq> 0 \<Longrightarrow> \<exists>k. log2_loop x l = l + int k \<and> 0 < k \<and> 2 ^ (k - 1) \<le> unat x \<and> unat x < 2 ^ k"
proof (induction x l rule: log2_loop.induct)
  case (1 x l)
  show ?case
  proof (cases "256 \<le> x")
    case False
    then have "unat x < 256" "unat x \<noteq> 0"
      using "1.prems" by (simp_all add: word_le_nat_alt unat_eq_0)
    with False show ?thesis
      using log_2_table [of "unat x"]
      by (intro exI [of _ "log_2 ! unat x"]) (simp add: log2_loop.simps [of x l])
  next
    case True
    let ?x = "drop_bit 8 x"
    have x: "256 \<le> unat x" using True by (simp add: word_le_nat_alt)
    have hx: "unat ?x = unat x div 256" by (rule drop_bit_8_unat)
    with x have "unat ?x \<noteq> 0" by (simp add: div_eq_0_iff)
    then have "?x \<noteq> 0" by (metis unat_0)
    with "1.IH" [OF True] obtain k where k: "log2_loop ?x (l + 8) = l + 8 + int k" "0 < k"
        "2 ^ (k - 1) \<le> unat ?x" "unat ?x < 2 ^ k" by blast
    have "2 ^ (k + 8 - 1) = 256 * (2::nat) ^ (k - 1)"
      using k(2) by (cases k) (simp_all add: power_add)
    moreover have "2 ^ (k + 8) = 256 * (2::nat) ^ k" by (simp add: power_add)
    ultimately have "2 ^ (k + 8 - 1) \<le> unat x" "unat x < 2 ^ (k + 8)"
      using k(3,4) hx by linarith+
    with k True show ?thesis
      by (intro exI [of _ "k + 8"]) (simp add: log2_loop.simps [of x l])
  qed
qed

lemma luaO_log2_0: "luaO_log2 0 = -1"
  by (simp add: luaO_log2_def log2_loop.simps log_2_def)

lemma luaO_log2_bounds:
  assumes "x \<noteq> 0"
  shows "0 \<le> luaO_log2 x \<and> 2 ^ nat (luaO_log2 x) \<le> unat x \<and> unat x < 2 ^ nat (luaO_log2 x + 1)"
proof -
  obtain k where "log2_loop x (-1) = -1 + int k" "0 < k" "2 ^ (k - 1) \<le> unat x" "unat x < 2 ^ k"
    using log2_loop_spec [OF assms] by blast
  then show ?thesis by (simp add: luaO_log2_def nat_diff_distrib)
qed

text \<open>
  C35: the integer logarithm is exact: for every nonzero 32-bit value it is the position of the
  highest set bit, and it is -1 for zero.
\<close>

theorem luaO_log2_exact:
  "luaO_log2 x = (if x = 0 then -1 else int (bitlen (unat x)) - 1)"
proof (cases "x = 0")
  case True
  then show ?thesis by (simp add: luaO_log2_0)
next
  case False
  define l where "l = nat (luaO_log2 x)"
  have l: "2 ^ l \<le> unat x" "unat x < 2 ^ Suc l" "luaO_log2 x = int l"
    using luaO_log2_bounds [OF False] by (auto simp: l_def nat_add_distrib)
  have "bitlen (unat x) \<le> Suc l" by (rule bitlen_le [OF l(2)])
  moreover have "unat x \<noteq> 0" using False by (simp add: unat_eq_0)
  then have "unat x < 2 ^ bitlen (unat x)" using bitlen_bounds by blast
  with l(1) have "(2::nat) ^ l < 2 ^ bitlen (unat x)" by linarith
  then have "l < bitlen (unat x)" by simp
  ultimately show ?thesis using False l(3) by simp
qed



end
