(* ===== verification/LDebug.thy ===== *)
theory LDebug
  imports LObject
begin

text \<open>
  The bytecode checker of \<open>src/lua/ldebug.c\<close>: \<open>precheck\<close>, \<open>symbexec\<close> and \<open>luaG_checkcode\<close>, which
  guard the virtual machine against malformed binary chunks. Reads of the code, constant and
  prototype vectors go through bounds-checked accessors, so an out-of-range read of the C code is
  the outcome \<open>Undef\<close>; a failed check is \<open>Failed\<close>.
\<close>

section \<open>Outcomes\<close>

datatype 'a chk = Undef | Failed | Pass 'a

definition check :: "bool \<Rightarrow> 'a chk \<Rightarrow> 'a chk" where
  "check x k = (if x then k else Failed)"

definition vec_at :: "'b list \<Rightarrow> int \<Rightarrow> ('b \<Rightarrow> 'a chk) \<Rightarrow> 'a chk" where
  "vec_at xs i k = (if 0 \<le> i \<and> i < int (length xs) then k (xs ! nat i) else Undef)"

abbreviation (input) MAXSTACK :: int where "MAXSTACK \<equiv> 250"
abbreviation (input) LUA_MULTRET :: int where "LUA_MULTRET \<equiv> -1"

abbreviation (input) sizecode :: "Proto \<Rightarrow> int" where
  "sizecode pt \<equiv> int (length (proto_code pt))"

abbreviation (input) sizek :: "Proto \<Rightarrow> int" where
  "sizek pt \<equiv> int (length (proto_k pt))"

abbreviation (input) maxstack :: "Proto \<Rightarrow> int" where
  "maxstack pt \<equiv> uint (maxstacksize pt)"

abbreviation (input) is_op :: "Instruction \<Rightarrow> OpCode \<Rightarrow> bool" where
  "is_op i x \<equiv> GET_OPCODE i = opcode_num x"

section \<open>The checker\<close>

definition precheck :: "Proto \<Rightarrow> bool" where
  "precheck pt \<longleftrightarrow>
     maxstack pt \<le> MAXSTACK
   \<and> uint (numparams pt) + uint (is_vararg pt AND VARARG_HASARG) \<le> maxstack pt
   \<and> (is_vararg pt AND VARARG_NEEDSARG = 0 \<or> is_vararg pt AND VARARG_HASARG \<noteq> 0)
   \<and> int (length (proto_upvalues pt)) \<le> uint (nups pt)
   \<and> (length (proto_lineinfo pt) = length (proto_code pt) \<or> length (proto_lineinfo pt) = 0)
   \<and> 0 < length (proto_code pt) \<and> is_op (last (proto_code pt)) OP_RETURN"

definition luaG_checkopenop :: "Instruction \<Rightarrow> bool" where
  "luaG_checkopenop i \<longleftrightarrow>
     (if is_op i OP_CALL \<or> is_op i OP_TAILCALL \<or> is_op i OP_RETURN \<or> is_op i OP_SETLIST
      then GETARG_B i = 0 else False)"

definition checkopenop :: "Proto \<Rightarrow> int \<Rightarrow> 'a chk \<Rightarrow> 'a chk" where
  "checkopenop pt pc k = vec_at (proto_code pt) (pc + 1) (\<lambda>i. check (luaG_checkopenop i) k)"

definition checkArgMode :: "Proto \<Rightarrow> int \<Rightarrow> OpArgMask \<Rightarrow> bool" where
  "checkArgMode pt r mode =
     (case mode of
        OpArgN \<Rightarrow> r = 0
      | OpArgU \<Rightarrow> True
      | OpArgR \<Rightarrow> r < maxstack pt
      | OpArgK \<Rightarrow> (if ISK r then INDEXK r < sizek pt else r < maxstack pt))"

definition checkreg :: "Proto \<Rightarrow> int \<Rightarrow> 'a chk \<Rightarrow> 'a chk" where
  "checkreg pt reg k = check (reg < maxstack pt) k"

text \<open>A word that looks like a \<open>SETLIST\<close> whose count is in the next word, and the loop that counts in
  \<open>j\<close> how many such words stand in a row right before \<open>dest\<close>, handing the count to \<open>k\<close>; it reads the
  code at \<open>dest - 1 - j\<close>.\<close>

definition is_setlist0 :: "Instruction \<Rightarrow> bool" where
  "is_setlist0 d \<longleftrightarrow> is_op d OP_SETLIST \<and> GETARG_C d = 0"

primrec setlist_scan :: "Instruction list \<Rightarrow> nat \<Rightarrow> nat \<Rightarrow> (nat \<Rightarrow> 'a chk) \<Rightarrow> 'a chk" where
  "setlist_scan code 0 j k = k j"
| "setlist_scan code (Suc d) j k =
     vec_at code (int d) (\<lambda>i. if is_setlist0 i then setlist_scan code d (Suc j) k else k j)"

text \<open>Lines 330-365: operand decoding and the checks by operand mode.\<close>

definition symb_args :: "Proto \<Rightarrow> int \<Rightarrow> Instruction \<Rightarrow> (int \<Rightarrow> int \<Rightarrow> 'a chk) \<Rightarrow> 'a chk" where
  "symb_args pt pc i k =
     (let opc = GET_OPCODE i in
      case getOpMode opc of
        iABC \<Rightarrow>
          check (checkArgMode pt (GETARG_B i) (getBMode opc))
            (check (checkArgMode pt (GETARG_C i) (getCMode opc)) (k (GETARG_B i) (GETARG_C i)))
      | iABx \<Rightarrow>
          (let b = GETARG_Bx i in
           if getBMode opc = OpArgK then check (b < sizek pt) (k b 0) else k b 0)
      | iAsBx \<Rightarrow>
          (let b = GETARG_sBx i; dest = pc + 1 + b in
           if getBMode opc = OpArgR then
             check (0 \<le> dest \<and> dest < sizecode pt)
               (if 0 < dest then setlist_scan (proto_code pt) (nat dest) 0 (\<lambda>j. check (even j) (k b 0))
                else k b 0)
           else k b 0))"

text \<open>The upvalue pseudo-instructions after a \<open>CLOSURE\<close>.\<close>

definition upval_pseudo :: "Instruction \<Rightarrow> bool" where
  "upval_pseudo i \<longleftrightarrow> is_op i OP_GETUPVAL \<or> is_op i OP_MOVE"

fun closure_args :: "Proto \<Rightarrow> int \<Rightarrow> nat \<Rightarrow> 'a chk \<Rightarrow> 'a chk" where
  "closure_args pt pc 0 k = k"
| "closure_args pt pc (Suc n) k =
     vec_at (proto_code pt) (pc + 1)
       (\<lambda>i. check (upval_pseudo i) (closure_args pt (pc + 1) n k))"

text \<open>Lines 373-472: the checks by opcode. The result is the program counter after the switch and
  the last instruction that changed \<open>reg\<close>.\<close>

definition symb_jump :: "int \<Rightarrow> int \<Rightarrow> int \<Rightarrow> int \<Rightarrow> int \<Rightarrow> (int \<times> int) chk" where
  "symb_jump lastpc reg pc l b =
     (let dest = pc + 1 + b in
      if reg \<noteq> NO_REG \<and> pc < dest \<and> dest \<le> lastpc then Pass (pc + b, l) else Pass (pc, l))"

definition symb_op ::
  "Proto \<Rightarrow> int \<Rightarrow> int \<Rightarrow> int \<Rightarrow> int \<Rightarrow> nat \<Rightarrow> int \<Rightarrow> int \<Rightarrow> int \<Rightarrow> (int \<times> int) chk" where
  "symb_op pt lastpc reg pc l opc a b c =
     (let setl = (\<lambda>cond. if cond then Pass (pc, pc) else Pass (pc, l)) in
      if opc = opcode_num OP_LOADBOOL then
        (if c = 1 then
           check (pc + 2 < sizecode pt)
             (vec_at (proto_code pt) (pc + 1) (\<lambda>i. check (\<not> is_setlist0 i) (Pass (pc, l))))
         else Pass (pc, l))
      else if opc = opcode_num OP_LOADNIL then setl (a \<le> reg \<and> reg \<le> b)
      else if opc = opcode_num OP_GETUPVAL \<or> opc = opcode_num OP_SETUPVAL then
        check (b < uint (nups pt)) (Pass (pc, l))
      else if opc = opcode_num OP_GETGLOBAL \<or> opc = opcode_num OP_SETGLOBAL then
        vec_at (proto_k pt) b (\<lambda>v. check (ttisstring v) (Pass (pc, l)))
      else if opc = opcode_num OP_SELF then checkreg pt (a + 1) (setl (reg = a + 1))
      else if opc = opcode_num OP_CONCAT then check (b < c) (Pass (pc, l))
      else if opc = opcode_num OP_TFORLOOP then
        check (1 \<le> c) (checkreg pt (a + 2 + c) (setl (a + 2 \<le> reg)))
      else if opc = opcode_num OP_FORLOOP \<or> opc = opcode_num OP_FORPREP then
        checkreg pt (a + 3) (symb_jump lastpc reg pc l b)
      else if opc = opcode_num OP_JMP then symb_jump lastpc reg pc l b
      else if opc = opcode_num OP_CALL \<or> opc = opcode_num OP_TAILCALL then
        (let nres = c - 1;
             results = (if nres = LUA_MULTRET then checkopenop pt pc (setl (a \<le> reg))
                        else if nres \<noteq> 0 then checkreg pt (a + nres - 1) (setl (a \<le> reg))
                        else setl (a \<le> reg))
         in if b \<noteq> 0 then checkreg pt (a + b - 1) results else results)
      else if opc = opcode_num OP_RETURN then
        (if 0 < b - 1 then checkreg pt (a + (b - 1) - 1) (Pass (pc, l)) else Pass (pc, l))
      else if opc = opcode_num OP_SETLIST then
        (let count = (if c = 0 then check (pc + 1 < sizecode pt - 1) (Pass (pc + 1, l))
                      else Pass (pc, l))
         in if 0 < b then checkreg pt (a + b) count else count)
      else if opc = opcode_num OP_CLOSURE then
        check (b < int (length (proto_p pt)))
          (vec_at (proto_p pt) b (\<lambda>f.
             let nup = uint (nups f) in
             check (pc + nup < sizecode pt)
               (closure_args pt pc (nat nup)
                 (if reg \<noteq> NO_REG then Pass (pc + nup, l) else Pass (pc, l)))))
      else if opc = opcode_num OP_VARARG then
        check (is_vararg pt AND VARARG_ISVARARG \<noteq> 0 \<and> is_vararg pt AND VARARG_NEEDSARG = 0)
          (let n = b - 1; regs = checkreg pt (a + n - 1) (Pass (pc, l))
           in if n = LUA_MULTRET then checkopenop pt pc regs else regs)
      else Pass (pc, l))"

definition symb_step :: "Proto \<Rightarrow> int \<Rightarrow> int \<Rightarrow> int \<Rightarrow> int \<Rightarrow> (int \<times> int) chk" where
  "symb_step pt lastpc reg pc l =
     vec_at (proto_code pt) pc (\<lambda>i.
       let opc = GET_OPCODE i; a = GETARG_A i in
       check (opc < NUM_OPCODES) (checkreg pt a (symb_args pt pc i (\<lambda>b c.
         let l1 = (if testAMode opc \<and> a = reg then pc else l);
             rest = symb_op pt lastpc reg pc l1 opc a b c
         in if testTMode opc then
              check (pc + 2 < sizecode pt)
                (vec_at (proto_code pt) (pc + 1) (\<lambda>j. check (is_op j OP_JMP) rest))
            else rest))))"

text \<open>Elimination of the accessors in a passed check.\<close>

named_theorems chk_pass \<open>when a check passes\<close>

lemma check_Pass [chk_pass]: "check x k = Pass y \<longleftrightarrow> x \<and> k = Pass y"
  by (simp add: check_def)

lemma vec_at_Pass [chk_pass]:
  "vec_at xs i k = Pass y \<longleftrightarrow> 0 \<le> i \<and> i < int (length xs) \<and> k (xs ! nat i) = Pass y"
  by (auto simp: vec_at_def)

lemma checkreg_Pass [chk_pass]: "checkreg pt r k = Pass y \<longleftrightarrow> r < maxstack pt \<and> k = Pass y"
  by (simp add: checkreg_def chk_pass)

lemma checkopenop_Pass [chk_pass]:
  "checkopenop pt pc k = Pass y \<longleftrightarrow>
     0 \<le> pc + 1 \<and> pc + 1 < sizecode pt \<and> luaG_checkopenop (proto_code pt ! nat (pc + 1)) \<and> k = Pass y"
  by (auto simp: checkopenop_def chk_pass)

lemma closure_args_Pass [chk_pass]:
  "0 \<le> pc \<Longrightarrow> closure_args pt pc n k = Pass y \<longleftrightarrow>
     (\<forall>j < n. pc + 1 + int j < sizecode pt \<and> upval_pseudo (proto_code pt ! nat (pc + 1 + int j)))
     \<and> k = Pass y"
proof (induction n arbitrary: pc)
  case 0
  then show ?case by simp
next
  case (Suc n)
  then show ?case
    by (auto simp: All_less_Suc2 chk_pass add.commute add.left_commute)
qed

lemma setlist_scan_Pass: "setlist_scan code d j k = Pass y \<Longrightarrow> \<exists>j. k j = Pass y"
  by (induction d arbitrary: j) (auto simp: chk_pass split: if_splits)

lemma symb_args_Pass:
  "symb_args pt pc i k = Pass y \<Longrightarrow> \<exists>b c. k b c = Pass y"
  by (auto simp: symb_args_def Let_def chk_pass split: OpMode.splits if_splits dest!: setlist_scan_Pass)
    blast

text \<open>No step moves the program counter back, so the loop ends.\<close>

lemma closure_args_PassD: "closure_args pt pc n k = Pass y \<Longrightarrow> k = Pass y"
  by (induction n arbitrary: pc) (auto simp: chk_pass)

lemma symb_op_mono: "symb_op pt lastpc reg pc l opc a b c = Pass (pc', l') \<Longrightarrow> pc \<le> pc'"
  unfolding symb_op_def symb_jump_def Let_def
  by (auto simp: chk_pass split: if_splits dest!: closure_args_PassD)

lemma symb_step_mono: "symb_step pt lastpc reg pc l = Pass (pc', l') \<Longrightarrow> pc \<le> pc'"
  unfolding symb_step_def Let_def
  by (auto simp: chk_pass split: if_splits dest!: symb_args_Pass symb_op_mono)

function symb_loop :: "Proto \<Rightarrow> int \<Rightarrow> int \<Rightarrow> int \<Rightarrow> int \<Rightarrow> int chk" where
  "symb_loop pt lastpc reg pc l =
     (if pc < lastpc then
        case symb_step pt lastpc reg pc l of
          Undef \<Rightarrow> Undef
        | Failed \<Rightarrow> Failed
        | Pass (pc', l') \<Rightarrow> symb_loop pt lastpc reg (pc' + 1) l'
      else Pass l)"
  by pat_completeness auto
termination
  by (relation "measure (\<lambda>(pt, lastpc, reg, pc, l). nat (lastpc - pc))")
    (auto dest: symb_step_mono)

declare symb_loop.simps [simp del]

text \<open>The instruction that last set \<open>reg\<close> before \<open>lastpc\<close>, or 0 when a check fails; \<open>None\<close> is an
  out-of-range read.\<close>

definition symbexec :: "Proto \<Rightarrow> int \<Rightarrow> int \<Rightarrow> Instruction option" where
  "symbexec pt lastpc reg =
     (if \<not> precheck pt then Some 0
      else case symb_loop pt lastpc reg 0 (sizecode pt - 1) of
        Undef \<Rightarrow> None
      | Failed \<Rightarrow> Some 0
      | Pass l \<Rightarrow> (case vec_at (proto_code pt) l Pass of Pass i \<Rightarrow> Some i | _ \<Rightarrow> None))"

definition luaG_checkcode :: "Proto \<Rightarrow> bool" where
  "luaG_checkcode pt \<longleftrightarrow> (case symbexec pt (sizecode pt) NO_REG of None \<Rightarrow> False | Some i \<Rightarrow> i \<noteq> 0)"

section \<open>The checker reads nothing out of range\<close>

text \<open>The length of the run before \<open>dest\<close>; within the code the loop reads in range and finds it.\<close>

fun setlist_run :: "Instruction list \<Rightarrow> nat \<Rightarrow> nat" where
  "setlist_run code 0 = 0"
| "setlist_run code (Suc d) = (if is_setlist0 (code ! d) then Suc (setlist_run code d) else 0)"

lemma setlist_scan_run:
  "d \<le> length code \<Longrightarrow> setlist_scan code d j k = k (j + setlist_run code d)"
  by (induction d arbitrary: j) (simp_all add: vec_at_def)

text \<open>What the operand checks of lines 330-365 establish of the decoded \<open>b\<close> and \<open>c\<close>.\<close>

definition args_ok :: "Proto \<Rightarrow> int \<Rightarrow> Instruction \<Rightarrow> int \<Rightarrow> int \<Rightarrow> bool" where
  "args_ok pt pc i b c \<longleftrightarrow>
     (let opc = GET_OPCODE i in
      case getOpMode opc of
        iABC \<Rightarrow> b = GETARG_B i \<and> c = GETARG_C i \<and> checkArgMode pt b (getBMode opc)
                  \<and> checkArgMode pt c (getCMode opc)
      | iABx \<Rightarrow> b = GETARG_Bx i \<and> c = 0 \<and> (getBMode opc = OpArgK \<longrightarrow> b < sizek pt)
      | iAsBx \<Rightarrow> b = GETARG_sBx i \<and> c = 0
                  \<and> (getBMode opc = OpArgR \<longrightarrow> 0 \<le> pc + 1 + b \<and> pc + 1 + b < sizecode pt
                       \<and> even (setlist_run (proto_code pt) (nat (pc + 1 + b)))))"

lemma symb_args_outcome:
  "symb_args pt pc i k = Failed \<or> (\<exists>b c. args_ok pt pc i b c \<and> symb_args pt pc i k = k b c)"
  by (auto simp: symb_args_def args_ok_def Let_def check_def not_less setlist_scan_run split: OpMode.splits)

lemma args_ok_unique: "args_ok pt pc i b c \<Longrightarrow> args_ok pt pc i b' c' \<Longrightarrow> b = b' \<and> c = c'"
  by (auto simp: args_ok_def Let_def split: OpMode.splits)

lemma modes_iABx:
  "getOpMode (opcode_num OP_GETGLOBAL) = iABx" "getBMode (opcode_num OP_GETGLOBAL) = OpArgK"
  "getOpMode (opcode_num OP_SETGLOBAL) = iABx" "getBMode (opcode_num OP_SETGLOBAL) = OpArgK"
  "getOpMode (opcode_num OP_CLOSURE) = iABx" "getOpMode (opcode_num OP_LOADK) = iABx"
  "getBMode (opcode_num OP_LOADK) = OpArgK"
  by (simp_all add: mode_table)

lemma modes_iAsBx:
  "getOpMode (opcode_num OP_JMP) = iAsBx" "getBMode (opcode_num OP_JMP) = OpArgR"
  "getOpMode (opcode_num OP_FORLOOP) = iAsBx" "getBMode (opcode_num OP_FORLOOP) = OpArgR"
  "getOpMode (opcode_num OP_FORPREP) = iAsBx" "getBMode (opcode_num OP_FORPREP) = OpArgR"
  by (simp_all add: mode_table)

lemma check_Undef: "check x k = Undef \<longleftrightarrow> x \<and> k = Undef"
  by (simp add: check_def)

lemma vec_at_Undef:
  "vec_at xs i k = Undef \<longleftrightarrow> (0 \<le> i \<and> i < int (length xs) \<longrightarrow> k (xs ! nat i) = Undef)"
  by (auto simp: vec_at_def)

lemma checkopenop_Undef:
  "checkopenop pt pc k = Undef \<Longrightarrow> 0 \<le> pc + 1 \<Longrightarrow> pc + 1 < sizecode pt \<Longrightarrow> k = Undef"
  by (simp add: checkopenop_def check_Undef vec_at_Undef)

lemma checkreg_Undef: "checkreg pt r k = Undef \<longleftrightarrow> r < maxstack pt \<and> k = Undef"
  by (simp add: checkreg_def check_Undef)

lemma closure_args_Undef:
  "closure_args pt pc n k = Undef \<Longrightarrow> 0 \<le> pc \<Longrightarrow> pc + int n < sizecode pt \<Longrightarrow> k = Undef"
  by (induction n arbitrary: pc) (auto simp: check_Undef vec_at_Undef)

text \<open>Only the final return may stand at the last position.\<close>

lemma precheck_not_last:
  assumes "precheck pt" and "0 \<le> pc" and "pc < sizecode pt"
    and "GET_OPCODE (proto_code pt ! nat pc) \<noteq> opcode_num OP_RETURN"
  shows "pc + 1 < sizecode pt"
proof (rule ccontr)
  assume "\<not> pc + 1 < sizecode pt"
  with assms(2,3) have "nat pc = length (proto_code pt) - 1" by linarith
  moreover have "proto_code pt \<noteq> []" using assms(2,3) by auto
  ultimately have "proto_code pt ! nat pc = last (proto_code pt)" by (simp add: last_conv_nth)
  with assms show False by (simp add: precheck_def)
qed

lemma symb_jump_defined: "symb_jump lastpc reg pc l b \<noteq> Undef"
  by (simp add: symb_jump_def Let_def)

lemma symb_op_defined:
  assumes pre: "precheck pt" and pc: "0 \<le> pc" "pc < sizecode pt"
    and i: "i = proto_code pt ! nat pc" and args: "args_ok pt pc i b c"
  shows "symb_op pt lastpc reg pc l (GET_OPCODE i) a b c \<noteq> Undef"
proof
  assume u: "symb_op pt lastpc reg pc l (GET_OPCODE i) a b c = Undef"
  have nl: "\<And>x. GET_OPCODE i = opcode_num x \<Longrightarrow> x \<noteq> OP_RETURN \<Longrightarrow> pc + 1 < sizecode pt"
    using precheck_not_last [OF pre pc] i opcode_num_inj by metis
  have glob: "0 \<le> b \<and> b < sizek pt"
    if "GET_OPCODE i = opcode_num OP_GETGLOBAL \<or> GET_OPCODE i = opcode_num OP_SETGLOBAL"
    using that args fBx.get_range [of i] by (auto simp: args_ok_def modes_iABx Let_def simp del: opcode_num.simps)
  have clos: "0 \<le> b" if "GET_OPCODE i = opcode_num OP_CLOSURE"
    using that args fBx.get_range [of i] by (auto simp: args_ok_def modes_iABx Let_def simp del: opcode_num.simps)
  show False
    using u nl [of OP_CALL] nl [of OP_TAILCALL] nl [of OP_VARARG] glob clos pc
    unfolding symb_op_def Let_def
    by (auto simp: check_Undef vec_at_Undef checkreg_Undef symb_jump_defined
        split: if_splits dest!: checkopenop_Undef closure_args_Undef)
qed

lemma symb_step_defined:
  assumes "precheck pt" and "0 \<le> pc" and "pc < sizecode pt"
  shows "symb_step pt lastpc reg pc l \<noteq> Undef"
proof
  let ?i = "proto_code pt ! nat pc"
  let ?k = "\<lambda>b c. let l1 = (if testAMode (GET_OPCODE ?i) \<and> GETARG_A ?i = reg then pc else l);
             rest = symb_op pt lastpc reg pc l1 (GET_OPCODE ?i) (GETARG_A ?i) b c
         in if testTMode (GET_OPCODE ?i) then
              check (pc + 2 < sizecode pt)
                (vec_at (proto_code pt) (pc + 1) (\<lambda>j. check (is_op j OP_JMP) rest))
            else rest"
  assume "symb_step pt lastpc reg pc l = Undef"
  then have "symb_args pt pc ?i ?k = Undef"
    using assms by (simp add: symb_step_def Let_def check_Undef vec_at_Undef checkreg_Undef)
  with symb_args_outcome [of pt pc ?i ?k] obtain b c where bc: "args_ok pt pc ?i b c" "?k b c = Undef"
    by auto
  with symb_op_defined [OF assms refl bc(1)] assms(2) show False
    by (auto simp: Let_def check_Undef vec_at_Undef split: if_splits)
qed

lemma symb_op_last: "symb_op pt lastpc reg pc l opc a b c = Pass (pc', l') \<Longrightarrow> l' = l \<or> l' = pc"
  unfolding symb_op_def symb_jump_def Let_def
  by (auto simp: chk_pass split: if_splits dest!: closure_args_PassD)

lemma symb_step_last:
  "symb_step pt lastpc reg pc l = Pass (pc', l') \<Longrightarrow> (l' = l \<or> l' = pc) \<and> pc < sizecode pt"
  unfolding symb_step_def Let_def
  by (auto simp: chk_pass split: if_splits dest!: symb_args_Pass symb_op_last)

lemma symb_loop_defined:
  assumes "precheck pt" and "0 \<le> pc" and "lastpc \<le> sizecode pt" and "0 \<le> l" and "l < sizecode pt"
  shows "symb_loop pt lastpc reg pc l \<noteq> Undef
    \<and> (\<forall>l'. symb_loop pt lastpc reg pc l = Pass l' \<longrightarrow> 0 \<le> l' \<and> l' < sizecode pt)"
  using assms
proof (induction pt lastpc reg pc l rule: symb_loop.induct)
  case (1 pt lastpc reg pc l)
  show ?case
  proof (cases "pc < lastpc")
    case False
    with "1.prems" show ?thesis by (simp add: symb_loop.simps [of pt lastpc reg pc l])
  next
    case True
    show ?thesis
    proof (cases "symb_step pt lastpc reg pc l")
      case Undef
      with symb_step_defined [of pt pc lastpc reg l] "1.prems" True show ?thesis by simp
    next
      case Failed
      with True show ?thesis by (simp add: symb_loop.simps [of pt lastpc reg pc l])
    next
      case (Pass x)
      obtain pc' l' where x: "x = (pc', l')" by fastforce
      with Pass have st: "symb_step pt lastpc reg pc l = Pass (pc', l')" by simp
      from symb_step_mono [OF st] symb_step_last [OF st] "1.prems"
      have "0 \<le> pc' + 1" "0 \<le> l'" "l' < sizecode pt" by auto
      with "1.IH" [OF True Pass x [symmetric]] "1.prems" show ?thesis
        by (simp add: symb_loop.simps [of pt lastpc reg pc l] True st)
    qed
  qed
qed

text \<open>
  C20: checking a prototype, or tracing a register through it up to a program counter no larger than
  the size of the code, never reads the code, constant or prototype vectors outside their bounds,
  however malformed the prototype is.
\<close>

theorem symbexec_in_bounds:
  assumes "lastpc \<le> int (length (proto_code pt))"
  shows "symbexec pt lastpc reg \<noteq> None"
proof (cases "precheck pt")
  case False
  then show ?thesis by (simp add: symbexec_def)
next
  case True
  then have "0 < length (proto_code pt)" by (simp add: precheck_def)
  with symb_loop_defined [OF True, of 0 lastpc "sizecode pt - 1" reg] assms
  show ?thesis
    by (auto simp: symbexec_def vec_at_def True split: chk.splits)
qed

theorem symbexec_in_bounds_witness:
  "symbexec (Proto [] [CREATE_ABC (opcode_num OP_RETURN) 0 1 0] [] [] [] [] None 0 0 0 0 0 2) 1 0 \<noteq> None"
  by (rule symbexec_in_bounds) simp

section \<open>What an accepted prototype guarantees\<close>

text \<open>The positions that hold instructions: a \<open>SETLIST\<close> with a zero \<open>C\<close> is followed by a raw count.\<close>

inductive boundary :: "Instruction list \<Rightarrow> nat \<Rightarrow> bool" for code where
  start: "boundary code 0"
| skip: "boundary code pc \<Longrightarrow> is_setlist0 (code ! pc) \<Longrightarrow> boundary code (pc + 2)"
| step: "boundary code pc \<Longrightarrow> \<not> is_setlist0 (code ! pc) \<Longrightarrow> boundary code (pc + 1)"

text \<open>The parity test of line 360 decides it.\<close>

lemma boundary_Suc_iff:
  "boundary code (Suc d) \<longleftrightarrow>
     (boundary code d \<and> \<not> is_setlist0 (code ! d))
     \<or> (\<exists>e. d = Suc e \<and> boundary code e \<and> is_setlist0 (code ! e))"
proof
  assume "boundary code (Suc d)"
  then show "(boundary code d \<and> \<not> is_setlist0 (code ! d))
     \<or> (\<exists>e. d = Suc e \<and> boundary code e \<and> is_setlist0 (code ! e))"
    by (cases rule: boundary.cases) auto
next
  assume "(boundary code d \<and> \<not> is_setlist0 (code ! d))
     \<or> (\<exists>e. d = Suc e \<and> boundary code e \<and> is_setlist0 (code ! e))"
  then show "boundary code (Suc d)"
    using boundary.step [of code d] boundary.skip [of code] by auto
qed

lemma boundary_iff_even_run: "boundary code d \<longleftrightarrow> even (setlist_run code d)"
proof (induction d rule: less_induct)
  case (less d)
  show ?case
  proof (cases d)
    case 0
    then show ?thesis by (simp add: boundary.start)
  next
    case (Suc d')
    show ?thesis
    proof (cases d')
      case 0
      with Suc show ?thesis
        using boundary.start by (auto simp: boundary_Suc_iff)
    next
      case (Suc e)
      with \<open>d = Suc d'\<close> less [of d'] less [of e] show ?thesis
        by (auto simp: boundary_Suc_iff [of code "Suc e"])
    qed
  qed
qed

text \<open>The operand guarantees the virtual machine relies on, opcode by opcode.\<close>

definition rk_ok :: "Proto \<Rightarrow> int \<Rightarrow> bool" where
  "rk_ok pt r \<longleftrightarrow> (if 256 \<le> r then r - 256 < sizek pt else r < maxstack pt)"

definition operands_ok :: "Proto \<Rightarrow> nat \<Rightarrow> bool" where
  "operands_ok pt pc \<longleftrightarrow>
     (let i = proto_code pt ! pc; a = GETARG_A i; b = GETARG_B i; c = GETARG_C i;
          bx = GETARG_Bx i; dest = int pc + 1 + GETARG_sBx i; m = maxstack pt
      in a < m \<and>
      (case opcode_of (GET_OPCODE i) of
         None \<Rightarrow> False
       | Some x \<Rightarrow>
           (x \<in> {OP_MOVE, OP_LOADNIL, OP_UNM, OP_NOT, OP_LEN, OP_TESTSET} \<longrightarrow> b < m)
         \<and> (x = OP_LOADK \<longrightarrow> bx < sizek pt)
         \<and> (x \<in> {OP_GETGLOBAL, OP_SETGLOBAL} \<longrightarrow> bx < sizek pt \<and> ttisstring (proto_k pt ! nat bx))
         \<and> (x \<in> {OP_GETUPVAL, OP_SETUPVAL} \<longrightarrow> b < uint (nups pt))
         \<and> (x \<in> {OP_GETTABLE, OP_SELF} \<longrightarrow> b < m \<and> rk_ok pt c)
         \<and> (x = OP_SELF \<longrightarrow> a + 1 < m)
         \<and> (x \<in> {OP_SETTABLE, OP_ADD, OP_SUB, OP_MUL, OP_DIV, OP_MOD, OP_POW, OP_EQ, OP_LT, OP_LE}
              \<longrightarrow> rk_ok pt b \<and> rk_ok pt c)
         \<and> (x = OP_CONCAT \<longrightarrow> b < c \<and> c < m)
         \<and> (x \<in> {OP_JMP, OP_FORLOOP, OP_FORPREP} \<longrightarrow>
              0 \<le> dest \<and> dest < sizecode pt \<and> boundary (proto_code pt) (nat dest))
         \<and> (x \<in> {OP_FORLOOP, OP_FORPREP} \<longrightarrow> a + 3 < m)
         \<and> (x \<in> {OP_EQ, OP_LT, OP_LE, OP_TEST, OP_TESTSET, OP_TFORLOOP} \<longrightarrow>
              int pc + 2 < sizecode pt \<and> is_op (proto_code pt ! (pc + 1)) OP_JMP)
         \<and> (x = OP_LOADBOOL \<and> c = 1 \<longrightarrow>
              int pc + 2 < sizecode pt \<and> \<not> is_setlist0 (proto_code pt ! (pc + 1)))
         \<and> (x \<in> {OP_CALL, OP_TAILCALL} \<longrightarrow>
              (b \<noteq> 0 \<longrightarrow> a + b - 1 < m) \<and> (1 < c \<longrightarrow> a + c - 2 < m)
              \<and> (c = 0 \<longrightarrow> luaG_checkopenop (proto_code pt ! (pc + 1))))
         \<and> (x = OP_RETURN \<longrightarrow> 1 < b \<longrightarrow> a + b - 2 < m)
         \<and> (x = OP_TFORLOOP \<longrightarrow> 1 \<le> c \<and> a + 2 + c < m)
         \<and> (x = OP_SETLIST \<longrightarrow> (0 < b \<longrightarrow> a + b < m) \<and> (c = 0 \<longrightarrow> int pc + 2 < sizecode pt))
         \<and> (x = OP_CLOSURE \<longrightarrow> bx < int (length (proto_p pt))
              \<and> int pc + uint (nups (proto_p pt ! nat bx)) < sizecode pt
              \<and> (\<forall>j < unat (nups (proto_p pt ! nat bx)). upval_pseudo (proto_code pt ! (pc + 1 + j))))
         \<and> (x = OP_VARARG \<longrightarrow> is_vararg pt AND VARARG_ISVARARG \<noteq> 0
              \<and> is_vararg pt AND VARARG_NEEDSARG = 0 \<and> a + b - 2 < m
              \<and> (b = 0 \<longrightarrow> luaG_checkopenop (proto_code pt ! (pc + 1))))))"

lemma checkArgMode_simps:
  "checkArgMode pt r OpArgN \<longleftrightarrow> r = 0" "checkArgMode pt r OpArgU"
  "checkArgMode pt r OpArgR \<longleftrightarrow> r < maxstack pt"
  "checkArgMode pt (GETARG_B i) OpArgK \<longleftrightarrow> rk_ok pt (GETARG_B i)"
  "checkArgMode pt (GETARG_C i) OpArgK \<longleftrightarrow> rk_ok pt (GETARG_C i)"
  using fB.get_range [of i] fC.get_range [of i]
  by (auto simp: checkArgMode_def rk_ok_def ISK_range INDEXK_minus)

text \<open>One step of the full check establishes the guarantees at its instruction and moves to the next
  boundary.\<close>

lemma symb_step_passed:
  assumes "symb_step pt lastpc reg (int pc) l = Pass (pc', l')"
  obtains b c where "args_ok pt (int pc) (proto_code pt ! pc) b c"
    and "symb_op pt lastpc reg (int pc)
      (if testAMode (GET_OPCODE (proto_code pt ! pc)) \<and> GETARG_A (proto_code pt ! pc) = reg
       then int pc else l)
      (GET_OPCODE (proto_code pt ! pc)) (GETARG_A (proto_code pt ! pc)) b c = Pass (pc', l')"
    and "testTMode (GET_OPCODE (proto_code pt ! pc)) \<longrightarrow>
      int pc + 2 < sizecode pt \<and> is_op (proto_code pt ! (pc + 1)) OP_JMP"
    and "GET_OPCODE (proto_code pt ! pc) < NUM_OPCODES"
    and "GETARG_A (proto_code pt ! pc) < maxstack pt" and "int pc < sizecode pt"
proof -
  let ?i = "proto_code pt ! pc"
  let ?k = "\<lambda>b c. let l1 = (if testAMode (GET_OPCODE ?i) \<and> GETARG_A ?i = reg then int pc else l);
             rest = symb_op pt lastpc reg (int pc) l1 (GET_OPCODE ?i) (GETARG_A ?i) b c
         in if testTMode (GET_OPCODE ?i) then
              check (int pc + 2 < sizecode pt)
                (vec_at (proto_code pt) (int pc + 1) (\<lambda>j. check (is_op j OP_JMP) rest))
            else rest"
  have *: "int pc < sizecode pt" "GET_OPCODE ?i < NUM_OPCODES" "GETARG_A ?i < maxstack pt"
      "symb_args pt (int pc) ?i ?k = Pass (pc', l')"
    using assms by (simp_all add: symb_step_def Let_def chk_pass split del: if_split cong: if_cong)
  with symb_args_outcome [of pt "int pc" ?i ?k] obtain b c
    where bc: "args_ok pt (int pc) ?i b c" "?k b c = Pass (pc', l')"
    by auto
  have "nat (int pc + 1) = pc + 1" by simp
  with bc * show thesis
    by (intro that [of b c]) (auto simp: Let_def chk_pass split: if_splits)
qed

lemma symb_step_guarantees:
  assumes st: "symb_step pt (sizecode pt) NO_REG (int pc) l = Pass (pc', l')"
  shows "operands_ok pt pc"
    and "pc' = int (if is_setlist0 (proto_code pt ! pc) then pc + 1 else pc)"
proof -
  let ?i = "proto_code pt ! pc"
  obtain b c l1 where args: "args_ok pt (int pc) ?i b c"
    and op: "symb_op pt (sizecode pt) NO_REG (int pc) l1 (GET_OPCODE ?i) (GETARG_A ?i) b c = Pass (pc', l')"
    and tst: "testTMode (GET_OPCODE ?i) \<longrightarrow>
      int pc + 2 < sizecode pt \<and> is_op (proto_code pt ! (pc + 1)) OP_JMP"
    and num: "GET_OPCODE ?i < NUM_OPCODES" and a: "GETARG_A ?i < maxstack pt"
    using symb_step_passed [OF st] by metis
  from num obtain x where x: "GET_OPCODE ?i = opcode_num x"
    by (metis opcode_of_SomeD opcode_of_eq_None not_le option.exhaust)
  have next_nat: "nat (int pc + 1) = pc + 1" "\<And>j. nat (int pc + 1 + int j) = pc + 1 + j"
    by simp_all
  note B = fB.get_range [of ?i] and C = fC.get_range [of ?i] and Bx = fBx.get_range [of ?i]
  have "operands_ok pt pc \<and> pc' = int (if is_setlist0 ?i then pc + 1 else pc)"
    using args op tst a x B C Bx
    by (cases x)
      (auto simp: args_ok_def operands_ok_def symb_op_def symb_jump_def opcode_of_def all_opcodes_def Let_def
        mode_table chk_pass checkArgMode_simps is_setlist0_def boundary_iff_even_run next_nat
        split: if_splits)
  then show "operands_ok pt pc" "pc' = int (if is_setlist0 ?i then pc + 1 else pc)" by simp_all
qed

lemma boundary_next:
  assumes "boundary code pc"
  shows "boundary code (pc + (if is_setlist0 (code ! pc) then 2 else 1))"
    and "boundary code q \<Longrightarrow> pc < q \<Longrightarrow> pc + (if is_setlist0 (code ! pc) then 2 else 1) \<le> q"
proof -
  show "boundary code (pc + (if is_setlist0 (code ! pc) then 2 else 1))"
    using assms by (simp add: boundary.skip [simplified] boundary.step [simplified])
  have "\<not> boundary code (Suc pc)" if "is_setlist0 (code ! pc)"
    using assms that by (simp add: boundary_iff_even_run)
  then show "boundary code q \<Longrightarrow> pc < q \<Longrightarrow> pc + (if is_setlist0 (code ! pc) then 2 else 1) \<le> q"
    by (cases "q = Suc pc") auto
qed

lemma symb_loop_guarantees:
  assumes "symb_loop pt (sizecode pt) NO_REG pcz l = Pass l'" and "pcz = int pc"
    and "boundary (proto_code pt) pc"
    and "boundary (proto_code pt) q" and "pc \<le> q" and "q < length (proto_code pt)"
  shows "operands_ok pt q"
  using assms
proof (induction pt "sizecode pt" "NO_REG" pcz l arbitrary: pc rule: symb_loop.induct)
  case (1 pt pcz l)
  have lt: "pcz < sizecode pt" using "1.prems" by simp
  with "1.prems"(1) obtain pc' k where st: "symb_step pt (sizecode pt) NO_REG pcz l = Pass (pc', k)"
    and rest: "symb_loop pt (sizecode pt) NO_REG (pc' + 1) k = Pass l'"
    by (auto simp: symb_loop.simps [of pt "sizecode pt" NO_REG pcz l] split: chk.splits)
  note g = symb_step_guarantees [OF st [unfolded "1.prems"(2)]]
  show ?case
  proof (cases "q = pc")
    case True
    with g(1) show ?thesis by simp
  next
    case False
    let ?n = "pc + (if is_setlist0 (proto_code pt ! pc) then 2 else 1)"
    have "pc' + 1 = int ?n" using g(2) by simp
    moreover have "?n \<le> q" using boundary_next(2) [OF "1.prems"(3,4)] "1.prems"(5) False by simp
    ultimately show ?thesis
      using "1.hyps" [OF lt st refl rest _ boundary_next(1) [OF "1.prems"(3)] "1.prems"(4) _ "1.prems"(6)]
      by simp
  qed
qed

lemma checkcode_guarantees:
  assumes "luaG_checkcode pt"
  shows "precheck pt"
    and "boundary (proto_code pt) pc \<Longrightarrow> pc < length (proto_code pt) \<Longrightarrow> operands_ok pt pc"
proof -
  show pre: "precheck pt"
    using assms by (auto simp: luaG_checkcode_def symbexec_def split: if_splits)
  obtain l where "symb_loop pt (sizecode pt) NO_REG (int 0) (sizecode pt - 1) = Pass l"
    using assms pre by (auto simp: luaG_checkcode_def symbexec_def split: chk.splits)
  then show "boundary (proto_code pt) pc \<Longrightarrow> pc < length (proto_code pt) \<Longrightarrow> operands_ok pt pc"
    using symb_loop_guarantees [OF _ refl boundary.start] by simp
qed

end
