(* ===== verification/CodeFlow.thy ===== *)
theory CodeFlow
  imports LDebug
begin

text \<open>
  What the bytecode checker buys the virtual machine: the control-flow graph of \<open>luaV_execute\<close> over an
  accepted prototype stays inside its code, on instruction boundaries, where every operand is in range.
\<close>

section \<open>Control flow of the virtual machine\<close>

text \<open>The successors of an instruction in \<open>luaV_execute\<close> (\<open>src/lua/lvm.c\<close>): \<open>pc\<close> has been
  incremented when the instruction is dispatched, jumps are relative to that, and a test instruction
  uses the jump that follows it. A call resumes at the next instruction.\<close>

definition vm_next :: "Proto \<Rightarrow> nat \<Rightarrow> int list" where
  "vm_next pt pc0 =
     (let i = proto_code pt ! pc0; pc = int pc0 + 1; following = proto_code pt ! (pc0 + 1);
          opc = GET_OPCODE i
      in if opc = opcode_num OP_LOADBOOL then [if GETARG_C i \<noteq> 0 then pc + 1 else pc]
         else if opc = opcode_num OP_JMP \<or> opc = opcode_num OP_FORPREP then [pc + GETARG_sBx i]
         else if opc \<in> opcode_num ` {OP_EQ, OP_LT, OP_LE, OP_TEST, OP_TESTSET, OP_TFORLOOP}
           then [pc + GETARG_sBx following + 1, pc + 1]
         else if opc = opcode_num OP_FORLOOP then [pc + GETARG_sBx i, pc]
         else if opc = opcode_num OP_RETURN then []
         else if opc = opcode_num OP_SETLIST then [if GETARG_C i = 0 then pc + 1 else pc]
         else if opc = opcode_num OP_CLOSURE
           then [pc + uint (nups (proto_p pt ! nat (GETARG_Bx i)))]
         else [pc])"

inductive vm_reach :: "Proto \<Rightarrow> int \<Rightarrow> bool" for pt where
  entry: "vm_reach pt 0"
| flow: "vm_reach pt pc \<Longrightarrow> pc' \<in> set (vm_next pt (nat pc)) \<Longrightarrow> vm_reach pt pc'"

text \<open>\<open>LOADBOOL\<close> skips for every nonzero \<open>C\<close>, but the checker only looks at \<open>C = 1\<close>.\<close>

definition loadbool_flags_ok :: "Proto \<Rightarrow> bool" where
  "loadbool_flags_ok pt \<longleftrightarrow>
     list_all (\<lambda>i. is_op i OP_LOADBOOL \<longrightarrow> GETARG_C i \<le> 1) (proto_code pt)"

lemma operands_ok_opcode:
  assumes "operands_ok pt pc"
  shows "\<exists>x. GET_OPCODE (proto_code pt ! pc) = opcode_num x"
proof (cases "opcode_of (GET_OPCODE (proto_code pt ! pc))")
  case None
  with assms show ?thesis by (simp add: operands_ok_def Let_def)
next
  case (Some x)
  from opcode_of_SomeD [OF this] show ?thesis by blast
qed

lemma operands_ok_jump:
  assumes "operands_ok pt pc" and "GET_OPCODE (proto_code pt ! pc) = opcode_num x"
    and "x \<in> {OP_JMP, OP_FORLOOP, OP_FORPREP}" and "d = int pc + 1 + GETARG_sBx (proto_code pt ! pc)"
  shows "0 \<le> d \<and> d < sizecode pt \<and> boundary (proto_code pt) (nat d)"
  using assms by (auto simp: operands_ok_def Let_def opcode_of_num)

lemma operands_ok_test:
  assumes "operands_ok pt pc" and "GET_OPCODE (proto_code pt ! pc) = opcode_num x"
    and "x \<in> {OP_EQ, OP_LT, OP_LE, OP_TEST, OP_TESTSET, OP_TFORLOOP}"
  shows "int pc + 2 < sizecode pt \<and> is_op (proto_code pt ! (pc + 1)) OP_JMP"
  using assms by (auto simp: operands_ok_def Let_def opcode_of_num simp del: opcode_num.simps)

lemma operands_ok_loadbool:
  assumes "operands_ok pt pc" and "GET_OPCODE (proto_code pt ! pc) = opcode_num OP_LOADBOOL"
    and "GETARG_C (proto_code pt ! pc) = 1"
  shows "int pc + 2 < sizecode pt \<and> \<not> is_setlist0 (proto_code pt ! (pc + 1))"
  using assms by (auto simp: operands_ok_def Let_def opcode_of_num simp del: opcode_num.simps)

lemma operands_ok_closure:
  assumes "operands_ok pt pc" and "GET_OPCODE (proto_code pt ! pc) = opcode_num OP_CLOSURE"
    and "n = unat (nups (proto_p pt ! nat (GETARG_Bx (proto_code pt ! pc))))"
  shows "pc + n < length (proto_code pt) \<and> (\<forall>j < n. upval_pseudo (proto_code pt ! (pc + 1 + j)))"
proof -
  have "int pc + int n < sizecode pt" "\<forall>j < n. upval_pseudo (proto_code pt ! (pc + 1 + j))"
    using assms by (auto simp: operands_ok_def Let_def opcode_of_num simp del: opcode_num.simps)
  then show ?thesis by simp
qed

lemma operands_ok_setlist:
  assumes "operands_ok pt pc" and "is_setlist0 (proto_code pt ! pc)"
  shows "int pc + 2 < sizecode pt"
  using assms
  by (auto simp: operands_ok_def is_setlist0_def Let_def opcode_of_num simp del: opcode_num.simps)

lemma not_setlist0I: "GET_OPCODE i = opcode_num x \<Longrightarrow> x \<noteq> OP_SETLIST \<Longrightarrow> \<not> is_setlist0 i"
  by (metis is_setlist0_def opcode_num_inj)

lemma upval_pseudo_plain:
  "upval_pseudo i \<Longrightarrow> \<not> is_setlist0 i \<and> GET_OPCODE i \<noteq> opcode_num OP_RETURN"
  by (auto simp: upval_pseudo_def is_setlist0_def)

lemma boundary_run:
  "boundary code pc \<Longrightarrow> (\<And>j. j < n \<Longrightarrow> \<not> is_setlist0 (code ! (pc + j))) \<Longrightarrow> boundary code (pc + n)"
proof (induction n)
  case (Suc n)
  then have "boundary code (pc + n)" "\<not> is_setlist0 (code ! (pc + n))" by simp_all
  from boundary.step [OF this] show ?case by simp
qed simp

text \<open>The safe positions, and one lemma per kind of successor.\<close>

definition safe_pc :: "Proto \<Rightarrow> int \<Rightarrow> bool" where
  "safe_pc pt pc \<longleftrightarrow> 0 \<le> pc \<and> pc < sizecode pt \<and> boundary (proto_code pt) (nat pc)"

lemma safe_pc_int: "safe_pc pt (int pc) \<longleftrightarrow> pc < length (proto_code pt) \<and> boundary (proto_code pt) pc"
  by (simp add: safe_pc_def)

lemma safe_jump:
  assumes "operands_ok pt pc" and "GET_OPCODE (proto_code pt ! pc) = opcode_num x"
    and "x \<in> {OP_JMP, OP_FORLOOP, OP_FORPREP}"
  shows "safe_pc pt (int pc + 1 + GETARG_sBx (proto_code pt ! pc))"
  using operands_ok_jump [OF assms refl] by (simp add: safe_pc_def)

lemma safe_fall:
  assumes "precheck pt" and "boundary (proto_code pt) pc" and "pc < length (proto_code pt)"
    and "\<not> is_setlist0 (proto_code pt ! pc)"
    and "GET_OPCODE (proto_code pt ! pc) \<noteq> opcode_num OP_RETURN"
  shows "safe_pc pt (int (pc + 1))"
  unfolding safe_pc_int
  using boundary.step [OF assms(2,4)] precheck_not_last [OF assms(1), of "int pc"] assms(3,5)
  by auto

lemma safe_loadbool:
  assumes "operands_ok pt pc" and "GET_OPCODE (proto_code pt ! pc) = opcode_num OP_LOADBOOL"
    and "GETARG_C (proto_code pt ! pc) = 1" and "boundary (proto_code pt) pc"
  shows "safe_pc pt (int (pc + 2))"
proof -
  have "\<not> is_setlist0 (proto_code pt ! pc)" by (rule not_setlist0I [OF assms(2)]) simp
  from boundary.step [OF assms(4) this] operands_ok_loadbool [OF assms(1-3)]
  show ?thesis unfolding safe_pc_int using boundary.step by fastforce
qed

lemma safe_setlist:
  assumes "operands_ok pt pc" and "is_setlist0 (proto_code pt ! pc)" and "boundary (proto_code pt) pc"
  shows "safe_pc pt (int (pc + 2))"
  unfolding safe_pc_int using boundary.skip [OF assms(3,2)] operands_ok_setlist [OF assms(1,2)] by auto

lemma safe_test:
  assumes chk: "luaG_checkcode pt" and ok: "operands_ok pt pc"
    and x: "GET_OPCODE (proto_code pt ! pc) = opcode_num x"
    and test: "x \<in> {OP_EQ, OP_LT, OP_LE, OP_TEST, OP_TESTSET, OP_TFORLOOP}"
    and bd: "boundary (proto_code pt) pc"
  shows "safe_pc pt (int pc + 1 + GETARG_sBx (proto_code pt ! (pc + 1)) + 1)"
    and "safe_pc pt (int (pc + 2))"
proof -
  from operands_ok_test [OF ok x test]
  have t: "pc + 2 < length (proto_code pt)" "is_op (proto_code pt ! (pc + 1)) OP_JMP" by linarith+
  have "\<not> is_setlist0 (proto_code pt ! pc)" using x test by (intro not_setlist0I [OF x]) auto
  from boundary.step [OF bd this] have b1: "boundary (proto_code pt) (pc + 1)" .
  with t checkcode_guarantees(2) [OF chk] have "operands_ok pt (pc + 1)" by simp
  from safe_jump [OF this t(2)]
  show "safe_pc pt (int pc + 1 + GETARG_sBx (proto_code pt ! (pc + 1)) + 1)"
    by (simp add: algebra_simps)
  have "\<not> is_setlist0 (proto_code pt ! (pc + 1))" by (rule not_setlist0I [OF t(2)]) simp
  from boundary.step [OF b1 this] t(1) show "safe_pc pt (int (pc + 2))" unfolding safe_pc_int by simp
qed

lemma safe_closure:
  assumes pre: "precheck pt" and ok: "operands_ok pt pc"
    and x: "GET_OPCODE (proto_code pt ! pc) = opcode_num OP_CLOSURE"
    and bd: "boundary (proto_code pt) pc" and pc: "pc < length (proto_code pt)"
    and n: "n = unat (nups (proto_p pt ! nat (GETARG_Bx (proto_code pt ! pc))))"
  shows "safe_pc pt (int (pc + 1 + n))"
proof -
  from operands_ok_closure [OF ok x n] have c: "pc + n < length (proto_code pt)"
      "\<And>j. j < n \<Longrightarrow> upval_pseudo (proto_code pt ! (pc + 1 + j))" by simp_all
  have "\<not> is_setlist0 (proto_code pt ! pc)" by (rule not_setlist0I [OF x]) simp
  from boundary_run [OF boundary.step [OF bd this]] c(2) upval_pseudo_plain
  have "boundary (proto_code pt) (pc + 1 + n)" by blast
  moreover have "GET_OPCODE (proto_code pt ! (pc + n)) \<noteq> opcode_num OP_RETURN"
  proof (cases n)
    case 0
    with x show ?thesis by simp
  next
    case (Suc m)
    with c(2) [of m] upval_pseudo_plain show ?thesis by simp
  qed
  with precheck_not_last [OF pre, of "int (pc + n)", unfolded nat_int] c(1)
  have "pc + 1 + n < length (proto_code pt)" by linarith
  ultimately show ?thesis unfolding safe_pc_int by simp
qed

lemma opcode_num_eq_iff: "opcode_num x = opcode_num y \<longleftrightarrow> x = y"
  using opcode_num_inj by blast

lemma vm_next_cases:
  assumes "pc' \<in> set (vm_next pt pc)" and "GET_OPCODE (proto_code pt ! pc) = opcode_num x"
  shows "(pc' = int pc + 1 \<and> x \<noteq> OP_RETURN \<and> (x \<noteq> OP_SETLIST \<or> GETARG_C (proto_code pt ! pc) \<noteq> 0))
    \<or> (x = OP_LOADBOOL \<and> GETARG_C (proto_code pt ! pc) \<noteq> 0 \<and> pc' = int (pc + 2))
    \<or> (x \<in> {OP_JMP, OP_FORLOOP, OP_FORPREP} \<and> pc' = int pc + 1 + GETARG_sBx (proto_code pt ! pc))
    \<or> (x \<in> {OP_EQ, OP_LT, OP_LE, OP_TEST, OP_TESTSET, OP_TFORLOOP} \<and>
        (pc' = int pc + 1 + GETARG_sBx (proto_code pt ! (pc + 1)) + 1 \<or> pc' = int (pc + 2)))
    \<or> (x = OP_SETLIST \<and> GETARG_C (proto_code pt ! pc) = 0 \<and> pc' = int (pc + 2))
    \<or> (x = OP_CLOSURE \<and>
        pc' = int (pc + 1 + unat (nups (proto_p pt ! nat (GETARG_Bx (proto_code pt ! pc))))))"
  using assms unfolding vm_next_def Let_def
  by (simp add: opcode_num_eq_iff image_iff del: opcode_num.simps split: if_splits) blast+

lemma vm_next_safe:
  assumes chk: "luaG_checkcode pt" and flags: "loadbool_flags_ok pt"
    and pc: "safe_pc pt (int pc)" and nxt: "pc' \<in> set (vm_next pt pc)"
  shows "safe_pc pt pc'"
proof -
  let ?i = "proto_code pt ! pc"
  from pc have bd: "boundary (proto_code pt) pc" and len: "pc < length (proto_code pt)"
    by (simp_all add: safe_pc_int)
  note pre = checkcode_guarantees(1) [OF chk]
  have ok: "operands_ok pt pc" by (rule checkcode_guarantees(2) [OF chk bd len])
  then obtain x where x: "GET_OPCODE ?i = opcode_num x"
    using operands_ok_opcode by blast
  have fall: "x \<noteq> OP_RETURN \<Longrightarrow> x \<noteq> OP_SETLIST \<or> GETARG_C ?i \<noteq> 0 \<Longrightarrow> safe_pc pt (int pc + 1)"
    using safe_fall [OF pre bd len] x
    by (simp add: is_setlist0_def opcode_num_eq_iff add.commute del: opcode_num.simps)
  have flag: "x = OP_LOADBOOL \<Longrightarrow> GETARG_C ?i \<noteq> 0 \<Longrightarrow> GETARG_C ?i = 1"
  proof -
    assume "x = OP_LOADBOOL" "GETARG_C ?i \<noteq> 0"
    moreover have "is_op ?i OP_LOADBOOL \<longrightarrow> GETARG_C ?i \<le> 1"
      using flags len unfolding loadbool_flags_ok_def list_all_length by blast
    ultimately show "GETARG_C ?i = 1" using x fC.get_range [of ?i] by auto
  qed
  from vm_next_cases [OF nxt x] show ?thesis
  proof (elim disjE conjE)
    assume "pc' = int pc + 1" "x \<noteq> OP_RETURN" "x \<noteq> OP_SETLIST"
    with fall show ?thesis by simp
  next
    assume "pc' = int pc + 1" "x \<noteq> OP_RETURN" "GETARG_C ?i \<noteq> 0"
    with fall show ?thesis by simp
  next
    assume "x = OP_LOADBOOL" "GETARG_C ?i \<noteq> 0" and e: "pc' = int (pc + 2)"
    with safe_loadbool [OF ok _ flag bd] x show ?thesis unfolding e by simp
  next
    assume x': "x \<in> {OP_JMP, OP_FORLOOP, OP_FORPREP}" and e: "pc' = int pc + 1 + GETARG_sBx ?i"
    show ?thesis unfolding e by (rule safe_jump [OF ok x x'])
  next
    assume x': "x \<in> {OP_EQ, OP_LT, OP_LE, OP_TEST, OP_TESTSET, OP_TFORLOOP}"
      and e: "pc' = int pc + 1 + GETARG_sBx (proto_code pt ! (pc + 1)) + 1"
    show ?thesis unfolding e by (rule safe_test(1) [OF chk ok x x' bd])
  next
    assume x': "x \<in> {OP_EQ, OP_LT, OP_LE, OP_TEST, OP_TESTSET, OP_TFORLOOP}"
      and e: "pc' = int (pc + 2)"
    show ?thesis unfolding e by (rule safe_test(2) [OF chk ok x x' bd])
  next
    assume "x = OP_SETLIST" "GETARG_C ?i = 0" and e: "pc' = int (pc + 2)"
    with x have "is_setlist0 ?i" by (simp add: is_setlist0_def)
    then show ?thesis unfolding e by (rule safe_setlist [OF ok _ bd])
  next
    assume "x = OP_CLOSURE"
      and e: "pc' = int (pc + 1 + unat (nups (proto_p pt ! nat (GETARG_Bx ?i))))"
    with x have "GET_OPCODE ?i = opcode_num OP_CLOSURE" by simp
    then show ?thesis unfolding e by (rule safe_closure [OF pre ok _ bd len refl])
  qed
qed

text \<open>
  C2: in a prototype the bytecode checker accepts, and whose \<open>LOADBOOL\<close> skip flags are 0 or 1, the
  virtual machine never leaves the code: every position control can reach from the entry, along
  fall-through, jumps, skips and loops, is inside the code vector, is the start of an instruction
  (never the raw count of a \<open>SETLIST\<close>), and there the opcode is valid and every register, constant,
  upvalue, prototype and jump operand is within bounds.
\<close>

theorem checked_code_control_safe:
  assumes "luaG_checkcode pt" and "loadbool_flags_ok pt" and "vm_reach pt pc"
  shows "0 \<le> pc \<and> pc < int (length (proto_code pt)) \<and> boundary (proto_code pt) (nat pc)
    \<and> operands_ok pt (nat pc)"
proof -
  from assms(3) have "safe_pc pt pc"
  proof (induction rule: vm_reach.induct)
    case entry
    have "0 < length (proto_code pt)"
      using checkcode_guarantees(1) [OF assms(1)] by (simp add: precheck_def)
    then show ?case by (simp add: safe_pc_def boundary.start)
  next
    case (flow pc pc')
    then have "safe_pc pt (int (nat pc))" by (simp add: safe_pc_def)
    with vm_next_safe [OF assms(1,2)] flow.hyps(2) show ?case by blast
  qed
  with checkcode_guarantees(2) [OF assms(1), of "nat pc"] show ?thesis
    by (simp add: safe_pc_def nat_less_iff)
qed

text \<open>A loop that counts: \<open>for\<close> over an empty body, then a return.\<close>

definition loop_proto :: Proto where
  "loop_proto = Proto [VNumber 0]
     [CREATE_ABx (opcode_num OP_LOADK) 0 0, CREATE_ABx (opcode_num OP_LOADK) 1 0,
      CREATE_ABx (opcode_num OP_LOADK) 2 0, CREATE_ABx (opcode_num OP_FORPREP) 0 131071,
      CREATE_ABx (opcode_num OP_FORLOOP) 0 131070, CREATE_ABC (opcode_num OP_RETURN) 0 1 0]
     [] [] [] [] (Some ''=loop'') 0 0 0 0 2 4"

theorem checked_code_control_safe_witness:
  "luaG_checkcode loop_proto \<and> loadbool_flags_ok loop_proto \<and> vm_reach loop_proto 0
   \<and> operands_ok loop_proto 0"
proof -
  have "luaG_checkcode loop_proto" by code_simp
  moreover have "loadbool_flags_ok loop_proto" by code_simp
  moreover have "vm_reach loop_proto 0" by (rule vm_reach.entry)
  ultimately show ?thesis using checked_code_control_safe [of loop_proto 0] by simp
qed

text \<open>Two instructions: a \<open>LOADBOOL\<close> with \<open>C = 2\<close>, and the final return it skips.\<close>

definition skip_proto :: Proto where
  "skip_proto = Proto []
     [CREATE_ABC (opcode_num OP_LOADBOOL) 0 0 2, CREATE_ABC (opcode_num OP_RETURN) 0 1 0]
     [] [] [] [] (Some ''=skip'') 0 0 0 0 2 2"

lemma skip_proto_next: "vm_next skip_proto 0 = [2]"
  by code_simp

text \<open>
  C38: the hypothesis on \<open>LOADBOOL\<close> is needed: the checker accepts a prototype of two instructions
  whose first is a \<open>LOADBOOL\<close> with \<open>C = 2\<close>; the virtual machine, which skips the next instruction for
  every non-zero \<open>C\<close>, has position 2, past the end of the code vector, as the only successor of the
  entry.
\<close>

theorem checker_misses_loadbool_skip:
  "\<exists>pt. luaG_checkcode pt \<and> length (proto_code pt) = 2
     \<and> GET_OPCODE (proto_code pt ! 0) = opcode_num OP_LOADBOOL \<and> GETARG_C (proto_code pt ! 0) = 2
     \<and> vm_next pt 0 = [2] \<and> vm_reach pt 2"
proof (intro exI conjI)
  show "luaG_checkcode skip_proto" by code_simp
  show "length (proto_code skip_proto) = 2" by (simp add: skip_proto_def)
  show "GET_OPCODE (proto_code skip_proto ! 0) = opcode_num OP_LOADBOOL" by code_simp
  show "GETARG_C (proto_code skip_proto ! 0) = 2" by code_simp
  show "vm_next skip_proto 0 = [2]" by (rule skip_proto_next)
  then have "2 \<in> set (vm_next skip_proto (nat 0))" by simp
  then show "vm_reach skip_proto 2" by (rule vm_reach.flow [OF vm_reach.entry])
qed

end
