(* ===== verification/LDump.thy ===== *)
theory LDump
  imports LObject
begin

text \<open>
  Saving a prototype as a binary chunk (\<open>src/lua/ldump.c\<close>, and \<open>luaU_header\<close> of \<open>lundump.c\<close>). Output
  goes block by block to a writer callback, a parameter: it takes its own state and a block and
  returns a status, zero meaning success. The state of a dump is that status and the callback's state.
\<close>

section \<open>Writing blocks\<close>

type_synonym 'w writer = "'w \<Rightarrow> byte list \<Rightarrow> int \<times> 'w"

record 'w DumpState =
  d_status :: int
  d_data :: 'w

definition DumpBlock :: "'w writer \<Rightarrow> byte list \<Rightarrow> 'w DumpState \<Rightarrow> 'w DumpState" where
  "DumpBlock wr b D =
     (if d_status D = 0 then
        (let (st, w) = wr (d_data D) b in D\<lparr>d_status := st, d_data := w\<rparr>)
      else D)"

definition DumpChar :: "'w writer \<Rightarrow> int \<Rightarrow> 'w DumpState \<Rightarrow> 'w DumpState" where
  "DumpChar wr y D = DumpBlock wr [word_of_int y] D"

definition DumpInt :: "'w writer \<Rightarrow> int \<Rightarrow> 'w DumpState \<Rightarrow> 'w DumpState" where
  "DumpInt wr x D = DumpBlock wr (int_bytes x) D"

definition DumpNumber :: "'w writer \<Rightarrow> lua_Number \<Rightarrow> 'w DumpState \<Rightarrow> 'w DumpState" where
  "DumpNumber wr x D = DumpBlock wr (le_bytes 8 (unat x)) D"

text \<open>\<open>DumpVector\<close>: the count, then the memory image of the items.\<close>

definition DumpVector :: "'w writer \<Rightarrow> ('a \<Rightarrow> byte list) \<Rightarrow> 'a list \<Rightarrow> 'w DumpState \<Rightarrow> 'w DumpState" where
  "DumpVector wr img xs D =
     DumpBlock wr (concat (map img xs)) (DumpInt wr (int (length xs)) D)"

text \<open>A string is written with its size, terminator included; NULL as size 0.\<close>

definition cstring_bytes :: "string \<Rightarrow> byte list" where
  "cstring_bytes s = map byte_of_char s @ [0]"

definition DumpString :: "'w writer \<Rightarrow> string option \<Rightarrow> 'w DumpState \<Rightarrow> 'w DumpState" where
  "DumpString wr s D =
     (case s of
        None \<Rightarrow> DumpBlock wr (le_bytes 8 0) D
      | Some t \<Rightarrow> DumpBlock wr (cstring_bytes t) (DumpBlock wr (le_bytes 8 (length t + 1)) D))"

definition instr_bytes :: "Instruction \<Rightarrow> byte list" where
  "instr_bytes i = le_bytes 4 (unat i)"

definition DumpCode :: "'w writer \<Rightarrow> Proto \<Rightarrow> 'w DumpState \<Rightarrow> 'w DumpState" where
  "DumpCode wr f D = DumpVector wr instr_bytes (proto_code f) D"

text \<open>One constant: its tag, then its value; other kinds of values cannot occur (an assertion in the
  source), and write the tag only.\<close>

definition DumpConstant :: "'w writer \<Rightarrow> TValue \<Rightarrow> 'w DumpState \<Rightarrow> 'w DumpState" where
  "DumpConstant wr v D =
     (let D1 = DumpChar wr (ttype v) D in
      case v of
        VBoolean b \<Rightarrow> DumpChar wr (if b then 1 else 0) D1
      | VNumber n \<Rightarrow> DumpNumber wr n D1
      | VString s \<Rightarrow> DumpString wr (Some s) D1
      | VNullString \<Rightarrow> DumpString wr None D1
      | _ \<Rightarrow> D1)"

definition DumpLocVar :: "'w writer \<Rightarrow> LocVar \<Rightarrow> 'w DumpState \<Rightarrow> 'w DumpState" where
  "DumpLocVar wr v D = DumpInt wr (endpc v) (DumpInt wr (startpc v) (DumpString wr (varname v) D))"

definition DumpDebug :: "'w writer \<Rightarrow> bool \<Rightarrow> Proto \<Rightarrow> 'w DumpState \<Rightarrow> 'w DumpState" where
  "DumpDebug wr strip f D =
     (let lineinfo = (if strip then [] else proto_lineinfo f);
          locvars = (if strip then [] else proto_locvars f);
          upvalues = (if strip then [] else proto_upvalues f);
          D1 = DumpVector wr int_bytes lineinfo D;
          D2 = fold (DumpLocVar wr) locvars (DumpInt wr (int (length locvars)) D1)
      in fold (DumpString wr) upvalues (DumpInt wr (int (length upvalues)) D2))"

text \<open>\<open>DumpFunction\<close>, with \<open>DumpConstants\<close> (which dumps the nested functions) in line. Interned
  sources are equal exactly when their contents are.\<close>

primrec DumpFunction ::
  "'w writer \<Rightarrow> bool \<Rightarrow> Proto \<Rightarrow> string option \<Rightarrow> 'w DumpState \<Rightarrow> 'w DumpState" where
  "DumpFunction wr strip (Proto k code ps lineinfo locvars upvals source ld lld nu np va ms) p D =
     (let f = Proto k code ps lineinfo locvars upvals source ld lld nu np va ms;
          D = DumpString wr (if source = p \<or> strip then None else source) D;
          D = DumpInt wr ld D;
          D = DumpInt wr lld D;
          D = DumpChar wr (uint nu) D;
          D = DumpChar wr (uint np) D;
          D = DumpChar wr (uint va) D;
          D = DumpChar wr (uint ms) D;
          D = DumpCode wr f D;
          D = fold (DumpConstant wr) k (DumpInt wr (int (length k)) D);
          D = fold (\<lambda>dump D. dump source D) (map (DumpFunction wr strip) ps)
                (DumpInt wr (int (length ps)) D)
      in DumpDebug wr strip f D)"

text \<open>The header: signature, version, format, endianness, the sizes of \<open>int\<close>, \<open>size_t\<close>,
  \<open>Instruction\<close> and \<open>lua_Number\<close>, and whether numbers are integral.\<close>

definition luaU_header :: "byte list" where
  "luaU_header = [27, 76, 117, 97, 0x51, 0, 1, 4, 8, 4, 8, 0]"

definition DumpHeader :: "'w writer \<Rightarrow> 'w DumpState \<Rightarrow> 'w DumpState" where
  "DumpHeader wr D = DumpBlock wr luaU_header D"

definition luaU_dump :: "'w writer \<Rightarrow> Proto \<Rightarrow> 'w \<Rightarrow> bool \<Rightarrow> int \<times> 'w" where
  "luaU_dump wr f w strip =
     (let D = DumpFunction wr strip f None (DumpHeader wr \<lparr>d_status = 0, d_data = w\<rparr>)
      in (d_status D, d_data D))"

section \<open>The chunk format\<close>

text \<open>The blocks each part writes.\<close>

definition string_blocks :: "string option \<Rightarrow> byte list list" where
  "string_blocks s =
     (case s of None \<Rightarrow> [le_bytes 8 0] | Some t \<Rightarrow> [le_bytes 8 (length t + 1), cstring_bytes t])"

definition vector_blocks :: "('a \<Rightarrow> byte list) \<Rightarrow> 'a list \<Rightarrow> byte list list" where
  "vector_blocks img xs = [int_bytes (int (length xs)), concat (map img xs)]"

definition constant_blocks :: "TValue \<Rightarrow> byte list list" where
  "constant_blocks v = [word_of_int (ttype v)] #
     (case v of
        VBoolean b \<Rightarrow> [[if b then 1 else 0]]
      | VNumber n \<Rightarrow> [le_bytes 8 (unat n)]
      | VString s \<Rightarrow> string_blocks (Some s)
      | VNullString \<Rightarrow> string_blocks None
      | _ \<Rightarrow> [])"

definition locvar_blocks :: "LocVar \<Rightarrow> byte list list" where
  "locvar_blocks v = string_blocks (varname v) @ [int_bytes (startpc v), int_bytes (endpc v)]"

text \<open>A counted list of items.\<close>

definition counted :: "('a \<Rightarrow> byte list list) \<Rightarrow> 'a list \<Rightarrow> byte list list" where
  "counted blk xs = int_bytes (int (length xs)) # concat (map blk xs)"

definition debug_blocks :: "bool \<Rightarrow> Proto \<Rightarrow> byte list list" where
  "debug_blocks strip f =
     vector_blocks int_bytes (if strip then [] else proto_lineinfo f)
   @ counted locvar_blocks (if strip then [] else proto_locvars f)
   @ counted string_blocks (if strip then [] else proto_upvalues f)"

primrec function_blocks :: "bool \<Rightarrow> Proto \<Rightarrow> string option \<Rightarrow> byte list list" where
  "function_blocks strip (Proto k code ps lineinfo locvars upvals source ld lld nu np va ms) p =
     string_blocks (if source = p \<or> strip then None else source)
   @ [int_bytes ld, int_bytes lld, [nu], [np], [va], [ms]]
   @ vector_blocks instr_bytes code
   @ counted constant_blocks k
   @ counted (\<lambda>blocks. blocks source) (map (function_blocks strip) ps)
   @ debug_blocks strip (Proto k code ps lineinfo locvars upvals source ld lld nu np va ms)"

text \<open>Writing a list of blocks in order.\<close>

definition write_blocks :: "'w writer \<Rightarrow> byte list list \<Rightarrow> 'w DumpState \<Rightarrow> 'w DumpState" where
  "write_blocks wr bss D = fold (DumpBlock wr) bss D"

named_theorems dump_blocks \<open>each dump operation as a list of blocks\<close>

lemma write_blocks_append [dump_blocks]:
  "write_blocks wr bss (write_blocks wr css D) = write_blocks wr (css @ bss) D"
  by (simp add: write_blocks_def)

lemma DumpBlock_blocks [dump_blocks]: "DumpBlock wr b D = write_blocks wr [b] D"
  by (simp add: write_blocks_def)

lemma simple_blocks [dump_blocks]:
  "DumpChar wr y D = write_blocks wr [[word_of_int y]] D"
  "DumpInt wr x D = write_blocks wr [int_bytes x] D"
  "DumpNumber wr n D = write_blocks wr [le_bytes 8 (unat n)] D"
  by (simp_all add: DumpChar_def DumpInt_def DumpNumber_def dump_blocks)

lemma DumpVector_blocks [dump_blocks]: "DumpVector wr img xs D = write_blocks wr (vector_blocks img xs) D"
  by (simp add: DumpVector_def vector_blocks_def dump_blocks)

lemma DumpString_blocks [dump_blocks]: "DumpString wr s D = write_blocks wr (string_blocks s) D"
  by (cases s) (simp_all add: DumpString_def string_blocks_def dump_blocks)

lemma DumpConstant_blocks [dump_blocks]:
  "DumpConstant wr v D = write_blocks wr (constant_blocks v) D"
  by (cases v) (simp_all add: DumpConstant_def constant_blocks_def dump_blocks Let_def)

lemma DumpLocVar_blocks [dump_blocks]: "DumpLocVar wr v D = write_blocks wr (locvar_blocks v) D"
  by (simp add: DumpLocVar_def locvar_blocks_def dump_blocks)

lemma fold_blocks:
  "(\<And>x D. x \<in> set xs \<Longrightarrow> dump x D = write_blocks wr (blk x) D) \<Longrightarrow>
   fold dump xs D = write_blocks wr (concat (map blk xs)) D"
proof (induction xs arbitrary: D)
  case Nil
  then show ?case by (simp add: write_blocks_def)
next
  case (Cons x xs)
  then show ?case by (simp add: dump_blocks)
qed

lemma counted_blocks:
  "(\<And>x D. x \<in> set xs \<Longrightarrow> dump x D = write_blocks wr (blk x) D) \<Longrightarrow>
   fold dump xs (DumpInt wr (int (length xs)) D) = write_blocks wr (counted blk xs) D"
  by (simp add: fold_blocks [where blk = blk] dump_blocks counted_def)

lemma DumpDebug_blocks [dump_blocks]: "DumpDebug wr strip f D = write_blocks wr (debug_blocks strip f) D"
  unfolding DumpDebug_def debug_blocks_def Let_def
  by (simp only: counted_blocks [where blk = locvar_blocks] counted_blocks [where blk = string_blocks]
      DumpLocVar_blocks DumpString_blocks DumpVector_blocks write_blocks_append append_assoc)

lemma DumpFunction_blocks [dump_blocks]:
  "DumpFunction wr strip f p D = write_blocks wr (function_blocks strip f p) D"
proof (induction f arbitrary: p D)
  case (Proto k code ps lineinfo locvars upvals source ld lld nu np va ms)
  have nested: "fold (\<lambda>dump D. dump source D) (map (DumpFunction wr strip) ps)
      (DumpInt wr (int (length ps)) D) =
    write_blocks wr (counted (\<lambda>blocks. blocks source) (map (function_blocks strip) ps)) D" for D
  proof -
    have "fold (\<lambda>dump D. dump source D) (map (DumpFunction wr strip) ps) (DumpInt wr (int (length ps)) D) =
      fold (\<lambda>f. DumpFunction wr strip f source) ps (DumpInt wr (int (length ps)) D)"
      by (simp add: fold_map comp_def)
    also have "\<dots> = write_blocks wr (counted (\<lambda>f. function_blocks strip f source) ps) D"
      using Proto.IH by (intro counted_blocks) blast
    finally show ?thesis by (simp add: counted_def comp_def)
  qed
  have kblocks: "fold (DumpConstant wr) k (DumpInt wr (int (length k)) D) =
    write_blocks wr (counted constant_blocks k) D" for D
    by (rule counted_blocks) (simp add: DumpConstant_blocks)
  show ?case
    unfolding DumpFunction.simps Let_def nested kblocks
    by (simp add: DumpCode_def dump_blocks)
qed

section \<open>What a dump writes\<close>

text \<open>A writer that appends every block to a buffer and always succeeds.\<close>

definition append_writer :: "byte list writer" where
  "append_writer w b = (0, w @ b)"

lemma append_writer_blocks:
  "d_status D = 0 \<Longrightarrow>
   write_blocks append_writer bss D = D\<lparr>d_data := d_data D @ concat bss\<rparr>"
proof (induction bss arbitrary: D)
  case Nil
  then show ?case by (simp add: write_blocks_def)
next
  case (Cons b bss)
  then show ?case
    by (simp add: write_blocks_def DumpBlock_def append_writer_def)
qed

definition chunk_bytes :: "bool \<Rightarrow> Proto \<Rightarrow> byte list" where
  "chunk_bytes strip f = luaU_header @ concat (function_blocks strip f None)"

lemma luaU_dump_append: "luaU_dump append_writer f w strip = (0, w @ chunk_bytes strip f)"
  by (simp add: luaU_dump_def Let_def DumpHeader_def DumpFunction_blocks DumpBlock_blocks
      append_writer_blocks chunk_bytes_def)

text \<open>What the callback receives: the calls up to and including the first that fails.\<close>

primrec writer_run :: "'w writer \<Rightarrow> byte list list \<Rightarrow> 'w \<Rightarrow> int \<times> 'w" where
  "writer_run wr [] w = (0, w)"
| "writer_run wr (b # bss) w = (let (st, w') = wr w b in if st = 0 then writer_run wr bss w' else (st, w'))"

lemma write_blocks_stopped: "d_status D \<noteq> 0 \<Longrightarrow> write_blocks wr bss D = D"
  by (induction bss) (simp_all add: write_blocks_def DumpBlock_def)

lemma write_blocks_run:
  "d_status D = 0 \<Longrightarrow>
   (d_status (write_blocks wr bss D), d_data (write_blocks wr bss D)) = writer_run wr bss (d_data D)"
proof (induction bss arbitrary: D)
  case Nil
  then show ?case by (simp add: write_blocks_def)
next
  case (Cons b bss)
  obtain st w where wr: "wr (d_data D) b = (st, w)" by fastforce
  have step: "write_blocks wr (b # bss) D = write_blocks wr bss (D\<lparr>d_status := st, d_data := w\<rparr>)"
    using Cons.prems wr by (simp add: write_blocks_def DumpBlock_def)
  show ?case
  proof (cases "st = 0")
    case True
    with Cons.IH [of "D\<lparr>d_status := st, d_data := w\<rparr>"] wr show ?thesis by (simp add: step)
  next
    case False
    with wr show ?thesis by (simp add: step write_blocks_stopped)
  qed
qed

text \<open>
  a dump hands its writer the blocks of the chunk format, the header and then those of the main
  function, in order, and stops calling it at the first nonzero status, which it returns: whatever the
  callback does, the outcome is that of running it over this one list of blocks.
\<close>

theorem luaU_dump_blocks:
  "luaU_dump wr f w strip = writer_run wr (luaU_header # function_blocks strip f None) w"
  using write_blocks_run [of "\<lparr>d_status = 0, d_data = w\<rparr>" wr "luaU_header # function_blocks strip f None"]
  by (simp add: luaU_dump_def Let_def DumpHeader_def dump_blocks)

end
