(* ===== verification/LZio.thy ===== *)
theory LZio
  imports LObject
begin

text \<open>
  Buffered input streams (\<open>src/lua/lzio.c\<close>, \<open>lzio.h\<close>). A stream pulls blocks from a reader callback
  and hands out bytes. The callback is the embedding program's, so it is a parameter: a function from
  its own state to a block and a new state, the empty block standing for the end of input. The byte
  counter \<open>n\<close> is kept apart from the bytes actually behind \<open>p\<close>, so that reading past a block is
  expressible (\<open>None\<close>). The locale \<open>byte_source\<close> is what the loader and the lexer need of a stream.
\<close>

section \<open>Streams\<close>

abbreviation (input) EOZ :: int where "EOZ \<equiv> -1"

type_synonym 'd reader = "'d \<Rightarrow> byte list \<times> 'd"

record 'd ZIO =
  zn :: nat
  zp :: "byte list"
  zdata :: 'd

definition char2int :: "byte \<Rightarrow> int" where
  "char2int c = uint c"

definition luaZ_fill :: "'d reader \<Rightarrow> 'd ZIO \<Rightarrow> int \<times> 'd ZIO" where
  "luaZ_fill rdr z =
     (let (buff, d) = rdr (zdata z); size = length buff in
      if size = 0 then (EOZ, z\<lparr>zdata := d\<rparr>)
      else (char2int (hd buff), z\<lparr>zn := size - 1, zp := tl buff, zdata := d\<rparr>))"

text \<open>\<open>zgetc\<close> decrements \<open>n\<close> before it looks at it, so at the end of a block the counter wraps to the
  largest \<open>size_t\<close> until \<open>luaZ_fill\<close> sets it.\<close>

definition zgetc :: "'d reader \<Rightarrow> 'd ZIO \<Rightarrow> (int \<times> 'd ZIO) option" where
  "zgetc rdr z =
     (if 0 < zn z then
        (case zp z of [] \<Rightarrow> None | c # p \<Rightarrow> Some (char2int c, z\<lparr>zn := zn z - 1, zp := p\<rparr>))
      else Some (luaZ_fill rdr (z\<lparr>zn := 2 ^ 64 - 1\<rparr>)))"

text \<open>\<open>luaZ_fill\<close> consumed the first byte of the block; it is put back.\<close>

definition luaZ_lookahead :: "'d reader \<Rightarrow> 'd ZIO \<Rightarrow> (int \<times> 'd ZIO) option" where
  "luaZ_lookahead rdr z =
     (if zn z = 0 then
        (let (c, z1) = luaZ_fill rdr z in
         if c = EOZ then Some (EOZ, z1)
         else Some (c, z1\<lparr>zn := zn z1 + 1, zp := word_of_int c # zp z1\<rparr>))
      else (case zp z of [] \<Rightarrow> None | c # _ \<Rightarrow> Some (char2int c, z)))"

definition luaZ_init :: "'d \<Rightarrow> 'd ZIO" where
  "luaZ_init d = \<lparr>zn = 0, zp = [], zdata = d\<rparr>"

lemma luaZ_lookahead_nonempty:
  "luaZ_lookahead rdr z = Some (c, z1) \<Longrightarrow> c \<noteq> EOZ \<Longrightarrow> 0 < zn z1"
  by (auto simp: luaZ_lookahead_def Let_def split: if_splits prod.splits list.splits)

text \<open>The loop of \<open>luaZ_read\<close>: the bytes still missing, the bytes copied to \<open>b\<close>, the stream.\<close>

function luaZ_read :: "'d reader \<Rightarrow> 'd ZIO \<Rightarrow> nat \<Rightarrow> byte list \<Rightarrow> (nat \<times> byte list \<times> 'd ZIO) option" where
  "luaZ_read rdr z n b =
     (if n = 0 then Some (0, b, z)
      else case luaZ_lookahead rdr z of
        None \<Rightarrow> None
      | Some (c, z1) \<Rightarrow>
          (if c = EOZ then Some (n, b, z1)
           else let m = (if n \<le> zn z1 then n else zn z1) in
             if length (zp z1) < m then None
             else luaZ_read rdr (z1\<lparr>zn := zn z1 - m, zp := drop m (zp z1)\<rparr>) (n - m)
                    (b @ take m (zp z1))))"
  by pat_completeness auto
termination
  by (relation "measure (\<lambda>(rdr, z, n, b). n)") (auto dest: luaZ_lookahead_nonempty)

declare luaZ_read.simps [simp del]

section \<open>What a stream holds\<close>

definition zio_ok :: "'d ZIO \<Rightarrow> bool" where
  "zio_ok z \<longleftrightarrow> zn z = length (zp z)"

text \<open>\<open>delivers rdr d bs\<close>: from state \<open>d\<close> the callback returns blocks that concatenate to \<open>bs\<close> and then
  the end of input, however it cuts them.\<close>

inductive delivers :: "'d reader \<Rightarrow> 'd \<Rightarrow> byte list \<Rightarrow> bool" for rdr where
  finish: "rdr d = ([], d') \<Longrightarrow> delivers rdr d []"
| block: "rdr d = (c, d') \<Longrightarrow> c \<noteq> [] \<Longrightarrow> delivers rdr d' bs \<Longrightarrow> delivers rdr d (c @ bs)"

definition zholds :: "'d reader \<Rightarrow> 'd ZIO \<Rightarrow> byte list \<Rightarrow> bool" where
  "zholds rdr z bs \<longleftrightarrow> zio_ok z \<and> (\<exists>cs. delivers rdr (zdata z) cs \<and> bs = zp z @ cs)"

lemma zholds_init: "delivers rdr d bs \<Longrightarrow> zholds rdr (luaZ_init d) bs"
  by (simp add: zholds_def luaZ_init_def zio_ok_def)

lemma delivers_Nil_iff: "delivers rdr d bs \<Longrightarrow> bs = [] \<longleftrightarrow> fst (rdr d) = []"
  by (auto elim: delivers.cases)

lemma delivers_first_block:
  "delivers rdr d bs \<Longrightarrow> bs \<noteq> [] \<Longrightarrow>
   \<exists>c d' cs. rdr d = (c, d') \<and> c \<noteq> [] \<and> delivers rdr d' cs \<and> bs = c @ cs"
  by (erule delivers.cases) auto

lemma char2int_not_EOZ [simp]: "char2int c \<noteq> EOZ" "word_of_int (char2int c) = c"
proof -
  have "0 \<le> uint c" by simp
  then show "char2int c \<noteq> EOZ" unfolding char2int_def by linarith
  show "word_of_int (char2int c) = c" by (simp add: char2int_def)
qed

lemma lookahead_holds:
  assumes "zholds rdr z bs" and "bs \<noteq> []"
  shows "\<exists>z1. luaZ_lookahead rdr z = Some (char2int (hd bs), z1) \<and> zholds rdr z1 bs \<and> zp z1 \<noteq> []"
proof (cases "zn z = 0")
  case False
  then obtain c p where "zp z = c # p"
    using assms(1) by (cases "zp z") (auto simp: zholds_def zio_ok_def)
  with False assms show ?thesis by (auto simp: luaZ_lookahead_def zholds_def)
next
  case True
  with assms have "delivers rdr (zdata z) bs" by (auto simp: zholds_def zio_ok_def)
  from delivers_first_block [OF this assms(2)] obtain c d' cs
    where c: "rdr (zdata z) = (c, d')" "c \<noteq> []" "delivers rdr d' cs" "bs = c @ cs"
    by blast
  from c(2) obtain x xs where xs: "c = x # xs" by (cases c) auto
  let ?z1 = "z\<lparr>zn := length c, zp := c, zdata := d'\<rparr>"
  have "luaZ_lookahead rdr z = Some (char2int (hd bs), ?z1)"
    using True c(1,4) xs by (simp add: luaZ_lookahead_def luaZ_fill_def)
  moreover have "zholds rdr ?z1 bs" using c(3,4) by (simp add: zholds_def zio_ok_def)
  ultimately show ?thesis using c(2) by force
qed

lemma lookahead_end:
  assumes "zholds rdr z []"
  shows "\<exists>z1. luaZ_lookahead rdr z = Some (EOZ, z1)"
proof -
  from assms have "zn z = 0" "delivers rdr (zdata z) []" by (auto simp: zholds_def zio_ok_def)
  with delivers_Nil_iff show ?thesis
    by (force simp: luaZ_lookahead_def luaZ_fill_def Let_def split: prod.splits)
qed

lemma zgetc_holds:
  assumes "zholds rdr z bs" and "bs \<noteq> []"
  shows "\<exists>z1. zgetc rdr z = Some (char2int (hd bs), z1) \<and> zholds rdr z1 (tl bs)"
proof (cases "zn z = 0")
  case False
  then obtain c p where "zp z = c # p"
    using assms(1) by (cases "zp z") (auto simp: zholds_def zio_ok_def)
  with False assms show ?thesis by (auto simp: zgetc_def zholds_def zio_ok_def)
next
  case True
  with assms have "delivers rdr (zdata z) bs" by (auto simp: zholds_def zio_ok_def)
  from delivers_first_block [OF this assms(2)] obtain c d' cs
    where c: "rdr (zdata z) = (c, d')" "c \<noteq> []" "delivers rdr d' cs" "bs = c @ cs"
    by blast
  from c(2) obtain x xs where xs: "c = x # xs" by (cases c) auto
  let ?z1 = "z\<lparr>zn := length xs, zp := xs, zdata := d'\<rparr>"
  have "zgetc rdr z = Some (char2int (hd bs), ?z1)"
    using True c(1,4) xs by (simp add: zgetc_def luaZ_fill_def)
  moreover have "zholds rdr ?z1 (tl bs)" using c(3,4) xs by (simp add: zholds_def zio_ok_def)
  ultimately show ?thesis by blast
qed

lemma read_holds:
  "zholds rdr z bs \<Longrightarrow> n \<le> length bs \<Longrightarrow>
   \<exists>z'. luaZ_read rdr z n b = Some (0, b @ take n bs, z') \<and> zholds rdr z' (drop n bs)"
proof (induction rdr z n b arbitrary: bs rule: luaZ_read.induct)
  case (1 rdr z n b)
  show ?case
  proof (cases "n = 0")
    case True
    with "1.prems" show ?thesis by (simp add: luaZ_read.simps)
  next
    case False
    with "1.prems" have "bs \<noteq> []" by auto
    with lookahead_holds "1.prems" obtain z1 where la: "luaZ_lookahead rdr z = Some (char2int (hd bs), z1)"
      and z1: "zholds rdr z1 bs" by blast
    define m where "m = (if n \<le> zn z1 then n else zn z1)"
    from z1 obtain cs where cs: "delivers rdr (zdata z1) cs" "bs = zp z1 @ cs" "zn z1 = length (zp z1)"
      by (auto simp: zholds_def zio_ok_def)
    have m: "m \<le> length (zp z1)" "m \<le> n" using cs(3) by (auto simp: m_def)
    let ?z = "z1\<lparr>zn := zn z1 - m, zp := drop m (zp z1)\<rparr>"
    have "zholds rdr ?z (drop m bs)"
      using cs m by (auto simp: zholds_def zio_ok_def)
    moreover have "n - m \<le> length (drop m bs)" using "1.prems"(2) by simp
    ultimately obtain z' where "luaZ_read rdr ?z (n - m) (b @ take m (zp z1)) =
        Some (0, (b @ take m (zp z1)) @ take (n - m) (drop m bs), z')"
      "zholds rdr z' (drop (n - m) (drop m bs))"
      using "1.IH" [OF False la refl _ m_def] m by fastforce
    moreover have "take m (zp z1) @ take (n - m) (drop m bs) = take n bs"
      using cs m by (metis append_eq_conv_conj le_add_diff_inverse take_add take_append diff_is_0_eq' take0 append_Nil2)
    ultimately show ?thesis
      using False la m by (subst luaZ_read.simps) (simp add: m_def [symmetric] Let_def)
  qed
qed

lemma read_short:
  "zholds rdr z bs \<Longrightarrow> length bs < n \<Longrightarrow>
   \<exists>z'. luaZ_read rdr z n b = Some (n - length bs, b @ bs, z')"
proof (induction rdr z n b arbitrary: bs rule: luaZ_read.induct)
  case (1 rdr z n b)
  then have n: "n \<noteq> 0" by simp
  show ?case
  proof (cases "bs = []")
    case True
    with lookahead_end "1.prems"(1) obtain z1 where "luaZ_lookahead rdr z = Some (EOZ, z1)" by blast
    with n True show ?thesis by (subst luaZ_read.simps) simp
  next
    case False
    with lookahead_holds "1.prems" obtain z1 where la: "luaZ_lookahead rdr z = Some (char2int (hd bs), z1)"
      and z1: "zholds rdr z1 bs" and ne: "zp z1 \<noteq> []" by blast
    define m where "m = (if n \<le> zn z1 then n else zn z1)"
    from z1 obtain cs where cs: "delivers rdr (zdata z1) cs" "bs = zp z1 @ cs" "zn z1 = length (zp z1)"
      by (auto simp: zholds_def zio_ok_def)
    have m: "m = length (zp z1)" using cs "1.prems"(2) by (auto simp: m_def)
    let ?z = "z1\<lparr>zn := zn z1 - m, zp := drop m (zp z1)\<rparr>"
    have "zholds rdr ?z cs" using cs m by (auto simp: zholds_def zio_ok_def)
    moreover have "length cs < n - m" using cs m "1.prems"(2) by auto
    ultimately obtain z' where "luaZ_read rdr ?z (n - m) (b @ take m (zp z1)) =
        Some (n - m - length cs, (b @ take m (zp z1)) @ cs, z')"
      using "1.IH" [OF n la refl _ m_def] m by fastforce
    moreover have "m < n" using cs(2) m "1.prems"(2) by simp
    ultimately show ?thesis
      using n la m cs by (subst luaZ_read.simps) (simp add: Let_def)
  qed
qed

section \<open>The contract\<close>

text \<open>A source of bytes: a read of at most what is left returns it and leaves the rest; a longer read
  says how much is missing.\<close>

locale byte_source =
  fixes rd :: "'s \<Rightarrow> nat \<Rightarrow> (nat \<times> byte list \<times> 's) option"
    and holds :: "'s \<Rightarrow> byte list \<Rightarrow> bool"
  assumes rd_enough: "holds s bs \<Longrightarrow> n \<le> length bs \<Longrightarrow>
      \<exists>s'. rd s n = Some (0, take n bs, s') \<and> holds s' (drop n bs)"
    and rd_short: "holds s bs \<Longrightarrow> length bs < n \<Longrightarrow>
      \<exists>s' got. rd s n = Some (n - length bs, got, s')"
begin

lemma rd_prefix:
  assumes "holds s (xs @ rest)"
  shows "\<exists>s'. rd s (length xs) = Some (0, xs, s') \<and> holds s' rest"
  using rd_enough [OF assms, of "length xs"] by simp

end

text \<open>A whole read into a fresh buffer.\<close>

definition zread :: "'d reader \<Rightarrow> 'd ZIO \<Rightarrow> nat \<Rightarrow> (nat \<times> byte list \<times> 'd ZIO) option" where
  "zread rdr z n = luaZ_read rdr z n []"

interpretation zio: byte_source "zread rdr" "zholds rdr" for rdr
proof
  show "zholds rdr s bs \<Longrightarrow> n \<le> length bs \<Longrightarrow>
      \<exists>s'. zread rdr s n = Some (0, take n bs, s') \<and> zholds rdr s' (drop n bs)" for s bs n
    using read_holds [of rdr s bs n "[]"] by (simp add: zread_def)
  show "zholds rdr s bs \<Longrightarrow> length bs < n \<Longrightarrow>
      \<exists>s' got. zread rdr s n = Some (n - length bs, got, s')" for s bs n
    using read_short [of rdr s bs n "[]"] by (auto simp: zread_def)
qed

text \<open>
  C28: reading from a stream gives the same bytes however the callback cuts its input into blocks, and
  never touches memory outside a block: from a stream that delivers \<open>bs\<close>, a read of \<open>n\<close> bytes copies
  the first \<open>n\<close> of them and reports exactly how many are missing.
\<close>

theorem luaZ_read_chunking:
  assumes "delivers rdr d bs"
  shows "\<exists>z'. luaZ_read rdr (luaZ_init d) n [] = Some (n - length bs, take n bs, z')"
  using read_holds [OF zholds_init [OF assms], of n "[]"] read_short [OF zholds_init [OF assms], of n "[]"]
  by (cases "n \<le> length bs") auto

text \<open>A callback over a list of blocks.\<close>

fun list_reader :: "byte list list reader" where
  "list_reader [] = ([], [])"
| "list_reader (b # bs) = (b, bs)"

theorem luaZ_read_chunking_witness:
  "\<exists>z'. luaZ_read list_reader (luaZ_init [[1, 2], [3], [4, 5, 6]]) 5 [] = Some (0, [1, 2, 3, 4, 5], z')"
proof -
  have "delivers list_reader [[1, 2], [3], [4, 5, 6]] ([1, 2] @ [3] @ [4, 5, 6] @ [])"
    by (rule delivers.block [where d' = "[[3], [4, 5, 6]]"], simp, simp,
      rule delivers.block [where d' = "[[4, 5, 6]]"], simp, simp,
      rule delivers.block [where d' = "[]"], simp, simp, rule delivers.finish, simp)
  from luaZ_read_chunking [OF this, of 5] show ?thesis by simp
qed

section \<open>Growing buffers\<close>

abbreviation (input) LUA_MINBUFFER :: nat where "LUA_MINBUFFER \<equiv> 32"

record Mbuffer =
  buffer :: "byte list"
  buf_n :: nat
  buffsize :: nat

text \<open>\<open>luaM_reallocvector\<close> keeps the old contents up to the new size.\<close>

definition luaZ_resizebuffer :: "Mbuffer \<Rightarrow> nat \<Rightarrow> Mbuffer" where
  "luaZ_resizebuffer b sz =
     b\<lparr>buffer := take sz (buffer b) @ replicate (sz - length (buffer b)) 0, buffsize := sz\<rparr>"

definition luaZ_openspace :: "Mbuffer \<Rightarrow> nat \<Rightarrow> Mbuffer" where
  "luaZ_openspace b n =
     (if buffsize b < n then
        luaZ_resizebuffer b (if n < LUA_MINBUFFER then LUA_MINBUFFER else n)
      else b)"

lemma luaZ_openspace_room:
  assumes "length (buffer b) = buffsize b"
  shows "length (buffer (luaZ_openspace b n)) = buffsize (luaZ_openspace b n)"
    and "n \<le> buffsize (luaZ_openspace b n)"
    and "take (buffsize b) (buffer (luaZ_openspace b n)) = buffer b"
  using assms by (auto simp: luaZ_openspace_def luaZ_resizebuffer_def)

end
