(* ===== verification/LString.thy ===== *)
theory LString
  imports LObject "HOL-Library.Multiset"
begin

text \<open>
  The string table (\<open>src/lua/lstring.c\<close>): every string is kept once, in a hash table of chains, so that
  the rest of the program compares strings by address. A string object carries its address, the colour
  bits of the collector, its hash and its characters; the address of a new object is what the allocator
  returns, a parameter. A chain is a list, its head first.
\<close>

section \<open>Hashing\<close>

text \<open>The loop over \<open>l1\<close>, with \<open>step = s + 1\<close>.\<close>

function hash_loop :: "string \<Rightarrow> nat \<Rightarrow> nat \<Rightarrow> u32 \<Rightarrow> u32" where
  "hash_loop str s l1 h =
     (if s + 1 \<le> l1 then
        hash_loop str s (l1 - (s + 1))
          (h XOR (push_bit 5 h + drop_bit 2 h + ucast (byte_of_char (str ! (l1 - 1)))))
      else h)"
  by pat_completeness auto
termination
  by (relation "measure (\<lambda>(str, s, l1, h). l1)") auto

declare hash_loop.simps [simp del]

definition luaS_hash :: "string \<Rightarrow> u32" where
  "luaS_hash str = hash_loop str (drop_bit 5 (length str)) (length str) (of_nat (length str))"

text \<open>\<open>lmod\<close>: the remainder by a power of two.\<close>

definition lmod :: "u32 \<Rightarrow> nat \<Rightarrow> nat" where
  "lmod s sz = unat s AND (sz - 1)"

lemma lmod_pow2: "lmod s (2 ^ k) = unat s mod 2 ^ k"
proof -
  have "2 ^ k - 1 = (mask k :: nat)" by (simp add: mask_eq_exp_minus_1)
  then show ?thesis unfolding lmod_def by (simp add: take_bit_eq_mask [symmetric] take_bit_eq_mod)
qed

lemma lmod_less: "lmod s (2 ^ k) < 2 ^ k"
  by (simp add: lmod_pow2)

section \<open>The table\<close>

record TString =
  ts_addr :: addr
  ts_marked :: byte
  ts_hash :: u32
  ts_chars :: string

record stringtable =
  strt_hash :: "TString list list"
  nuse :: u32

abbreviation (input) strt_size :: "stringtable \<Rightarrow> nat" where
  "strt_size tb \<equiv> length (strt_hash tb)"

definition chain_string :: "TString \<Rightarrow> TString list list \<Rightarrow> TString list list" where
  "chain_string p newhash =
     (let h1 = lmod (ts_hash p) (length newhash) in newhash[h1 := p # newhash ! h1])"

text \<open>\<open>luaS_resize\<close>; \<open>sweeping\<close> tells that the collector is traversing the table.\<close>

definition luaS_resize :: "bool \<Rightarrow> nat \<Rightarrow> stringtable \<Rightarrow> stringtable" where
  "luaS_resize sweeping newsize tb =
     (if sweeping then tb
      else tb\<lparr>strt_hash := fold chain_string (concat (strt_hash tb)) (replicate newsize [])\<rparr>)"

abbreviation (input) MAX_SIZET :: nat where "MAX_SIZET \<equiv> 2 ^ 64 - 3"
abbreviation (input) MAX_INT :: nat where "MAX_INT \<equiv> 2 ^ 31 - 3"
abbreviation (input) sizeof_TString :: nat where "sizeof_TString \<equiv> 24"

text \<open>\<open>newlstr\<close>: \<open>white\<close> is the current colour of new objects, \<open>new\<close> the address the allocator returns.\<close>

definition newlstr ::
  "bool \<Rightarrow> byte \<Rightarrow> addr \<Rightarrow> string \<Rightarrow> u32 \<Rightarrow> stringtable \<Rightarrow> (TString \<times> stringtable) res" where
  "newlstr sweeping white new str h tb =
     (if length str + 1 > MAX_SIZET - sizeof_TString
      then RErr (LUA_ERRRUN ''memory allocation error: block too big'')
      else
        let ts = \<lparr>ts_addr = new, ts_marked = white, ts_hash = h, ts_chars = str\<rparr>;
            h1 = lmod h (strt_size tb);
            tb1 = tb\<lparr>strt_hash := (strt_hash tb)[h1 := ts # strt_hash tb ! h1], nuse := nuse tb + 1\<rparr>;
            tb2 = (if nuse tb1 > of_nat (strt_size tb1) \<and> strt_size tb1 \<le> MAX_INT div 2
                   then luaS_resize sweeping (strt_size tb1 * 2) tb1 else tb1)
        in ROk (ts, tb2))"

abbreviation (input) WHITEBITS :: byte where "WHITEBITS \<equiv> 3"

definition isdead :: "byte \<Rightarrow> byte \<Rightarrow> bool" where
  "isdead currentwhite marked \<longleftrightarrow> marked AND (currentwhite XOR WHITEBITS) AND WHITEBITS \<noteq> 0"

definition changewhite :: "byte \<Rightarrow> byte" where
  "changewhite marked = marked XOR WHITEBITS"

text \<open>The search along a chain: the object found, resurrected if it was dead, and the chain after it.\<close>

fun find_string :: "byte \<Rightarrow> string \<Rightarrow> TString list \<Rightarrow> (TString \<times> TString list) option" where
  "find_string cw str [] = None"
| "find_string cw str (ts # rest) =
     (if ts_chars ts = str then
        (let ts' = (if isdead cw (ts_marked ts) then ts\<lparr>ts_marked := changewhite (ts_marked ts)\<rparr> else ts)
         in Some (ts', ts' # rest))
      else case find_string cw str rest of None \<Rightarrow> None | Some (t, rest') \<Rightarrow> Some (t, ts # rest'))"

text \<open>\<open>luaS_newlstr\<close>; \<open>luaC_white\<close> is the current white.\<close>

definition luaS_newlstr ::
  "bool \<Rightarrow> byte \<Rightarrow> addr \<Rightarrow> string \<Rightarrow> stringtable \<Rightarrow> (TString \<times> stringtable) res" where
  "luaS_newlstr sweeping cw new str tb =
     (let h = luaS_hash str; h1 = lmod h (strt_size tb) in
      case find_string cw str (strt_hash tb ! h1) of
        Some (ts, chain) \<Rightarrow> ROk (ts, tb\<lparr>strt_hash := (strt_hash tb)[h1 := chain]\<rparr>)
      | None \<Rightarrow> newlstr sweeping (cw AND WHITEBITS) new str h tb)"

section \<open>The invariant\<close>

text \<open>The strings of a table, and its well-formedness: a power of two of chains, every string in the
  chain of its hash, no two with the same characters or address, and the count of strings kept (modulo
  \<open>2 ^ 32\<close>).\<close>

definition strings :: "stringtable \<Rightarrow> TString multiset" where
  "strings tb = mset (concat (strt_hash tb))"

definition in_place :: "TString list list \<Rightarrow> bool" where
  "in_place hs \<longleftrightarrow> (\<forall>i < length hs. \<forall>ts \<in> set (hs ! i).
     ts_hash ts = luaS_hash (ts_chars ts) \<and> lmod (ts_hash ts) (length hs) = i)"

definition strt_ok :: "stringtable \<Rightarrow> bool" where
  "strt_ok tb \<longleftrightarrow> (\<exists>k. strt_size tb = 2 ^ k) \<and> in_place (strt_hash tb)
     \<and> distinct (map ts_chars (concat (strt_hash tb))) \<and> distinct (map ts_addr (concat (strt_hash tb)))
     \<and> nuse tb = of_nat (length (concat (strt_hash tb)))"

lemma mset_concat_update:
  "i < length hs \<Longrightarrow> mset (concat (hs[i := x # hs ! i])) = add_mset x (mset (concat hs))"
proof (induction hs arbitrary: i)
  case Nil
  then show ?case by simp
next
  case (Cons h hs)
  then show ?case by (cases i) simp_all
qed

lemma chain_string_step:
  assumes "length hs = 2 ^ k" and "in_place hs" and "ts_hash ts = luaS_hash (ts_chars ts)"
  shows "length (chain_string ts hs) = 2 ^ k" "in_place (chain_string ts hs)"
    "mset (concat (chain_string ts hs)) = add_mset ts (mset (concat hs))"
proof -
  have h: "lmod (ts_hash ts) (length hs) < length hs" unfolding assms(1) by (rule lmod_less)
  show "length (chain_string ts hs) = 2 ^ k" using assms(1) by (simp add: chain_string_def Let_def)
  show "mset (concat (chain_string ts hs)) = add_mset ts (mset (concat hs))"
    unfolding chain_string_def Let_def by (rule mset_concat_update [OF h])
  show "in_place (chain_string ts hs)"
    unfolding in_place_def
  proof (intro allI impI ballI)
    fix i t
    assume i: "i < length (chain_string ts hs)" and t: "t \<in> set (chain_string ts hs ! i)"
    have len: "length (chain_string ts hs) = length hs" by (simp add: chain_string_def Let_def)
    have "t \<in> set (hs ! i) \<or> t = ts \<and> i = lmod (ts_hash ts) (length hs)"
      using t i len h by (auto simp: chain_string_def Let_def nth_list_update split: if_splits)
    then show "ts_hash t = luaS_hash (ts_chars t) \<and> lmod (ts_hash t) (length (chain_string ts hs)) = i"
      using assms(2,3) i len unfolding in_place_def by metis
  qed
qed

lemma fold_chain_string:
  assumes "length hs = 2 ^ k" and "in_place hs" and "\<And>ts. ts \<in> set tss \<Longrightarrow> ts_hash ts = luaS_hash (ts_chars ts)"
  shows "length (fold chain_string tss hs) = 2 ^ k \<and> in_place (fold chain_string tss hs)
    \<and> mset (concat (fold chain_string tss hs)) = mset tss + mset (concat hs)"
  using assms
proof (induction tss arbitrary: hs)
  case Nil
  then show ?case by simp
next
  case (Cons ts tss)
  note step = chain_string_step [OF Cons.prems(1,2), of ts]
  have "ts_hash ts = luaS_hash (ts_chars ts)" by (simp add: Cons.prems(3))
  with Cons.IH [of "chain_string ts hs"] Cons.prems(3) step show ?case by simp
qed

lemma distinct_map_mset: "mset xs = mset ys \<Longrightarrow> distinct (map f xs) \<longleftrightarrow> distinct (map f ys)"
  by (metis mset_eq_imp_distinct_iff mset_map)

lemma in_place_hash: "in_place hs \<Longrightarrow> ts \<in> set (concat hs) \<Longrightarrow> ts_hash ts = luaS_hash (ts_chars ts)"
  unfolding in_place_def by (metis UN_E in_set_conv_nth set_concat)

lemma strt_ok_mset:
  assumes "mset (concat (strt_hash tb')) = mset (concat (strt_hash tb))" "nuse tb' = nuse tb"
    "strt_size tb' = 2 ^ k" "in_place (strt_hash tb')" "strt_ok tb"
  shows "strt_ok tb'"
  using assms distinct_map_mset [OF assms(1)] mset_eq_length [OF assms(1)]
  unfolding strt_ok_def by metis

lemma resized_chains:
  assumes "in_place hs"
  shows "length (fold chain_string (concat hs) (replicate (2 ^ k) [])) = 2 ^ k"
    "in_place (fold chain_string (concat hs) (replicate (2 ^ k) []))"
    "mset (concat (fold chain_string (concat hs) (replicate (2 ^ k) []))) = mset (concat hs)"
proof -
  have "in_place (replicate (2 ^ k) [])" by (simp add: in_place_def)
  moreover have "concat (replicate (2 ^ k) []) = []" by simp
  moreover note fold_chain_string [of "replicate (2 ^ k) []" k "concat hs", OF _ _ in_place_hash [OF assms]]
  ultimately show "length (fold chain_string (concat hs) (replicate (2 ^ k) [])) = 2 ^ k"
    "in_place (fold chain_string (concat hs) (replicate (2 ^ k) []))"
    "mset (concat (fold chain_string (concat hs) (replicate (2 ^ k) []))) = mset (concat hs)"
    by simp_all
qed

lemma luaS_resize_ok:
  assumes "strt_ok tb"
  shows "strt_ok (luaS_resize sweeping (2 ^ k) tb)" "strings (luaS_resize sweeping (2 ^ k) tb) = strings tb"
proof -
  have "in_place (strt_hash tb)" using assms by (simp add: strt_ok_def)
  note new = resized_chains [OF this, of k]
  let ?tb = "tb\<lparr>strt_hash := fold chain_string (concat (strt_hash tb)) (replicate (2 ^ k) [])\<rparr>"
  have "strt_ok ?tb" by (rule strt_ok_mset [OF _ _ _ _ assms]) (simp_all add: new)
  with assms show "strt_ok (luaS_resize sweeping (2 ^ k) tb)" by (simp add: luaS_resize_def)
  show "strings (luaS_resize sweeping (2 ^ k) tb) = strings tb"
    unfolding luaS_resize_def strings_def by (simp add: new)
qed

section \<open>Interning\<close>

text \<open>What identifies a string, whatever its colour.\<close>

definition strip_mark :: "TString \<Rightarrow> addr \<times> u32 \<times> string" where
  "strip_mark ts = (ts_addr ts, ts_hash ts, ts_chars ts)"

lemma find_string_None: "find_string cw str chain = None \<longleftrightarrow> (\<forall>ts \<in> set chain. ts_chars ts \<noteq> str)"
  by (induction chain) (auto simp: Let_def split: option.splits)

lemma find_string_Some:
  "find_string cw str chain = Some (ts, chain') \<Longrightarrow>
   ts_chars ts = str \<and> ts \<in> set chain' \<and> map strip_mark chain' = map strip_mark chain"
proof (induction chain arbitrary: chain')
  case Nil
  then show ?case by simp
next
  case (Cons t rest)
  then show ?case
    by (auto simp: Let_def strip_mark_def split: if_splits option.splits)
qed

lemma map_concat_update:
  "i < length hs \<Longrightarrow> map f c = map f (hs ! i) \<Longrightarrow> map f (concat (hs[i := c])) = map f (concat hs)"
proof (induction hs arbitrary: i)
  case Nil
  then show ?case by simp
next
  case (Cons h hs)
  then show ?case by (cases i) simp_all
qed

lemma strip_mark_fields:
  assumes "map strip_mark xs = map strip_mark ys"
  shows "map ts_chars xs = map ts_chars ys" "map ts_addr xs = map ts_addr ys" "map ts_hash xs = map ts_hash ys"
proof -
  have "map (f \<circ> strip_mark) xs = map (f \<circ> strip_mark) ys" for f :: "addr \<times> u32 \<times> string \<Rightarrow> 'a"
    using assms by (metis map_map)
  from this [of "\<lambda>(a, h, c). c"] this [of "\<lambda>(a, h, c). a"] this [of "\<lambda>(a, h, c). h"]
  show "map ts_chars xs = map ts_chars ys" "map ts_addr xs = map ts_addr ys" "map ts_hash xs = map ts_hash ys"
    by (simp_all add: comp_def strip_mark_def)
qed

lemma in_place_recoloured:
  assumes "in_place hs" and "map strip_mark c = map strip_mark (hs ! i)" and "i < length hs"
  shows "in_place (hs[i := c])"
  unfolding in_place_def
proof (intro allI impI ballI)
  fix j t
  assume j: "j < length (hs[i := c])" and t: "t \<in> set (hs[i := c] ! j)"
  have "\<exists>t' \<in> set (hs ! j). strip_mark t' = strip_mark t"
  proof (cases "j = i")
    case True
    with t j have "strip_mark t \<in> set (map strip_mark c)" by simp
    then have "strip_mark t \<in> set (map strip_mark (hs ! i))" by (simp only: assms(2))
    with True show ?thesis by auto
  next
    case False
    with t show ?thesis by auto
  qed
  then obtain t' where "t' \<in> set (hs ! j)" "ts_hash t = ts_hash t'" "ts_chars t = ts_chars t'"
    by (auto simp: strip_mark_def)
  with assms(1) j show "ts_hash t = luaS_hash (ts_chars t) \<and> lmod (ts_hash t) (length (hs[i := c])) = j"
    unfolding in_place_def by (metis length_list_update)
qed

text \<open>The two ways a call ends.\<close>

lemma newlstr_found:
  assumes ok: "strt_ok tb" and h1: "h1 = lmod (luaS_hash str) (strt_size tb)"
    and found: "find_string cw str (strt_hash tb ! h1) = Some (ts, chain)"
  defines "tb' \<equiv> tb\<lparr>strt_hash := (strt_hash tb)[h1 := chain]\<rparr>"
  shows "strt_ok tb'" "ts \<in># strings tb'" "ts_chars ts = str"
    "image_mset strip_mark (strings tb') = image_mset strip_mark (strings tb)"
proof -
  have pos: "h1 < strt_size tb" using ok unfolding h1 strt_ok_def by (metis lmod_less)
  from find_string_Some [OF found] have ts: "ts_chars ts = str" "ts \<in> set chain"
    and chain: "map strip_mark chain = map strip_mark (strt_hash tb ! h1)" by auto
  show "ts_chars ts = str" by (rule ts(1))
  have "chain \<in> set ((strt_hash tb)[h1 := chain])" by (rule set_update_memI [OF pos])
  with ts(2) show "ts \<in># strings tb'" by (auto simp: strings_def tb'_def)
  have same: "map strip_mark (concat (strt_hash tb')) = map strip_mark (concat (strt_hash tb))"
    unfolding tb'_def by (simp add: map_concat_update [OF pos chain] del: map_concat)
  then show "image_mset strip_mark (strings tb') = image_mset strip_mark (strings tb)"
    unfolding strings_def by (metis mset_map)
  have "in_place (strt_hash tb')"
    using ok in_place_recoloured [OF _ chain pos] by (simp add: strt_ok_def tb'_def)
  moreover have "length (concat (strt_hash tb')) = length (concat (strt_hash tb))"
    using same by (metis length_map)
  moreover have "strt_size tb' = strt_size tb" "nuse tb' = nuse tb" by (simp_all add: tb'_def)
  ultimately show "strt_ok tb'"
    using ok strip_mark_fields(1,2) [OF same] unfolding strt_ok_def by metis
qed

lemma add_string_ok:
  assumes ok: "strt_ok tb" and new: "\<And>t. t \<in># strings tb \<Longrightarrow> ts_addr t \<noteq> ts_addr ts \<and> ts_chars t \<noteq> ts_chars ts"
    and h: "ts_hash ts = luaS_hash (ts_chars ts)"
  defines "tb' \<equiv> tb\<lparr>strt_hash := chain_string ts (strt_hash tb), nuse := nuse tb + 1\<rparr>"
  shows "strt_ok tb'" "strings tb' = add_mset ts (strings tb)"
proof -
  from ok obtain k where k: "strt_size tb = 2 ^ k" "in_place (strt_hash tb)" by (auto simp: strt_ok_def)
  note step = chain_string_step [OF k h]
  show str: "strings tb' = add_mset ts (strings tb)"
    unfolding strings_def tb'_def by (simp add: step(3))
  have m: "mset (concat (strt_hash tb')) = mset (ts # concat (strt_hash tb))"
    using step(3) by (simp add: tb'_def)
  have "distinct (map ts_chars (ts # concat (strt_hash tb)))" "distinct (map ts_addr (ts # concat (strt_hash tb)))"
    using ok new unfolding strt_ok_def strings_def by (force simp del: set_concat)+
  then have "distinct (map ts_chars (concat (strt_hash tb')))" "distinct (map ts_addr (concat (strt_hash tb')))"
    using distinct_map_mset [OF m] by blast+
  moreover have "nuse tb' = of_nat (length (concat (strt_hash tb')))"
    using ok mset_eq_length [OF m] by (simp add: strt_ok_def tb'_def)
  ultimately show "strt_ok tb'"
    using step(1,2) unfolding strt_ok_def by (auto simp: tb'_def)
qed

lemma newlstr_added:
  assumes ok: "strt_ok tb" and new: "\<And>t. t \<in># strings tb \<Longrightarrow> ts_addr t \<noteq> new \<and> ts_chars t \<noteq> str"
    and len: "length str + 1 \<le> MAX_SIZET - sizeof_TString"
  shows "\<exists>ts tb'. newlstr sweeping white new str (luaS_hash str) tb = ROk (ts, tb') \<and> strt_ok tb'
     \<and> strip_mark ts = (new, luaS_hash str, str) \<and> strings tb' = add_mset ts (strings tb)"
proof -
  define ts where "ts = \<lparr>ts_addr = new, ts_marked = white, ts_hash = luaS_hash str, ts_chars = str\<rparr>"
  define tb1 where "tb1 = tb\<lparr>strt_hash := chain_string ts (strt_hash tb), nuse := nuse tb + 1\<rparr>"
  have tb1: "strt_ok tb1" "strings tb1 = add_mset ts (strings tb)"
    unfolding tb1_def by (rule add_string_ok [OF ok]; use new in \<open>auto simp: ts_def\<close>)+
  then obtain k where k: "strt_size tb1 = 2 ^ k" by (auto simp: strt_ok_def)
  define tb2 where "tb2 = (if nuse tb1 > of_nat (strt_size tb1) \<and> strt_size tb1 \<le> MAX_INT div 2
                   then luaS_resize sweeping (strt_size tb1 * 2) tb1 else tb1)"
  have "strt_size tb1 * 2 = 2 ^ Suc k" using k by simp
  then have "strt_ok tb2" "strings tb2 = strings tb1"
    unfolding tb2_def using luaS_resize_ok [OF tb1(1), of sweeping "Suc k"] tb1(1) by presburger+
  moreover have "newlstr sweeping white new str (luaS_hash str) tb = ROk (ts, tb2)"
    using len unfolding newlstr_def tb2_def tb1_def chain_string_def ts_def Let_def by simp
  ultimately show ?thesis using tb1(2) by (intro exI [of _ ts] exI [of _ tb2]) (simp add: strip_mark_def ts_def)
qed

lemma chain_complete:
  assumes "strt_ok tb" "t \<in># strings tb"
  shows "t \<in> set (strt_hash tb ! lmod (luaS_hash (ts_chars t)) (strt_size tb))"
proof -
  from assms(2) obtain i where i: "i < strt_size tb" "t \<in> set (strt_hash tb ! i)"
    by (auto simp: strings_def in_set_conv_nth [of _ "strt_hash tb"])
  with assms(1) have "lmod (luaS_hash (ts_chars t)) (strt_size tb) = i"
    unfolding strt_ok_def in_place_def by (metis (no_types))
  with i show ?thesis by simp
qed

lemma strings_unique:
  assumes "strt_ok tb" "t \<in># strings tb" "u \<in># strings tb" "ts_chars t = ts_chars u"
  shows "t = u"
  using assms by (auto simp: strt_ok_def strings_def distinct_map inj_on_def)

text \<open>
  C15: strings are interned. In a well-formed table \<open>luaS_newlstr\<close> returns an object with the given
  characters, the only one in the resulting table, which is again well formed (through any growth of
  the table); it is the object already there if there was one, and otherwise a new one, at the address
  the allocator gave; the other strings keep their addresses, hashes and characters.
\<close>

theorem luaS_newlstr_interns:
  assumes ok: "strt_ok tb" and new: "\<forall>t. t \<in># strings tb \<longrightarrow> ts_addr t \<noteq> new"
    and len: "length str + 1 \<le> MAX_SIZET - sizeof_TString"
  shows "\<exists>ts tb'. luaS_newlstr sweeping cw new str tb = ROk (ts, tb') \<and> strt_ok tb'
     \<and> ts \<in># strings tb' \<and> ts_chars ts = str \<and> (\<forall>t. t \<in># strings tb' \<longrightarrow> ts_chars t = str \<longrightarrow> t = ts)
     \<and> image_mset strip_mark (strings tb') =
        (if \<exists>t. t \<in># strings tb \<and> ts_chars t = str then image_mset strip_mark (strings tb)
         else add_mset (new, luaS_hash str, str) (image_mset strip_mark (strings tb)))"
proof -
  define h1 where "h1 = lmod (luaS_hash str) (strt_size tb)"
  have pos: "h1 < strt_size tb" using ok unfolding h1_def strt_ok_def by (metis lmod_less)
  then have in_chain: "t \<in># strings tb" if "t \<in> set (strt_hash tb ! h1)" for t
    using that by (auto simp: strings_def)
  show ?thesis
  proof (cases "find_string cw str (strt_hash tb ! h1)")
    case None
    have absent: "ts_chars t \<noteq> str" if "t \<in># strings tb" for t
      using chain_complete [OF ok that] None unfolding find_string_None h1_def by auto
    with newlstr_added [OF ok _ len, of new sweeping "cw AND WHITEBITS"] new obtain ts tb'
      where "newlstr sweeping (cw AND WHITEBITS) new str (luaS_hash str) tb = ROk (ts, tb')" "strt_ok tb'"
        "strip_mark ts = (new, luaS_hash str, str)" "strings tb' = add_mset ts (strings tb)" by blast
    with absent None show ?thesis
      unfolding luaS_newlstr_def Let_def h1_def
      by (intro exI [of _ ts] exI [of _ tb']) (auto simp: strip_mark_def)
  next
    case (Some r)
    obtain ts chain where r: "r = (ts, chain)" by fastforce
    note found = newlstr_found [OF ok h1_def Some [unfolded r]]
    from Some have "\<exists>t. t \<in># strings tb \<and> ts_chars t = str"
      using find_string_None [of cw str "strt_hash tb ! h1"] in_chain by fastforce
    with found Some r show ?thesis
      unfolding luaS_newlstr_def Let_def h1_def
      by (intro exI [of _ ts] exI) (auto intro: strings_unique)
  qed
qed

definition small_strt :: stringtable where
  "small_strt = \<lparr>strt_hash =
     [[\<lparr>ts_addr = 8, ts_marked = 1, ts_hash = luaS_hash ''a'', ts_chars = ''a''\<rparr>], []], nuse = 1\<rparr>"

theorem luaS_newlstr_interns_witness:
  "strt_ok small_strt \<and> (\<exists>ts tb'. luaS_newlstr False 1 16 ''a'' small_strt = ROk (ts, tb') \<and> strt_ok tb'
     \<and> ts_addr ts = 8)"
proof -
  have hash: "lmod (luaS_hash ''a'') 2 = 0" by code_simp
  then have ok: "strt_ok small_strt"
    unfolding strt_ok_def in_place_def small_strt_def
    by (auto simp: less_Suc_eq numeral_2_eq_2 intro: exI [of _ 1])
  have strs: "strings small_strt =
      {# \<lparr>ts_addr = 8, ts_marked = 1, ts_hash = luaS_hash ''a'', ts_chars = ''a''\<rparr> #}"
    by (simp add: strings_def small_strt_def)
  from luaS_newlstr_interns [OF ok, of 16 "''a''" False 1] obtain ts tb'
    where "luaS_newlstr False 1 16 ''a'' small_strt = ROk (ts, tb')" "strt_ok tb'" "ts \<in># strings tb'"
      "image_mset strip_mark (strings tb') = image_mset strip_mark (strings small_strt)"
    by (auto simp: strs)
  moreover from this(3) have "strip_mark ts \<in># image_mset strip_mark (strings tb')" by simp
  ultimately show ?thesis using ok by (auto simp: strs strip_mark_def)
qed

end
