(* ===== verification/LUndump.thy ===== *)
theory LUndump
  imports LDump LZio LDebug LString "HOL-Library.Sublist"
begin

text \<open>
  Loading a binary chunk (\<open>src/lua/lundump.c\<close>). The loader is written over any source of bytes \<open>rd\<close>
  and any memory manager \<open>mem\<close>; \<open>luaU_undump\<close> runs it on a stream. Its outcomes are those of \<open>res\<close>:
  undefined behaviour (a read outside a stream's block, a signed overflow), the error thrown, or the
  value read with the state after it.
\<close>

section \<open>The loader\<close>

type_synonym 's source = "'s \<Rightarrow> nat \<Rightarrow> (nat \<times> byte list \<times> 's) option"

text \<open>What the loader asks memory for: a vector of so many elements of a size, the buffer resized, the
  string object, the function object with its place on the stack, the text of an error message. The
  memory manager \<open>mem\<close> stands for the allocator the host installs, which is not part of the program:
  it answers \<open>None\<close> when an allocation for the request fails. A request that needs no allocation, as
  for a string that already exists, is one it answers with \<open>Some\<close>.\<close>

datatype request = Vector nat nat | Buffer nat | String string | Function | Message string

type_synonym 'm memory = "'m \<Rightarrow> request \<Rightarrow> 'm option"

record ('s, 'm) LoadState =
  load_Z :: 's
  load_b :: Mbuffer
  load_heap :: 'm

type_synonym ('s, 'm, 'a) loader = "('s, 'm) LoadState \<Rightarrow> ('a \<times> ('s, 'm) LoadState) res"

definition lret :: "'a \<Rightarrow> ('s, 'm, 'a) loader" where
  "lret x s = ROk (x, s)"

definition lbind :: "('s, 'm, 'a) loader \<Rightarrow> ('a \<Rightarrow> ('s, 'm, 'b) loader) \<Rightarrow> ('s, 'm, 'b) loader" where
  "lbind m k s = (case m s of RUndef \<Rightarrow> RUndef | RErr e \<Rightarrow> RErr e | ROk (x, s') \<Rightarrow> k x s')"

primrec ltimes :: "nat \<Rightarrow> ('s, 'm, 'a) loader \<Rightarrow> ('s, 'm, 'a list) loader" where
  "ltimes 0 ld = lret []"
| "ltimes (Suc n) ld = lbind ld (\<lambda>x. lbind (ltimes n ld) (\<lambda>xs. lret (x # xs)))"

definition chunk_error :: "string \<Rightarrow> string \<Rightarrow> lua_error" where
  "chunk_error name why = LUA_ERRSYNTAX (name @ '': '' @ why @ '' in precompiled chunk'')"

definition ask :: "'m memory \<Rightarrow> request \<Rightarrow> ('s, 'm, unit) loader" where
  "ask mem r S =
     (case mem (load_heap S) r of
        None \<Rightarrow> RErr LUA_ERRMEM
      | Some m \<Rightarrow> ROk ((), S\<lparr>load_heap := m\<rparr>))"

definition load_error :: "'m memory \<Rightarrow> string \<Rightarrow> string \<Rightarrow> ('s, 'm, 'a) loader" where
  "load_error mem name why =
     lbind (ask mem (Message (name @ '': '' @ why @ '' in precompiled chunk'')))
       (\<lambda>_ S. RErr (chunk_error name why))"

text \<open>Vectors (\<open>src/lua/lmem.h\<close>, \<open>src/lua/lmem.c\<close>): \<open>luaM_toobig\<close>; \<open>luaM_reallocv\<close> for an \<open>n\<close> of type \<open>size_t\<close>,
  where \<open>n + 1\<close> wraps, and \<open>luaM_newvector\<close> for an \<open>n\<close> of type \<open>int\<close>, where it may overflow.\<close>

definition block_too_big :: string where
  "block_too_big = ''memory allocation error: block too big''"

definition luaM_toobig :: "'m memory \<Rightarrow> ('s, 'm, 'a) loader" where
  "luaM_toobig mem = lbind (ask mem (Message block_too_big)) (\<lambda>_ S. RErr (LUA_ERRRUN block_too_big))"

definition luaM_reallocv :: "'m memory \<Rightarrow> nat \<Rightarrow> nat \<Rightarrow> request \<Rightarrow> ('s, 'm, unit) loader" where
  "luaM_reallocv mem n e r =
     (if (n + 1) mod 2 ^ 64 \<le> MAX_SIZET div e then ask mem r else luaM_toobig mem)"

definition luaM_newvector :: "'m memory \<Rightarrow> int \<Rightarrow> nat \<Rightarrow> ('s, 'm, unit) loader" where
  "luaM_newvector mem n e S =
     (if n + 1 \<ge> 2 ^ 31 then RUndef else luaM_reallocv mem (nat n) e (Vector (nat n) e) S)"

text \<open>The space for a string in the buffer.\<close>

definition load_openspace :: "'m memory \<Rightarrow> nat \<Rightarrow> ('s, 'm, unit) loader" where
  "load_openspace mem n S =
     (if n > buffsize (load_b S) then
        (let n' = (if n < LUA_MINBUFFER then LUA_MINBUFFER else n) in
         lbind (luaM_reallocv mem n' 1 (Buffer n'))
           (\<lambda>_ S. ROk ((), S\<lparr>load_b := luaZ_openspace (load_b S) n\<rparr>)) S)
      else ROk ((), S))"

text \<open>A string made by \<open>luaS_newlstr\<close>, kept here as its characters.\<close>

definition load_newlstr :: "'m memory \<Rightarrow> string \<Rightarrow> ('s, 'm, unit) loader" where
  "load_newlstr mem str =
     (if length str + 1 > MAX_SIZET - sizeof_TString then luaM_toobig mem else ask mem (String str))"

definition LoadBlock :: "'m memory \<Rightarrow> 's source \<Rightarrow> string \<Rightarrow> nat \<Rightarrow> ('s, 'm, byte list) loader" where
  "LoadBlock mem rd name sz S =
     (case rd (load_Z S) sz of
        None \<Rightarrow> RUndef
      | Some (r, b, z) \<Rightarrow>
          if r \<noteq> 0 then load_error mem name ''unexpected end'' (S\<lparr>load_Z := z\<rparr>)
          else ROk (b, S\<lparr>load_Z := z\<rparr>))"

text \<open>\<open>char\<close> is signed.\<close>

definition LoadChar :: "'m memory \<Rightarrow> 's source \<Rightarrow> string \<Rightarrow> ('s, 'm, int) loader" where
  "LoadChar mem rd name = lbind (LoadBlock mem rd name 1) (\<lambda>b. lret (sint (hd b)))"

definition LoadByte :: "'m memory \<Rightarrow> 's source \<Rightarrow> string \<Rightarrow> ('s, 'm, byte) loader" where
  "LoadByte mem rd name = lbind (LoadChar mem rd name) (\<lambda>x. lret (word_of_int x))"

definition LoadInt :: "'m memory \<Rightarrow> 's source \<Rightarrow> string \<Rightarrow> ('s, 'm, int) loader" where
  "LoadInt mem rd name = lbind (LoadBlock mem rd name 4)
     (\<lambda>b. let x = bytes_int b in if x < 0 then load_error mem name ''bad integer'' else lret x)"

definition LoadNumber :: "'m memory \<Rightarrow> 's source \<Rightarrow> string \<Rightarrow> ('s, 'm, lua_Number) loader" where
  "LoadNumber mem rd name = lbind (LoadBlock mem rd name 8) (\<lambda>b. lret (of_nat (le_value b)))"

definition LoadString :: "'m memory \<Rightarrow> 's source \<Rightarrow> string \<Rightarrow> ('s, 'm, string option) loader" where
  "LoadString mem rd name = lbind (LoadBlock mem rd name 8)
     (\<lambda>b. let size = le_value b in
        if size = 0 then lret None
        else lbind (load_openspace mem size)
          (\<lambda>_. lbind (LoadBlock mem rd name size)
          (\<lambda>s. let str = map char_of_byte (take (size - 1) s) in
             lbind (load_newlstr mem str) (\<lambda>_. lret (Some str)))))"

text \<open>The size of a vector of elements of \<open>e\<close> bytes, and its allocation.\<close>

definition LoadSize :: "'m memory \<Rightarrow> 's source \<Rightarrow> string \<Rightarrow> nat \<Rightarrow> ('s, 'm, int) loader" where
  "LoadSize mem rd name e =
     lbind (LoadInt mem rd name) (\<lambda>n. lbind (luaM_newvector mem n e) (\<lambda>_. lret n))"

definition LoadCode :: "'m memory \<Rightarrow> 's source \<Rightarrow> string \<Rightarrow> ('s, 'm, Instruction list) loader" where
  "LoadCode mem rd name = lbind (LoadSize mem rd name 4)
     (\<lambda>n. lbind (LoadBlock mem rd name (nat n * 4))
        (\<lambda>b. lret (map (\<lambda>c. of_nat (le_value c)) (chunks (nat n) 4 b))))"

definition LoadConstant :: "'m memory \<Rightarrow> 's source \<Rightarrow> string \<Rightarrow> ('s, 'm, TValue) loader" where
  "LoadConstant mem rd name = lbind (LoadChar mem rd name)
     (\<lambda>t. if t = LUA_TNIL then lret VNil
          else if t = LUA_TBOOLEAN then lbind (LoadChar mem rd name) (\<lambda>x. lret (VBoolean (x \<noteq> 0)))
          else if t = LUA_TNUMBER then lbind (LoadNumber mem rd name) (\<lambda>n. lret (VNumber n))
          else if t = LUA_TSTRING then
            lbind (LoadString mem rd name)
              (\<lambda>s. lret (case s of None \<Rightarrow> VNullString | Some t \<Rightarrow> VString t))
          else load_error mem name ''bad constant'')"

text \<open>A vector of elements of \<open>e\<close> bytes: its size and as many items.\<close>

definition LoadCounted ::
  "'m memory \<Rightarrow> 's source \<Rightarrow> string \<Rightarrow> nat \<Rightarrow> ('s, 'm, 'a) loader \<Rightarrow> ('s, 'm, 'a list) loader" where
  "LoadCounted mem rd name e ld = lbind (LoadSize mem rd name e) (\<lambda>n. ltimes (nat n) ld)"

text \<open>\<open>LoadConstants\<close>: the constants, then the nested functions.\<close>

definition LoadConstants ::
  "'m memory \<Rightarrow> 's source \<Rightarrow> string \<Rightarrow> ('s, 'm, Proto) loader \<Rightarrow> ('s, 'm, TValue list \<times> Proto list) loader"
where
  "LoadConstants mem rd name nested = lbind (LoadCounted mem rd name 16 (LoadConstant mem rd name))
     (\<lambda>k. lbind (LoadCounted mem rd name 8 nested) (\<lambda>ps. lret (k, ps)))"

definition LoadLocVar :: "'m memory \<Rightarrow> 's source \<Rightarrow> string \<Rightarrow> ('s, 'm, LocVar) loader" where
  "LoadLocVar mem rd name = lbind (LoadString mem rd name)
     (\<lambda>v. lbind (LoadInt mem rd name) (\<lambda>a. lbind (LoadInt mem rd name)
        (\<lambda>b. lret \<lparr>varname = v, startpc = a, endpc = b\<rparr>)))"

definition LoadDebug ::
  "'m memory \<Rightarrow> 's source \<Rightarrow> string \<Rightarrow> ('s, 'm, int list \<times> LocVar list \<times> string option list) loader"
where
  "LoadDebug mem rd name = lbind (LoadSize mem rd name 4)
     (\<lambda>n. lbind (LoadBlock mem rd name (nat n * 4))
     (\<lambda>b. lbind (LoadCounted mem rd name 16 (LoadLocVar mem rd name))
     (\<lambda>vs. lbind (LoadCounted mem rd name 8 (LoadString mem rd name))
     (\<lambda>us. lret (map bytes_int (chunks (nat n) 4 b), vs, us)))))"

abbreviation (input) LUAI_MAXCCALLS :: nat where "LUAI_MAXCCALLS \<equiv> 200"

text \<open>\<open>LoadFunction\<close>: the first argument counts the C calls still allowed, \<open>LUAI_MAXCCALLS - nCcalls\<close>;
  \<open>p\<close> is the source of the enclosing function.\<close>

primrec LoadFunction ::
  "nat \<Rightarrow> 'm memory \<Rightarrow> 's source \<Rightarrow> string \<Rightarrow> string option \<Rightarrow> ('s, 'm, Proto) loader" where
  "LoadFunction 0 mem rd name p = load_error mem name ''code too deep''"
| "LoadFunction (Suc calls) mem rd name p =
     lbind (ask mem Function) (\<lambda>_.
     lbind (LoadString mem rd name) (\<lambda>src0. let src = (if src0 = None then p else src0) in
     lbind (LoadInt mem rd name) (\<lambda>ld.
     lbind (LoadInt mem rd name) (\<lambda>lld.
     lbind (LoadByte mem rd name) (\<lambda>nu.
     lbind (LoadByte mem rd name) (\<lambda>np.
     lbind (LoadByte mem rd name) (\<lambda>va.
     lbind (LoadByte mem rd name) (\<lambda>ms.
     lbind (LoadCode mem rd name) (\<lambda>code.
     lbind (LoadConstants mem rd name (LoadFunction calls mem rd name src)) (\<lambda>(k, ps).
     lbind (LoadDebug mem rd name) (\<lambda>(lineinfo, locvars, upvals).
       let f = Proto k code ps lineinfo locvars upvals src ld lld nu np va ms in
       if \<not> luaG_checkcode f then load_error mem name ''bad code'' else lret f)))))))))))"

definition LoadHeader :: "'m memory \<Rightarrow> 's source \<Rightarrow> string \<Rightarrow> ('s, 'm, unit) loader" where
  "LoadHeader mem rd name = lbind (LoadBlock mem rd name (length luaU_header))
     (\<lambda>s. if s \<noteq> luaU_header then load_error mem name ''bad header'' else lret ())"

text \<open>The name errors are reported under.\<close>

definition undump_name :: "string \<Rightarrow> string" where
  "undump_name name =
     (if name \<noteq> [] \<and> (hd name = CHR ''@'' \<or> hd name = CHR ''='') then tl name
      else if name \<noteq> [] \<and> byte_of_char (hd name) = 27 then ''binary string''
      else name)"

definition luaU_undump_from ::
  "'m memory \<Rightarrow> 's source \<Rightarrow> nat \<Rightarrow> string \<Rightarrow> ('s, 'm, Proto) loader" where
  "luaU_undump_from mem rd nCcalls name =
     lbind (LoadHeader mem rd (undump_name name))
       (\<lambda>_. lbind (load_newlstr mem ''=?'')
       (\<lambda>_. LoadFunction (LUAI_MAXCCALLS - nCcalls) mem rd (undump_name name) (Some ''=?'')))"

definition luaU_undump ::
  "'m memory \<Rightarrow> 'd reader \<Rightarrow> nat \<Rightarrow> string \<Rightarrow> ('d ZIO, 'm, Proto) loader" where
  "luaU_undump mem rdr nCcalls name = luaU_undump_from mem (zread rdr) nCcalls name"

section \<open>Decoding\<close>

text \<open>A loader decodes \<open>x\<close> from \<open>bs\<close>: given \<open>bs\<close> and more it returns \<open>x\<close> and leaves the rest; given
  less it raises \<open>unexpected end\<close>.\<close>

definition decodes ::
  "(('s, 'm) LoadState \<Rightarrow> byte list \<Rightarrow> bool) \<Rightarrow> string \<Rightarrow> ('s, 'm, 'a) loader \<Rightarrow> byte list \<Rightarrow> 'a \<Rightarrow> bool" where
  "decodes holds name ld bs x \<longleftrightarrow>
     (\<forall>s rest. holds s (bs @ rest) \<longrightarrow> (\<exists>s'. ld s = ROk (x, s') \<and> holds s' rest))
   \<and> (\<forall>s part. strict_prefix part bs \<longrightarrow> holds s part \<longrightarrow>
        ld s = RErr (chunk_error name ''unexpected end''))"

lemma decodes_ret: "decodes holds name (lret x) [] x"
  by (auto simp: decodes_def lret_def)

lemma decodesD:
  "decodes holds name ld bs x \<Longrightarrow> holds s (bs @ rest) \<Longrightarrow> \<exists>s'. ld s = ROk (x, s') \<and> holds s' rest"
  "decodes holds name ld bs x \<Longrightarrow> strict_prefix part bs \<Longrightarrow> holds s part \<Longrightarrow>
     ld s = RErr (chunk_error name ''unexpected end'')"
  by (auto simp: decodes_def)

lemma decodes_bind:
  assumes ld: "decodes holds name ld bs x" and k: "decodes holds name (k x) cs y" and "zs = bs @ cs"
  shows "decodes holds name (lbind ld k) zs y"
  unfolding decodes_def \<open>zs = bs @ cs\<close>
proof (intro conjI allI impI)
  fix s rest
  assume "holds s ((bs @ cs) @ rest)"
  then have "holds s (bs @ (cs @ rest))" by simp
  from decodesD(1) [OF ld this] obtain s1 where s1: "ld s = ROk (x, s1)" "holds s1 (cs @ rest)" by blast
  from decodesD(1) [OF k s1(2)] s1(1)
  show "\<exists>s'. lbind ld k s = ROk (y, s') \<and> holds s' rest" by (auto simp: lbind_def)
next
  fix s part
  assume part: "strict_prefix part (bs @ cs)" and s: "holds s part"
  show "lbind ld k s = RErr (chunk_error name ''unexpected end'')"
  proof (cases "strict_prefix part bs")
    case True
    from decodesD(2) [OF ld this s] show ?thesis by (simp add: lbind_def)
  next
    case False
    with part obtain part' where p: "part = bs @ part'"
      by (auto simp: strict_prefix_def prefix_append)
    with part have cs: "strict_prefix part' cs" by (simp add: strict_prefix_def)
    from decodesD(1) [OF ld s [unfolded p]] obtain s1 where "ld s = ROk (x, s1)" "holds s1 part'"
      by blast
    with decodesD(2) [OF k cs] show ?thesis by (simp add: lbind_def)
  qed
qed

lemma decodes_map:
  "decodes holds name ld bs x \<Longrightarrow> y = g x \<Longrightarrow> decodes holds name (lbind ld (\<lambda>x. lret (g x))) bs y"
  by (rule decodes_bind [where cs = "[]"]) (simp_all only: append_Nil2, rule decodes_ret)

lemma decodes_times:
  "(\<And>x. x \<in> set xs \<Longrightarrow> decodes holds name ld (enc x) (dec x)) \<Longrightarrow>
   decodes holds name (ltimes (length xs) ld) (concat (map enc xs)) (map dec xs)"
proof (induction xs)
  case Nil
  then show ?case by (simp add: decodes_ret)
next
  case (Cons x xs)
  have "decodes holds name (ltimes (length xs) ld) (concat (map enc xs)) (map dec xs)"
    by (rule Cons.IH) (simp add: Cons.prems)
  then have "decodes holds name (lbind (ltimes (length xs) ld) (\<lambda>xs. lret (dec x # xs)))
      (concat (map enc xs)) (dec x # map dec xs)"
    by (rule decodes_map) simp
  then show ?case
    by (auto intro: decodes_bind [OF Cons.prems])
qed

section \<open>Decoding each part\<close>

text \<open>The source holds these bytes and no allocation fails.\<close>

definition memory_ok :: "'m memory \<Rightarrow> bool" where
  "memory_ok mem \<longleftrightarrow> (\<forall>m r. mem m r \<noteq> None)"

definition loads ::
  "'m memory \<Rightarrow> ('s \<Rightarrow> byte list \<Rightarrow> bool) \<Rightarrow> ('s, 'm) LoadState \<Rightarrow> byte list \<Rightarrow> bool" where
  "loads mem holds S bs \<longleftrightarrow> memory_ok mem \<and> holds (load_Z S) bs"

lemma ask_loads:
  assumes "loads mem holds S bs"
  shows "\<exists>S'. ask mem r S = ROk ((), S') \<and> loads mem holds S' bs"
  using assms by (auto simp: ask_def loads_def memory_ok_def split: option.split)

lemma load_error_loads:
  assumes "loads mem holds S bs"
  shows "load_error mem name why S = RErr (chunk_error name why)"
  using ask_loads [OF assms, of "Message (name @ '': '' @ why @ '' in precompiled chunk'')"]
  by (auto simp: load_error_def lbind_def)

lemma decodes_ask: "decodes (loads mem holds) name (ask mem r) [] ()"
  using ask_loads by (auto simp: decodes_def)

lemma decodes_reallocv:
  assumes "n + 1 \<le> MAX_SIZET div e"
  shows "decodes (loads mem holds) name (luaM_reallocv mem n e r) [] ()"
proof -
  have "(n + 1) mod 2 ^ 64 \<le> n + 1" by (rule mod_less_eq_dividend)
  with assms have "(n + 1) mod 2 ^ 64 \<le> MAX_SIZET div e" by (rule le_trans [rotated])
  then show ?thesis unfolding luaM_reallocv_def by (simp only: if_True decodes_ask)
qed

lemma decodes_openspace:
  assumes "n + 1 \<le> MAX_SIZET"
  shows "decodes (loads mem holds) name (load_openspace mem n) [] ()"
proof -
  let ?n = "if n < LUA_MINBUFFER then LUA_MINBUFFER else n"
  have "?n + 1 \<le> MAX_SIZET div 1" using assms by auto
  note r = decodesD(1) [OF decodes_reallocv [OF this, of mem holds name "Buffer ?n"], simplified]
  show ?thesis
    unfolding decodes_def
  proof (intro conjI allI impI)
    fix S rest
    assume "loads mem holds S ([] @ rest)"
    with r [of S rest] show "\<exists>S'. load_openspace mem n S = ROk ((), S') \<and> loads mem holds S' rest"
      by (auto simp: load_openspace_def lbind_def Let_def loads_def)
  qed simp
qed

lemma decodes_newlstr:
  "length str + 1 + sizeof_TString \<le> MAX_SIZET \<Longrightarrow> decodes (loads mem holds) name (load_newlstr mem str) [] ()"
  by (simp add: load_newlstr_def decodes_ask)

lemma decodes_newvector:
  assumes "0 \<le> n" "n + 1 < 2 ^ 31" "e \<in> {4, 8, 16}"
  shows "decodes (loads mem holds) name (luaM_newvector mem n e) [] ()"
proof -
  have "nat n + 1 \<le> MAX_SIZET div e" using assms by auto
  from decodes_reallocv [OF this] assms(2) show ?thesis by (simp add: luaM_newvector_def [abs_def])
qed

text \<open>What a prototype must satisfy for its parts to be representable: sizes and line numbers that
  fit the integer types, constants of the four kinds a chunk has.\<close>

definition count_ok :: "'a list \<Rightarrow> bool" where
  "count_ok xs \<longleftrightarrow> length xs < 2 ^ 31 - 1"

definition nat_int_ok :: "int \<Rightarrow> bool" where
  "nat_int_ok x \<longleftrightarrow> 0 \<le> x \<and> x < 2 ^ 31"

definition string_ok :: "string option \<Rightarrow> bool" where
  "string_ok s \<longleftrightarrow> (case s of None \<Rightarrow> True | Some t \<Rightarrow> length t + 1 + sizeof_TString \<le> MAX_SIZET)"

definition constant_ok :: "TValue \<Rightarrow> bool" where
  "constant_ok v \<longleftrightarrow>
     (case v of VNil \<Rightarrow> True | VBoolean b \<Rightarrow> True | VNumber n \<Rightarrow> True | VNullString \<Rightarrow> True
      | VString t \<Rightarrow> string_ok (Some t) | _ \<Rightarrow> False)"

definition locvar_ok :: "LocVar \<Rightarrow> bool" where
  "locvar_ok v \<longleftrightarrow> string_ok (varname v) \<and> nat_int_ok (startpc v) \<and> nat_int_ok (endpc v)"

definition lineinfo_ok :: "int list \<Rightarrow> bool" where
  "lineinfo_ok xs \<longleftrightarrow> count_ok xs \<and> list_all (\<lambda>x. - (2 ^ 31) \<le> x \<and> x < 2 ^ 31) xs"

lemma cstring_bytes_inverse:
  "map char_of_byte (take (length t) (cstring_bytes t)) = t"
  by (simp add: cstring_bytes_def comp_def)

lemma of_nat_le_bytes_8: "of_nat (le_value (le_bytes 8 (unat (w :: u64)))) = w"
  using unsigned_less [of w] by (subst le_value_le_bytes) (simp_all add: power_numeral_reduce)

lemma of_nat_instr_bytes: "of_nat (le_value (instr_bytes i)) = i"
  using unsigned_less [of i] unfolding instr_bytes_def
  by (subst le_value_le_bytes) (simp_all add: power_numeral_reduce)

context byte_source
begin

lemma decodes_block: "decodes (loads mem holds) name (LoadBlock mem rd name (length bs)) bs bs"
  unfolding decodes_def
proof (intro conjI allI impI)
  fix S rest
  assume S: "loads mem holds S (bs @ rest)"
  then have "holds (load_Z S) (bs @ rest)" by (simp add: loads_def)
  from rd_prefix [OF this] S
  show "\<exists>S'. LoadBlock mem rd name (length bs) S = ROk (bs, S') \<and> loads mem holds S' rest"
    by (auto simp: LoadBlock_def loads_def)
next
  fix S part
  assume part: "strict_prefix part bs" and S: "loads mem holds S part"
  then obtain z got where rd: "rd (load_Z S) (length bs) = Some (length bs - length part, got, z)"
    using rd_short [of "load_Z S" part "length bs"] prefix_length_less by (auto simp: loads_def)
  have "load_error mem name ''unexpected end'' (S\<lparr>load_Z := z\<rparr>) = RErr (chunk_error name ''unexpected end'')"
    by (rule load_error_loads [where holds = "\<lambda>_ _. True"]) (use S in \<open>simp add: loads_def\<close>)
  then show "LoadBlock mem rd name (length bs) S = RErr (chunk_error name ''unexpected end'')"
    using rd prefix_length_less [OF part] by (simp add: LoadBlock_def)
qed

lemma decodes_block_n: "length bs = n \<Longrightarrow> decodes (loads mem holds) name (LoadBlock mem rd name n) bs bs"
  using decodes_block by auto

lemma decodes_char: "decodes (loads mem holds) name (LoadChar mem rd name) [b] (sint b)"
  unfolding LoadChar_def by (rule decodes_map [OF decodes_block_n [of "[b]"]]) simp_all

lemma decodes_byte: "decodes (loads mem holds) name (LoadByte mem rd name) [b] b"
  unfolding LoadByte_def by (rule decodes_map [OF decodes_char [of _ _ b]]) (simp add: scast_eq [symmetric])

lemma decodes_int:
  assumes "nat_int_ok x"
  shows "decodes (loads mem holds) name (LoadInt mem rd name) (int_bytes x) x"
proof -
  have "bytes_int (int_bytes x) = x" using assms by (simp add: bytes_int_inverse nat_int_ok_def)
  with assms show ?thesis
    unfolding LoadInt_def
    by (intro decodes_bind [OF decodes_block_n [of "int_bytes x"], where cs = "[]"])
      (simp_all add: nat_int_ok_def decodes_ret)
qed

lemma decodes_number: "decodes (loads mem holds) name (LoadNumber mem rd name) (le_bytes 8 (unat n)) n"
  unfolding LoadNumber_def
  by (rule decodes_map [OF decodes_block_n [OF length_le_bytes]]) (simp only: of_nat_le_bytes_8)

lemma decodes_string:
  assumes "string_ok s"
  shows "decodes (loads mem holds) name (LoadString mem rd name) (concat (string_blocks s)) s"
proof (cases s)
  case None
  have "le_value (le_bytes 8 0) = 0" by (rule le_value_le_bytes) simp
  then show ?thesis
    unfolding LoadString_def None
    by (intro decodes_bind [OF decodes_block_n [OF length_le_bytes], where cs = "[]"])
      (simp_all add: string_blocks_def decodes_ret)
next
  case (Some t)
  have fits: "length t + 1 + sizeof_TString \<le> MAX_SIZET" using assms Some by (simp add: string_ok_def)
  have sz: "le_value (le_bytes 8 (length t + 1)) = length t + 1"
    using fits by (intro le_value_le_bytes) simp
  have len: "length (cstring_bytes t) = length t + 1" by (simp add: cstring_bytes_def)
  have "decodes (loads mem holds) name (lbind (load_newlstr mem t) (\<lambda>_. lret (Some t))) [] (Some t)"
    by (rule decodes_map [OF decodes_newlstr [OF fits]]) simp
  then have str: "decodes (loads mem holds) name (lbind (LoadBlock mem rd name (length t + 1))
      (\<lambda>s. let str = map char_of_byte (take (length t) s) in
         lbind (load_newlstr mem str) (\<lambda>_. lret (Some str)))) (cstring_bytes t) (Some t)"
    by (intro decodes_bind [OF decodes_block_n [OF len], where cs = "[]"])
      (simp_all only: Let_def cstring_bytes_inverse append_Nil2)
  have "decodes (loads mem holds) name (lbind (load_openspace mem (length t + 1))
      (\<lambda>_. lbind (LoadBlock mem rd name (length t + 1))
      (\<lambda>s. let str = map char_of_byte (take (length t) s) in
         lbind (load_newlstr mem str) (\<lambda>_. lret (Some str))))) (cstring_bytes t) (Some t)"
    by (rule decodes_bind [OF decodes_openspace str]) (use fits in simp_all)
  then show ?thesis
    unfolding LoadString_def Some
    by (intro decodes_bind [OF decodes_block_n [OF length_le_bytes [of _ "length t + 1"]],
        where cs = "cstring_bytes t"])
      (simp_all only: sz Let_def string_blocks_def option.case concat.simps append_Nil2, simp)
qed

lemma decodes_size:
  assumes "count_ok xs" and "e \<in> {4, 8, 16}"
  shows "decodes (loads mem holds) name (LoadSize mem rd name e) (int_bytes (int (length xs))) (int (length xs))"
proof -
  have n: "nat_int_ok (int (length xs))" "int (length xs) + 1 < 2 ^ 31"
    using assms(1) by (simp_all add: count_ok_def nat_int_ok_def)
  have "decodes (loads mem holds) name
      (lbind (luaM_newvector mem (int (length xs)) e) (\<lambda>_. lret (int (length xs)))) [] (int (length xs))"
    by (rule decodes_map [OF decodes_newvector]) (use n assms(2) in simp_all)
  then show ?thesis
    unfolding LoadSize_def by (rule decodes_bind [OF decodes_int [OF n(1)]]) simp
qed

lemma decodes_vector:
  assumes "count_ok xs" and "\<And>x. length (img x) = 4" and "\<And>x. x \<in> set xs \<Longrightarrow> dec (img x) = x"
    and k: "decodes (loads mem holds) name (k xs) cs y"
  shows "decodes (loads mem holds) name (lbind (LoadSize mem rd name 4) (\<lambda>n. lbind (LoadBlock mem rd name (nat n * 4))
           (\<lambda>b. k (map dec (chunks (nat n) 4 b)))))
         (concat (vector_blocks img xs) @ cs) y"
proof -
  have dec: "map dec (chunks (length xs) 4 (concat (map img xs))) = xs"
    using assms(2,3) by (subst chunks_concat) (auto simp: map_idI)
  have len: "length (concat (map img xs)) = length xs * 4"
    using assms(2) by (intro length_concat_const)
  have "decodes (loads mem holds) name (lbind (LoadBlock mem rd name (length xs * 4))
      (\<lambda>b. k (map dec (chunks (length xs) 4 b)))) (concat (map img xs) @ cs) y"
    by (rule decodes_bind [OF decodes_block_n [OF len]]) (simp_all only: dec k)
  then show ?thesis
    by (intro decodes_bind [OF decodes_size [OF assms(1)]]) (simp_all add: vector_blocks_def)
qed

lemma decodes_code:
  assumes "count_ok code"
  shows "decodes (loads mem holds) name (LoadCode mem rd name) (concat (vector_blocks instr_bytes code)) code"
  using decodes_vector [OF assms, of instr_bytes "\<lambda>c. of_nat (le_value c)" mem name lret "[]" code]
  unfolding LoadCode_def
  by (simp add: decodes_ret of_nat_instr_bytes) (simp add: instr_bytes_def)

lemma decodes_counted:
  assumes "count_ok xs" and "e \<in> {4, 8, 16}"
    and "\<And>x. x \<in> set xs \<Longrightarrow> decodes (loads mem holds) name ld (concat (enc x)) (dec x)"
  shows "decodes (loads mem holds) name (LoadCounted mem rd name e ld) (concat (counted enc xs)) (map dec xs)"
proof -
  have "decodes (loads mem holds) name (ltimes (length xs) ld) (concat (map (\<lambda>x. concat (enc x)) xs)) (map dec xs)"
    by (rule decodes_times [OF assms(3)])
  moreover have "concat (concat (map enc xs)) = concat (map (\<lambda>x. concat (enc x)) xs)"
    by (induction xs) simp_all
  ultimately show ?thesis
    unfolding LoadCounted_def
    by (intro decodes_bind [OF decodes_size [OF assms(1,2)]]) (simp_all add: counted_def)
qed

lemma decodes_constant:
  assumes "constant_ok v"
  shows "decodes (loads mem holds) name (LoadConstant mem rd name) (concat (constant_blocks v)) v"
proof (cases v)
  case VNil
  then show ?thesis unfolding LoadConstant_def
    by (intro decodes_bind [OF decodes_char [of _ _ 0], where cs = "[]"])
      (simp_all add: constant_blocks_def decodes_ret)
next
  case (VBoolean b)
  then show ?thesis unfolding LoadConstant_def
    by (intro decodes_bind [OF decodes_char [of _ _ 1]])
      (auto simp: constant_blocks_def intro!: decodes_map decodes_char)
next
  case (VNumber n)
  then show ?thesis unfolding LoadConstant_def
    by (intro decodes_bind [OF decodes_char [of _ _ 3]])
      (auto simp: constant_blocks_def intro!: decodes_map decodes_number)
next
  case (VString t)
  then show ?thesis using assms unfolding LoadConstant_def
    by (intro decodes_bind [OF decodes_char [of _ _ 4]])
      (auto simp: constant_blocks_def constant_ok_def intro!: decodes_map decodes_string)
next
  case VNullString
  then show ?thesis unfolding LoadConstant_def
    by (intro decodes_bind [OF decodes_char [of _ _ 4]])
      (auto simp: constant_blocks_def string_ok_def intro!: decodes_map decodes_string)
qed (use assms in \<open>simp_all add: constant_ok_def\<close>)

lemma decodes_locvar:
  assumes "locvar_ok v"
  shows "decodes (loads mem holds) name (LoadLocVar mem rd name) (concat (locvar_blocks v)) v"
proof -
  have ok: "string_ok (varname v)" "nat_int_ok (startpc v)" "nat_int_ok (endpc v)"
    using assms by (simp_all add: locvar_ok_def)
  have "decodes (loads mem holds) name (lbind (LoadInt mem rd name)
      (\<lambda>b. lret \<lparr>varname = varname v, startpc = startpc v, endpc = b\<rparr>)) (int_bytes (endpc v)) v"
    by (rule decodes_map [OF decodes_int [OF ok(3)]]) simp
  then have "decodes (loads mem holds) name (lbind (LoadInt mem rd name) (\<lambda>a. lbind (LoadInt mem rd name)
      (\<lambda>b. lret \<lparr>varname = varname v, startpc = a, endpc = b\<rparr>)))
      (int_bytes (startpc v) @ int_bytes (endpc v)) v"
    by (rule decodes_bind [OF decodes_int [OF ok(2)]]) simp_all
  then show ?thesis
    unfolding LoadLocVar_def
    by (intro decodes_bind [OF decodes_string [OF ok(1)]]) (simp_all add: locvar_blocks_def)
qed

lemma decodes_debug:
  assumes "lineinfo_ok ls" "count_ok vs" "list_all locvar_ok vs" "count_ok us" "list_all string_ok us"
  shows "decodes (loads mem holds) name (LoadDebug mem rd name)
     (concat (vector_blocks int_bytes ls @ counted locvar_blocks vs @ counted string_blocks us)) (ls, vs, us)"
proof -
  have vs: "decodes (loads mem holds) name (LoadCounted mem rd name 16 (LoadLocVar mem rd name)) (concat (counted locvar_blocks vs)) vs"
    using decodes_counted [of vs 16 mem name "LoadLocVar mem rd name" locvar_blocks "\<lambda>x. x"] assms(2,3) decodes_locvar
    by (auto simp: list_all_iff)
  have us: "decodes (loads mem holds) name (LoadCounted mem rd name 8 (LoadString mem rd name)) (concat (counted string_blocks us)) us"
    using decodes_counted [of us 8 mem name "LoadString mem rd name" string_blocks "\<lambda>x. x"] assms(4,5) decodes_string
    by (auto simp: list_all_iff)
  have "decodes (loads mem holds) name
     (lbind (LoadCounted mem rd name 16 (LoadLocVar mem rd name)) (\<lambda>vs.
      lbind (LoadCounted mem rd name 8 (LoadString mem rd name)) (\<lambda>us. lret (ls, vs, us))))
     (concat (counted locvar_blocks vs) @ concat (counted string_blocks us)) (ls, vs, us)"
    by (rule decodes_bind [OF vs decodes_map [OF us]]) simp_all
  then have "decodes (loads mem holds) name (LoadDebug mem rd name)
     (concat (vector_blocks int_bytes ls) @ concat (counted locvar_blocks vs) @ concat (counted string_blocks us))
     (ls, vs, us)"
    unfolding LoadDebug_def using assms(1)
    by (intro decodes_vector [where k = "\<lambda>ls. lbind (LoadCounted mem rd name 16 (LoadLocVar mem rd name)) (\<lambda>vs.
          lbind (LoadCounted mem rd name 8 (LoadString mem rd name)) (\<lambda>us. lret (ls, vs, us)))"])
      (auto simp: lineinfo_ok_def list_all_iff bytes_int_inverse)
  then show ?thesis by simp
qed

end

section \<open>Functions\<close>

text \<open>What comes back of a dumped function: stripped of its debug information if asked, and its
  source, when it was not written, that of the enclosing function. \<open>p\<close> and \<open>q\<close> are the enclosing
  sources on the dumping and on the loading side.\<close>

primrec reload :: "bool \<Rightarrow> Proto \<Rightarrow> string option \<Rightarrow> string option \<Rightarrow> Proto" where
  "reload strip (Proto k code ps lineinfo locvars upvals source ld lld nu np va ms) p q =
     (let src = (if source = p \<or> strip \<or> source = None then q else source) in
      Proto k code (map (\<lambda>g. g source src) (map (reload strip) ps))
        (if strip then [] else lineinfo) (if strip then [] else locvars) (if strip then [] else upvals)
        src ld lld nu np va ms)"

primrec proto_ok :: "Proto \<Rightarrow> bool" where
  "proto_ok (Proto k code ps lineinfo locvars upvals source ld lld nu np va ms) \<longleftrightarrow>
     count_ok k \<and> list_all constant_ok k \<and> count_ok code \<and> count_ok ps
   \<and> lineinfo_ok lineinfo \<and> count_ok locvars \<and> list_all locvar_ok locvars
   \<and> count_ok upvals \<and> list_all string_ok upvals \<and> string_ok source
   \<and> nat_int_ok ld \<and> nat_int_ok lld \<and> list_all (\<lambda>ok. ok) (map proto_ok ps)"

primrec proto_depth :: "Proto \<Rightarrow> nat" where
  "proto_depth (Proto k code ps lineinfo locvars upvals source ld lld nu np va ms) =
     Suc (fold max (map proto_depth ps) 0)"

primrec all_protos :: "(Proto \<Rightarrow> bool) \<Rightarrow> Proto \<Rightarrow> bool" where
  "all_protos P (Proto k code ps lineinfo locvars upvals source ld lld nu np va ms) \<longleftrightarrow>
     P (Proto k code ps lineinfo locvars upvals source ld lld nu np va ms)
   \<and> list_all (\<lambda>ok. ok) (map (all_protos P) ps)"

lemma fold_max_le: "fold max ns m \<le> (n :: nat) \<longleftrightarrow> m \<le> n \<and> list_all (\<lambda>k. k \<le> n) ns"
  by (induction ns arbitrary: m) auto

text \<open>The checker reads neither the debug information nor the sources.\<close>

definition same_code :: "Proto \<Rightarrow> Proto \<Rightarrow> bool" where
  "same_code f g \<longleftrightarrow> proto_code f = proto_code g \<and> proto_k f = proto_k g
   \<and> map nups (proto_p f) = map nups (proto_p g) \<and> nups f = nups g \<and> numparams f = numparams g
   \<and> is_vararg f = is_vararg g \<and> maxstacksize f = maxstacksize g"

lemma vec_at_cong:
  "length xs = length ys \<Longrightarrow> (\<And>j. j < length ys \<Longrightarrow> k (xs ! j) = k' (ys ! j)) \<Longrightarrow>
   vec_at xs i k = vec_at ys i k'"
  by (auto simp: vec_at_def nat_less_iff)

lemma same_code_args:
  assumes "same_code f g"
  shows "checkreg f r k = checkreg g r k" "checkopenop f pc k = checkopenop g pc k"
    "closure_args f pc n k = closure_args g pc n k" "symb_args f pc i h = symb_args g pc i h"
proof -
  from assms have eqs: "proto_code f = proto_code g" "proto_k f = proto_k g"
      "maxstacksize f = maxstacksize g" by (simp_all add: same_code_def)
  show "checkreg f r k = checkreg g r k" "checkopenop f pc k = checkopenop g pc k"
    unfolding checkreg_def checkopenop_def eqs by (rule refl)+
  show "closure_args f pc n k = closure_args g pc n k"
    by (induction n arbitrary: pc) (simp_all add: eqs)
  show "symb_args f pc i h = symb_args g pc i h"
    unfolding symb_args_def checkArgMode_def eqs by (rule refl)
qed

lemma same_code_op:
  assumes "same_code f g"
  shows "symb_op f lastpc reg pc l opc a b c = symb_op g lastpc reg pc l opc a b c"
proof -
  from assms have eqs: "proto_code f = proto_code g" "proto_k f = proto_k g"
    "maxstacksize f = maxstacksize g" "nups f = nups g" "is_vararg f = is_vararg g"
    by (simp_all add: same_code_def)
  from assms have ps: "map nups (proto_p f) = map nups (proto_p g)" by (simp add: same_code_def)
  then have len: "length (proto_p f) = length (proto_p g)" by (rule map_eq_imp_length_eq)
  have nth: "nups (proto_p f ! j) = nups (proto_p g ! j)" if "j < length (proto_p g)" for j
    using ps len that by (metis nth_map)
  show ?thesis
    unfolding symb_op_def same_code_args [OF assms] eqs len Let_def
    by (intro refl if_cong arg_cong [where f = "check _"] vec_at_cong [OF len]) (simp add: nth)
qed

lemma same_code_step:
  assumes "same_code f g"
  shows "symb_step f lastpc reg pc l = symb_step g lastpc reg pc l"
proof -
  from assms have code: "proto_code f = proto_code g" by (simp add: same_code_def)
  show ?thesis
    unfolding symb_step_def same_code_args [OF assms] same_code_op [OF assms] code by (rule refl)
qed

lemma same_code_loop:
  "same_code f g \<Longrightarrow> symb_loop f lastpc reg pc l = symb_loop g lastpc reg pc l"
proof (induction g lastpc reg pc l rule: symb_loop.induct)
  case (1 g lastpc reg pc l)
  then show ?case
    by (subst (1 2) symb_loop.simps) (auto simp: same_code_step split: chk.split)
qed

lemma same_code_checkcode:
  assumes "same_code f g" and "luaG_checkcode f"
    and "length (proto_upvalues g) \<le> length (proto_upvalues f)"
    and "proto_lineinfo g = [] \<or> length (proto_lineinfo g) = length (proto_lineinfo f)"
  shows "luaG_checkcode g"
proof -
  have pre: "precheck f" using assms(2) by (auto simp: luaG_checkcode_def symbexec_def split: if_splits)
  then have "precheck g"
    using assms(1,3,4) by (auto simp: precheck_def same_code_def)
  moreover from assms(1) have code: "proto_code f = proto_code g" by (simp add: same_code_def)
  ultimately have "symbexec g (sizecode g) NO_REG = symbexec f (sizecode f) NO_REG"
    using pre unfolding symbexec_def code same_code_loop [OF assms(1)] by simp
  with assms(2) show ?thesis by (simp add: luaG_checkcode_def)
qed

lemma reload_selectors [simp]:
  "nups (reload strip f p q) = nups f" "proto_code (reload strip f p q) = proto_code f"
  "proto_k (reload strip f p q) = proto_k f" "numparams (reload strip f p q) = numparams f"
  "is_vararg (reload strip f p q) = is_vararg f" "maxstacksize (reload strip f p q) = maxstacksize f"
  by (cases f, simp add: Let_def)+

lemma reload_checkcode:
  assumes "luaG_checkcode f"
  shows "luaG_checkcode (reload strip f p q)"
proof (rule same_code_checkcode [OF _ assms])
  have "map nups (proto_p (reload strip f p q)) = map nups (proto_p f)"
    by (cases f) (simp add: Let_def comp_def)
  then show "same_code f (reload strip f p q)" by (simp add: same_code_def)
qed (cases f, simp add: Let_def)+

context byte_source
begin

lemma decodes_nested:
  assumes "count_ok ps"
    and "\<And>f. f \<in> set ps \<Longrightarrow> decodes (loads mem holds) name ld (concat (function_blocks strip f source)) (reload strip f source src)"
  shows "decodes (loads mem holds) name (LoadCounted mem rd name 8 ld)
    (concat (counted (\<lambda>blocks. blocks source) (map (function_blocks strip) ps)))
    (map (\<lambda>g. g source src) (map (reload strip) ps))"
  using decodes_counted [OF assms(1), of 8 mem name ld "\<lambda>f. function_blocks strip f source" "\<lambda>f. reload strip f source src"]
    assms(2)
  by (simp add: counted_def comp_def)

lemma decodes_constants:
  assumes "count_ok k" "list_all constant_ok k" and "decodes (loads mem holds) name (LoadCounted mem rd name 8 ld) bs ps"
  shows "decodes (loads mem holds) name (LoadConstants mem rd name ld) (concat (counted constant_blocks k) @ bs) (k, ps)"
proof -
  have "decodes (loads mem holds) name (LoadCounted mem rd name 16 (LoadConstant mem rd name)) (concat (counted constant_blocks k)) k"
    using decodes_counted [OF assms(1), of 16 mem name "LoadConstant mem rd name" constant_blocks "\<lambda>x. x"] assms(2)
      decodes_constant by (auto simp: list_all_iff)
  then show ?thesis
    unfolding LoadConstants_def
    by (rule decodes_bind [where cs = bs]) (rule decodes_map [OF assms(3)], simp_all)
qed

lemma decodes_function:
  "proto_ok f \<Longrightarrow> proto_depth f \<le> calls \<Longrightarrow> all_protos luaG_checkcode f \<Longrightarrow>
   decodes (loads mem holds) name (LoadFunction calls mem rd name q) (concat (function_blocks strip f p)) (reload strip f p q)"
proof (induction f arbitrary: calls p q)
  case (Proto k code ps lineinfo locvars upvals source ld lld nu np va ms)
  let ?f = "Proto k code ps lineinfo locvars upvals source ld lld nu np va ms"
  from Proto.prems(2) obtain n where calls: "calls = Suc n" by (cases calls) auto
  define src0 where "src0 = (if source = p \<or> strip then None else source)"
  define src where "src = (if src0 = None then q else src0)"
  define qs where "qs = map (\<lambda>g. g source src) (map (reload strip) ps)"
  define ls where "ls = (if strip then [] else lineinfo)"
  define vs where "vs = (if strip then [] else locvars)"
  define us where "us = (if strip then [] else upvals)"
  define g where "g = Proto k code qs ls vs us src ld lld nu np va ms"
  have g: "reload strip ?f p q = g"
    by (simp add: Let_def g_def qs_def ls_def vs_def us_def src_def src0_def)
  have checked: "luaG_checkcode g"
    using reload_checkcode [of ?f strip p q] Proto.prems(3) unfolding g by simp
  have deb: "lineinfo_ok ls" "count_ok vs" "list_all locvar_ok vs" "count_ok us" "list_all string_ok us"
    using Proto.prems(1) by (simp_all add: ls_def vs_def us_def lineinfo_ok_def count_ok_def)
  have nested: "decodes (loads mem holds) name (LoadCounted mem rd name 8 (LoadFunction n mem rd name src))
      (concat (counted (\<lambda>blocks. blocks source) (map (function_blocks strip) ps))) qs"
    unfolding qs_def
  proof (rule decodes_nested)
    show "count_ok ps" using Proto.prems(1) by simp
    show "decodes (loads mem holds) name (LoadFunction n mem rd name src) (concat (function_blocks strip f source)) (reload strip f source src)"
      if "f \<in> set ps" for f
      using that Proto.prems calls by (intro Proto.IH) (simp_all add: list_all_iff fold_max_le)
  qed
  have ok: "string_ok src0" "nat_int_ok ld" "nat_int_ok lld" "count_ok code" "count_ok k" "list_all constant_ok k"
    using Proto.prems(1) by (simp_all add: src0_def string_ok_def)
  have blocks: "concat (function_blocks strip ?f p) = [] @ concat (string_blocks src0) @ int_bytes ld @ int_bytes lld
      @ [nu] @ [np] @ [va] @ [ms] @ concat (vector_blocks instr_bytes code)
      @ (concat (counted constant_blocks k) @ concat (counted (\<lambda>blocks. blocks source) (map (function_blocks strip) ps)))
      @ concat (vector_blocks int_bytes ls @ counted locvar_blocks vs @ counted string_blocks us) @ []"
    by (simp add: src0_def debug_blocks_def ls_def vs_def us_def)
  show ?case
    unfolding g calls LoadFunction.simps blocks
    apply (rule decodes_bind [OF decodes_ask _ refl])
    apply (rule decodes_bind [OF decodes_string [OF ok(1)] _ refl], subst Let_def, fold src_def)
    apply (rule decodes_bind [OF decodes_int [OF ok(2)] _ refl])
    apply (rule decodes_bind [OF decodes_int [OF ok(3)] _ refl])
    apply (rule decodes_bind [OF decodes_byte _ refl])+
    apply (rule decodes_bind [OF decodes_code [OF ok(4)] _ refl])
    apply (rule decodes_bind [OF decodes_constants [OF ok(5,6) nested] _ refl], simp only: prod.case)
    apply (rule decodes_bind [OF decodes_debug [OF deb] _ refl], simp only: prod.case)
    apply (simp add: g_def [symmetric] checked decodes_ret)
    done
qed

end

section \<open>Loading what was dumped\<close>

text \<open>A function without its debug information, as it is loaded back.\<close>

primrec strip_debug :: "Proto \<Rightarrow> Proto" where
  "strip_debug (Proto k code ps lineinfo locvars upvals source ld lld nu np va ms) =
     Proto k code (map strip_debug ps) [] [] [] (Some ''=?'') ld lld nu np va ms"

lemma reload_strip: "reload True f p (Some ''=?'') = strip_debug f"
proof (induction f arbitrary: p)
  case (Proto k code ps lineinfo locvars upvals source ld lld nu np va ms)
  then show ?case by (simp add: Let_def comp_def cong: map_cong)
qed

definition has_source :: "Proto \<Rightarrow> bool" where
  "has_source f \<longleftrightarrow> proto_source f \<noteq> None"

lemma reload_keep: "all_protos has_source f \<Longrightarrow> p = None \<or> p = q \<Longrightarrow> reload False f p q = f"
proof (induction f arbitrary: p q)
  case (Proto k code ps lineinfo locvars upvals source ld lld nu np va ms)
  then have src: "source \<noteq> None" by (simp add: has_source_def)
  have "map (\<lambda>f. reload False f source source) ps = ps"
    using Proto by (intro map_idI) (simp add: list_all_iff)
  moreover have "(if source = p \<or> source = None then q else source) = source"
    using src Proto.prems(2) by auto
  ultimately show ?case by (simp add: Let_def comp_def)
qed

context byte_source
begin

lemma decodes_chunk:
  assumes "proto_ok f" "proto_depth f \<le> LUAI_MAXCCALLS - nCcalls" "all_protos luaG_checkcode f"
  shows "decodes (loads mem holds) (undump_name name) (luaU_undump_from mem rd nCcalls name) (chunk_bytes strip f)
    (reload strip f None (Some ''=?''))"
proof -
  have header: "decodes (loads mem holds) (undump_name name) (LoadHeader mem rd (undump_name name)) luaU_header ()"
    unfolding LoadHeader_def
    by (rule decodes_bind [OF decodes_block, where cs = "[]"]) (simp_all add: decodes_ret)
  have "decodes (loads mem holds) (undump_name name) (lbind (load_newlstr mem ''=?'')
      (\<lambda>_. LoadFunction (LUAI_MAXCCALLS - nCcalls) mem rd (undump_name name) (Some ''=?'')))
      (concat (function_blocks strip f None)) (reload strip f None (Some ''=?''))"
  proof (rule decodes_bind)
    show "decodes (loads mem holds) (undump_name name) (load_newlstr mem ''=?'') [] ()"
      by (rule decodes_newlstr) simp
  qed (rule decodes_function [OF assms], simp)
  then show ?thesis
    unfolding luaU_undump_from_def chunk_bytes_def by (rule decodes_bind [OF header _ refl])
qed

end

text \<open>The state a load starts in: a fresh stream, a buffer and a heap.\<close>

definition load_init :: "'d \<Rightarrow> Mbuffer \<Rightarrow> 'm \<Rightarrow> ('d ZIO, 'm) LoadState" where
  "load_init d b m = \<lparr>load_Z = luaZ_init d, load_b = b, load_heap = m\<rparr>"

lemma load_init_loads:
  "memory_ok mem \<Longrightarrow> delivers rdr d bs \<Longrightarrow> loads mem (zholds rdr) (load_init d b m) bs"
  by (simp add: loads_def load_init_def zholds_init)

text \<open>
  C3: loading a dumped function gives it back. For every prototype whose sizes fit the chunk format,
  whose functions pass the checker, have a source and nest within the limit on C calls, the bytes
  written by \<open>luaU_dump\<close>, delivered in blocks of any sizes and followed by anything, are loaded by
  \<open>luaU_undump\<close> as that prototype, or as the prototype without debug information if it was dumped so,
  and the stream is left at the following bytes; provided that no memory allocation fails.
\<close>

theorem undump_dump:
  assumes "memory_ok mem" and "proto_ok f" and "proto_depth f \<le> LUAI_MAXCCALLS - nCcalls"
    and "all_protos luaG_checkcode f" and "all_protos has_source f"
    and "delivers rdr d (snd (luaU_dump append_writer f [] strip) @ rest)"
  shows "\<exists>S. luaU_undump mem rdr nCcalls name (load_init d b m) = ROk (if strip then strip_debug f else f, S)
           \<and> zholds rdr (load_Z S) rest"
proof -
  have "reload strip f None (Some ''=?'') = (if strip then strip_debug f else f)"
    using reload_strip reload_keep [OF assms(5), of None "Some ''=?''"] by simp
  moreover have "loads mem (zholds rdr) (load_init d b m) (chunk_bytes strip f @ rest)"
    using load_init_loads [OF assms(1,6)] by (simp add: luaU_dump_append)
  ultimately show ?thesis
    using decodesD(1) [OF zio.decodes_chunk [OF assms(2,3,4), of mem rdr name strip], of "load_init d b m" rest]
    by (simp add: luaU_undump_def loads_def)
qed

text \<open>A function with a nested one, strings, numbers and debug information.\<close>

definition sample_proto :: Proto where
  "sample_proto =
     Proto [VString ''x'', VNumber 5, VBoolean True, VNil]
       [CREATE_ABC (opcode_num OP_RETURN) 0 1 0]
       [Proto [] [CREATE_ABC (opcode_num OP_RETURN) 0 1 0] [] [2] [] [] (Some ''@a'') 2 3 0 0 0 2]
       [1] [\<lparr>varname = Some ''i'', startpc = 0, endpc = 1\<rparr>] [] (Some ''@a'') 0 0 0 0 2 2"

lemma sample_proto_ok:
  "proto_ok sample_proto" "proto_depth sample_proto = 2" "all_protos luaG_checkcode sample_proto"
  "all_protos has_source sample_proto"
proof -
  show "proto_ok sample_proto"
    by (simp add: sample_proto_def count_ok_def lineinfo_ok_def locvar_ok_def string_ok_def
        constant_ok_def nat_int_ok_def)
qed code_simp+

text \<open>A callback that hands out one byte at a time.\<close>

fun byte_reader :: "byte list reader" where
  "byte_reader [] = ([], [])"
| "byte_reader (b # bs) = ([b], bs)"

lemma byte_reader_delivers: "delivers byte_reader bs bs"
proof (induction bs)
  case Nil
  show ?case by (rule delivers.finish [where d' = "[]"]) simp
next
  case (Cons b bs)
  then show ?case using delivers.block [of byte_reader "b # bs" "[b]" bs bs] by simp
qed

lemma sample_depth: "proto_depth sample_proto \<le> LUAI_MAXCCALLS - 0"
  unfolding sample_proto_ok by simp

text \<open>A memory manager that never fails and counts the requests, and an empty buffer.\<close>

definition ample :: "nat memory" where
  "ample n r = Some (n + 1)"

lemma ample_ok: "memory_ok ample"
  by (simp add: memory_ok_def ample_def)

definition empty_buffer :: Mbuffer where
  "empty_buffer = \<lparr>buffer = [], buf_n = 0, buffsize = 0\<rparr>"

theorem undump_dump_witness:
  "\<exists>S. luaU_undump ample byte_reader 0 ''@a''
     (load_init (snd (luaU_dump append_writer sample_proto [] False) @ [7]) empty_buffer 0) =
     ROk (sample_proto, S) \<and> zholds byte_reader (load_Z S) [7]"
  using undump_dump [OF ample_ok sample_proto_ok(1) sample_depth sample_proto_ok(3,4) byte_reader_delivers,
      where strip = False and rest = "[7]" and name = "''@a''" and b = empty_buffer and m = 0]
  by (simp only: if_False)

text \<open>
  C27: a truncated chunk is rejected: from any strict prefix of the bytes of a dumped prototype, in
  blocks of any sizes, loading raises \<open>unexpected end\<close>, under the name the chunk was given; provided
  that no memory allocation fails.
\<close>

theorem undump_truncated:
  assumes "memory_ok mem" and "proto_ok f" and "proto_depth f \<le> LUAI_MAXCCALLS - nCcalls"
    and "all_protos luaG_checkcode f"
    and "strict_prefix part (snd (luaU_dump append_writer f [] strip))" and "delivers rdr d part"
  shows "luaU_undump mem rdr nCcalls name (load_init d b m) =
    RErr (LUA_ERRSYNTAX (undump_name name @ '': unexpected end in precompiled chunk''))"
proof -
  have "strict_prefix part (chunk_bytes strip f)" using assms(5) by (simp add: luaU_dump_append)
  from decodesD(2) [OF zio.decodes_chunk [OF assms(2,3,4), of mem rdr name strip] this
      load_init_loads [OF assms(1,6)]]
  show ?thesis by (simp add: luaU_undump_def chunk_error_def)
qed

theorem undump_truncated_witness:
  "luaU_undump ample byte_reader 0 ''=prog'' (load_init [27, 76, 117] empty_buffer 0) =
   RErr (LUA_ERRSYNTAX (''prog: unexpected end in precompiled chunk''))"
proof -
  have "strict_prefix [27, 76, 117] (snd (luaU_dump append_writer sample_proto [] True))"
    by (simp add: luaU_dump_append chunk_bytes_def luaU_header_def strict_prefix_def)
  moreover have "undump_name ''=prog'' = ''prog''" by (simp add: undump_name_def)
  ultimately show ?thesis
    using undump_truncated [OF ample_ok sample_proto_ok(1) sample_depth sample_proto_ok(3) _
        byte_reader_delivers,
        where d = "[27, 76, 117]" and strip = True and name = "''=prog''" and b = empty_buffer and m = 0]
    by simp
qed

section \<open>Loading anything\<close>

text \<open>The errors of a load: a syntax error, a block too big to allocate, or, where the memory manager
  refuses a request, a memory error. And the count for which \<open>luaM_newvector\<close> overflows.\<close>

definition load_failure :: "'m memory \<Rightarrow> lua_error \<Rightarrow> bool" where
  "load_failure mem e \<longleftrightarrow> (\<exists>m. e = LUA_ERRSYNTAX m) \<or> e = LUA_ERRRUN block_too_big
     \<or> (e = LUA_ERRMEM \<and> \<not> memory_ok mem)"

definition max_count :: "byte list" where
  "max_count = [255, 255, 255, 127]"

text \<open>A loader is safe: whatever the source holds, it returns a value satisfying \<open>Q\<close>, having read a
  part of the bytes, or raises one of these errors; its behaviour is undefined only if the bytes contain
  that count.\<close>

definition safely ::
  "'m memory \<Rightarrow> ('s \<Rightarrow> byte list \<Rightarrow> bool) \<Rightarrow> ('s, 'm, 'a) loader \<Rightarrow> ('a \<Rightarrow> bool) \<Rightarrow> bool" where
  "safely mem holds ld Q \<longleftrightarrow> (\<forall>S bs. holds (load_Z S) bs \<longrightarrow>
     (case ld S of RUndef \<Rightarrow> sublist max_count bs | RErr e \<Rightarrow> load_failure mem e
      | ROk (x, S') \<Rightarrow> Q x \<and> (\<exists>bs'. holds (load_Z S') bs' \<and> suffix bs' bs)))"

lemma safely_ret: "Q x \<Longrightarrow> safely mem holds (lret x) Q"
  by (auto simp: safely_def lret_def)

lemma safely_fail: "load_failure mem e \<Longrightarrow> safely mem holds (\<lambda>S. RErr e) Q"
  by (simp add: safely_def)

lemma safely_ask: "safely mem holds (ask mem r) (\<lambda>_. True)"
  by (auto simp: safely_def ask_def load_failure_def memory_ok_def split: option.split)

lemma safely_bind:
  fixes ld :: "('s, 'm, 'a) loader" and k :: "'a \<Rightarrow> ('s, 'm, 'b) loader"
  assumes ld: "safely mem holds ld P" and k: "\<And>x. P x \<Longrightarrow> safely mem holds (k x) Q"
  shows "safely mem holds (lbind ld k) Q"
  unfolding safely_def
proof (intro allI impI)
  fix S :: "('s, 'm) LoadState" and bs
  assume "holds (load_Z S) bs"
  with ld have out: "case ld S of RUndef \<Rightarrow> sublist max_count bs | RErr e \<Rightarrow> load_failure mem e
      | ROk (x, S') \<Rightarrow> P x \<and> (\<exists>bs'. holds (load_Z S') bs' \<and> suffix bs' bs)"
    unfolding safely_def by blast
  show "case lbind ld k S of RUndef \<Rightarrow> sublist max_count bs | RErr e \<Rightarrow> load_failure mem e
      | ROk (x, S') \<Rightarrow> Q x \<and> (\<exists>bs'. holds (load_Z S') bs' \<and> suffix bs' bs)"
  proof (cases "ld S")
    case (ROk xs)
    obtain x S' where xs: "xs = (x, S')" by fastforce
    with out ROk obtain bs' where x: "P x" and S': "holds (load_Z S') bs'" and sf: "suffix bs' bs" by auto
    from k [OF x] S' have "case k x S' of RUndef \<Rightarrow> sublist max_count bs' | RErr e \<Rightarrow> load_failure mem e
      | ROk (x, S'') \<Rightarrow> Q x \<and> (\<exists>bs''. holds (load_Z S'') bs'' \<and> suffix bs'' bs')"
      unfolding safely_def by blast
    moreover have "sublist max_count bs' \<Longrightarrow> sublist max_count bs"
      using sf by (meson sublist_order.order_trans suffix_imp_sublist)
    moreover have "suffix bs'' bs' \<Longrightarrow> suffix bs'' bs" for bs''
      using sf by (rule suffix_order.trans [rotated])
    ultimately show ?thesis using ROk xs by (auto simp: lbind_def split: res.splits)
  qed (use out in \<open>auto simp: lbind_def\<close>)
qed

lemma safely_error: "safely mem holds (load_error mem name why) Q"
  unfolding load_error_def
  by (rule safely_bind [OF safely_ask], rule safely_fail) (simp add: load_failure_def chunk_error_def)

lemma load_error_outcome: "\<exists>e. load_error mem name why S = RErr e \<and> load_failure mem e"
  by (auto simp: load_error_def lbind_def ask_def load_failure_def chunk_error_def memory_ok_def
      split: option.split)

lemma safely_toobig: "safely mem holds (luaM_toobig mem) Q"
  unfolding luaM_toobig_def
  by (rule safely_bind [OF safely_ask], rule safely_fail) (simp add: load_failure_def)

lemma safely_reallocv: "safely mem holds (luaM_reallocv mem n e r) (\<lambda>_. True)"
  unfolding luaM_reallocv_def by (simp add: safely_ask safely_toobig)

lemma safely_newlstr: "safely mem holds (load_newlstr mem str) (\<lambda>_. True)"
  unfolding load_newlstr_def by (simp add: safely_ask safely_toobig)

lemma safely_openspace:
  fixes mem :: "'m memory" and holds :: "'s \<Rightarrow> byte list \<Rightarrow> bool"
  shows "safely mem holds (load_openspace mem n) (\<lambda>_. True)"
proof -
  let ?n = "if n < LUA_MINBUFFER then LUA_MINBUFFER else n"
  have grown: "safely mem holds (lbind (luaM_reallocv mem ?n 1 (Buffer ?n))
      (\<lambda>_ S. ROk ((), S\<lparr>load_b := luaZ_openspace (load_b S) n\<rparr>))) (\<lambda>_. True)"
    by (rule safely_bind [OF safely_reallocv]) (auto simp: safely_def)
  show ?thesis
    unfolding safely_def
  proof (intro allI impI)
    fix S :: "('s, 'm) LoadState" and bs
    assume S: "holds (load_Z S) bs"
    with grown have "case lbind (luaM_reallocv mem ?n 1 (Buffer ?n))
        (\<lambda>_ S. ROk ((), S\<lparr>load_b := luaZ_openspace (load_b S) n\<rparr>)) S of
          RUndef \<Rightarrow> sublist max_count bs | RErr e \<Rightarrow> load_failure mem e
        | ROk (x, S') \<Rightarrow> True \<and> (\<exists>bs'. holds (load_Z S') bs' \<and> suffix bs' bs)"
      unfolding safely_def by blast
    with S show "case load_openspace mem n S of RUndef \<Rightarrow> sublist max_count bs | RErr e \<Rightarrow> load_failure mem e
        | ROk (x, S') \<Rightarrow> True \<and> (\<exists>bs'. holds (load_Z S') bs' \<and> suffix bs' bs)"
      unfolding load_openspace_def Let_def by auto
  qed
qed

lemma safely_times: "safely mem holds ld P \<Longrightarrow> safely mem holds (ltimes n ld) (list_all P)"
proof (induction n)
  case 0
  show ?case by (simp add: safely_ret)
next
  case (Suc n)
  show ?case
    unfolding ltimes.simps
    by (rule safely_bind [OF Suc.prems], rule safely_bind [OF Suc.IH [OF Suc.prems]])
      (rule safely_ret, simp)
qed

lemma safely_True: "safely mem holds ld P \<Longrightarrow> safely mem holds ld (\<lambda>_. True)"
  unfolding safely_def by (fastforce split: res.splits prod.splits)

text \<open>What the loader promises of a function it returns.\<close>

definition loaded_ok :: "nat \<Rightarrow> Proto \<Rightarrow> bool" where
  "loaded_ok calls f \<longleftrightarrow> all_protos luaG_checkcode f \<and> proto_depth f \<le> calls"

lemma int_bytes_inverse:
  assumes "length b = 4"
  shows "int_bytes (bytes_int b) = b"
proof -
  let ?w = "of_nat (le_value b) :: u32"
  have lt: "le_value b < 2 ^ 32" using le_value_less [of b] assms by simp
  have "bytes_int b mod 2 ^ 32 = uint ?w"
    by (simp add: bytes_int_def uint_sint take_bit_eq_mod)
  also have "uint ?w = int (le_value b)"
    using lt by (simp add: uint_nat unat_of_nat)
  finally show ?thesis
    using le_bytes_le_value [of b] assms by (simp add: int_bytes_def)
qed

lemma bytes_int_max_count: "bytes_int max_count = 2 ^ 31 - 1"
  by (simp add: bytes_int_def max_count_def)

text \<open>Four bytes that read as the largest \<open>int\<close>.\<close>

lemma bytes_int_max:
  assumes "length b = 4" and "2 ^ 31 \<le> bytes_int b + 1"
  shows "b = max_count"
proof -
  have range: "bytes_int b < 2 ^ 31"
    unfolding bytes_int_def using sint_lt [of "of_nat (le_value b) :: u32"] by simp
  with assms(2) have "bytes_int b = bytes_int max_count" by (simp add: bytes_int_max_count)
  then have "int_bytes (bytes_int b) = int_bytes (bytes_int max_count)" by simp
  then show ?thesis using assms(1) by (simp add: int_bytes_inverse max_count_def)
qed

context byte_source
begin

lemma safely_block:
  fixes mem :: "'m memory"
  shows "safely mem holds (LoadBlock mem rd name n) (\<lambda>b. length b = n)"
  unfolding safely_def
proof (intro allI impI)
  fix S :: "('s, 'm) LoadState" and bs
  assume S: "holds (load_Z S) bs"
  show "case LoadBlock mem rd name n S of RUndef \<Rightarrow> sublist max_count bs | RErr e \<Rightarrow> load_failure mem e
      | ROk (b, S') \<Rightarrow> length b = n \<and> (\<exists>bs'. holds (load_Z S') bs' \<and> suffix bs' bs)"
  proof (cases "n \<le> length bs")
    case True
    from rd_enough [OF S True] True show ?thesis by (auto simp: LoadBlock_def intro!: exI [of _ "drop n bs"] suffix_drop)
  next
    case False
    then obtain z got where rd: "rd (load_Z S) n = Some (n - length bs, got, z)"
      using rd_short [OF S, of n] by auto
    have "\<exists>e. (load_error mem name ''unexpected end'' (S\<lparr>load_Z := z\<rparr>) :: (byte list \<times> _) res) = RErr e
        \<and> load_failure mem e"
      by (rule load_error_outcome)
    with rd False show ?thesis by (auto simp: LoadBlock_def)
  qed
qed

lemmas safely_block_any = safely_True [OF safely_block]

lemmas safely_rules = safely_bind [where P = "\<lambda>_. True"] safely_ret safely_error safely_block_any
  safely_openspace safely_newlstr safely_ask

lemma safely_basic:
  "safely mem holds (LoadChar mem rd name) (\<lambda>_. True)" "safely mem holds (LoadByte mem rd name) (\<lambda>_. True)"
  "safely mem holds (LoadInt mem rd name) (\<lambda>_. True)" "safely mem holds (LoadNumber mem rd name) (\<lambda>_. True)"
  "safely mem holds (LoadString mem rd name) (\<lambda>_. True)"
  unfolding LoadByte_def LoadChar_def LoadInt_def LoadNumber_def LoadString_def Let_def
  by (auto intro!: safely_rules)

text \<open>The count that overflows is among the bytes read.\<close>

lemma safely_size:
  fixes mem :: "'m memory"
  shows "safely mem holds (LoadSize mem rd name e) (\<lambda>_. True)"
proof -
  define k :: "byte list \<Rightarrow> ('s, 'm, int) loader" where "k b = lbind (if bytes_int b < 0 then load_error mem name ''bad integer'' else lret (bytes_int b))
      (\<lambda>n. lbind (luaM_newvector mem n e) (\<lambda>_. lret n))" for b
  define k' :: "byte list \<Rightarrow> ('s, 'm, int) loader" where "k' b = (if b = max_count then load_error mem name [] else k b)" for b
  have eq: "LoadSize mem rd name e = lbind (LoadBlock mem rd name 4) k"
    by (rule ext) (simp add: LoadSize_def LoadInt_def k_def [abs_def] lbind_def Let_def split: res.split)
  have undef: "k max_count S = RUndef" for S
    by (simp add: k_def bytes_int_max_count lbind_def lret_def luaM_newvector_def)
  have "safely mem holds (k b) (\<lambda>_. True)" if "length b = 4" "b \<noteq> max_count" for b
    unfolding k_def
  proof (rule safely_bind [where P = "\<lambda>n. n = bytes_int b"])
    show "safely mem holds (if bytes_int b < 0 then load_error mem name ''bad integer'' else lret (bytes_int b))
        (\<lambda>n. n = bytes_int b)"
      by (simp add: safely_error safely_ret)
    have "bytes_int b + 1 < 2 ^ 31" using bytes_int_max [OF that(1)] that(2) by force
    then have eq: "luaM_newvector mem (bytes_int b) e =
        luaM_reallocv mem (nat (bytes_int b)) e (Vector (nat (bytes_int b)) e)"
      by (intro ext) (simp add: luaM_newvector_def)
    show "safely mem holds (lbind (luaM_newvector mem n e) (\<lambda>_. lret n)) (\<lambda>_. True)"
      if "n = bytes_int b" for n
      unfolding that eq by (rule safely_bind [OF safely_reallocv]) (simp add: safely_ret)
  qed
  then have k': "safely mem holds (lbind (LoadBlock mem rd name 4) k') (\<lambda>_. True)"
    by (intro safely_bind [OF safely_block]) (simp add: k'_def safely_error)
  show ?thesis
    unfolding safely_def eq
  proof (intro allI impI)
    fix S :: "('s, 'm) LoadState" and bs
    assume S: "holds (load_Z S) bs"
    show "case lbind (LoadBlock mem rd name 4) k S of RUndef \<Rightarrow> sublist max_count bs
      | RErr e \<Rightarrow> load_failure mem e
      | ROk (x, S') \<Rightarrow> True \<and> (\<exists>bs'. holds (load_Z S') bs' \<and> suffix bs' bs)"
    proof (cases "\<exists>S'. LoadBlock mem rd name 4 S = ROk (max_count, S')")
      case True
      then obtain S' where S': "LoadBlock mem rd name 4 S = ROk (max_count, S')" by blast
      have "4 \<le> length bs"
        using S' rd_short [OF S, of 4] by (cases "4 \<le> length bs")
          (auto simp: LoadBlock_def load_error_def lbind_def ask_def split: option.splits)
      with S' rd_enough [OF S, of 4] have "take 4 bs = max_count" by (auto simp: LoadBlock_def)
      then have "sublist max_count bs" by (metis sublist_take)
      with S' show ?thesis by (simp add: lbind_def undef)
    next
      case False
      then have "lbind (LoadBlock mem rd name 4) k S = lbind (LoadBlock mem rd name 4) k' S"
        by (auto simp: lbind_def k'_def split: res.split)
      with k' S show ?thesis unfolding safely_def by simp
    qed
  qed
qed

lemma safely_code: "safely mem holds (LoadCode mem rd name) (\<lambda>_. True)"
  unfolding LoadCode_def by (auto intro!: safely_rules safely_size)

lemma safely_counted: "safely mem holds ld P \<Longrightarrow> safely mem holds (LoadCounted mem rd name e ld) (list_all P)"
  unfolding LoadCounted_def by (rule safely_bind [OF safely_size], rule safely_times)

lemma safely_constant: "safely mem holds (LoadConstant mem rd name) (\<lambda>_. True)"
  unfolding LoadConstant_def by (auto intro!: safely_rules safely_basic)

lemma safely_debug: "safely mem holds (LoadDebug mem rd name) (\<lambda>_. True)"
proof -
  have "safely mem holds (LoadLocVar mem rd name) (\<lambda>_. True)"
    unfolding LoadLocVar_def by (auto intro!: safely_rules safely_basic)
  then show ?thesis
    unfolding LoadDebug_def
    by (auto intro!: safely_rules safely_basic safely_size safely_True [OF safely_counted])
qed

lemma safely_function: "safely mem holds (LoadFunction calls mem rd name p) (loaded_ok calls)"
proof (induction calls arbitrary: p)
  case 0
  show ?case by (simp add: safely_error)
next
  case (Suc calls)
  have nested: "safely mem holds (LoadConstants mem rd name (LoadFunction calls mem rd name src))
      (\<lambda>(k, ps). list_all (loaded_ok calls) ps)" for src
    unfolding LoadConstants_def
    by (rule safely_bind [OF safely_True [OF safely_counted [OF safely_constant]]],
        rule safely_bind [OF safely_counted [OF Suc.IH]]) (simp add: safely_ret)
  have finish: "safely mem holds (let f = Proto k code ps ls vs us src ld lld nu np va ms in
      if \<not> luaG_checkcode f then load_error mem name ''bad code'' else lret f) (loaded_ok (Suc calls))"
    if "list_all (loaded_ok calls) ps" for k code ps ls vs us src ld lld nu np va ms
    using that
    by (auto simp: Let_def loaded_ok_def list_all_iff fold_max_le intro!: safely_error safely_ret)
  show ?case
    unfolding LoadFunction.simps
    apply (rule safely_bind [OF safely_ask])
    apply (rule safely_bind [OF safely_basic(5)], subst Let_def)
    apply (rule safely_bind [OF safely_basic(3)])+
    apply (rule safely_bind [OF safely_basic(2)])+
    apply (rule safely_bind [OF safely_code])
    apply (rule safely_bind [OF nested], clarify)
    apply (rule safely_bind [OF safely_debug], clarify)
    apply (rule finish, assumption)
    done
qed

lemma safely_chunk:
  "safely mem holds (luaU_undump_from mem rd nCcalls name) (loaded_ok (LUAI_MAXCCALLS - nCcalls))"
  unfolding luaU_undump_from_def LoadHeader_def
  by (auto intro!: safely_rules safely_function)

end




end
