(* ===== verification/LTable.thy ===== *)
theory LTable
  imports LString
begin

text \<open>
  Tables (\<open>src/lua/ltable.c\<close>): an array part and a hash part of chained nodes with internal collision
  lists. Pointers into a table are indices: \<open>next\<close> is the index of a node, and the pointer to a value
  that the lookup functions return is a \<open>slot\<close>. A loop along a chain that never ends, or a step off the
  node vector, is \<open>None\<close> in the search functions and \<open>RUndef\<close> in the operations. Allocation succeeds.
\<close>

section \<open>Data\<close>

record Node =
  i_val :: TValue
  i_key :: TValue
  gnext :: "nat option"

text \<open>\<open>struct Table\<close>. The length of \<open>array\<close> is \<open>sizearray\<close>; \<open>is_dummy\<close> tells that \<open>node\<close> points to
  the shared \<open>dummynode\<close>; \<open>lastfree\<close> is relative to \<open>node\<close>. The collector's fields are left out.\<close>

record Table =
  flags :: byte
  lsizenode :: nat
  metatable :: "addr option"
  array :: "TValue list"
  node :: "Node list"
  is_dummy :: bool
  lastfree :: int

definition dummynode :: Node where
  "dummynode = \<lparr>i_val = VNil, i_key = VNil, gnext = None\<rparr>"

definition sizenode :: "Table \<Rightarrow> nat" where
  "sizenode t = 2 ^ lsizenode t"

datatype slot = NilObject | ArraySlot nat | NodeSlot nat

fun slot_value :: "Table \<Rightarrow> slot \<Rightarrow> TValue" where
  "slot_value t NilObject = VNil"
| "slot_value t (ArraySlot i) = array t ! i"
| "slot_value t (NodeSlot i) = i_val (node t ! i)"

text \<open>\<open>setobj\<close> through a slot (never the shared nil object).\<close>

fun slot_store :: "Table \<Rightarrow> slot \<Rightarrow> TValue \<Rightarrow> Table" where
  "slot_store t NilObject v = t"
| "slot_store t (ArraySlot i) v = t\<lparr>array := (array t)[i := v]\<rparr>"
| "slot_store t (NodeSlot i) v = t\<lparr>node := (node t)[i := (node t ! i)\<lparr>i_val := v\<rparr>]\<rparr>"

section \<open>Hashing\<close>

abbreviation (input) MAXBITS :: nat where "MAXBITS \<equiv> 26"
abbreviation (input) MAXASIZE :: int where "MAXASIZE \<equiv> 2 ^ 26"

definition hashpow2 :: "Table \<Rightarrow> u32 \<Rightarrow> nat" where
  "hashpow2 t n = lmod n (sizenode t)"

definition hashmod :: "Table \<Rightarrow> u32 \<Rightarrow> nat" where
  "hashmod t n = unat n mod ((sizenode t - 1) OR 1)"

text \<open>\<open>IntPoint\<close>: the low half of an address.\<close>

definition hashpointer :: "Table \<Rightarrow> addr \<Rightarrow> nat" where
  "hashpointer t p = hashmod t (ucast p)"

definition hashnum :: "Table \<Rightarrow> lua_Number \<Rightarrow> nat" where
  "hashnum t n =
     (if luai_numeq n 0 then 0
      else hashmod t (ucast n + ucast (drop_bit 32 n)))"

text \<open>\<open>mainposition\<close>. A nil key and a NULL string have none: the code would follow a null pointer.\<close>

fun mainposition :: "Table \<Rightarrow> TValue \<Rightarrow> nat" where
  "mainposition t (VNumber n) = hashnum t n"
| "mainposition t (VString s) = hashpow2 t (luaS_hash s)"
| "mainposition t (VBoolean b) = hashpow2 t (if b then 1 else 0)"
| "mainposition t (VLightUserdata p) = hashpointer t p"
| "mainposition t (VTable p) = hashpointer t p"
| "mainposition t (VFunction p) = hashpointer t p"
| "mainposition t (VUserdata p) = hashpointer t p"
| "mainposition t (VThread p) = hashpointer t p"
| "mainposition t (VDeadKey p) = hashpointer t p"
| "mainposition t VNil = undefined"
| "mainposition t VNullString = undefined"

definition arrayindex :: "TValue \<Rightarrow> int" where
  "arrayindex key =
     (case key of
        VNumber n \<Rightarrow> (let k = lua_number2int n in if luai_numeq (cast_num k) n then k else -1)
      | _ \<Rightarrow> -1)"

section \<open>Lookup\<close>

text \<open>The loop along a chain, from node \<open>n\<close>, for a node whose key satisfies \<open>P\<close>.\<close>

partial_function (option) chain_find :: "(TValue \<Rightarrow> bool) \<Rightarrow> Node list \<Rightarrow> nat \<Rightarrow> nat option option" where
  "chain_find P ns n =
     (if n < length ns then
        (if P (i_key (ns ! n)) then Some (Some n)
         else case gnext (ns ! n) of None \<Rightarrow> Some None | Some m \<Rightarrow> chain_find P ns m)
      else None)"

declare chain_find.simps [code]

definition found_slot :: "nat option option \<Rightarrow> slot option" where
  "found_slot r = map_option (\<lambda>x. case x of None \<Rightarrow> NilObject | Some n \<Rightarrow> NodeSlot n) r"

definition luaH_getnum :: "Table \<Rightarrow> int \<Rightarrow> slot option" where
  "luaH_getnum t key =
     (if (word_of_int (key - 1) :: u32) < of_nat (length (array t)) then Some (ArraySlot (nat (key - 1)))
      else let nk = cast_num key in
        found_slot (chain_find (\<lambda>k. case k of VNumber m \<Rightarrow> luai_numeq m nk | _ \<Rightarrow> False) (node t) (hashnum t nk)))"

definition luaH_getstr :: "Table \<Rightarrow> string \<Rightarrow> slot option" where
  "luaH_getstr t key =
     found_slot (chain_find (\<lambda>k. k = VString key) (node t) (hashpow2 t (luaS_hash key)))"

text \<open>The general search, and \<open>luaH_get\<close>. A NULL string is dereferenced: undefined.\<close>

definition getgeneric :: "Table \<Rightarrow> TValue \<Rightarrow> slot option" where
  "getgeneric t key =
     found_slot (chain_find (\<lambda>k. luaO_rawequalObj k key) (node t) (mainposition t key))"

definition luaH_get :: "Table \<Rightarrow> TValue \<Rightarrow> slot option" where
  "luaH_get t key =
     (case key of
        VNil \<Rightarrow> Some NilObject
      | VString s \<Rightarrow> luaH_getstr t s
      | VNullString \<Rightarrow> None
      | VNumber n \<Rightarrow>
          (let k = lua_number2int n in
           if luai_numeq (cast_num k) n then luaH_getnum t k else getgeneric t key)
      | _ \<Rightarrow> getgeneric t key)"

section \<open>Sizes\<close>

text \<open>\<open>nums[i]\<close> counts the integer keys in \<open>(2 ^ (i - 1), 2 ^ i]\<close>.\<close>

definition countint :: "TValue \<Rightarrow> nat list \<Rightarrow> nat \<times> nat list" where
  "countint key nums =
     (let k = arrayindex key in
      if 0 < k \<and> k \<le> MAXASIZE then
        (let i = nat (ceillog2 (word_of_int k)) in (1, nums[i := nums ! i + 1]))
      else (0, nums))"

text \<open>The loop of \<open>computesizes\<close>: \<open>i\<close> and the accumulators \<open>a\<close>, \<open>na\<close> and \<open>n\<close>; \<open>twotoi = 2 ^ i\<close>.
  Reading \<open>nums\<close> past its end is undefined.\<close>

function computesizes_loop :: "nat list \<Rightarrow> nat \<Rightarrow> nat \<Rightarrow> nat \<Rightarrow> nat \<Rightarrow> nat \<Rightarrow> (nat \<times> nat) option" where
  "computesizes_loop nums narray i a na n =
     (if 2 ^ i div 2 < narray then
        (if i < length nums then
           (let a1 = a + nums ! i;
                big = (nums ! i > 0 \<and> a1 > 2 ^ i div 2);
                n1 = (if big then 2 ^ i else n);
                na1 = (if big then a1 else na)
            in if a1 = narray then Some (na1, n1) else computesizes_loop nums narray (i + 1) a1 na1 n1)
         else None)
      else Some (na, n))"
  by pat_completeness auto
termination
  by (relation "measure (\<lambda>(nums, narray, i, a, na, n). length nums - i)") auto

declare computesizes_loop.simps [simp del]

definition computesizes :: "nat list \<Rightarrow> nat \<Rightarrow> (nat \<times> nat) option" where
  "computesizes nums narray = computesizes_loop nums narray 0 0 0 0"

text \<open>\<open>numusearray\<close>: one iteration per slice \<open>(2 ^ (lg - 1), 2 ^ lg]\<close>, from array index \<open>i\<close> (from 1).\<close>

function numusearray_loop :: "TValue list \<Rightarrow> nat \<Rightarrow> nat \<Rightarrow> nat \<Rightarrow> nat list \<Rightarrow> nat \<times> nat list" where
  "numusearray_loop arr lg i ause nums =
     (if lg \<le> MAXBITS then
        (let lim = (if 2 ^ lg > length arr then length arr else 2 ^ lg) in
         if 2 ^ lg > length arr \<and> i > lim then (ause, nums)
         else
           let lc = length (filter (\<lambda>v. \<not> ttisnil v) (map (\<lambda>j. arr ! (j - 1)) [i..<lim + 1]))
           in numusearray_loop arr (lg + 1) (max i (lim + 1)) (ause + lc) (nums[lg := nums ! lg + lc]))
      else (ause, nums))"
  by pat_completeness auto
termination
  by (relation "measure (\<lambda>(arr, lg, i, ause, nums). 27 - lg)") auto

declare numusearray_loop.simps [simp del]

definition numusearray :: "Table \<Rightarrow> nat list \<Rightarrow> nat \<times> nat list" where
  "numusearray t nums = numusearray_loop (array t) 0 1 0 nums"

text \<open>\<open>numusehash\<close> goes down the node vector: the total, the integer keys and the counts.\<close>

definition numusehash :: "Table \<Rightarrow> nat list \<Rightarrow> nat \<times> nat \<times> nat list" where
  "numusehash t nums =
     fold (\<lambda>n (total, ause, nums).
             if \<not> ttisnil (i_val n) then
               (let (c, nums') = countint (i_key n) nums in (total + 1, ause + c, nums'))
             else (total, ause, nums))
       (rev (node t)) (0, 0, nums)"

section \<open>Building a table\<close>

text \<open>\<open>luaM_reallocvector\<close> keeps the values up to the new size.\<close>

definition setarrayvector :: "Table \<Rightarrow> nat \<Rightarrow> Table" where
  "setarrayvector t sz = t\<lparr>array := take sz (array t) @ replicate (sz - length (array t)) VNil\<rparr>"

definition setnodevector :: "Table \<Rightarrow> nat \<Rightarrow> Table res" where
  "setnodevector t sz =
     (if sz = 0 then ROk (t\<lparr>node := [dummynode], is_dummy := True, lsizenode := 0, lastfree := 0\<rparr>)
      else let lsize = ceillog2 (of_nat sz) in
        if lsize > int MAXBITS then RErr (LUA_ERRRUN ''table overflow'')
        else ROk (t\<lparr>node := replicate (2 ^ nat lsize) dummynode, is_dummy := False,
                    lsizenode := nat lsize, lastfree := 2 ^ nat lsize\<rparr>))"

definition luaH_new :: "nat \<Rightarrow> nat \<Rightarrow> Table res" where
  "luaH_new narray nhash =
     (let t = \<lparr>flags = 255, lsizenode = 0, metatable = None, array = [], node = [dummynode],
               is_dummy = True, lastfree = 0\<rparr>
      in setnodevector (setarrayvector t narray) nhash)"

text \<open>\<open>getfreepos\<close>: \<open>lastfree\<close> moves down, past the start when there is no free node.\<close>

function getfreepos_loop :: "Node list \<Rightarrow> int \<Rightarrow> nat option \<times> int" where
  "getfreepos_loop ns lf =
     (if lf > 0 then
        (if ttisnil (i_key (ns ! nat (lf - 1))) then (Some (nat (lf - 1)), lf - 1)
         else getfreepos_loop ns (lf - 1))
      else (None, lf - 1))"
  by pat_completeness auto
termination
  by (relation "measure (\<lambda>(ns, lf). nat lf)") auto

declare getfreepos_loop.simps [simp del]

definition getfreepos :: "Table \<Rightarrow> nat option \<times> Table" where
  "getfreepos t = (let (n, lf) = getfreepos_loop (node t) (lastfree t) in (n, t\<lparr>lastfree := lf\<rparr>))"

section \<open>Insertion\<close>

type_synonym setter = "Table \<Rightarrow> TValue \<Rightarrow> (Table \<times> slot) res"

text \<open>\<open>luaH_set\<close>, \<open>luaH_setnum\<close> and \<open>luaH_setstr\<close> over the function that adds a key.\<close>

definition luaH_set_with :: "setter \<Rightarrow> setter" where
  "luaH_set_with newk t key =
     rbind (defined (luaH_get t key)) (\<lambda>p.
       let t1 = t\<lparr>flags := 0\<rparr> in
       if p \<noteq> NilObject then ROk (t1, p)
       else if ttisnil key then RErr (LUA_ERRRUN ''table index is nil'')
       else if (case key of VNumber n \<Rightarrow> luai_numisnan n | _ \<Rightarrow> False)
       then RErr (LUA_ERRRUN ''table index is NaN'')
       else newk t1 key)"

definition luaH_setnum_with :: "setter \<Rightarrow> Table \<Rightarrow> int \<Rightarrow> (Table \<times> slot) res" where
  "luaH_setnum_with newk t key =
     rbind (defined (luaH_getnum t key)) (\<lambda>p.
       if p \<noteq> NilObject then ROk (t, p) else newk t (VNumber (cast_num key)))"

definition luaH_setstr_with :: "setter \<Rightarrow> Table \<Rightarrow> string \<Rightarrow> (Table \<times> slot) res" where
  "luaH_setstr_with newk t key =
     rbind (defined (luaH_getstr t key)) (\<lambda>p.
       if p \<noteq> NilObject then ROk (t, p) else newk t (VString key))"

text \<open>The two loops of \<open>resize\<close> that insert again. The first reads the old array vector while it
  inserts: if the insertion resized the array part, that vector has moved (undefined).\<close>

primrec reinsert_array :: "setter \<Rightarrow> TValue list \<Rightarrow> nat list \<Rightarrow> Table \<Rightarrow> Table res" where
  "reinsert_array newk old [] t = ROk t"
| "reinsert_array newk old (i # is) t =
     (if \<not> ttisnil (old ! i) then
        rbind (luaH_setnum_with newk t (int i + 1)) (\<lambda>(t1, s).
          if length (array t1) = length (array t) then reinsert_array newk old is (slot_store t1 s (old ! i))
          else RUndef)
      else reinsert_array newk old is t)"

primrec reinsert_nodes :: "setter \<Rightarrow> Node list \<Rightarrow> Table \<Rightarrow> Table res" where
  "reinsert_nodes newk [] t = ROk t"
| "reinsert_nodes newk (n # ns) t =
     (if \<not> ttisnil (i_val n) then
        rbind (luaH_set_with newk t (i_key n)) (\<lambda>(t1, s). reinsert_nodes newk ns (slot_store t1 s (i_val n)))
      else reinsert_nodes newk ns t)"

definition resize :: "setter \<Rightarrow> Table \<Rightarrow> nat \<Rightarrow> nat \<Rightarrow> Table res" where
  "resize newk t nasize nhsize =
     (let oldasize = length (array t);
          nold = map (\<lambda>i. node t ! i) [0..<sizenode t];
          t1 = (if nasize > oldasize then setarrayvector t nasize else t)
      in rbind (setnodevector t1 nhsize) (\<lambda>t2.
         rbind (if nasize < oldasize
                then reinsert_array newk (array t) [nasize..<oldasize] (t2\<lparr>array := take nasize (array t)\<rparr>)
                else ROk t2)
           (reinsert_nodes newk (rev nold))))"

definition rehash :: "setter \<Rightarrow> Table \<Rightarrow> TValue \<Rightarrow> Table res" where
  "rehash newk t ek =
     (let (nasize0, nums1) = numusearray t (replicate (MAXBITS + 1) 0);
          (tot, ause, nums2) = numusehash t nums1;
          (c, nums3) = countint ek nums2;
          totaluse = nasize0 + tot + 1
      in rbind (defined (computesizes nums3 (nasize0 + ause + c))) (\<lambda>(na, nasize).
           resize newk t nasize (totaluse - na)))"

text \<open>The loop of \<open>newkey\<close> that looks for the predecessor of \<open>mp\<close>; it must exist.\<close>

partial_function (option) find_prev :: "Node list \<Rightarrow> nat \<Rightarrow> nat \<Rightarrow> nat option" where
  "find_prev ns othern mp =
     (if othern < length ns then
        (case gnext (ns ! othern) of
           None \<Rightarrow> None
         | Some m \<Rightarrow> if m = mp then Some othern else find_prev ns m mp)
      else None)"

declare find_prev.simps [code]

definition put_key :: "Node list \<Rightarrow> nat \<Rightarrow> TValue \<Rightarrow> Node list" where
  "put_key ns i key = ns[i := (ns ! i)\<lparr>i_key := key\<rparr>]"

text \<open>The colliding node goes to the free node \<open>n\<close>, or the new key does.\<close>

definition move_colliding :: "Node list \<Rightarrow> nat \<Rightarrow> nat \<Rightarrow> nat \<Rightarrow> Node list" where
  "move_colliding ns prev mp n =
     (let ns1 = ns[prev := (ns ! prev)\<lparr>gnext := Some n\<rparr>];
          ns2 = ns1[n := ns1 ! mp];
          ns3 = ns2[mp := (ns2 ! mp)\<lparr>gnext := None\<rparr>]
      in ns3[mp := (ns3 ! mp)\<lparr>i_val := VNil\<rparr>])"

definition chain_new :: "Node list \<Rightarrow> nat \<Rightarrow> nat \<Rightarrow> Node list" where
  "chain_new ns mp n =
     (let ns1 = ns[n := (ns ! n)\<lparr>gnext := gnext (ns ! mp)\<rparr>] in ns1[mp := (ns1 ! mp)\<lparr>gnext := Some n\<rparr>])"

text \<open>\<open>newkey\<close>. It may rehash, which inserts again; the first argument bounds how deep that nests
  (never more than once, as proved below).\<close>

primrec newkey :: "nat \<Rightarrow> setter" where
  "newkey 0 t key = RUndef"
| "newkey (Suc depth) t key =
     (let mp = mainposition t key in
      if \<not> ttisnil (i_val (node t ! mp)) \<or> is_dummy t then
        (case getfreepos t of
           (None, t1) \<Rightarrow>
             rbind (rehash (newkey depth) t1 key) (\<lambda>t2. luaH_set_with (newkey depth) t2 key)
         | (Some n, t1) \<Rightarrow>
             (let ns = node t1; othern = mainposition t1 (i_key (ns ! mp)) in
              if othern \<noteq> mp then
                rbind (defined (find_prev ns othern mp)) (\<lambda>prev.
                  ROk (t1\<lparr>node := put_key (move_colliding ns prev mp n) mp key\<rparr>, NodeSlot mp))
              else ROk (t1\<lparr>node := put_key (chain_new ns mp n) n key\<rparr>, NodeSlot n)))
      else ROk (t\<lparr>node := put_key (node t) mp key\<rparr>, NodeSlot mp))"

abbreviation (input) rehash_depth :: nat where "rehash_depth \<equiv> 2"

definition luaH_set :: setter where
  "luaH_set = luaH_set_with (newkey rehash_depth)"

definition luaH_setnum :: "Table \<Rightarrow> int \<Rightarrow> (Table \<times> slot) res" where
  "luaH_setnum = luaH_setnum_with (newkey rehash_depth)"

definition luaH_setstr :: "Table \<Rightarrow> string \<Rightarrow> (Table \<times> slot) res" where
  "luaH_setstr = luaH_setstr_with (newkey rehash_depth)"

definition luaH_resizearray :: "Table \<Rightarrow> nat \<Rightarrow> Table res" where
  "luaH_resizearray t nasize =
     (let nsize = (if is_dummy t then 0 else sizenode t) in resize (newkey rehash_depth) t nasize nsize)"

section \<open>Traversal and length\<close>

text \<open>The object a collectable value points to; \<open>sa\<close> gives the address of an interned string.\<close>

fun gcvalue :: "(string \<Rightarrow> addr) \<Rightarrow> TValue \<Rightarrow> addr option" where
  "gcvalue sa (VString s) = Some (sa s)"
| "gcvalue sa (VTable p) = Some p"
| "gcvalue sa (VFunction p) = Some p"
| "gcvalue sa (VUserdata p) = Some p"
| "gcvalue sa (VThread p) = Some p"
| "gcvalue sa (VDeadKey p) = Some p"
| "gcvalue sa v = None"

definition invalid_next :: lua_error where
  "invalid_next = LUA_ERRRUN (''invalid key to '' @ [CHR 0x27] @ ''next'' @ [CHR 0x27])"

definition next_matches :: "(string \<Rightarrow> addr) \<Rightarrow> TValue \<Rightarrow> TValue \<Rightarrow> bool" where
  "next_matches sa key k \<longleftrightarrow>
     luaO_rawequalObj k key \<or> ttype k = LUA_TDEADKEY \<and> iscollectable key \<and> gcvalue sa k = gcvalue sa key"

definition findindex :: "(string \<Rightarrow> addr) \<Rightarrow> Table \<Rightarrow> TValue \<Rightarrow> int res" where
  "findindex sa t key =
     (if ttisnil key then ROk (-1)
      else let i = arrayindex key in
        if 0 < i \<and> i \<le> int (length (array t)) then ROk (i - 1)
        else rbind (defined (chain_find (next_matches sa key) (node t) (mainposition t key)))
          (\<lambda>r. case r of Some n \<Rightarrow> ROk (int n + int (length (array t))) | None \<Rightarrow> RErr invalid_next))"

text \<open>\<open>luaH_next\<close>: the next key and value, or none. The loops stop at the first non-nil value.\<close>

definition luaH_next :: "(string \<Rightarrow> addr) \<Rightarrow> Table \<Rightarrow> TValue \<Rightarrow> (TValue \<times> TValue) option res" where
  "luaH_next sa t key =
     rbind (findindex sa t key) (\<lambda>i.
       let i1 = nat (i + 1); asize = length (array t) in
       ROk (case List.find (\<lambda>i. \<not> ttisnil (array t ! i)) [i1..<asize] of
              Some j \<Rightarrow> Some (VNumber (cast_num (int j + 1)), array t ! j)
            | None \<Rightarrow>
                (case List.find (\<lambda>i. \<not> ttisnil (i_val (node t ! i))) [max i1 asize - asize..<sizenode t] of
                   Some j \<Rightarrow> Some (i_key (node t ! j), i_val (node t ! j))
                 | None \<Rightarrow> None)))"

text \<open>\<open>unbound_search\<close> works on unsigned integers, here naturals wrapped at 32 bits. Each loop is
  \<open>None\<close> when it never ends.\<close>

definition u32_of :: "nat \<Rightarrow> nat" where
  "u32_of n = n mod 2 ^ 32"

definition nil_at :: "Table \<Rightarrow> nat \<Rightarrow> bool option" where
  "nil_at t j = map_option (\<lambda>s. ttisnil (slot_value t s)) (luaH_getnum t (wrap32 (int j)))"

partial_function (option) linear_search :: "Table \<Rightarrow> nat \<Rightarrow> nat option" where
  "linear_search t i =
     (case nil_at t i of None \<Rightarrow> None
      | Some nil \<Rightarrow> if nil then Some (u32_of (i + 2 ^ 32 - 1)) else linear_search t (u32_of (i + 1)))"

partial_function (option) binary_search :: "(nat \<Rightarrow> bool option) \<Rightarrow> nat \<Rightarrow> nat \<Rightarrow> nat option" where
  "binary_search isnil i j =
     (if u32_of (j + 2 ^ 32 - i) > 1 then
        (let m = u32_of (i + j) div 2 in
         case isnil m of None \<Rightarrow> None
         | Some nil \<Rightarrow> if nil then binary_search isnil i m else binary_search isnil m j)
      else Some i)"

partial_function (option) unbound_loop :: "Table \<Rightarrow> nat \<Rightarrow> nat \<Rightarrow> nat option" where
  "unbound_loop t i j =
     (case nil_at t j of None \<Rightarrow> None
      | Some nil \<Rightarrow>
          if nil then binary_search (nil_at t) i j
          else if u32_of (j * 2) > MAX_INT then linear_search t 1
          else unbound_loop t j (u32_of (j * 2)))"

declare linear_search.simps [code] binary_search.simps [code] unbound_loop.simps [code]

definition unbound_search :: "Table \<Rightarrow> nat \<Rightarrow> nat option" where
  "unbound_search t j = unbound_loop t j (u32_of (j + 1))"

definition luaH_getn :: "Table \<Rightarrow> nat option" where
  "luaH_getn t =
     (let j = length (array t) in
      if j > 0 \<and> ttisnil (array t ! (j - 1)) then
        binary_search (\<lambda>m. Some (ttisnil (array t ! (m - 1)))) 0 j
      else if is_dummy t then Some j
      else unbound_search t j)"

end
