(* ===== verification/LTableChain.thy ===== *)
theory LTableChain
  imports LTable
begin

text \<open>
  The hash part of a table: the invariant of its chains (Brent's variation: a node in its main position
  is never moved), and what lookup and the three ways of adding a key do to it. The main position of a
  key is a parameter of the locale \<open>hash_part\<close>, which asks that equal keys have the same.
\<close>

section \<open>Keys\<close>

text \<open>The keys a table can hold: not nil, not a NULL string, not dead, not a NaN.\<close>

definition live :: "TValue \<Rightarrow> bool" where
  "live k \<longleftrightarrow> ttype k \<noteq> LUA_TNIL \<and> ttype k \<noteq> LUA_TDEADKEY"

definition valid_key :: "TValue \<Rightarrow> bool" where
  "valid_key k \<longleftrightarrow> live k \<and> k \<noteq> VNullString \<and> (case k of VNumber n \<Rightarrow> \<not> d_isnan n | _ \<Rightarrow> True)"

lemma live_simps [simp]: "\<not> live VNil" "\<not> live (VDeadKey p)"
  by (simp_all add: live_def)

lemma live_iff: "live k \<longleftrightarrow> k \<noteq> VNil \<and> (\<forall>p. k \<noteq> VDeadKey p)"
  by (cases k) (simp_all add: live_def)

lemma valid_live: "valid_key k \<Longrightarrow> live k"
  by (simp add: valid_key_def)

lemma rawequal_refl: "valid_key k \<Longrightarrow> luaO_rawequalObj k k"
  by (cases k) (auto simp: luaO_rawequalObj_def valid_key_def luai_numeq_def)

lemma rawequal_sym: "luaO_rawequalObj a b \<longleftrightarrow> luaO_rawequalObj b a"
  by (cases a; cases b) (auto simp: luaO_rawequalObj_def numeq_sym)

lemma rawequal_trans: "luaO_rawequalObj a b \<Longrightarrow> luaO_rawequalObj b c \<Longrightarrow> luaO_rawequalObj a c"
  by (cases a; cases b; cases c) (auto simp: luaO_rawequalObj_def intro: numeq_trans)

lemma rawequal_valid: "luaO_rawequalObj a b \<Longrightarrow> valid_key b \<Longrightarrow> valid_key a"
  by (cases a; cases b) (auto simp: luaO_rawequalObj_def valid_key_def live_def luai_numeq_def)

section \<open>Chains\<close>

definition link :: "Node list \<Rightarrow> nat \<Rightarrow> nat \<Rightarrow> bool" where
  "link ns i j \<longleftrightarrow> i < length ns \<and> gnext (ns ! i) = Some j"

abbreviation reach :: "Node list \<Rightarrow> nat \<Rightarrow> nat \<Rightarrow> bool" where
  "reach ns \<equiv> (link ns)\<^sup>*\<^sup>*"

text \<open>Links join used nodes, at most one link enters a node, and there is no cycle.\<close>

definition links_ok :: "Node list \<Rightarrow> bool" where
  "links_ok ns \<longleftrightarrow>
     (\<forall>i j. link ns i j \<longrightarrow> j < length ns \<and> i_key (ns ! i) \<noteq> VNil \<and> i_key (ns ! j) \<noteq> VNil)
   \<and> (\<forall>i i' j. link ns i j \<longrightarrow> link ns i' j \<longrightarrow> i = i')
   \<and> (\<exists>rank. \<forall>i j. link ns i j \<longrightarrow> (rank j :: nat) < rank i)"

lemma links_okD:
  assumes "links_ok ns" "link ns i j"
  shows "i < length ns" "j < length ns" "i_key (ns ! i) \<noteq> VNil" "i_key (ns ! j) \<noteq> VNil" "i \<noteq> j"
  using assms by (auto simp: links_ok_def link_def)

lemma reach_end: "gnext (ns ! i) = None \<Longrightarrow> reach ns i j \<longleftrightarrow> j = i"
  by (auto simp: link_def elim: converse_rtranclpE)

lemma reach_link:
  assumes "link ns i m"
  shows "reach ns i j \<longleftrightarrow> j = i \<or> reach ns m j"
proof
  assume "reach ns i j"
  then show "j = i \<or> reach ns m j"
    using assms by (cases rule: converse_rtranclpE) (auto simp: link_def)
next
  assume "j = i \<or> reach ns m j"
  then show "reach ns i j"
    using assms by (auto intro: converse_rtranclp_into_rtranclp)
qed

definition found_in :: "(TValue \<Rightarrow> bool) \<Rightarrow> Node list \<Rightarrow> nat \<Rightarrow> nat option \<Rightarrow> bool" where
  "found_in P ns i r \<longleftrightarrow>
    (case r of Some j \<Rightarrow> reach ns i j \<and> j < length ns \<and> P (i_key (ns ! j))
             | None \<Rightarrow> \<forall>j. reach ns i j \<longrightarrow> \<not> P (i_key (ns ! j)))"

lemma chain_find_total:
  assumes ok: "links_ok ns" and i: "i < length ns"
  shows "\<exists>r. chain_find P ns i = Some r \<and> found_in P ns i r"
proof -
  from ok obtain rank where rank: "\<And>i j. link ns i j \<Longrightarrow> (rank j :: nat) < rank i"
    unfolding links_ok_def by blast
  show ?thesis
    using i
  proof (induction "rank i" arbitrary: i rule: less_induct)
    case less
    note step = chain_find.simps [of P ns i]
    show ?case
    proof (cases "P (i_key (ns ! i))")
      case True
      with less.prems show ?thesis unfolding step by (simp add: found_in_def)
    next
      case False
      show ?thesis
      proof (cases "gnext (ns ! i)")
        case None
        with False less.prems show ?thesis unfolding step by (simp add: found_in_def reach_end)
      next
        case (Some m)
        with less.prems have im: "link ns i m" by (simp add: link_def)
        from less.hyps [OF rank [OF im] links_okD(2) [OF ok im]] obtain r
          where r: "chain_find P ns m = Some r" "found_in P ns m r" by blast
        from r(2) False have "found_in P ns i r"
          by (cases r) (auto simp: found_in_def reach_link [OF im])
        with r(1) False less.prems Some show ?thesis unfolding step by simp
      qed
    qed
  qed
qed

lemma reach_less:
  assumes "links_ok ns" "reach ns i j" "i < length ns"
  shows "j < length ns"
  using assms(2) by (cases rule: rtranclp.cases) (use assms in \<open>auto dest: links_okD\<close>)

section \<open>The invariant\<close>

text \<open>Every live key can be reached from its main position, which holds a used node that is dead or at
  home itself; a dead or unused node has no value; no two live keys are equal.\<close>

definition homed :: "(TValue \<Rightarrow> nat) \<Rightarrow> Node list \<Rightarrow> nat \<Rightarrow> bool" where
  "homed home ns j \<longleftrightarrow>
     (let h = home (i_key (ns ! j)) in
      reach ns h j \<and> i_key (ns ! h) \<noteq> VNil \<and> (live (i_key (ns ! h)) \<longrightarrow> home (i_key (ns ! h)) = h))"

definition nodes_ok :: "(TValue \<Rightarrow> nat) \<Rightarrow> Node list \<Rightarrow> bool" where
  "nodes_ok home ns \<longleftrightarrow> links_ok ns
   \<and> (\<forall>j < length ns. if live (i_key (ns ! j)) then valid_key (i_key (ns ! j)) \<and> homed home ns j
                      else i_val (ns ! j) = VNil)
   \<and> (\<forall>i < length ns. \<forall>j < length ns. live (i_key (ns ! i)) \<longrightarrow>
        luaO_rawequalObj (i_key (ns ! i)) (i_key (ns ! j)) \<longrightarrow> i = j)"

definition entries :: "Node list \<Rightarrow> (TValue \<times> TValue) set" where
  "entries ns = {(i_key (ns ! i), i_val (ns ! i)) | i. i < length ns \<and> i_val (ns ! i) \<noteq> VNil}"

definition free_nodes :: "Node list \<Rightarrow> nat set" where
  "free_nodes ns = {i. i < length ns \<and> i_key (ns ! i) = VNil}"

lemma nodes_okD:
  assumes "nodes_ok home ns"
  shows "links_ok ns"
    and "j < length ns \<Longrightarrow> live (i_key (ns ! j)) \<Longrightarrow> valid_key (i_key (ns ! j))"
    and "j < length ns \<Longrightarrow> live (i_key (ns ! j)) \<Longrightarrow> homed home ns j"
    and "j < length ns \<Longrightarrow> \<not> live (i_key (ns ! j)) \<Longrightarrow> i_val (ns ! j) = VNil"
    and "i < length ns \<Longrightarrow> j < length ns \<Longrightarrow> live (i_key (ns ! i)) \<Longrightarrow>
         luaO_rawequalObj (i_key (ns ! i)) (i_key (ns ! j)) \<Longrightarrow> i = j"
  using assms by (auto simp: nodes_ok_def split: if_splits)

lemma nodes_ok_empty: "nodes_ok home (replicate n dummynode)"
  by (auto simp: nodes_ok_def links_ok_def link_def dummynode_def)

lemma entries_empty: "entries (replicate n dummynode) = {}"
  by (auto simp: entries_def dummynode_def)

locale hash_part =
  fixes home :: "TValue \<Rightarrow> nat" and N :: nat
  assumes home_less: "valid_key k \<Longrightarrow> home k < N"
    and home_cong: "valid_key k \<Longrightarrow> luaO_rawequalObj k k' \<Longrightarrow> home k' = home k"
begin

text \<open>Looking a key up by any test that agrees with equality finds its node if there is one.\<close>

lemma lookup:
  assumes ok: "nodes_ok home ns" and len: "length ns = N" and k: "valid_key k"
    and P: "\<And>i. i < length ns \<Longrightarrow> P (i_key (ns ! i)) \<longleftrightarrow> luaO_rawequalObj (i_key (ns ! i)) k"
  shows "\<exists>r. chain_find P ns (home k) = Some r \<and>
    (case r of Some j \<Rightarrow> j < length ns \<and> luaO_rawequalObj (i_key (ns ! j)) k
             | None \<Rightarrow> \<forall>j < length ns. \<not> luaO_rawequalObj (i_key (ns ! j)) k)"
proof -
  note links = nodes_okD(1) [OF ok]
  have h: "home k < length ns" using home_less [OF k] len by simp
  from chain_find_total [OF links h, of P] obtain r where r: "chain_find P ns (home k) = Some r"
    "found_in P ns (home k) r" by blast
  have "reach ns (home k) j" if "j < length ns" "luaO_rawequalObj (i_key (ns ! j)) k" for j
  proof -
    have "valid_key (i_key (ns ! j))" using rawequal_valid [OF that(2) k] .
    with nodes_okD(3) [OF ok that(1)] home_cong [OF _ that(2)] show ?thesis
      by (auto simp: homed_def Let_def dest: valid_live)
  qed
  with r P show ?thesis by (cases r) (auto simp: found_in_def)
qed

end

section \<open>Adding a key\<close>

lemma put_key_nth [simp]:
  "length (put_key ns i key) = length ns"
  "j < length ns \<Longrightarrow> put_key ns i key ! j = (if j = i then (ns ! j)\<lparr>i_key := key\<rparr> else ns ! j)"
  by (auto simp: put_key_def)

lemma link_put_key [simp]: "link (put_key ns i key) = link ns"
  by (intro ext) (auto simp: link_def split: if_splits)

lemma entries_eqI:
  assumes "\<And>j. j < length ns' \<Longrightarrow> i_val (ns' ! j) \<noteq> VNil \<Longrightarrow>
      \<exists>l < length ns. i_key (ns' ! j) = i_key (ns ! l) \<and> i_val (ns' ! j) = i_val (ns ! l)"
    and "\<And>l. l < length ns \<Longrightarrow> i_val (ns ! l) \<noteq> VNil \<Longrightarrow>
      \<exists>j < length ns'. i_key (ns' ! j) = i_key (ns ! l) \<and> i_val (ns' ! j) = i_val (ns ! l)"
  shows "entries ns' = entries ns"
proof
  show "entries ns' \<subseteq> entries ns" unfolding entries_def using assms(1) by clarsimp metis
  show "entries ns \<subseteq> entries ns'" unfolding entries_def using assms(2) by clarsimp metis
qed

lemma chain_new_nth:
  assumes "mp < length ns" "n < length ns" "mp \<noteq> n"
  shows "length (chain_new ns mp n) = length ns"
    and "j < length ns \<Longrightarrow> chain_new ns mp n ! j =
      (if j = mp then (ns ! j)\<lparr>gnext := Some n\<rparr>
       else if j = n then (ns ! j)\<lparr>gnext := gnext (ns ! mp)\<rparr> else ns ! j)"
  using assms by (auto simp: chain_new_def Let_def)

lemma move_colliding_nth:
  assumes "mp < length ns" "n < length ns" "prev < length ns" "mp \<noteq> n" "prev \<noteq> mp" "prev \<noteq> n"
  shows "length (move_colliding ns prev mp n) = length ns"
    and "j < length ns \<Longrightarrow> move_colliding ns prev mp n ! j =
      (if j = mp then (ns ! j)\<lparr>i_val := VNil, gnext := None\<rparr>
       else if j = n then ns ! mp
       else if j = prev then (ns ! j)\<lparr>gnext := Some n\<rparr> else ns ! j)"
  using assms by (auto simp: move_colliding_def Let_def)

text \<open>A node vector in which a key has just been put, without a value, at node \<open>i\<close>.\<close>

definition added :: "(TValue \<Rightarrow> nat) \<Rightarrow> Node list \<Rightarrow> Node list \<Rightarrow> nat \<Rightarrow> TValue \<Rightarrow> bool" where
  "added home ns ns' i key \<longleftrightarrow> nodes_ok home ns' \<and> length ns' = length ns \<and> i < length ns
     \<and> i_key (ns' ! i) = key \<and> i_val (ns' ! i) = VNil \<and> entries ns' = entries ns
     \<and> (\<forall>j < length ns. i_key (ns' ! j) = key \<or> (\<exists>l < length ns. i_key (ns' ! j) = i_key (ns ! l)))"

context hash_part
begin

definition absent :: "Node list \<Rightarrow> TValue \<Rightarrow> bool" where
  "absent ns key \<longleftrightarrow> (\<forall>j < length ns. \<not> luaO_rawequalObj (i_key (ns ! j)) key)"

lemma nodes_ok_intro:
  assumes links: "links_ok ns'" and i: "i < length ns'" "i_key (ns' ! i) = key" "i_val (ns' ! i) = VNil"
    and key: "valid_key key" "homed home ns' i"
    and others: "\<And>j. j < length ns' \<Longrightarrow> j \<noteq> i \<Longrightarrow>
      \<exists>l < length ns. i_key (ns' ! j) = i_key (ns ! l) \<and> i_val (ns' ! j) = i_val (ns ! l)
        \<and> l = f j \<and> (live (i_key (ns ! l)) \<longrightarrow> homed home ns' j)"
    and f: "\<And>j j'. j < length ns' \<Longrightarrow> j' < length ns' \<Longrightarrow> j \<noteq> i \<Longrightarrow> j' \<noteq> i \<Longrightarrow> f j = f j' \<Longrightarrow> j = j'"
    and ok: "nodes_ok home ns" and fresh: "absent ns key"
  shows "nodes_ok home ns'"
  unfolding nodes_ok_def
proof (intro conjI allI impI)
  show "links_ok ns'" by (rule links)
  fix j
  assume j: "j < length ns'"
  show "if live (i_key (ns' ! j)) then valid_key (i_key (ns' ! j)) \<and> homed home ns' j else i_val (ns' ! j) = VNil"
  proof (cases "j = i")
    case True
    with i key show ?thesis by (simp add: valid_live)
  next
    case False
    with others [OF j] nodes_okD(2,4) [OF ok] show ?thesis by metis
  qed
  fix j'
  assume j': "j' < length ns'" and l: "live (i_key (ns' ! j))" and eq: "luaO_rawequalObj (i_key (ns' ! j)) (i_key (ns' ! j'))"
  have new: "\<not> luaO_rawequalObj (i_key (ns' ! x)) key" if "x < length ns'" "x \<noteq> i" for x
    using others [OF that] fresh unfolding absent_def by metis
  show "j = j'"
  proof (cases "j = i \<or> j' = i")
    case True
    with eq new j j' i(2) show ?thesis by (metis rawequal_sym)
  next
    case False
    with others [OF j] others [OF j'] eq l nodes_okD(5) [OF ok] have "f j = f j'" by metis
    with f j j' False show ?thesis by blast
  qed
qed

lemma add_at_home:
  assumes ok: "nodes_ok home ns" and len: "length ns = N" and k: "valid_key key" and fresh: "absent ns key"
    and free: "i_val (ns ! home key) = VNil"
  shows "added home ns (put_key ns (home key) key) (home key) key"
proof -
  let ?ns = "put_key ns (home key) key" and ?mp = "home key"
  have mp: "?mp < length ns" using home_less [OF k] len by simp
  have links: "links_ok ?ns"
    using nodes_okD(1) [OF ok] k by (auto simp: links_ok_def live_def valid_key_def link_def)
  have homed: "homed home ?ns j" if "j < length ns" "j \<noteq> ?mp" "live (i_key (ns ! j))" for j
  proof -
    have h: "home (i_key (ns ! j)) < length ns"
      using nodes_okD(2) [OF ok that(1,3)] home_less len by simp
    with nodes_okD(3) [OF ok that(1,3)] that mp k show ?thesis
      by (auto simp: homed_def Let_def valid_key_def)
  qed
  have "nodes_ok home ?ns"
  proof (rule nodes_ok_intro [OF links _ _ _ k, where i = ?mp and f = "\<lambda>j. j" and ns = ns])
    show "homed home ?ns ?mp" using mp k by (auto simp: homed_def Let_def valid_key_def)
    show "\<exists>l<length ns. i_key (?ns ! j) = i_key (ns ! l) \<and> i_val (?ns ! j) = i_val (ns ! l) \<and> l = j \<and>
        (live (i_key (ns ! l)) \<longrightarrow> homed home ?ns j)" if "j < length ?ns" "j \<noteq> ?mp" for j
      using that homed by auto
  qed (use mp free ok fresh in auto)
  moreover have "entries ?ns = entries ns"
    using free by (intro entries_eqI) (auto split: if_splits intro!: exI [where P = "\<lambda>x. x < _ \<and> _ x"])
  ultimately show ?thesis using mp free by (auto simp: added_def)
qed

lemma free_at_home:
  "valid_key key \<Longrightarrow> free_nodes (put_key ns (home key) key) = free_nodes ns - {home key}"
  by (auto simp: free_nodes_def valid_key_def live_def split: if_splits)

text \<open>The colliding node is at home: the new key goes to the free node \<open>n\<close>, second in the chain.\<close>

lemma chain_new_links:
  assumes ok: "links_ok ns" and mp: "mp < length ns" "i_key (ns ! mp) \<noteq> VNil" and n: "n \<in> free_nodes ns"
    and key: "key \<noteq> VNil"
  defines "ns' \<equiv> put_key (chain_new ns mp n) n key"
  shows "link ns' i j \<longleftrightarrow> i = mp \<and> j = n \<or> i = n \<and> link ns mp j \<or> i \<noteq> mp \<and> i \<noteq> n \<and> link ns i j"
    and "links_ok ns'" and "reach ns a b \<Longrightarrow> reach ns' a b" and "reach ns' mp n"
proof -
  from n mp have nn: "n < length ns" "n \<noteq> mp" "i_key (ns ! n) = VNil" by (auto simp: free_nodes_def)
  have len: "length ns' = length ns" by (simp add: ns'_def chain_new_nth(1) mp nn not_sym)
  have nth: "ns' ! j = (if j = mp then (ns ! j)\<lparr>gnext := Some n\<rparr>
       else if j = n then (ns ! j)\<lparr>i_key := key, gnext := gnext (ns ! mp)\<rparr> else ns ! j)" if "j < length ns" for j
    using that mp nn by (simp add: ns'_def chain_new_nth)
  show l: "link ns' i j \<longleftrightarrow> i = mp \<and> j = n \<or> i = n \<and> link ns mp j \<or> i \<noteq> mp \<and> i \<noteq> n \<and> link ns i j" for i j
    using mp nn by (auto simp: link_def len nth split: if_splits)
  have isolated: "\<not> link ns n j" "\<not> link ns j n" for j
    using links_okD [OF ok] nn(3) by blast+
  from ok obtain rank where rank: "\<And>i j. link ns i j \<Longrightarrow> (rank j :: nat) < rank i"
    unfolding links_ok_def by blast
  have key': "i_key (ns' ! x) \<noteq> VNil \<and> x < length ns'" if "link ns i x \<or> link ns x i \<or> x = mp \<or> x = n" for i x
    using that links_okD [OF ok] mp nn key len by (auto simp: nth split: if_splits)
  show "links_ok ns'"
    unfolding links_ok_def
  proof (intro conjI allI impI)
    show "j < length ns'" "i_key (ns' ! i) \<noteq> VNil" "i_key (ns' ! j) \<noteq> VNil" if "link ns' i j" for i j
      using that key' unfolding l by blast+
    show "i = i'" if "link ns' i j" "link ns' i' j" for i i' j
      using that isolated ok unfolding l links_ok_def by metis
    let ?rank = "\<lambda>x. if x = n then 2 * rank mp + 1 else 2 * rank x + 2"
    have "?rank j < ?rank i" if "link ns' i j" for i j
      using that isolated rank nn unfolding l by fastforce
    then show "\<exists>rank. \<forall>i j. link ns' i j \<longrightarrow> (rank j :: nat) < rank i"
      by (intro exI [of _ ?rank]) blast
  qed
  have mpn: "link ns' mp n" using l by simp
  then show "reach ns' mp n" by (rule r_into_rtranclp)
  show "reach ns a b \<Longrightarrow> reach ns' a b"
  proof (induction rule: rtranclp_induct)
    case base
    show ?case by simp
  next
    case (step y z)
    have "reach ns' y z"
    proof (cases "y = mp")
      case True
      with step.hyps(2) l have "link ns' n z" by simp
      with mpn True show ?thesis by (metis converse_rtranclp_into_rtranclp r_into_rtranclp)
    next
      case False
      with step.hyps(2) isolated l show ?thesis by (metis r_into_rtranclp)
    qed
    with step.IH show ?case by (rule rtranclp_trans)
  qed
qed

lemma add_chained:
  assumes ok: "nodes_ok home ns" and len: "length ns = N" and k: "valid_key key" and fresh: "absent ns key"
    and used: "i_val (ns ! home key) \<noteq> VNil" and at_home: "home (i_key (ns ! home key)) = home key"
    and n: "n \<in> free_nodes ns"
  shows "added home ns (put_key (chain_new ns (home key) n) n key) n key"
    "free_nodes (put_key (chain_new ns (home key) n) n key) = free_nodes ns - {n}"
proof -
  define mp where "mp = home key"
  define ns' where "ns' = put_key (chain_new ns mp n) n key"
  have mp: "mp < length ns" using home_less [OF k] len by (simp add: mp_def)
  with nodes_okD(4) [OF ok] used have lmp: "live (i_key (ns ! mp))" by (auto simp: mp_def)
  then have kmp: "i_key (ns ! mp) \<noteq> VNil" by auto
  have key: "key \<noteq> VNil" "live key" using k by (auto simp: valid_key_def)
  from n kmp have nn: "n < length ns" "n \<noteq> mp" "i_key (ns ! n) = VNil" by (auto simp: free_nodes_def)
  then have nval: "i_val (ns ! n) = VNil" using nodes_okD(4) [OF ok] by simp
  note links = chain_new_links [OF nodes_okD(1) [OF ok] mp kmp n key(1), folded ns'_def]
  have len': "length ns' = length ns" by (simp add: ns'_def chain_new_nth(1) mp nn not_sym)
  have nth: "ns' ! j = (if j = mp then (ns ! j)\<lparr>gnext := Some n\<rparr>
       else if j = n then (ns ! j)\<lparr>i_key := key, gnext := gnext (ns ! mp)\<rparr> else ns ! j)" if "j < length ns" for j
    using that mp nn by (simp add: ns'_def chain_new_nth)
  have homed: "homed home ns' j" if "j < length ns" "j \<noteq> n" "live (i_key (ns ! j))" for j
  proof -
    have h: "home (i_key (ns ! j)) < length ns"
      using nodes_okD(2) [OF ok that(1,3)] home_less len by simp
    with nodes_okD(3) [OF ok that(1,3)] that links(3) nn show ?thesis
      by (auto simp: homed_def Let_def nth)
  qed
  have "nodes_ok home ns'"
  proof (rule nodes_ok_intro [OF links(2) _ _ _ k, where i = n and f = "\<lambda>j. j" and ns = ns])
    show "homed home ns' n"
      using nn mp lmp kmp links(4) at_home by (auto simp: homed_def Let_def nth mp_def [symmetric])
    show "\<exists>l<length ns. i_key (ns' ! j) = i_key (ns ! l) \<and> i_val (ns' ! j) = i_val (ns ! l) \<and> l = j \<and>
        (live (i_key (ns ! l)) \<longrightarrow> homed home ns' j)" if "j < length ns'" "j \<noteq> n" for j
      using that homed len' by (auto simp: nth)
  qed (use nn nval ok fresh len' in \<open>auto simp: nth\<close>)
  moreover have "entries ns' = entries ns"
    using nval len' by (intro entries_eqI) (auto simp: nth split: if_splits intro!: exI [where P = "\<lambda>x. x < _ \<and> _ x"])
  moreover have "\<forall>j < length ns. i_key (ns' ! j) = key \<or> (\<exists>l < length ns. i_key (ns' ! j) = i_key (ns ! l))"
    by (auto simp: nth)
  ultimately show "added home ns (put_key (chain_new ns (home key) n) n key) n key"
    using nn nval len' by (simp add: added_def nth ns'_def [symmetric] mp_def [symmetric])
  show "free_nodes (put_key (chain_new ns (home key) n) n key) = free_nodes ns - {n}"
    unfolding ns'_def [symmetric] mp_def [symmetric]
    using key kmp by (auto simp: free_nodes_def len' nth split: if_splits)
qed

text \<open>The colliding node is away from home: it moves to the free node \<open>n\<close>, and the new key takes its place.\<close>

lemma move_links:
  assumes ok: "links_ok ns" and prev: "link ns prev mp" and n: "n \<in> free_nodes ns" and key: "key \<noteq> VNil"
  defines "ns' \<equiv> put_key (move_colliding ns prev mp n) mp key"
  shows "link ns' i j \<longleftrightarrow> i = prev \<and> j = n \<or> i = n \<and> link ns mp j
           \<or> i \<noteq> prev \<and> i \<noteq> n \<and> i \<noteq> mp \<and> link ns i j"
    and "links_ok ns'" and "reach ns a b \<Longrightarrow> a \<noteq> mp \<Longrightarrow> reach ns' a (if b = mp then n else b)"
proof -
  note pm = links_okD [OF ok prev]
  from n have nn: "n < length ns" "i_key (ns ! n) = VNil" by (auto simp: free_nodes_def)
  with pm have ne: "mp \<noteq> n" "prev \<noteq> mp" "prev \<noteq> n" by auto
  note nth0 = move_colliding_nth [OF pm(2) nn(1) pm(1) ne]
  have len: "length ns' = length ns" by (simp add: ns'_def nth0)
  have nth: "ns' ! j = (if j = mp then (ns ! j)\<lparr>i_val := VNil, i_key := key, gnext := None\<rparr>
       else if j = n then ns ! mp
       else if j = prev then (ns ! j)\<lparr>gnext := Some n\<rparr> else ns ! j)" if "j < length ns" for j
    using that by (simp add: ns'_def nth0)
  show l: "link ns' i j \<longleftrightarrow> i = prev \<and> j = n \<or> i = n \<and> link ns mp j
      \<or> i \<noteq> prev \<and> i \<noteq> n \<and> i \<noteq> mp \<and> link ns i j" for i j
    using pm nn ne by (auto simp: link_def len nth split: if_splits)
  have isolated: "\<not> link ns n j" "\<not> link ns j n" for j
    using links_okD [OF ok] nn(2) by blast+
  have once: "i = i'" if "link ns i j" "link ns i' j" for i i' j
    using that ok unfolding links_ok_def by blast
  from ok obtain rank where rank: "\<And>i j. link ns i j \<Longrightarrow> (rank j :: nat) < rank i"
    unfolding links_ok_def by blast
  have key': "i_key (ns' ! x) \<noteq> VNil \<and> x < length ns'" if "link ns i x \<or> link ns x i \<or> x = n" for i x
    using that links_okD [OF ok] pm nn key len by (auto simp: nth split: if_splits)
  show "links_ok ns'"
    unfolding links_ok_def
  proof (intro conjI allI impI)
    show "j < length ns'" "i_key (ns' ! i) \<noteq> VNil" "i_key (ns' ! j) \<noteq> VNil" if "link ns' i j" for i j
      using that key' prev unfolding l by blast+
    show "i = i'" if "link ns' i j" "link ns' i' j" for i i' j
      using that isolated once [of i j i'] once [of mp j i'] once [of i j mp] unfolding l by blast
    let ?rank = "\<lambda>x. if x = n then rank mp else rank x"
    have "?rank j < ?rank i" if "link ns' i j" for i j
      using that isolated rank prev unfolding l by fastforce
    then show "\<exists>rank. \<forall>i j. link ns' i j \<longrightarrow> (rank j :: nat) < rank i"
      by (intro exI [of _ ?rank]) blast
  qed
  show "reach ns' a (if b = mp then n else b)" if "reach ns a b" "a \<noteq> mp"
    using that(1)
  proof (induction rule: rtranclp_induct)
    case base
    with that(2) show ?case by simp
  next
    case (step y z)
    have "link ns' (if y = mp then n else y) (if z = mp then n else z)"
    proof (cases "y = mp")
      case True
      with step.hyps(2) links_okD(5) [OF ok] have "z \<noteq> mp" by blast
      with True step.hyps(2) show ?thesis by (simp add: l)
    next
      case False
      have "y \<noteq> n" using step.hyps(2) isolated(1) by blast
      moreover have "y = prev" if "z = mp" using once [OF step.hyps(2)] prev that by blast
      moreover have "y \<noteq> prev" if "z \<noteq> mp" using step.hyps(2) prev that by (auto simp: link_def)
      ultimately show ?thesis using False step.hyps(2) by (simp add: l)
    qed
    with step.IH show ?case by (rule rtranclp.rtrancl_into_rtrancl)
  qed
qed

lemma find_prev_total:
  assumes ok: "links_ok ns" and r: "reach ns i mp" "i \<noteq> mp"
  shows "\<exists>prev. find_prev ns i mp = Some prev \<and> link ns prev mp"
  using r
proof (induction rule: converse_rtranclp_induct)
  case base
  then show ?case by simp
next
  case (step y z)
  then have y: "y < length ns" "gnext (ns ! y) = Some z" by (simp_all add: link_def)
  show ?case
  proof (cases "z = mp")
    case True
    with y step.hyps(1) show ?thesis by (subst find_prev.simps) simp
  next
    case False
    with step.IH y show ?thesis by (subst find_prev.simps) simp
  qed
qed

lemma add_moving:
  assumes ok: "nodes_ok home ns" and len: "length ns = N" and k: "valid_key key" and fresh: "absent ns key"
    and used: "i_val (ns ! home key) \<noteq> VNil" and away: "home (i_key (ns ! home key)) \<noteq> home key"
    and n: "n \<in> free_nodes ns" and prev: "link ns prev (home key)"
  shows "added home ns (put_key (move_colliding ns prev (home key) n) (home key) key) (home key) key"
    "free_nodes (put_key (move_colliding ns prev (home key) n) (home key) key) = free_nodes ns - {n}"
proof -
  define mp where "mp = home key"
  define ns' where "ns' = put_key (move_colliding ns prev mp n) mp key"
  note pm = links_okD [OF nodes_okD(1) [OF ok] prev, folded mp_def]
  from pm nodes_okD(4) [OF ok] used have lmp: "live (i_key (ns ! mp))" by (auto simp: mp_def)
  have key: "key \<noteq> VNil" "live key" using k by (auto simp: valid_key_def)
  from n have nn: "n < length ns" "i_key (ns ! n) = VNil" by (auto simp: free_nodes_def)
  with pm have ne: "mp \<noteq> n" "prev \<noteq> mp" "prev \<noteq> n" by auto
  from nn have nval: "i_val (ns ! n) = VNil" using nodes_okD(4) [OF ok] by simp
  note links = move_links [OF nodes_okD(1) [OF ok] prev n key(1), folded mp_def, folded ns'_def]
  note nth0 = move_colliding_nth [OF pm(2) nn(1) pm(1) ne]
  have len': "length ns' = length ns" by (simp add: ns'_def nth0)
  have nth: "ns' ! j = (if j = mp then (ns ! j)\<lparr>i_val := VNil, i_key := key, gnext := None\<rparr>
       else if j = n then ns ! mp
       else if j = prev then (ns ! j)\<lparr>gnext := Some n\<rparr> else ns ! j)" if "j < length ns" for j
    using that by (simp add: ns'_def nth0)
  let ?f = "\<lambda>j. if j = n then mp else j"
  have homed: "homed home ns' j" if j: "j < length ns" "j \<noteq> mp" "live (i_key (ns ! ?f j))" for j
  proof -
    let ?l = "?f j" and ?h = "home (i_key (ns ! ?f j))"
    have l: "?l < length ns" using j pm by simp
    have h: "?h < length ns" using nodes_okD(2) [OF ok l j(3)] home_less len by simp
    note hm = nodes_okD(3) [OF ok l j(3), unfolded homed_def Let_def]
    have hmp: "?h \<noteq> mp" using hm lmp away by (metis mp_def)
    have hn: "?h \<noteq> n" using hm nn by metis
    have j': "i_key (ns' ! j) = i_key (ns ! ?l)" using j nth by simp
    have "i_key (ns' ! ?h) = i_key (ns ! ?h)" using h hmp hn by (simp add: nth)
    moreover have "(if ?l = mp then n else ?l) = j" using j ne by simp
    ultimately show ?thesis
      using hm links(3) [of ?h ?l] hmp unfolding homed_def Let_def j' by simp
  qed
  have "nodes_ok home ns'"
  proof (rule nodes_ok_intro [OF links(2) _ _ _ k, where i = mp and f = ?f and ns = ns])
    show "homed home ns' mp" using pm key by (simp add: homed_def Let_def nth mp_def [symmetric])
    show "\<exists>l<length ns. i_key (ns' ! j) = i_key (ns ! l) \<and> i_val (ns' ! j) = i_val (ns ! l) \<and> l = ?f j \<and>
        (live (i_key (ns ! l)) \<longrightarrow> homed home ns' j)" if "j < length ns'" "j \<noteq> mp" for j
      using that homed len' pm by (intro exI [of _ "?f j"]) (auto simp: nth)
  qed (use pm ok fresh len' ne in \<open>auto simp: nth split: if_splits\<close>)
  moreover have "entries ns' = entries ns"
  proof (rule entries_eqI)
    show "\<exists>l<length ns. i_key (ns' ! j) = i_key (ns ! l) \<and> i_val (ns' ! j) = i_val (ns ! l)"
      if "j < length ns'" "i_val (ns' ! j) \<noteq> VNil" for j
      using that len' pm by (intro exI [of _ "?f j"]) (auto simp: nth split: if_splits)
    show "\<exists>j<length ns'. i_key (ns' ! j) = i_key (ns ! l) \<and> i_val (ns' ! j) = i_val (ns ! l)"
      if "l < length ns" "i_val (ns ! l) \<noteq> VNil" for l
      using that len' nn ne nval by (intro exI [of _ "if l = mp then n else l"]) (auto simp: nth split: if_splits)
  qed
  moreover have "\<forall>j < length ns. i_key (ns' ! j) = key \<or> (\<exists>l < length ns. i_key (ns' ! j) = i_key (ns ! l))"
    using pm(2) by (auto simp: nth)
  ultimately show "added home ns (put_key (move_colliding ns prev (home key) n) (home key) key) (home key) key"
    using pm len' by (simp add: added_def nth ns'_def [symmetric] mp_def [symmetric])
  show "free_nodes (put_key (move_colliding ns prev (home key) n) (home key) key) = free_nodes ns - {n}"
    unfolding ns'_def [symmetric] mp_def [symmetric]
    using key pm by (auto simp: free_nodes_def len' nth split: if_splits)
qed

end

section \<open>Storing a value\<close>

definition set_val :: "Node list \<Rightarrow> nat \<Rightarrow> TValue \<Rightarrow> Node list" where
  "set_val ns i v = ns[i := (ns ! i)\<lparr>i_val := v\<rparr>]"

lemma set_val_nth:
  "length (set_val ns i v) = length ns"
  "j < length ns \<Longrightarrow> set_val ns i v ! j = (if j = i then (ns ! j)\<lparr>i_val := v\<rparr> else ns ! j)"
  by (auto simp: set_val_def)

lemma set_val_key [simp]:
  "length (set_val ns i v) = length ns"
  "j < length ns \<Longrightarrow> i_key (set_val ns i v ! j) = i_key (ns ! j)"
  by (simp_all add: set_val_nth)

lemma link_set_val [simp]: "link (set_val ns i v) = link ns"
  by (intro ext) (auto simp: link_def set_val_nth split: if_splits)

lemma free_set_val [simp]: "free_nodes (set_val ns i v) = free_nodes ns"
  by (auto simp: free_nodes_def split: if_splits)

context hash_part
begin

lemma set_val_ok:
  assumes ok: "nodes_ok home ns" and len: "length ns = N" and i: "i < length ns" "live (i_key (ns ! i))"
  shows "nodes_ok home (set_val ns i v)"
proof -
  have links: "links_ok (set_val ns i v)"
    unfolding links_ok_def link_set_val set_val_nth(1)
  proof (intro conjI allI impI)
    note ld = links_okD [OF nodes_okD(1) [OF ok]]
    show "b < length ns" "i_key (set_val ns i v ! a) \<noteq> VNil" "i_key (set_val ns i v ! b) \<noteq> VNil"
      if "link ns a b" for a b
      using ld [OF that] by auto
  qed (use nodes_okD(1) [OF ok] in \<open>unfold links_ok_def, blast+\<close>)
  have homed: "homed home (set_val ns i v) j" if "j < length ns" "live (i_key (ns ! j))" for j
  proof -
    have "home (i_key (ns ! j)) < length ns" using nodes_okD(2) [OF ok that] home_less len by simp
    with nodes_okD(3) [OF ok that] that show ?thesis by (simp add: homed_def Let_def)
  qed
  have nil: "i_val (set_val ns i v ! j) = VNil" if "j < length ns" "\<not> live (i_key (ns ! j))" for j
    using nodes_okD(4) [OF ok that] that i by (auto simp: set_val_nth)
  show ?thesis
    unfolding nodes_ok_def set_val_key(1)
  proof (intro conjI allI impI)
    show "if live (i_key (set_val ns i v ! j)) then valid_key (i_key (set_val ns i v ! j)) \<and> homed home (set_val ns i v) j
        else i_val (set_val ns i v ! j) = VNil" if "j < length ns" for j
      using nodes_okD(2) [OF ok that] homed [OF that] nil [OF that] that by simp
    show "a = b" if "a < length ns" "b < length ns" "live (i_key (set_val ns i v ! a))"
        "luaO_rawequalObj (i_key (set_val ns i v ! a)) (i_key (set_val ns i v ! b))" for a b
      using nodes_okD(5) [OF ok, of a b] that by simp
  qed (rule links)
qed

text \<open>Storing replaces the entry of the key.\<close>

lemma set_val_entries:
  assumes ok: "nodes_ok home ns" and i: "i < length ns" "live (i_key (ns ! i))"
  shows "entries (set_val ns i v) =
    {(k, w) \<in> entries ns. \<not> luaO_rawequalObj k (i_key (ns ! i))} \<union> (if v = VNil then {} else {(i_key (ns ! i), v)})"
proof -
  have other: "\<not> luaO_rawequalObj (i_key (ns ! j)) (i_key (ns ! i))" if "j < length ns" "j \<noteq> i" for j
    using nodes_okD(5) [OF ok i(1) that(1) i(2)] that(2) by (metis rawequal_sym)
  have self: "luaO_rawequalObj (i_key (ns ! i)) (i_key (ns ! i))"
    by (rule rawequal_refl [OF nodes_okD(2) [OF ok i]])
  have "(k, w) \<in> entries (set_val ns i v) \<longleftrightarrow>
      (k, w) \<in> entries ns \<and> \<not> luaO_rawequalObj k (i_key (ns ! i)) \<or> k = i_key (ns ! i) \<and> w = v \<and> v \<noteq> VNil" for k w
  proof
    assume "(k, w) \<in> entries (set_val ns i v)"
    then obtain j where "j < length ns" "k = i_key (ns ! j)" "w = i_val (set_val ns i v ! j)" "w \<noteq> VNil"
      by (auto simp: entries_def)
    with other i show "(k, w) \<in> entries ns \<and> \<not> luaO_rawequalObj k (i_key (ns ! i))
        \<or> k = i_key (ns ! i) \<and> w = v \<and> v \<noteq> VNil"
      by (cases "j = i") (auto simp: entries_def set_val_nth)
  next
    assume "(k, w) \<in> entries ns \<and> \<not> luaO_rawequalObj k (i_key (ns ! i)) \<or> k = i_key (ns ! i) \<and> w = v \<and> v \<noteq> VNil"
    then consider (old) j where "j < length ns" "j \<noteq> i" "k = i_key (ns ! j)" "w = i_val (ns ! j)" "w \<noteq> VNil"
      | (new) "k = i_key (ns ! i)" "w = v" "v \<noteq> VNil"
      using self by (auto simp: entries_def)
    then show "(k, w) \<in> entries (set_val ns i v)"
    proof cases
      case old
      then show ?thesis unfolding entries_def by (auto simp: set_val_nth intro!: exI [of _ j])
    next
      case new
      with i show ?thesis unfolding entries_def by (auto simp: set_val_nth intro!: exI [of _ i])
    qed
  qed
  then show ?thesis by auto
qed

end

end
