(* ===== verification/LTableGet.thy ===== *)
theory LTableGet
  imports LTableChain
begin

text \<open>
  The table invariant and lookup: the main positions of \<open>ltable.c\<close> meet the contract of \<open>hash_part\<close>,
  and on a well-formed table the three specialised searches return the slot of the key, if it has one.
\<close>

section \<open>Main positions\<close>

lemma mag_units_Suc: "mag_units m < mag_units (Suc m)"
proof -
  define e f where "e = m div 2 ^ 52" and "f = m mod 2 ^ 52"
  have m: "m = e * 2 ^ 52 + f" and f: "f < 2 ^ 52" by (simp_all add: e_def f_def)
  show ?thesis
  proof (cases "Suc f < 2 ^ 52")
    case True
    then have "Suc m div 2 ^ 52 = e" "Suc m mod 2 ^ 52 = Suc f" using m by (auto simp: div_nat_eqI)
    then show ?thesis unfolding mag_units_def Let_def e_def [symmetric] f_def [symmetric] by simp
  next
    case False
    with f have f': "f = 2 ^ 52 - 1" by simp
    with m have "Suc m = (e + 1) * 2 ^ 52" by simp
    then have "Suc m div 2 ^ 52 = e + 1" "Suc m mod 2 ^ 52 = 0" by simp_all
    moreover have "(2 ^ 52 + (2 ^ 52 - 1)) * 2 ^ (e - 1) < (2 ^ 52 :: nat) * 2 ^ e" if "0 < e"
    proof -
      have "(2 :: nat) ^ e = 2 * 2 ^ (e - 1)" using that by (simp flip: power_Suc)
      then show ?thesis by simp
    qed
    ultimately show ?thesis
      unfolding mag_units_def Let_def e_def [symmetric] f_def [symmetric] f' by simp
  qed
qed

lemma mag_units_inj: "mag_units a = mag_units b \<Longrightarrow> a = b"
  using strict_mono_Suc_iff [of mag_units] mag_units_Suc by (metis strict_mono_eq)

lemma mag_units_0: "mag_units 0 = 0"
  by (simp add: mag_units_def)

text \<open>Equal numbers other than zero have the same bits.\<close>

lemma d_zero: "d_mag 0 = 0" "\<not> d_neg 0" "\<not> d_isnan 0" "d_units 0 = 0"
proof -
  show mag: "d_mag 0 = 0" by (simp add: d_mag_def)
  show neg: "\<not> d_neg 0" by (simp add: d_neg_def)
  show "\<not> d_isnan 0" by (simp add: d_isnan_def d_exp_def mag)
  show "d_units 0 = 0" by (simp add: d_units_def neg mag mag_units_0)
qed

lemma unat_mag: "unat (w :: lua_Number) = d_mag w + (if d_neg w then 2 ^ 63 else 0)"
proof -
  have "unat w < 2 * 2 ^ 63" using unsigned_less [of w] by simp
  then show ?thesis unfolding d_mag_def d_neg_def by (cases "unat w < 2 ^ 63") (simp_all add: le_mod_geq)
qed

lemma numeq_bits:
  assumes "luai_numeq a b" "\<not> luai_numeq a 0"
  shows "a = b"
proof -
  have u: "d_units a = d_units b" "\<not> d_isnan a" using assms(1) unfolding luai_numeq_def by blast+
  with assms(2) d_zero have nz: "d_units a \<noteq> 0" unfolding luai_numeq_def by metis
  have "d_neg a = d_neg b \<and> mag_units (d_mag a) = mag_units (d_mag b)"
    using u(1) nz unfolding d_units_def by (cases "d_neg a"; cases "d_neg b") simp_all
  then have "d_neg a = d_neg b" "d_mag a = d_mag b" using mag_units_inj by blast+
  then have "unat a = unat b" by (simp only: unat_mag)
  then show ?thesis by (simp add: word_unat_eq_iff)
qed

lemma sizenode_pos [simp]: "0 < sizenode t"
  by (simp add: sizenode_def)

lemma hashpow2_less: "hashpow2 t n < sizenode t"
  unfolding hashpow2_def sizenode_def by (rule lmod_less)

lemma hashmod_less: "hashmod t n < sizenode t"
proof (cases "lsizenode t")
  case 0
  then show ?thesis by (simp add: hashmod_def sizenode_def)
next
  case (Suc k)
  then have "odd (sizenode t - 1)" by (simp add: sizenode_def)
  have "1 < sizenode t" unfolding sizenode_def Suc by (rule one_less_power) simp_all
  have "(sizenode t - 1) OR 1 = sizenode t - 1"
    using \<open>odd (sizenode t - 1)\<close> or_one_eq [of "sizenode t - 1"] by (simp del: One_nat_def)
  with \<open>1 < sizenode t\<close> show ?thesis
    unfolding hashmod_def by (metis diff_less less_trans mod_less_divisor zero_less_diff zero_less_one sizenode_pos)
qed

lemma mainposition_less: "valid_key k \<Longrightarrow> mainposition t k < sizenode t"
  by (cases k)
    (auto simp: valid_key_def live_def hashpow2_less hashmod_less hashpointer_def hashnum_def)

lemma mainposition_rawequal:
  assumes "valid_key k" "luaO_rawequalObj k k'"
  shows "mainposition t k' = mainposition t k"
proof (cases k)
  case (VNumber a)
  with assms(2) obtain b where b: "k' = VNumber b" "luai_numeq a b"
    by (cases k') (auto simp: luaO_rawequalObj_def)
  have "hashnum t b = hashnum t a"
  proof (cases "luai_numeq a 0")
    case True
    with b show ?thesis unfolding hashnum_def by (metis numeq_sym numeq_trans)
  next
    case False
    with numeq_bits [OF b(2)] show ?thesis by simp
  qed
  with VNumber b show ?thesis by simp
qed (use assms in \<open>cases k'; auto simp: luaO_rawequalObj_def valid_key_def live_def\<close>)+

interpretation hp: hash_part "mainposition t" "sizenode t" for t
  by unfold_locales (simp_all add: mainposition_less mainposition_rawequal)

lemma mainposition_cong:
  assumes "lsizenode t = lsizenode t'"
  shows "mainposition t = mainposition t'"
proof
  fix k
  show "mainposition t k = mainposition t' k"
    using assms by (cases k) (simp_all add: hashnum_def hashpow2_def hashpointer_def hashmod_def sizenode_def)
qed

section \<open>The table invariant\<close>

text \<open>The hash part is well formed and has a power of two of nodes; no key of the hash part belongs to
  the array part; every unused node lies below \<open>lastfree\<close>, and the shared dummy node is never handed
  out; the sizes are those an \<open>int\<close> can count.\<close>

definition in_array :: "Table \<Rightarrow> TValue \<Rightarrow> bool" where
  "in_array t k \<longleftrightarrow> 0 < arrayindex k \<and> arrayindex k \<le> int (length (array t))"

definition table_ok :: "Table \<Rightarrow> bool" where
  "table_ok t \<longleftrightarrow> lsizenode t \<le> MAXBITS \<and> length (node t) = sizenode t
     \<and> nodes_ok (mainposition t) (node t) \<and> length (array t) < 2 ^ 31
     \<and> (\<forall>j < length (node t). live (i_key (node t ! j)) \<longrightarrow> \<not> in_array t (i_key (node t ! j)))
     \<and> lastfree t \<le> int (sizenode t)
     \<and> (if is_dummy t then node t = [dummynode] \<and> lastfree t \<le> 0
        else \<forall>i \<in> free_nodes (node t). int i < lastfree t)"

lemma table_okD:
  assumes "table_ok t"
  shows "length (node t) = sizenode t" "nodes_ok (mainposition t) (node t)" "length (array t) < 2 ^ 31"
    and "j < length (node t) \<Longrightarrow> live (i_key (node t ! j)) \<Longrightarrow> \<not> in_array t (i_key (node t ! j))"
  using assms by (auto simp: table_ok_def)

text \<open>The contents of a table: the entries of both parts.\<close>

definition array_entries :: "TValue list \<Rightarrow> (TValue \<times> TValue) set" where
  "array_entries arr = {(VNumber (cast_num (int i + 1)), arr ! i) | i. i < length arr \<and> arr ! i \<noteq> VNil}"

definition contents :: "Table \<Rightarrow> (TValue \<times> TValue) set" where
  "contents t = array_entries (array t) \<union> entries (node t)"

section \<open>Lookup\<close>

lemma number2int_range: "- (2 ^ 31) \<le> lua_number2int n" "lua_number2int n < 2 ^ 31"
  by (auto simp: lua_number2int_def Let_def)

lemma number2int_numeq:
  assumes "luai_numeq a b"
  shows "lua_number2int a = lua_number2int b"
proof -
  have u: "d_units a = d_units b" "\<not> d_isnan a" "\<not> d_isnan b" using assms by (auto simp: luai_numeq_def)
  have "d_isinf a \<longleftrightarrow> d_isinf b"
  proof (cases "luai_numeq a 0")
    case True
    with assms have "d_units a = 0" "d_units b = 0" by (auto simp: luai_numeq_def d_zero)
    then have "d_mag a = 0" "d_mag b = 0" using mag_units_inj [of _ 0] by (auto simp: d_units_def mag_units_0 split: if_splits)
    then show ?thesis by (simp add: d_isinf_def d_exp_def)
  next
    case False
    with numeq_bits [OF assms] show ?thesis by simp
  qed
  with u units_nonneg [OF u(1)] show ?thesis by (simp add: lua_number2int_def)
qed

lemma arrayindex_rawequal:
  assumes "luaO_rawequalObj k k'"
  shows "arrayindex k = arrayindex k'"
proof (cases k)
  case (VNumber a)
  with assms obtain b where b: "k' = VNumber b" "luai_numeq a b"
    by (cases k') (auto simp: luaO_rawequalObj_def)
  then have "luai_numeq (cast_num (lua_number2int a)) a \<longleftrightarrow> luai_numeq (cast_num (lua_number2int b)) b"
    unfolding number2int_numeq [OF b(2)] by (metis numeq_sym numeq_trans)
  with VNumber b number2int_numeq [OF b(2)] show ?thesis by (simp add: arrayindex_def Let_def)
qed (use assms in \<open>cases k'; simp add: luaO_rawequalObj_def arrayindex_def\<close>)+

lemma arrayindex_cast: "- (2 ^ 31) \<le> n \<Longrightarrow> n < 2 ^ 31 \<Longrightarrow> arrayindex (VNumber (cast_num n)) = n"
  by (simp add: arrayindex_def Let_def number2int_cast numeq_cast_iff abs_less_iff)

lemma arrayindex_eq:
  assumes "arrayindex k = i" "0 < i"
  shows "luaO_rawequalObj (VNumber (cast_num i)) k" "i < 2 ^ 31"
proof -
  from assms obtain n where n: "k = VNumber n" "lua_number2int n = i" "luai_numeq (cast_num i) n"
    by (auto simp: arrayindex_def Let_def split: TValue.splits if_splits)
  then show "luaO_rawequalObj (VNumber (cast_num i)) k" by (simp add: luaO_rawequalObj_def)
  show "i < 2 ^ 31" using number2int_range(2) [of n] n(2) by simp
qed

lemma valid_cast: "\<bar>n\<bar> < 2 ^ 53 \<Longrightarrow> valid_key (VNumber (cast_num n))"
  by (simp add: valid_key_def live_def cast_num_exact)

text \<open>The unsigned comparison of \<open>luaH_getnum\<close>.\<close>

lemma getnum_range:
  assumes "- (2 ^ 31) \<le> key" "key < 2 ^ 31" "n < 2 ^ 31"
  shows "(word_of_int (key - 1) :: u32) < of_nat n \<longleftrightarrow> 0 < key \<and> key \<le> int n"
proof -
  have n: "uint (of_nat n :: u32) = int n" using assms(3) by (simp add: unsigned_of_nat take_bit_nat_eq_self)
  have key: "uint (word_of_int (key - 1) :: u32) = (key - 1) mod 2 ^ 32"
    by (subst uint_word_of_int) simp
  show ?thesis
  proof (cases "0 < key")
    case True
    with assms have "(key - 1) mod 2 ^ 32 = key - 1" by simp
    with True show ?thesis unfolding word_less_def n key by linarith
  next
    case False
    have "(key - 1) mod 2 ^ 32 = (key - 1 + 2 ^ 32) mod 2 ^ 32"
      by (rule mod_add_self2 [symmetric])
    also have "\<dots> = key - 1 + 2 ^ 32" using False assms by (intro mod_pos_pos_trivial) simp_all
    finally have "(key - 1) mod 2 ^ 32 = key - 1 + 2 ^ 32" .
    with False assms show ?thesis unfolding word_less_def n key by simp
  qed
qed

text \<open>What a lookup may return: the array element of the key, the node with the key, or nothing.\<close>

definition finds :: "Table \<Rightarrow> TValue \<Rightarrow> slot \<Rightarrow> bool" where
  "finds t k s \<longleftrightarrow>
     (case s of
        ArraySlot i \<Rightarrow> in_array t k \<and> int i = arrayindex k - 1
      | NodeSlot j \<Rightarrow> \<not> in_array t k \<and> j < length (node t) \<and> luaO_rawequalObj (i_key (node t ! j)) k
      | NilObject \<Rightarrow> \<not> in_array t k \<and> (\<forall>j < length (node t). \<not> luaO_rawequalObj (i_key (node t ! j)) k))"

lemma search_finds:
  assumes ok: "table_ok t" and k: "valid_key k" and out: "\<not> in_array t k"
    and P: "\<And>i. i < length (node t) \<Longrightarrow> P (i_key (node t ! i)) \<longleftrightarrow> luaO_rawequalObj (i_key (node t ! i)) k"
  shows "\<exists>s. found_slot (chain_find P (node t) (mainposition t k)) = Some s \<and> finds t k s"
proof -
  from hp.lookup [OF table_okD(2,1) [OF ok] k P] obtain r
    where r: "chain_find P (node t) (mainposition t k) = Some r"
      "case r of Some j \<Rightarrow> j < length (node t) \<and> luaO_rawequalObj (i_key (node t ! j)) k
        | None \<Rightarrow> \<forall>j < length (node t). \<not> luaO_rawequalObj (i_key (node t ! j)) k" by blast
  then show ?thesis using out by (cases r) (simp_all add: found_slot_def finds_def)
qed

lemma getgeneric_finds:
  assumes "table_ok t" "valid_key k" "\<not> in_array t k"
  shows "\<exists>s. getgeneric t k = Some s \<and> finds t k s"
  unfolding getgeneric_def by (rule search_finds [OF assms]) (rule refl)

lemma getstr_finds:
  assumes "table_ok t"
  shows "\<exists>s. luaH_getstr t str = Some s \<and> finds t (VString str) s"
proof -
  have "luaO_rawequalObj k (VString str) \<longleftrightarrow> k = VString str" for k
    by (cases k) (auto simp: luaO_rawequalObj_def)
  then show ?thesis
    using search_finds [OF assms, of "VString str" "\<lambda>k. k = VString str"]
    by (simp add: luaH_getstr_def valid_key_def live_def in_array_def arrayindex_def)
qed

lemma getnum_finds:
  assumes ok: "table_ok t" and key: "- (2 ^ 31) \<le> key" "key < 2 ^ 31"
  shows "\<exists>s. luaH_getnum t key = Some s \<and> finds t (VNumber (cast_num key)) s"
proof -
  let ?k = "VNumber (cast_num key)"
  have ix: "arrayindex ?k = key" by (rule arrayindex_cast [OF key])
  note range = getnum_range [OF key table_okD(3) [OF ok]]
  show ?thesis
  proof (cases "in_array t ?k")
    case True
    with ix range show ?thesis by (simp add: luaH_getnum_def finds_def in_array_def)
  next
    case False
    then have "\<not> (word_of_int (key - 1) :: u32) < of_nat (length (array t))"
      unfolding range by (simp add: in_array_def ix)
    moreover have "(\<lambda>k. case k of VNumber m \<Rightarrow> luai_numeq m (cast_num key) | _ \<Rightarrow> False) =
        (\<lambda>k. luaO_rawequalObj k ?k)"
    proof
      show "(case k of VNumber m \<Rightarrow> luai_numeq m (cast_num key) | _ \<Rightarrow> False) = luaO_rawequalObj k ?k" for k
        by (cases k) (simp_all add: luaO_rawequalObj_def)
    qed
    moreover have "valid_key ?k" using key by (intro valid_cast) (simp add: abs_less_iff)
    ultimately show ?thesis
      using search_finds [OF ok _ False, of "\<lambda>k. luaO_rawequalObj k ?k"]
      unfolding luaH_getnum_def Let_def by simp
  qed
qed

lemma finds_rawequal:
  assumes "luaO_rawequalObj k k'" "finds t k s"
  shows "finds t k' s"
proof -
  have "luaO_rawequalObj x k \<longleftrightarrow> luaO_rawequalObj x k'" for x
    using assms(1) by (metis rawequal_sym rawequal_trans)
  then show ?thesis
    using assms(2) arrayindex_rawequal [OF assms(1)] by (simp add: finds_def in_array_def split: slot.splits)
qed

lemma get_finds:
  assumes ok: "table_ok t" and k: "valid_key k"
  shows "\<exists>s. luaH_get t k = Some s \<and> finds t k s"
proof (cases k)
  case (VNumber n)
  show ?thesis
  proof (cases "luai_numeq (cast_num (lua_number2int n)) n")
    case True
    then have "luaO_rawequalObj (VNumber (cast_num (lua_number2int n))) k"
      by (simp add: VNumber luaO_rawequalObj_def)
    with getnum_finds [OF ok number2int_range, of n] True show ?thesis
      by (auto simp: VNumber luaH_get_def Let_def dest: finds_rawequal)
  next
    case False
    then have "\<not> in_array t k" by (simp add: in_array_def arrayindex_def VNumber)
    from getgeneric_finds [OF ok k this] False show ?thesis
      by (simp add: VNumber luaH_get_def Let_def)
  qed
next
  case (VString s)
  with getstr_finds [OF ok] show ?thesis by (simp add: luaH_get_def)
qed (use k getgeneric_finds [OF ok k] in \<open>simp_all add: luaH_get_def in_array_def arrayindex_def valid_key_def live_def\<close>)

text \<open>The value at a slot that was found is the one the contents associate with the key.\<close>

definition val_in :: "(TValue \<times> TValue) set \<Rightarrow> TValue \<Rightarrow> TValue \<Rightarrow> bool" where
  "val_in E k v \<longleftrightarrow>
     (if v = VNil then \<forall>k' w. (k', w) \<in> E \<longrightarrow> \<not> luaO_rawequalObj k' k
      else \<exists>k'. (k', v) \<in> E \<and> luaO_rawequalObj k' k)"

lemma val_in_unique:
  assumes "val_in E k v" "val_in E k w"
    and "\<And>k1 v1 k2 v2. (k1, v1) \<in> E \<Longrightarrow> (k2, v2) \<in> E \<Longrightarrow> luaO_rawequalObj k1 k2 \<Longrightarrow> v1 = v2"
  shows "v = w"
  using assms unfolding val_in_def by (metis rawequal_sym rawequal_trans)

lemma entry_live: "nodes_ok home ns \<Longrightarrow> (k, v) \<in> entries ns \<Longrightarrow> live k"
  using nodes_okD(4) by (fastforce simp: entries_def)

lemma entry_out: "table_ok t \<Longrightarrow> (k, v) \<in> entries (node t) \<Longrightarrow> \<not> in_array t k"
  using table_okD(4) nodes_okD(4) [OF table_okD(2)] by (fastforce simp: entries_def)

lemma array_entry_in:
  assumes "length (array t) < 2 ^ 31" "(k, v) \<in> array_entries (array t)"
  shows "in_array t k \<and> v = array t ! nat (arrayindex k - 1) \<and> v \<noteq> VNil"
proof -
  from assms(2) obtain i where i: "k = VNumber (cast_num (int i + 1))" "v = array t ! i" "i < length (array t)" "v \<noteq> VNil"
    by (auto simp: array_entries_def)
  with assms(1) have "arrayindex k = int i + 1" by (simp add: arrayindex_cast)
  with i show ?thesis by (simp add: in_array_def)
qed

lemma in_array_rawequal: "luaO_rawequalObj k k' \<Longrightarrow> in_array t k \<longleftrightarrow> in_array t k'"
  by (simp add: in_array_def arrayindex_rawequal)

lemma contents_unique:
  assumes ok: "table_ok t" and e: "(k1, v1) \<in> contents t" "(k2, v2) \<in> contents t" "luaO_rawequalObj k1 k2"
  shows "v1 = v2"
proof (cases "in_array t k1")
  case True
  with in_array_rawequal [OF e(3)] have "in_array t k2" by simp
  with True e(1,2) entry_out [OF ok] have "(k1, v1) \<in> array_entries (array t)" "(k2, v2) \<in> array_entries (array t)"
    unfolding contents_def by blast+
  with array_entry_in [OF table_okD(3) [OF ok]] arrayindex_rawequal [OF e(3)] show ?thesis by metis
next
  case False
  with in_array_rawequal [OF e(3)] have "\<not> in_array t k2" by simp
  with False e(1,2) array_entry_in [OF table_okD(3) [OF ok]]
  have "(k1, v1) \<in> entries (node t)" "(k2, v2) \<in> entries (node t)" unfolding contents_def by blast+
  then obtain i j where "i < length (node t)" "j < length (node t)" "k1 = i_key (node t ! i)" "v1 = i_val (node t ! i)"
      "k2 = i_key (node t ! j)" "v2 = i_val (node t ! j)" by (auto simp: entries_def)
  with e(3) nodes_okD(5) [OF table_okD(2) [OF ok]] entry_live [OF table_okD(2) [OF ok] \<open>(k1, v1) \<in> entries (node t)\<close>]
  show ?thesis by blast
qed

lemma finds_val_in:
  assumes ok: "table_ok t" and s: "finds t k s"
  shows "val_in (contents t) k (slot_value t s)"
proof (cases s)
  case NilObject
  with s have out: "\<not> in_array t k" "\<And>j. j < length (node t) \<Longrightarrow> \<not> luaO_rawequalObj (i_key (node t ! j)) k"
    by (auto simp: finds_def)
  have "\<not> luaO_rawequalObj k' k" if "(k', w) \<in> contents t" for k' w
    using that out array_entry_in [OF table_okD(3) [OF ok]] in_array_rawequal [of k' k t]
    unfolding contents_def by (auto simp: entries_def)
  with NilObject show ?thesis by (simp add: val_in_def)
next
  case (ArraySlot i)
  with s have i: "in_array t k" "arrayindex k = int i + 1" "i < length (array t)" by (auto simp: finds_def in_array_def)
  let ?k = "VNumber (cast_num (int i + 1))"
  have eq: "luaO_rawequalObj ?k k" using arrayindex_eq(1) [OF i(2)] by simp
  show ?thesis
  proof (cases "array t ! i = VNil")
    case False
    with i eq have "(?k, array t ! i) \<in> contents t" by (auto simp: contents_def array_entries_def)
    with False eq ArraySlot show ?thesis by (auto simp: val_in_def)
  next
    case True
    have "\<not> luaO_rawequalObj k' k" if "(k', w) \<in> contents t" for k' w
    proof
      assume eq': "luaO_rawequalObj k' k"
      with i(1) in_array_rawequal have "in_array t k'" by blast
      with that entry_out [OF ok] have "(k', w) \<in> array_entries (array t)" unfolding contents_def by blast
      with array_entry_in [OF table_okD(3) [OF ok]] arrayindex_rawequal [OF eq'] i(2) True show False by force
    qed
    with True ArraySlot show ?thesis by (simp add: val_in_def)
  qed
next
  case (NodeSlot j)
  with s have j: "\<not> in_array t k" "j < length (node t)" "luaO_rawequalObj (i_key (node t ! j)) k"
    by (auto simp: finds_def)
  show ?thesis
  proof (cases "i_val (node t ! j) = VNil")
    case False
    with j have "(i_key (node t ! j), i_val (node t ! j)) \<in> contents t" by (auto simp: contents_def entries_def)
    with False j NodeSlot show ?thesis by (auto simp: val_in_def)
  next
    case True
    have "\<not> luaO_rawequalObj k' k" if e: "(k', w) \<in> contents t" for k' w
    proof
      assume eq': "luaO_rawequalObj k' k"
      with e j(1) array_entry_in [OF table_okD(3) [OF ok]] in_array_rawequal
      have en: "(k', w) \<in> entries (node t)" unfolding contents_def by blast
      then obtain l where l: "l < length (node t)" "k' = i_key (node t ! l)" "w = i_val (node t ! l)" "w \<noteq> VNil"
        by (auto simp: entries_def)
      have "luaO_rawequalObj k' (i_key (node t ! j))" using eq' j(3) by (metis rawequal_sym rawequal_trans)
      with nodes_okD(5) [OF table_okD(2) [OF ok] l(1) j(2)] entry_live [OF table_okD(2) [OF ok] en] l True
      show False by simp
    qed
    with True NodeSlot show ?thesis by (simp add: val_in_def)
  qed
qed

text \<open>The value a table has for a key.\<close>

definition tget :: "Table \<Rightarrow> TValue \<Rightarrow> TValue" where
  "tget t k = (case luaH_get t k of Some s \<Rightarrow> slot_value t s | None \<Rightarrow> VNil)"

lemma tget_iff:
  assumes "table_ok t" "valid_key k"
  shows "tget t k = v \<longleftrightarrow> val_in (contents t) k v"
proof -
  from get_finds [OF assms] obtain s where s: "luaH_get t k = Some s" "finds t k s" by blast
  from finds_val_in [OF assms(1) s(2)] have "val_in (contents t) k (tget t k)" by (simp add: tget_def s(1))
  then show ?thesis using val_in_unique contents_unique [OF assms(1)] by blast
qed

end
