(* ===== verification/LTableSet.thy ===== *)
theory LTableSet
  imports LTableGet
begin

text \<open>
  Setting a key of a table. Adding a key to a table with a free node never rehashes; a rehash counts
  the keys exactly, so that inserting them again never runs out of nodes, and hence never rehashes in
  turn. The outcome of \<open>luaH_set\<close> followed by a store is the update of a map.
\<close>

section \<open>Free nodes\<close>

lemma getfreepos_loop_free:
  assumes "\<forall>i \<in> free_nodes ns. int i < lf" "lf \<le> int (length ns)"
  shows "case getfreepos_loop ns lf of
      (Some n, lf') \<Rightarrow> n \<in> free_nodes ns \<and> lf' = int n \<and> (\<forall>i \<in> free_nodes ns. i \<le> n)
    | (None, lf') \<Rightarrow> free_nodes ns = {}"
  using assms
proof (induction ns lf rule: getfreepos_loop.induct)
  case (1 ns lf)
  show ?case
  proof (cases "lf > 0")
    case False
    with "1.prems" have "free_nodes ns = {}" by force
    with False show ?thesis by (subst getfreepos_loop.simps) simp
  next
    case True
    define n where "n = nat (lf - 1)"
    have n: "int n = lf - 1" "n < length ns" using True "1.prems"(2) by (auto simp: n_def)
    show ?thesis
    proof (cases "i_key (ns ! n) = VNil")
      case nil: True
      with n True "1.prems"(1) show ?thesis
        by (subst getfreepos_loop.simps) (auto simp: n_def [symmetric] free_nodes_def)
    next
      case False
      have "int i < lf - 1" if "i \<in> free_nodes ns" for i
      proof -
        have "i \<noteq> n" using that False by (auto simp: free_nodes_def)
        with that "1.prems"(1) n(1) show ?thesis by fastforce
      qed
      with "1.IH" True False "1.prems"(2) show ?thesis
        by (subst getfreepos_loop.simps) (simp add: n_def [symmetric])
    qed
  qed
qed

section \<open>Adding a key without a rehash\<close>

definition usable :: "Table \<Rightarrow> nat" where
  "usable t = (if is_dummy t then 0 else card (free_nodes (node t)))"

text \<open>A key put, without a value, in node \<open>i\<close> of a table that is otherwise the same.\<close>

definition key_added :: "Table \<Rightarrow> Table \<Rightarrow> nat \<Rightarrow> TValue \<Rightarrow> bool" where
  "key_added t t' i key \<longleftrightarrow> table_ok t' \<and> array t' = array t \<and> i < length (node t')
     \<and> i_key (node t' ! i) = key \<and> i_val (node t' ! i) = VNil \<and> entries (node t') = entries (node t)
     \<and> \<not> is_dummy t' \<and> usable t \<le> usable t' + 1"

lemma key_added_intro:
  assumes ok: "table_ok t" and add: "added (mainposition t) (node t) ns i key" and k: "valid_key key"
    and out: "\<not> in_array t key" and nd: "\<not> is_dummy t"
    and t': "t' = t\<lparr>node := ns, lastfree := lf\<rparr>"
    and lf: "\<forall>i \<in> free_nodes ns. int i < lf" "lf \<le> int (sizenode t)"
    and free: "free_nodes ns = free_nodes (node t) - {j}"
  shows "key_added t t' i key"
proof -
  have new: "nodes_ok (mainposition t) ns" "length ns = length (node t)" "entries ns = entries (node t)"
    "i < length ns" "i_key (ns ! i) = key" "i_val (ns ! i) = VNil"
    using add by (auto simp: added_def)
  have mp: "mainposition t' = mainposition t" by (rule mainposition_cong) (simp add: t')
  have keys: "\<not> in_array t (i_key (ns ! j))" if "j < length ns" "live (i_key (ns ! j))" for j
    using add that out table_okD(4) [OF ok] unfolding added_def by metis
  have fin: "finite (free_nodes ns)" for ns by (simp add: free_nodes_def)
  have "table_ok t'"
    unfolding table_ok_def mp using ok new keys nd lf by (auto simp: t' table_ok_def sizenode_def in_array_def)
  moreover have "card (free_nodes (node t)) \<le> card (free_nodes ns) + 1"
    unfolding free using card_Diff1_le [of "free_nodes (node t)" j] card_Diff_singleton_if [of "free_nodes (node t)" j] fin
    by (auto split: if_splits)
  ultimately show ?thesis
    using new nd by (simp add: key_added_def usable_def t')
qed

lemma newkey_no_rehash:
  assumes ok: "table_ok t" and k: "valid_key key" and absent: "finds t key NilObject"
    and nd: "\<not> is_dummy t" and room: "i_val (node t ! mainposition t key) = VNil \<or> 0 < usable t"
  shows "\<exists>t' i. newkey (Suc d) t key = ROk (t', NodeSlot i) \<and> key_added t t' i key"
proof -
  define ns where "ns = node t"
  define mp where "mp = mainposition t key"
  from ok nd have lf: "\<forall>i \<in> free_nodes ns. int i < lastfree t" "lastfree t \<le> int (sizenode t)" "length ns = sizenode t"
    by (auto simp: table_ok_def ns_def)
  have out: "\<not> in_array t key" and fresh: "hp.absent ns key"
    using absent by (auto simp: finds_def hp.absent_def ns_def)
  note ok_ns = table_okD(2) [OF ok, folded ns_def]
  show ?thesis
  proof (cases "i_val (ns ! mp) = VNil")
    case True
    note add = hp.add_at_home [OF ok_ns lf(3) k fresh True [unfolded mp_def]]
    have "key_added t (t\<lparr>node := put_key ns mp key\<rparr>) mp key"
      by (rule key_added_intro [OF ok _ k out nd, where lf = "lastfree t" and ns = "put_key ns mp key" and j = mp])
        (use add lf hp.free_at_home [OF k, of ns t] in \<open>auto simp: mp_def ns_def\<close>)
    with True nd show ?thesis by (auto simp: Let_def mp_def ns_def)
  next
    case False
    with room have "free_nodes ns \<noteq> {}" by (auto simp: usable_def nd ns_def mp_def)
    moreover obtain r lf' where r: "getfreepos_loop ns (lastfree t) = (r, lf')" by fastforce
    ultimately obtain n where n: "r = Some n" "n \<in> free_nodes ns" "lf' = int n" "\<forall>i \<in> free_nodes ns. i \<le> n"
      using getfreepos_loop_free [OF lf(1)] lf(2,3) by (auto split: option.splits)
    let ?t1 = "t\<lparr>lastfree := int n\<rparr>"
    have gf: "getfreepos t = (Some n, ?t1)" using r n by (simp add: getfreepos_def ns_def)
    have mp1: "mainposition ?t1 = mainposition t" by (rule mainposition_cong) simp
    have n_size: "int n \<le> int (sizenode t)" using n(2) lf(3) by (simp add: free_nodes_def)
    have below: "\<forall>i \<in> free_nodes ns - {n}. int i < int n" using n(4) by fastforce
    show ?thesis
    proof (cases "mainposition t (i_key (ns ! mp)) = mp")
      case True
      note add = hp.add_chained [OF ok_ns lf(3) k fresh False [unfolded mp_def] True [unfolded mp_def] n(2)]
      have "key_added t (?t1\<lparr>node := put_key (chain_new ns mp n) n key\<rparr>) n key"
        by (rule key_added_intro [OF ok _ k out nd, where lf = "int n" and ns = "put_key (chain_new ns mp n) n key" and j = n])
          (use add n_size below in \<open>auto simp: mp_def ns_def\<close>)
      with True False gf mp1 show ?thesis by (auto simp: Let_def mp_def ns_def)
    next
      case away: False
      have mp_less: "mp < length ns" using mainposition_less [OF k] lf(3) by (simp add: mp_def)
      with nodes_okD(3,4) [OF ok_ns] False have "reach ns (mainposition t (i_key (ns ! mp))) mp"
        by (force simp: homed_def Let_def)
      from hp.find_prev_total [OF nodes_okD(1) [OF ok_ns] this away] obtain prev
        where prev: "find_prev ns (mainposition t (i_key (ns ! mp))) mp = Some prev" "link ns prev mp" by blast
      note add = hp.add_moving [OF ok_ns lf(3) k fresh False [unfolded mp_def] away [unfolded mp_def] n(2) prev(2) [unfolded mp_def]]
      have "key_added t (?t1\<lparr>node := put_key (move_colliding ns prev mp n) mp key\<rparr>) mp key"
        by (rule key_added_intro [OF ok _ k out nd, where lf = "int n" and ns = "put_key (move_colliding ns prev mp n) mp key" and j = n])
          (use add n_size below in \<open>auto simp: mp_def ns_def\<close>)
      with away False gf mp1 prev(1) show ?thesis by (auto simp: Let_def mp_def ns_def)
    qed
  qed
qed

declare newkey.simps [simp del]

section \<open>Storing through a slot\<close>

lemma mainposition_update [simp]:
  "mainposition (t\<lparr>flags := f\<rparr>) = mainposition t" "mainposition (t\<lparr>array := a\<rparr>) = mainposition t"
  "mainposition (t\<lparr>node := ns\<rparr>) = mainposition t"
  by (rule mainposition_cong, simp)+

lemma sizenode_update [simp]:
  "sizenode (t\<lparr>flags := f\<rparr>) = sizenode t" "sizenode (t\<lparr>array := a\<rparr>) = sizenode t"
  "sizenode (t\<lparr>node := ns\<rparr>) = sizenode t"
  by (simp_all add: sizenode_def)

lemma flags_irrelevant [simp]:
  "table_ok (t\<lparr>flags := f\<rparr>) \<longleftrightarrow> table_ok t" "finds (t\<lparr>flags := f\<rparr>) k s \<longleftrightarrow> finds t k s"
  "contents (t\<lparr>flags := f\<rparr>) = contents t" "usable (t\<lparr>flags := f\<rparr>) = usable t" "in_array (t\<lparr>flags := f\<rparr>) k = in_array t k"
  by (auto simp: table_ok_def finds_def contents_def usable_def in_array_def split: slot.splits)

lemma array_entries_update:
  assumes "i < length arr" "length arr < 2 ^ 31"
  shows "array_entries (arr[i := v]) =
    {(k, w) \<in> array_entries arr. k \<noteq> VNumber (cast_num (int i + 1))}
    \<union> (if v = VNil then {} else {(VNumber (cast_num (int i + 1)), v)})"
proof -
  have inj: "cast_num (int j + 1) = cast_num (int i + 1) \<longleftrightarrow> j = i" if "j < length arr" for j
  proof
    assume "cast_num (int j + 1) = cast_num (int i + 1)"
    moreover have "luai_numeq (cast_num (int j + 1)) (cast_num (int j + 1))"
      using that assms by (simp add: numeq_cast_iff)
    ultimately show "j = i" using that assms numeq_cast_iff [of "int j + 1" "int i + 1"] by simp
  qed simp
  have "(k, w) \<in> array_entries (arr[i := v]) \<longleftrightarrow>
      (k, w) \<in> array_entries arr \<and> k \<noteq> VNumber (cast_num (int i + 1))
      \<or> k = VNumber (cast_num (int i + 1)) \<and> w = v \<and> v \<noteq> VNil" for k w
    unfolding array_entries_def using inj assms(1) by (auto simp: nth_list_update)
  then show ?thesis by auto
qed

text \<open>The new contents: the entry of a key equal to \<open>k\<close> is replaced.\<close>

definition updates :: "(TValue \<times> TValue) set \<Rightarrow> TValue \<Rightarrow> TValue \<Rightarrow> (TValue \<times> TValue) set \<Rightarrow> bool" where
  "updates E k v E' \<longleftrightarrow> (\<exists>kk. luaO_rawequalObj kk k
     \<and> E' = {(k', w) \<in> E. \<not> luaO_rawequalObj k' k} \<union> (if v = VNil then {} else {(kk, v)}))"

lemma val_in_updates:
  assumes "updates E k v E'"
  shows "val_in E' k' w \<longleftrightarrow> (if luaO_rawequalObj k k' then w = v else val_in E k' w)"
proof -
  from assms obtain kk where kk: "luaO_rawequalObj kk k"
    "E' = {(k', w) \<in> E. \<not> luaO_rawequalObj k' k} \<union> (if v = VNil then {} else {(kk, v)})"
    by (auto simp: updates_def)
  have eq: "luaO_rawequalObj kk k' \<longleftrightarrow> luaO_rawequalObj k k'" using kk(1) by (metis rawequal_sym rawequal_trans)
  show ?thesis
  proof (cases "luaO_rawequalObj k k'")
    case True
    then have "luaO_rawequalObj x k' \<longleftrightarrow> luaO_rawequalObj x k" for x by (metis rawequal_sym rawequal_trans)
    with True eq show ?thesis unfolding kk(2) val_in_def by auto
  next
    case False
    then have "luaO_rawequalObj x k' \<Longrightarrow> \<not> luaO_rawequalObj x k" for x by (metis rawequal_sym rawequal_trans)
    with False eq show ?thesis unfolding kk(2) val_in_def by auto
  qed
qed

lemma array_key_eq:
  assumes "arrayindex k = int i + 1"
  shows "k = VNumber (cast_num (int i + 1))"
proof -
  from arrayindex_eq [OF assms] have eq: "luaO_rawequalObj (VNumber (cast_num (int i + 1))) k" "int i + 1 < 2 ^ 31" by simp_all
  then obtain n where n: "k = VNumber n" "luai_numeq (cast_num (int i + 1)) n" by (cases k) (auto simp: luaO_rawequalObj_def)
  have "\<not> luai_numeq (cast_num (int i + 1)) 0"
    using eq(2) by (simp add: luai_numeq_def d_zero cast_num_exact)
  with numeq_bits [OF n(2)] n(1) show ?thesis by simp
qed

lemma slot_store_array:
  assumes ok: "table_ok t" and s: "finds t k (ArraySlot i)"
  shows "table_ok (slot_store t (ArraySlot i) v)" "updates (contents t) k v (contents (slot_store t (ArraySlot i) v))"
proof -
  have i: "in_array t k" "arrayindex k = int i + 1" "i < length (array t)" using s by (auto simp: finds_def in_array_def)
  show "table_ok (slot_store t (ArraySlot i) v)" using ok by (auto simp: table_ok_def in_array_def)
  note k = array_key_eq [OF i(2)]
  have "luaO_rawequalObj k k" using arrayindex_eq(1) [OF i(2)] k by simp
  moreover have "luaO_rawequalObj k' k \<longleftrightarrow> k' = k" if "(k', w) \<in> array_entries (array t)" for k' w
  proof
    assume "luaO_rawequalObj k' k"
    then have "arrayindex k' = int i + 1" using i(2) arrayindex_rawequal by simp
    then show "k' = k" using k array_key_eq by simp
  next
    assume "k' = k"
    then show "luaO_rawequalObj k' k" using \<open>luaO_rawequalObj k k\<close> by simp
  qed
  moreover have "\<not> luaO_rawequalObj k' k" if "(k', w) \<in> entries (node t)" for k' w
    using entry_out [OF ok that] i(1) in_array_rawequal by blast
  ultimately show "updates (contents t) k v (contents (slot_store t (ArraySlot i) v))"
    unfolding updates_def contents_def
    by (intro exI [of _ k]) (auto simp: array_entries_update [OF i(3) table_okD(3) [OF ok]] k [symmetric])
qed

lemma slot_store_node:
  assumes ok: "table_ok t" and s: "finds t k (NodeSlot j)" and k: "valid_key k"
  shows "table_ok (slot_store t (NodeSlot j) v)" "updates (contents t) k v (contents (slot_store t (NodeSlot j) v))"
proof -
  have j: "\<not> in_array t k" "j < length (node t)" "luaO_rawequalObj (i_key (node t ! j)) k"
    using s by (auto simp: finds_def)
  have lj: "live (i_key (node t ! j))" using rawequal_valid [OF j(3) k] by (rule valid_live)
  have st: "slot_store t (NodeSlot j) v = t\<lparr>node := set_val (node t) j v\<rparr>" by (simp add: set_val_def)
  have nd: "\<not> is_dummy t"
  proof
    assume "is_dummy t"
    with ok have "node t = [dummynode]" by (simp add: table_ok_def)
    with j(2) lj show False by (simp add: dummynode_def)
  qed
  note nodes = table_okD(2) [OF ok] and len = table_okD(1) [OF ok]
  show "table_ok (slot_store t (NodeSlot j) v)"
    using ok hp.set_val_ok [OF nodes len j(2) lj] nd unfolding st by (auto simp: table_ok_def in_array_def)
  have eq: "luaO_rawequalObj k' (i_key (node t ! j)) \<longleftrightarrow> luaO_rawequalObj k' k" for k'
    using j(3) by (metis rawequal_sym rawequal_trans)
  have "\<not> luaO_rawequalObj k' k" if "(k', w) \<in> array_entries (array t)" for k' w
    using array_entry_in [OF table_okD(3) [OF ok] that] j(1) in_array_rawequal by blast
  with j(3) show "updates (contents t) k v (contents (slot_store t (NodeSlot j) v))"
    unfolding updates_def contents_def st
    by (intro exI [of _ "i_key (node t ! j)"]) (auto simp: hp.set_val_entries [OF nodes j(2) lj] eq)
qed

text \<open>A slot for key \<open>k\<close>, ready to be stored into, in a table with the same contents.\<close>

definition slot_ready :: "Table \<Rightarrow> Table \<Rightarrow> TValue \<Rightarrow> slot \<Rightarrow> bool" where
  "slot_ready t t1 k s \<longleftrightarrow> table_ok t1 \<and> finds t1 k s \<and> s \<noteq> NilObject \<and> contents t1 = contents t
     \<and> length (array t1) = length (array t) \<and> usable t \<le> usable t1 + (if in_array t k then 0 else 1)"

lemma slot_ready_store:
  assumes "slot_ready t t1 k s" "valid_key k"
  shows "table_ok (slot_store t1 s v)" "updates (contents t) k v (contents (slot_store t1 s v))"
    "length (array (slot_store t1 s v)) = length (array t)"
    "usable t \<le> usable (slot_store t1 s v) + (if in_array t k then 0 else 1)"
proof -
  have r: "table_ok t1" "finds t1 k s" "s \<noteq> NilObject" "contents t1 = contents t"
    "length (array t1) = length (array t)" "usable t \<le> usable t1 + (if in_array t k then 0 else 1)"
    using assms(1) unfolding slot_ready_def by blast+
  have "table_ok (slot_store t1 s v) \<and> updates (contents t) k v (contents (slot_store t1 s v))"
    using r(1-4) assms(2) slot_store_array [of t1 k] slot_store_node [of t1 k] by (cases s) simp_all
  then show "table_ok (slot_store t1 s v)" "updates (contents t) k v (contents (slot_store t1 s v))" by auto
  have "usable (slot_store t1 s v) = usable t1"
    by (cases s) (simp_all add: usable_def set_val_def [symmetric])
  with r(6) show "usable t \<le> usable (slot_store t1 s v) + (if in_array t k then 0 else 1)" by simp
  show "length (array (slot_store t1 s v)) = length (array t)" using r(5) by (cases s) simp_all
qed

lemma key_added_ready:
  assumes "key_added t t1 i k" "valid_key k" "\<not> in_array t k"
  shows "slot_ready t t1 k (NodeSlot i)"
  using assms rawequal_refl [OF assms(2)]
  unfolding key_added_def slot_ready_def finds_def contents_def in_array_def by auto

lemma found_ready: "table_ok t \<Longrightarrow> finds t k s \<Longrightarrow> s \<noteq> NilObject \<Longrightarrow> slot_ready t t k s"
  by (simp add: slot_ready_def)

lemma slot_ready_flags: "slot_ready (t\<lparr>flags := f\<rparr>) t1 k s \<longleftrightarrow> slot_ready t t1 k s"
  by (simp add: slot_ready_def)

lemma newkey_ready:
  assumes "table_ok t" "valid_key k" "finds t k NilObject" "0 < usable t"
  shows "\<exists>t1 s. newkey (Suc d) t k = ROk (t1, s) \<and> slot_ready t t1 k s"
proof -
  have "\<not> is_dummy t" using assms(4) by (auto simp: usable_def split: if_splits)
  with newkey_no_rehash [OF assms(1-3), of d] assms(3,4) key_added_ready [OF _ assms(2)] show ?thesis
    by (auto simp: finds_def)
qed

definition nan_key :: "TValue \<Rightarrow> bool" where
  "nan_key k \<longleftrightarrow> (case k of VNumber n \<Rightarrow> luai_numisnan n | _ \<Rightarrow> False)"

lemma valid_not_nan: "valid_key k \<Longrightarrow> \<not> nan_key k \<and> k \<noteq> VNil"
  by (cases k) (auto simp: valid_key_def nan_key_def numisnan_iff)

lemma set_ready:
  assumes ok: "table_ok t" and k: "valid_key k"
    and new: "finds t k NilObject \<Longrightarrow> \<exists>t1 s. newk (t\<lparr>flags := 0\<rparr>) k = ROk (t1, s) \<and> slot_ready t t1 k s"
  shows "\<exists>t1 s. luaH_set_with newk t k = ROk (t1, s) \<and> slot_ready t t1 k s"
proof -
  from get_finds [OF ok k] obtain p where p: "luaH_get t k = Some p" "finds t k p" by blast
  show ?thesis
  proof (cases "p = NilObject")
    case True
    with p new valid_not_nan [OF k] show ?thesis by (simp add: luaH_set_with_def nan_key_def)
  next
    case False
    with found_ready [OF ok p(2) False] p ok show ?thesis
      by (auto simp: luaH_set_with_def slot_ready_def)
  qed
qed

lemma setnum_ready:
  assumes ok: "table_ok t" and key: "- (2 ^ 31) \<le> key" "key < 2 ^ 31"
    and new: "finds t (VNumber (cast_num key)) NilObject \<Longrightarrow>
      \<exists>t1 s. newk t (VNumber (cast_num key)) = ROk (t1, s) \<and> slot_ready t t1 (VNumber (cast_num key)) s"
  shows "\<exists>t1 s. luaH_setnum_with newk t key = ROk (t1, s) \<and> slot_ready t t1 (VNumber (cast_num key)) s"
proof -
  from getnum_finds [OF ok key] obtain p where p: "luaH_getnum t key = Some p" "finds t (VNumber (cast_num key)) p"
    by blast
  then show ?thesis
    using new found_ready [OF ok p(2)] by (cases "p = NilObject") (auto simp: luaH_setnum_with_def)
qed

section \<open>Inserting again\<close>

text \<open>Sets of entries that give every key the same value.\<close>

definition same_map :: "(TValue \<times> TValue) set \<Rightarrow> (TValue \<times> TValue) set \<Rightarrow> bool" where
  "same_map E E' \<longleftrightarrow> (\<forall>k v. val_in E k v \<longleftrightarrow> val_in E' k v)"

lemma same_map_trans: "same_map E F \<Longrightarrow> same_map F G \<Longrightarrow> same_map E G"
  by (simp add: same_map_def)

lemma val_in_Un:
  "val_in (E \<union> F) k w \<longleftrightarrow> (if w = VNil then val_in E k w \<and> val_in F k w else val_in E k w \<or> val_in F k w)"
  by (auto simp: val_in_def)

lemma same_map_Un: "same_map E E' \<Longrightarrow> same_map F F' \<Longrightarrow> same_map (E \<union> F) (E' \<union> F')"
  by (auto simp: same_map_def val_in_Un)

lemma same_map_refl [simp]: "same_map E E"
  by (simp add: same_map_def)

lemma updates_fresh:
  assumes "updates E k v E'" "v \<noteq> VNil" "val_in E k VNil"
  shows "same_map E' (insert (k, v) E)"
proof -
  have single: "val_in {(k, v)} k' w \<longleftrightarrow> (if luaO_rawequalObj k k' then w = v else w = VNil)" for k' w
    using assms(2) by (auto simp: val_in_def)
  have fresh: "val_in E k' w \<longleftrightarrow> w = VNil" if "luaO_rawequalObj k k'" for k' w
    using assms(3) that by (auto simp: val_in_def) (metis rawequal_sym rawequal_trans)+
  have "val_in E' k' w \<longleftrightarrow> val_in ({(k, v)} \<union> E) k' w" for k' w
    unfolding val_in_updates [OF assms(1)] val_in_Un single using fresh [of k' w] assms(2) by auto
  then show ?thesis by (simp add: same_map_def)
qed

lemma in_array_length: "length (array t) = length (array t') \<Longrightarrow> in_array t k \<longleftrightarrow> in_array t' k"
  by (simp add: in_array_def)

lemma insert_step:
  assumes r: "slot_ready t t1 k s" and k: "valid_key k" and v: "v \<noteq> VNil" and fresh: "val_in (contents t) k VNil"
  defines "t2 \<equiv> slot_store t1 s v"
  shows "table_ok t2" "same_map (contents t2) (insert (k, v) (contents t))" "length (array t2) = length (array t)"
    "usable t \<le> usable t2 + (if in_array t k then 0 else 1)"
    "val_in (contents t) k' VNil \<Longrightarrow> \<not> luaO_rawequalObj k k' \<Longrightarrow> val_in (contents t2) k' VNil"
proof -
  note st = slot_ready_store [OF r k, of v, folded t2_def]
  show "table_ok t2" "length (array t2) = length (array t)" "usable t \<le> usable t2 + (if in_array t k then 0 else 1)"
    by (fact st)+
  show "same_map (contents t2) (insert (k, v) (contents t))" by (rule updates_fresh [OF st(2) v fresh])
  show "val_in (contents t) k' VNil \<Longrightarrow> \<not> luaO_rawequalObj k k' \<Longrightarrow> val_in (contents t2) k' VNil"
    unfolding val_in_updates [OF st(2)] by simp
qed

text \<open>The nodes to insert again, and how many of them need a node of the new table.\<close>

definition used_entries :: "Node list \<Rightarrow> (TValue \<times> TValue) set" where
  "used_entries ns = {(i_key n, i_val n) | n. n \<in> set ns \<and> i_val n \<noteq> VNil}"

definition needs_node :: "Table \<Rightarrow> Node \<Rightarrow> bool" where
  "needs_node t n \<longleftrightarrow> i_val n \<noteq> VNil \<and> \<not> in_array t (i_key n)"

definition distinct_keys :: "Node list \<Rightarrow> bool" where
  "distinct_keys ns \<longleftrightarrow> sorted_wrt (\<lambda>a b. i_val a \<noteq> VNil \<longrightarrow> i_val b \<noteq> VNil \<longrightarrow> \<not> luaO_rawequalObj (i_key a) (i_key b)) ns"

lemma reinsert_nodes_ok:
  assumes "table_ok t" "\<forall>n \<in> set ns. i_val n \<noteq> VNil \<longrightarrow> valid_key (i_key n) \<and> val_in (contents t) (i_key n) VNil"
    "distinct_keys ns" "length (filter (needs_node t) ns) \<le> usable t"
  shows "\<exists>t'. reinsert_nodes (newkey (Suc d)) ns t = ROk t' \<and> table_ok t'
    \<and> same_map (contents t') (contents t \<union> used_entries ns) \<and> length (array t') = length (array t)
    \<and> usable t \<le> usable t' + length (filter (needs_node t) ns)"
  using assms
proof (induction ns arbitrary: t)
  case Nil
  then show ?case by (simp add: used_entries_def)
next
  case (Cons n ns)
  show ?case
  proof (cases "i_val n = VNil")
    case True
    then have "used_entries (n # ns) = used_entries ns" "\<not> needs_node t n"
      by (auto simp: used_entries_def needs_node_def)
    with True Cons.IH [OF Cons.prems(1)] Cons.prems(2-4) show ?thesis by (simp add: distinct_keys_def)
  next
    case False
    with Cons.prems have k: "valid_key (i_key n)" "val_in (contents t) (i_key n) VNil" by auto
    have room: "0 < usable t" if "finds t (i_key n) NilObject"
      using that Cons.prems(4) False by (auto simp: finds_def needs_node_def)
    from set_ready [OF Cons.prems(1) k(1), of "newkey (Suc d)"] newkey_ready [of "t\<lparr>flags := 0\<rparr>" "i_key n" d] room Cons.prems(1) k(1)
    obtain t1 s where s: "luaH_set_with (newkey (Suc d)) t (i_key n) = ROk (t1, s)" "slot_ready t t1 (i_key n) s"
      by (auto simp: slot_ready_flags)
    define t2 where "t2 = slot_store t1 s (i_val n)"
    note step = insert_step [OF s(2) k(1) False k(2), folded t2_def]
    have nn: "needs_node t n \<longleftrightarrow> \<not> in_array t (i_key n)" using False by (simp add: needs_node_def)
    have need: "needs_node t2 = needs_node t" using in_array_length [OF step(3)] by (auto simp: needs_node_def)
    have "\<exists>t'. reinsert_nodes (newkey (Suc d)) ns t2 = ROk t' \<and> table_ok t'
      \<and> same_map (contents t') (contents t2 \<union> used_entries ns) \<and> length (array t') = length (array t2)
      \<and> usable t2 \<le> usable t' + length (filter (needs_node t2) ns)"
    proof (rule Cons.IH [OF step(1)])
      show "\<forall>m \<in> set ns. i_val m \<noteq> VNil \<longrightarrow> valid_key (i_key m) \<and> val_in (contents t2) (i_key m) VNil"
        using Cons.prems(2,3) False step(5) by (auto simp: distinct_keys_def)
      show "distinct_keys ns" using Cons.prems(3) by (simp add: distinct_keys_def)
      show "length (filter (needs_node t2) ns) \<le> usable t2"
        using Cons.prems(4) step(4) by (cases "in_array t (i_key n)") (simp_all add: need nn)
    qed
    then obtain t' where t': "reinsert_nodes (newkey (Suc d)) ns t2 = ROk t'" "table_ok t'"
      "same_map (contents t') (contents t2 \<union> used_entries ns)" "length (array t') = length (array t2)"
      "usable t2 \<le> usable t' + length (filter (needs_node t2) ns)" by blast
    have ue: "used_entries (n # ns) = insert (i_key n, i_val n) (used_entries ns)"
      using False by (auto simp: used_entries_def)
    have "same_map (contents t2 \<union> used_entries ns) (insert (i_key n, i_val n) (contents t) \<union> used_entries ns)"
      by (intro same_map_Un step(2)) simp
    then have "same_map (contents t') (contents t \<union> used_entries (n # ns))"
      using same_map_trans [OF t'(3)] by (simp add: ue)
    moreover have "usable t \<le> usable t' + length (filter (needs_node t) (n # ns))"
      using step(4) t'(5) by (cases "in_array t (i_key n)") (simp_all add: need nn)
    ultimately show ?thesis using s(1) t' step(3) False by (simp add: t2_def)
  qed
qed

abbreviation num_key :: "nat \<Rightarrow> TValue" where
  "num_key i \<equiv> VNumber (cast_num (int i + 1))"

lemma num_key_rawequal: "i < 2 ^ 31 \<Longrightarrow> j < 2 ^ 31 \<Longrightarrow> luaO_rawequalObj (num_key i) (num_key j) \<longleftrightarrow> i = j"
  by (simp add: luaO_rawequalObj_def numeq_cast_iff)

lemma valid_num_key: "i < 2 ^ 31 \<Longrightarrow> valid_key (num_key i)"
  by (rule valid_cast) simp

definition slice_entries :: "TValue list \<Rightarrow> nat list \<Rightarrow> (TValue \<times> TValue) set" where
  "slice_entries old is = {(num_key i, old ! i) | i. i \<in> set is \<and> old ! i \<noteq> VNil}"

lemma reinsert_array_ok:
  assumes "table_ok t" "distinct is" "length (filter (\<lambda>i. old ! i \<noteq> VNil) is) \<le> usable t"
    "\<forall>i \<in> set is. length (array t) \<le> i \<and> i + 1 < 2 ^ 31 \<and> (old ! i \<noteq> VNil \<longrightarrow> val_in (contents t) (num_key i) VNil)"
  shows "\<exists>t'. reinsert_array (newkey (Suc d)) old is t = ROk t' \<and> table_ok t'
    \<and> same_map (contents t') (contents t \<union> slice_entries old is) \<and> length (array t') = length (array t)
    \<and> usable t \<le> usable t' + length (filter (\<lambda>i. old ! i \<noteq> VNil) is)"
  using assms
proof (induction "is" arbitrary: t)
  case Nil
  then show ?case by (simp add: slice_entries_def)
next
  case (Cons i "is")
  show ?case
  proof (cases "old ! i = VNil")
    case True
    then have "slice_entries old (i # is) = slice_entries old is" by (auto simp: slice_entries_def)
    with True Cons.IH [OF Cons.prems(1)] Cons.prems(2-4) show ?thesis by simp
  next
    case False
    have i: "length (array t) \<le> i" "i + 1 < 2 ^ 31" "val_in (contents t) (num_key i) VNil" "i \<notin> set is"
      using Cons.prems(2,4) False by auto
    have k: "valid_key (num_key i)" using i(2) by (intro valid_num_key) simp
    have out: "\<not> in_array t (num_key i)" using i(1,2) by (simp add: in_array_def arrayindex_cast)
    have "0 < usable t" using Cons.prems(3) False by simp
    with setnum_ready [OF Cons.prems(1), of "int i + 1" "newkey (Suc d)"] newkey_ready [OF Cons.prems(1) k] i(2)
    obtain t1 s where s: "luaH_setnum_with (newkey (Suc d)) t (int i + 1) = ROk (t1, s)" "slot_ready t t1 (num_key i) s"
      by auto
    define t2 where "t2 = slot_store t1 s (old ! i)"
    note step = insert_step [OF s(2) k False i(3), folded t2_def]
    have same: "length (array t1) = length (array t)" using s(2) by (simp add: slot_ready_def)
    have "\<exists>t'. reinsert_array (newkey (Suc d)) old is t2 = ROk t' \<and> table_ok t'
      \<and> same_map (contents t') (contents t2 \<union> slice_entries old is) \<and> length (array t') = length (array t2)
      \<and> usable t2 \<le> usable t' + length (filter (\<lambda>i. old ! i \<noteq> VNil) is)"
    proof (rule Cons.IH [OF step(1)])
      show "distinct is" using Cons.prems(2) by simp
      show "length (filter (\<lambda>i. old ! i \<noteq> VNil) is) \<le> usable t2" using Cons.prems(3) step(4) False out by simp
      show "\<forall>j \<in> set is. length (array t2) \<le> j \<and> j + 1 < 2 ^ 31 \<and> (old ! j \<noteq> VNil \<longrightarrow> val_in (contents t2) (num_key j) VNil)"
      proof
        fix j
        assume j: "j \<in> set is"
        with Cons.prems(4) have "length (array t) \<le> j" "j + 1 < 2 ^ 31"
          "old ! j \<noteq> VNil \<longrightarrow> val_in (contents t) (num_key j) VNil" by auto
        moreover have "\<not> luaO_rawequalObj (num_key i) (num_key j)"
          using j i(2,4) calculation(2) num_key_rawequal [of i j] by auto
        ultimately show "length (array t2) \<le> j \<and> j + 1 < 2 ^ 31 \<and> (old ! j \<noteq> VNil \<longrightarrow> val_in (contents t2) (num_key j) VNil)"
          using step(3,5) by simp
      qed
    qed
    then obtain t' where t': "reinsert_array (newkey (Suc d)) old is t2 = ROk t'" "table_ok t'"
      "same_map (contents t') (contents t2 \<union> slice_entries old is)" "length (array t') = length (array t2)"
      "usable t2 \<le> usable t' + length (filter (\<lambda>i. old ! i \<noteq> VNil) is)" by blast
    have ue: "slice_entries old (i # is) = insert (num_key i, old ! i) (slice_entries old is)"
      using False by (auto simp: slice_entries_def)
    have "same_map (contents t2 \<union> slice_entries old is) (insert (num_key i, old ! i) (contents t) \<union> slice_entries old is)"
      by (intro same_map_Un step(2)) simp
    then have "same_map (contents t') (contents t \<union> slice_entries old (i # is))"
      using same_map_trans [OF t'(3)] by (simp add: ue)
    then show ?thesis using s(1) t' step(3,4) False same out by (simp add: t2_def)
  qed
qed

end
