(* ===== verification/LTableRehash.thy ===== *)
theory LTableRehash
  imports LTableSet
begin

text \<open>
  Resizing a table: with enough nodes for the keys that do not fit the array part, inserting everything
  again succeeds, keeps the contents and leaves the remaining nodes free. The sizes a rehash computes
  are such, by exact counting.
\<close>

section \<open>The new node vector\<close>

lemma ceillog2_bounds:
  assumes "0 < n" "n < 2 ^ 32"
  shows "\<exists>l. ceillog2 (of_nat n) = int l \<and> n \<le> 2 ^ l \<and> (0 < l \<longrightarrow> 2 ^ (l - 1) < n)"
proof -
  have x: "unat (of_nat n - 1 :: u32) = n - 1"
  proof -
    have "(of_nat n - 1 :: u32) = of_nat (n - 1)" using assms(1) by (simp add: of_nat_diff)
    then show ?thesis using assms(2) by (simp add: unsigned_of_nat take_bit_nat_eq_self)
  qed
  show ?thesis
  proof (cases "n = 1")
    case True
    then show ?thesis by (intro exI [of _ 0]) (simp add: ceillog2_def luaO_log2_0)
  next
    case False
    with assms x have "(of_nat n - 1 :: u32) \<noteq> 0" by (auto simp: unat_eq_0 [symmetric])
    from luaO_log2_bounds [OF this] have b: "0 \<le> luaO_log2 (of_nat n - 1)"
      "2 ^ nat (luaO_log2 (of_nat n - 1)) \<le> n - 1" "n - 1 < 2 ^ nat (luaO_log2 (of_nat n - 1) + 1)"
      by (simp_all only: x)
    with assms(1) show ?thesis
      by (intro exI [of _ "nat (luaO_log2 (of_nat n - 1) + 1)"]) (auto simp: ceillog2_def nat_add_distrib)
  qed
qed

lemma array_entries_image:
  "array_entries arr = (\<lambda>i. (num_key i, arr ! i)) ` {i. i < length arr \<and> arr ! i \<noteq> VNil}"
  by (auto simp: array_entries_def)

lemma array_entries_pad: "array_entries (arr @ replicate n VNil) = array_entries arr"
  unfolding array_entries_image
proof (rule image_cong)
  show "{i. i < length (arr @ replicate n VNil) \<and> (arr @ replicate n VNil) ! i \<noteq> VNil} =
      {i. i < length arr \<and> arr ! i \<noteq> VNil}"
    by (intro Collect_cong) (simp add: nth_append)
qed (simp add: nth_append)

lemma array_entries_split:
  assumes "n \<le> length arr"
  shows "array_entries arr = array_entries (take n arr) \<union> slice_entries arr [n..<length arr]"
proof -
  have "slice_entries arr [n..<length arr] = (\<lambda>i. (num_key i, arr ! i)) ` {i. n \<le> i \<and> i < length arr \<and> arr ! i \<noteq> VNil}"
    by (auto simp: slice_entries_def)
  moreover have "array_entries (take n arr) = (\<lambda>i. (num_key i, arr ! i)) ` {i. i < n \<and> arr ! i \<noteq> VNil}"
    unfolding array_entries_image using assms by (intro image_cong) auto
  moreover have "{i. i < length arr \<and> arr ! i \<noteq> VNil} =
      {i. i < n \<and> arr ! i \<noteq> VNil} \<union> {i. n \<le> i \<and> i < length arr \<and> arr ! i \<noteq> VNil}"
    using assms by auto
  ultimately show ?thesis unfolding array_entries_image by (simp add: image_Un)
qed

lemma setnodevector_ok:
  assumes "sz \<le> 2 ^ MAXBITS" "length (array t) < 2 ^ 31"
  shows "\<exists>t'. setnodevector t sz = ROk t' \<and> table_ok t' \<and> array t' = array t \<and> entries (node t') = {} \<and> sz \<le> usable t'"
proof (cases "sz = 0")
  case True
  define t' where "t' = t\<lparr>node := [dummynode], is_dummy := True, lsizenode := 0, lastfree := 0\<rparr>"
  have "table_ok t'"
    using assms(2) nodes_ok_empty [of "mainposition t'" 1]
    by (simp add: table_ok_def t'_def sizenode_def dummynode_def)
  moreover have "entries (node t') = {}" using entries_empty [of 1] by (simp add: t'_def)
  ultimately show ?thesis using True by (simp add: setnodevector_def t'_def)
next
  case False
  with assms(1) ceillog2_bounds [of sz] obtain l where l: "ceillog2 (of_nat sz) = int l" "sz \<le> 2 ^ l" "0 < l \<longrightarrow> 2 ^ (l - 1) < sz"
    by auto
  have "l \<le> 26"
  proof (rule ccontr)
    assume "\<not> l \<le> 26"
    then have "(2 :: nat) ^ 26 \<le> 2 ^ (l - 1)" by (intro power_increasing) simp_all
    with l(3) assms(1) \<open>\<not> l \<le> 26\<close> show False by simp
  qed
  define t' where "t' = t\<lparr>node := replicate (2 ^ l) dummynode, is_dummy := False, lsizenode := l, lastfree := 2 ^ l\<rparr>"
  have "free_nodes (node t') = {..<2 ^ l}" by (auto simp: free_nodes_def t'_def dummynode_def)
  then have "table_ok t'" "sz \<le> usable t'"
    using assms(2) \<open>l \<le> 26\<close> l(2) nodes_ok_empty [of "mainposition t'" "2 ^ l"]
    by (auto simp: table_ok_def usable_def t'_def sizenode_def dummynode_def)
  moreover have "entries (node t') = {}" using entries_empty by (simp add: t'_def)
  ultimately show ?thesis using False l(1) \<open>l \<le> 26\<close> by (simp add: setnodevector_def t'_def)
qed

section \<open>Resizing\<close>

text \<open>How many entries of a table will not fit an array part of size \<open>n\<close>.\<close>

definition fits :: "nat \<Rightarrow> TValue \<Rightarrow> bool" where
  "fits n k \<longleftrightarrow> 0 < arrayindex k \<and> arrayindex k \<le> int n"

definition hash_need :: "Table \<Rightarrow> nat \<Rightarrow> nat" where
  "hash_need t n = length (filter (\<lambda>i. array t ! i \<noteq> VNil) [n..<length (array t)])
     + length (filter (\<lambda>e. i_val e \<noteq> VNil \<and> \<not> fits n (i_key e)) (node t))"

lemma used_entries_rev: "used_entries (rev ns) = entries ns"
  by (auto simp: used_entries_def entries_def in_set_conv_nth)

lemma distinct_keys_rev:
  assumes "nodes_ok home ns"
  shows "distinct_keys (rev ns)"
proof -
  have "\<not> luaO_rawequalObj (i_key (ns ! i)) (i_key (ns ! j))"
    if "i < length ns" "j < length ns" "i \<noteq> j" "i_val (ns ! i) \<noteq> VNil" for i j
    using nodes_okD(4) [OF assms that(1)] nodes_okD(5) [OF assms that(1,2)] that(3,4) by blast
  then show ?thesis
    unfolding distinct_keys_def sorted_wrt_iff_nth_less by (auto simp: rev_nth)
qed

lemma node_entries_fresh:
  assumes ok: "table_ok t" and n: "n \<in> set (node t)" "i_val n \<noteq> VNil"
  shows "valid_key (i_key n)" "val_in (array_entries (array t)) (i_key n) VNil"
proof -
  from n obtain j where j: "j < length (node t)" "n = node t ! j" by (auto simp: in_set_conv_nth)
  with n nodes_okD(2,4) [OF table_okD(2) [OF ok]] show "valid_key (i_key n)" by blast
  then have "\<not> in_array t (i_key n)" using table_okD(4) [OF ok j(1)] j(2) valid_live by blast
  then have "\<not> luaO_rawequalObj k' (i_key n)" if "(k', w) \<in> array_entries (array t)" for k' w
    using array_entry_in [OF table_okD(3) [OF ok] that] in_array_rawequal by blast
  then show "val_in (array_entries (array t)) (i_key n) VNil" by (simp add: val_in_def)
qed

lemma slice_fresh:
  assumes "n \<le> i" "i + 1 < 2 ^ 31" "n \<le> length arr" "length arr < 2 ^ 31"
  shows "val_in (array_entries (take n arr)) (num_key i) VNil"
proof -
  have "\<not> luaO_rawequalObj k' (num_key i)" if "(k', w) \<in> array_entries (take n arr)" for k' w
    using that assms num_key_rawequal by (auto simp: array_entries_def)
  then show ?thesis by (simp add: val_in_def)
qed

text \<open>The two phases of \<open>resize\<close>.\<close>

lemma resize_array_phase:
  assumes ok: "table_ok t" and n: "n < 2 ^ 31" and sz: "sz \<le> 2 ^ MAXBITS"
    and room: "length (filter (\<lambda>i. array t ! i \<noteq> VNil) [n..<length (array t)]) \<le> sz"
  defines "t1 \<equiv> if n > length (array t) then setarrayvector t n else t"
  shows "\<exists>t2 t3. setnodevector t1 sz = ROk t2
    \<and> (if n < length (array t)
       then reinsert_array (newkey (Suc d)) (array t) [n..<length (array t)] (t2\<lparr>array := take n (array t)\<rparr>)
       else ROk t2) = ROk t3
    \<and> table_ok t3 \<and> length (array t3) = n \<and> same_map (contents t3) (array_entries (array t))
    \<and> sz \<le> usable t3 + length (filter (\<lambda>i. array t ! i \<noteq> VNil) [n..<length (array t)])"
proof -
  have t1: "length (array t1) < 2 ^ 31" "array_entries (array t1) = array_entries (array t)"
    using table_okD(3) [OF ok] n by (auto simp: t1_def setarrayvector_def array_entries_pad)
  obtain t2 where t2: "setnodevector t1 sz = ROk t2" "table_ok t2" "array t2 = array t1" "entries (node t2) = {}" "sz \<le> usable t2"
    using setnodevector_ok [OF sz t1(1)] by blast
  show ?thesis
  proof (cases "n < length (array t)")
    case False
    then have "length (array t2) = n" using t2(3) by (auto simp: t1_def setarrayvector_def)
    with False t2 t1(2) show ?thesis by (simp add: contents_def)
  next
    case True
    let ?t = "t2\<lparr>array := take n (array t)\<rparr>"
    have ok': "table_ok ?t"
      using t2(2) n True table_okD(3) [OF ok] t2(3) unfolding table_ok_def in_array_def t1_def by (auto split: if_splits)
    have c: "contents ?t = array_entries (take n (array t))" using t2(4) by (simp add: contents_def)
    have u: "usable ?t = usable t2" by (simp add: usable_def)
    have "\<exists>t'. reinsert_array (newkey (Suc d)) (array t) [n..<length (array t)] ?t = ROk t' \<and> table_ok t'
        \<and> same_map (contents t') (contents ?t \<union> slice_entries (array t) [n..<length (array t)])
        \<and> length (array t') = length (array ?t)
        \<and> usable ?t \<le> usable t' + length (filter (\<lambda>i. array t ! i \<noteq> VNil) [n..<length (array t)])"
    proof (rule reinsert_array_ok [OF ok'])
      show "\<forall>i \<in> set [n..<length (array t)]. length (array ?t) \<le> i \<and> i + 1 < 2 ^ 31
          \<and> (array t ! i \<noteq> VNil \<longrightarrow> val_in (contents ?t) (num_key i) VNil)"
      proof
        fix i
        assume i: "i \<in> set [n..<length (array t)]"
        then have "n \<le> i" "i + 1 < 2 ^ 31" using table_okD(3) [OF ok] by auto
        then show "length (array ?t) \<le> i \<and> i + 1 < 2 ^ 31 \<and> (array t ! i \<noteq> VNil \<longrightarrow> val_in (contents ?t) (num_key i) VNil)"
          using slice_fresh [of n i "array t"] True table_okD(3) [OF ok] unfolding c by simp
      qed
    qed (use room t2(5) u in auto)
    with True t2 u array_entries_split [of n "array t"] c show ?thesis by fastforce
  qed
qed

lemma resize_ok:
  assumes ok: "table_ok t" and n: "n < 2 ^ 31" and sz: "sz \<le> 2 ^ MAXBITS" and room: "hash_need t n \<le> sz"
  shows "\<exists>t'. resize (newkey (Suc d)) t n sz = ROk t' \<and> table_ok t' \<and> same_map (contents t') (contents t)
    \<and> length (array t') = n \<and> sz \<le> usable t' + hash_need t n"
proof -
  let ?slice = "length (filter (\<lambda>i. array t ! i \<noteq> VNil) [n..<length (array t)])"
  let ?need = "length (filter (\<lambda>e. i_val e \<noteq> VNil \<and> \<not> fits n (i_key e)) (node t))"
  have slice: "?slice \<le> sz" using room by (simp add: hash_need_def)
  obtain t2 t3 where t3: "setnodevector (if n > length (array t) then setarrayvector t n else t) sz = ROk t2"
    "(if n < length (array t)
       then reinsert_array (newkey (Suc d)) (array t) [n..<length (array t)] (t2\<lparr>array := take n (array t)\<rparr>)
       else ROk t2) = ROk t3"
    "table_ok t3" "length (array t3) = n" "same_map (contents t3) (array_entries (array t))" "sz \<le> usable t3 + ?slice"
    using resize_array_phase [OF ok n sz slice, of d] by blast
  have nold: "map (\<lambda>i. node t ! i) [0..<sizenode t] = node t"
    using table_okD(1) [OF ok] by (metis map_nth)
  have need: "needs_node t3 = (\<lambda>e. i_val e \<noteq> VNil \<and> \<not> fits n (i_key e))"
    using t3(4) by (auto simp: needs_node_def in_array_def fits_def)
  have len: "length (filter (needs_node t3) (rev (node t))) = ?need"
    unfolding need by (simp add: rev_filter [symmetric])
  have "\<exists>t'. reinsert_nodes (newkey (Suc d)) (rev (node t)) t3 = ROk t' \<and> table_ok t'
    \<and> same_map (contents t') (contents t3 \<union> used_entries (rev (node t))) \<and> length (array t') = length (array t3)
    \<and> usable t3 \<le> usable t' + length (filter (needs_node t3) (rev (node t)))"
  proof (rule reinsert_nodes_ok [OF t3(3)])
    show "\<forall>e \<in> set (rev (node t)). i_val e \<noteq> VNil \<longrightarrow> valid_key (i_key e) \<and> val_in (contents t3) (i_key e) VNil"
      using node_entries_fresh [OF ok] t3(5) by (simp add: same_map_def)
    show "distinct_keys (rev (node t))" by (rule distinct_keys_rev [OF table_okD(2) [OF ok]])
    show "length (filter (needs_node t3) (rev (node t))) \<le> usable t3"
      unfolding len using room t3(6) by (simp add: hash_need_def)
  qed
  then obtain t' where t': "reinsert_nodes (newkey (Suc d)) (rev (node t)) t3 = ROk t'" "table_ok t'"
    "same_map (contents t') (contents t3 \<union> used_entries (rev (node t)))" "length (array t') = n"
    "usable t3 \<le> usable t' + ?need"
    using t3(4) unfolding len by blast
  have "same_map (contents t') (contents t)"
    using same_map_trans [OF t'(3)] same_map_Un [OF t3(5), of "entries (node t)" "entries (node t)"]
    by (simp add: used_entries_rev contents_def)
  with t' t3(1,2,6) nold show ?thesis
    by (simp add: resize_def Let_def hash_need_def)
qed

section \<open>The optimal array size\<close>

text \<open>The number of integer keys up to \<open>2 ^ j\<close>.\<close>

definition upto_count :: "nat list \<Rightarrow> nat \<Rightarrow> nat" where
  "upto_count nums j = sum_list (take (Suc j) nums)"

lemma upto_count_Suc: "Suc j < length nums \<Longrightarrow> upto_count nums (Suc j) = upto_count nums j + nums ! Suc j"
  by (simp add: upto_count_def take_Suc_conv_app_nth)

lemma sum_take_Suc: "i < length nums \<Longrightarrow> sum_list (take (Suc i) nums) = sum_list (take i nums) + nums ! i"
  for nums :: "nat list"
  by (simp add: take_Suc_conv_app_nth)

text \<open>The invariant of the loop: what \<open>n\<close> and \<open>na\<close> hold after the slices below \<open>i\<close>.\<close>

definition sizes_inv :: "nat list \<Rightarrow> nat \<Rightarrow> nat \<Rightarrow> nat \<Rightarrow> bool" where
  "sizes_inv nums i na n \<longleftrightarrow>
     (n = 0 \<and> na = 0 \<or> (\<exists>j < i. n = 2 ^ j \<and> na = upto_count nums j \<and> n < 2 * na))
   \<and> (\<forall>j < i. nums ! j > 0 \<longrightarrow> 2 ^ j < 2 * upto_count nums j \<longrightarrow> 2 ^ j \<le> n)"

lemma half_less: "(2 :: nat) ^ i div 2 < a \<longleftrightarrow> 2 ^ i < 2 * a" if "0 < a"
  using that by (cases i) auto

lemma sizes_inv_step:
  assumes "sizes_inv nums i na n" "i < length nums" "a = sum_list (take i nums)"
  defines "big \<equiv> nums ! i > 0 \<and> a + nums ! i > 2 ^ i div 2"
  shows "sizes_inv nums (Suc i) (if big then a + nums ! i else na) (if big then 2 ^ i else n)"
proof -
  have a: "a + nums ! i = upto_count nums i"
    using assms(2,3) by (simp add: upto_count_def sum_take_Suc)
  have big: "big \<longleftrightarrow> nums ! i > 0 \<and> 2 ^ i < 2 * upto_count nums i"
    unfolding big_def a using half_less [of "upto_count nums i" i] a by auto
  have n: "n \<le> 2 ^ i"
  proof -
    from assms(1) have "n = 0 \<or> (\<exists>j < i. n = 2 ^ j)" unfolding sizes_inv_def by blast
    then show ?thesis by (auto intro: power_increasing)
  qed
  show ?thesis
  proof (cases big)
    case True
    then have "\<forall>j < Suc i. (2 :: nat) ^ j \<le> 2 ^ i" by (simp add: less_Suc_eq_le)
    with True big show ?thesis unfolding sizes_inv_def by (auto simp: a)
  next
    case False
    with assms(1) big show ?thesis unfolding sizes_inv_def by (auto simp: less_Suc_eq)
  qed
qed

lemma computesizes_loop_inv:
  assumes "sizes_inv nums i na n" "a = sum_list (take i nums)" "narray = sum_list nums" "i \<le> length nums"
    "i = length nums \<longrightarrow> narray = 0"
  shows "\<exists>na' n' i'. computesizes_loop nums narray i a na n = Some (na', n') \<and> sizes_inv nums i' na' n'
    \<and> i' \<le> length nums \<and> (narray \<le> 2 ^ i' div 2 \<or> sum_list (take i' nums) = narray)"
  using assms
proof (induction nums narray i a na n rule: computesizes_loop.induct)
  case (1 nums narray i a na n)
  show ?case
  proof (cases "2 ^ i div 2 < narray")
    case False
    with "1.prems" show ?thesis
      by (subst computesizes_loop.simps) (auto intro!: exI [of _ i])
  next
    case True
    then have "i \<noteq> length nums" using "1.prems"(5) by (metis not_less_zero)
    with "1.prems"(4) have i: "i < length nums" by simp
    let ?a = "a + nums ! i"
    let ?big = "nums ! i > 0 \<and> ?a > 2 ^ i div 2"
    let ?n = "if ?big then 2 ^ i else n" and ?na = "if ?big then ?a else na"
    note inv = sizes_inv_step [OF "1.prems"(1) i "1.prems"(2)]
    have a: "?a = sum_list (take (Suc i) nums)" using "1.prems"(2) i by (simp add: sum_take_Suc)
    have step: "computesizes_loop nums narray i a na n =
        (if ?a = narray then Some (?na, ?n) else computesizes_loop nums narray (i + 1) ?a ?na ?n)"
      using True i by (subst computesizes_loop.simps) (simp add: Let_def)
    show ?thesis
    proof (cases "?a = narray")
      case all: True
      with inv i a show ?thesis unfolding step by (auto intro!: exI [of _ "Suc i"])
    next
      case False
      have last: "i + 1 = length nums \<longrightarrow> narray = 0"
      proof
        assume "i + 1 = length nums"
        then have "?a = narray" using a "1.prems"(3) by simp
        with False show "narray = 0" by simp
      qed
      from "1.IH" [OF True i refl refl refl refl False] inv a "1.prems"(3) i last show ?thesis
        unfolding step using False by simp
    qed
  qed
qed

lemma computesizes_spec:
  assumes "nums \<noteq> []"
  shows "\<exists>na n i. computesizes nums (sum_list nums) = Some (na, n) \<and> sizes_inv nums i na n
    \<and> i \<le> length nums \<and> (sum_list nums \<le> 2 ^ i div 2 \<or> sum_list (take i nums) = sum_list nums)"
  unfolding computesizes_def
  by (rule computesizes_loop_inv) (use assms in \<open>simp_all add: sizes_inv_def\<close>)

text \<open>
  C29: the array part gets the best size. Given the counts of the integer keys by slices, with no more keys
  up to each power of two than there are integers, \<open>computesizes\<close> reads no count out of range and returns
  the largest power of two of which more than half of the slots will be in use, or 0 if there is none,
  with the number of keys that go there.
\<close>

theorem computesizes_optimal:
  assumes "nums \<noteq> []" and "\<forall>j. j < length nums \<longrightarrow> upto_count nums j \<le> 2 ^ j"
  shows "\<exists>na n. computesizes nums (sum_list nums) = Some (na, n)
     \<and> (n = 0 \<and> na = 0 \<or> (\<exists>j < length nums. n = 2 ^ j \<and> na = upto_count nums j \<and> n < 2 * na))
     \<and> (\<forall>j < length nums. 2 ^ j < 2 * upto_count nums j \<longrightarrow> 2 ^ j \<le> n)"
proof -
  from computesizes_spec [OF assms(1)] obtain na n i where r: "computesizes nums (sum_list nums) = Some (na, n)"
    "sizes_inv nums i na n" "i \<le> length nums" "sum_list nums \<le> 2 ^ i div 2 \<or> sum_list (take i nums) = sum_list nums"
    by blast
  have le: "upto_count nums j \<le> sum_list nums" for j
    unfolding upto_count_def by (metis append_take_drop_id le_add1 sum_list.append)
  have best: "2 ^ j \<le> n" if j: "j < length nums" "2 ^ j < 2 * upto_count nums j" for j
  proof -
    have pos: "nums ! j > 0"
    proof (cases j)
      case 0
      with j assms(1) show ?thesis by (simp add: upto_count_def hd_conv_nth take_Suc)
    next
      case (Suc k)
      with j upto_count_Suc [of k nums] have "upto_count nums j = upto_count nums k + nums ! j" by simp
      moreover have "upto_count nums k \<le> 2 ^ k" using assms(2) j(1) Suc by simp
      ultimately show ?thesis using j(2) Suc by simp
    qed
    show ?thesis
    proof (cases "j < i")
      case True
      with r(2) pos j(2) show ?thesis unfolding sizes_inv_def by blast
    next
      case False
      have "sum_list (take i nums) \<noteq> sum_list nums"
      proof
        assume "sum_list (take i nums) = sum_list nums"
        then have "sum_list (drop i nums) = 0" by (metis add_cancel_left_right append_take_drop_id sum_list.append)
        moreover have "drop i nums ! (j - i) = nums ! j" "j - i < length (drop i nums)" using False j(1) by auto
        then have "nums ! j \<in> set (drop i nums)" by (metis nth_mem)
        ultimately show False using pos by auto
      qed
      with r(4) have "sum_list nums \<le> 2 ^ i div 2" by blast
      also have "\<dots> \<le> 2 ^ j div 2" using False by (intro div_le_mono power_increasing) simp_all
      finally have "upto_count nums j \<le> 2 ^ j div 2" using le [of j] by (rule order_trans [rotated])
      then have "2 * upto_count nums j \<le> 2 ^ j" by linarith
      with j(2) show ?thesis by simp
    qed
  qed
  from r(2,3) have "n = 0 \<and> na = 0 \<or> (\<exists>j < length nums. n = 2 ^ j \<and> na = upto_count nums j \<and> n < 2 * na)"
    unfolding sizes_inv_def using less_le_trans by blast
  with r(1) best show ?thesis by blast
qed

theorem computesizes_optimal_witness:
  "\<exists>na n. computesizes [1, 1, 2, 0] 4 = Some (na, n) \<and> (\<forall>j < 4. 2 ^ j < 2 * upto_count [1, 1, 2, 0] j \<longrightarrow> 2 ^ j \<le> n)"
proof -
  have "\<forall>j. j < length [1, 1, 2, 0 :: nat] \<longrightarrow> upto_count [1, 1, 2, 0] j \<le> 2 ^ j"
    by (auto simp: upto_count_def less_Suc_eq)
  moreover have "sum_list [1, 1, 2, 0 :: nat] = 4" "length [1, 1, 2, 0 :: nat] = 4" by simp_all
  ultimately show ?thesis
    using computesizes_optimal [of "[1, 1, 2, 0]"] by (metis list.distinct(1))
qed

section \<open>Counting the keys\<close>

text \<open>\<open>nums\<close> counts the keys \<open>ks\<close> that can go to an array part, by slices.\<close>

definition slice_of :: "TValue \<Rightarrow> nat" where
  "slice_of k = nat (ceillog2 (word_of_int (arrayindex k)))"

definition array_key :: "TValue \<Rightarrow> bool" where
  "array_key k \<longleftrightarrow> fits (2 ^ MAXBITS) k"

definition counts :: "nat list \<Rightarrow> TValue list \<Rightarrow> bool" where
  "counts nums ks \<longleftrightarrow> length nums = Suc MAXBITS
     \<and> (\<forall>i < Suc MAXBITS. nums ! i = length (filter (\<lambda>k. array_key k \<and> slice_of k = i) ks))"

lemma slice_bounds:
  assumes "fits n k" "n < 2 ^ 31"
  shows "arrayindex k \<le> 2 ^ slice_of k" "0 < slice_of k \<Longrightarrow> 2 ^ (slice_of k - 1) < arrayindex k"
proof -
  define m where "m = nat (arrayindex k)"
  have m: "arrayindex k = int m" "0 < m" "m \<le> n" using assms(1) by (auto simp: m_def fits_def)
  with ceillog2_bounds [of m] assms(2) obtain l where l: "ceillog2 (of_nat m) = int l" "m \<le> 2 ^ l" "0 < l \<longrightarrow> 2 ^ (l - 1) < m"
    by auto
  have sl: "slice_of k = l" using l(1) by (simp add: slice_of_def m(1))
  from l(2) show "arrayindex k \<le> 2 ^ slice_of k" unfolding m(1) sl by (metis of_nat_le_iff of_nat_numeral of_nat_power)
  show "2 ^ (slice_of k - 1) < arrayindex k" if "0 < slice_of k"
    using l(3) that unfolding m(1) sl by (metis of_nat_less_iff of_nat_numeral of_nat_power)
qed

lemma slice_le_iff:
  assumes "fits n k" "n < 2 ^ 31"
  shows "slice_of k \<le> j \<longleftrightarrow> fits (2 ^ j) k"
proof
  assume "slice_of k \<le> j"
  then have "(2 :: int) ^ slice_of k \<le> 2 ^ j" by (intro power_increasing) simp_all
  with slice_bounds(1) [OF assms] have "arrayindex k \<le> 2 ^ j" by (rule order_trans)
  with assms(1) show "fits (2 ^ j) k" by (simp add: fits_def)
next
  assume f: "fits (2 ^ j) k"
  show "slice_of k \<le> j"
  proof (rule ccontr)
    assume "\<not> slice_of k \<le> j"
    then have le: "(2 :: int) ^ j \<le> 2 ^ (slice_of k - 1)" and pos: "0 < slice_of k" by (auto intro!: power_increasing)
    have "2 ^ j < arrayindex k" by (rule le_less_trans [OF le slice_bounds(2) [OF assms pos]])
    with f show False by (simp add: fits_def)
  qed
qed

lemma array_key_slice: "array_key k \<Longrightarrow> slice_of k < Suc MAXBITS"
  using slice_le_iff [of "2 ^ MAXBITS" k MAXBITS] by (simp add: array_key_def)

lemma counts_upto:
  assumes "counts nums ks" "j < Suc MAXBITS"
  shows "upto_count nums j = length (filter (fits (2 ^ j)) ks)"
  using assms(2)
proof (induction j)
  case 0
  have "array_key k \<and> slice_of k = 0 \<longleftrightarrow> fits (2 ^ 0) k" for k
    using slice_le_iff [of "2 ^ MAXBITS" k 0] by (auto simp: array_key_def fits_def)
  moreover have "upto_count nums 0 = nums ! 0"
    using assms(1) by (cases nums) (simp_all add: counts_def upto_count_def)
  ultimately show ?case using assms(1) by (simp add: counts_def)
next
  case (Suc j)
  have eq: "fits (2 ^ Suc j) k \<longleftrightarrow> fits (2 ^ j) k \<or> array_key k \<and> slice_of k = Suc j" for k
  proof -
    have "fits (2 ^ MAXBITS) k" if "fits (2 ^ Suc j) k"
    proof -
      have "(2 :: int) ^ Suc j \<le> 2 ^ 26" using Suc.prems by (intro power_increasing) simp_all
      with that show ?thesis by (simp add: fits_def)
    qed
    then show ?thesis
      using slice_le_iff [of "2 ^ MAXBITS" k j] slice_le_iff [of "2 ^ MAXBITS" k "Suc j"]
      by (auto simp: array_key_def fits_def le_Suc_eq)
  qed
  have disj: "\<not> (fits (2 ^ j) k \<and> array_key k \<and> slice_of k = Suc j)" for k
    using slice_le_iff [of "2 ^ MAXBITS" k j] by (auto simp: array_key_def)
  have "length (filter (fits (2 ^ Suc j)) ks) =
      length (filter (fits (2 ^ j)) ks) + length (filter (\<lambda>k. array_key k \<and> slice_of k = Suc j) ks)"
    using disj by (induction ks) (auto simp: eq simp del: power_Suc)
  with Suc assms(1) show ?case by (simp add: upto_count_Suc counts_def)
qed

lemma counts_sum:
  assumes "counts nums ks"
  shows "sum_list nums = length (filter array_key ks)"
proof -
  have "sum_list nums = upto_count nums MAXBITS" using assms by (simp add: upto_count_def counts_def)
  also have "\<dots> = length (filter array_key ks)"
    using counts_upto [OF assms, of MAXBITS] by (simp add: array_key_def [abs_def])
  finally show ?thesis .
qed

lemma countint_counts:
  assumes "counts nums ks"
  shows "\<exists>nums'. countint k nums = (if array_key k then 1 else 0, nums') \<and> counts nums' (ks @ [k])"
proof (cases "array_key k")
  case True
  note sl = array_key_slice [OF True]
  have "countint k nums = (1, nums[slice_of k := nums ! slice_of k + 1])"
    using True by (simp add: countint_def Let_def array_key_def fits_def slice_of_def)
  moreover have "counts (nums[slice_of k := nums ! slice_of k + 1]) (ks @ [k])"
    using assms True sl by (auto simp: counts_def nth_list_update)
  ultimately show ?thesis using True by simp
next
  case False
  then have "countint k nums = (0, nums)" by (simp add: countint_def Let_def array_key_def fits_def)
  with False assms show ?thesis by (simp add: counts_def)
qed

text \<open>The keys of the hash part that have a value, in the order \<open>numusehash\<close> visits them.\<close>

definition used_keys :: "Node list \<Rightarrow> TValue list" where
  "used_keys ns = map i_key (filter (\<lambda>n. i_val n \<noteq> VNil) ns)"

lemma numusehash_loop:
  assumes "counts nums ks"
  shows "\<exists>nums'. fold (\<lambda>n (total, ause, nums).
             if \<not> ttisnil (i_val n) then
               (let (c, nums') = countint (i_key n) nums in (total + 1, ause + c, nums'))
             else (total, ause, nums)) ns (tot, ause, nums) =
     (tot + length (used_keys ns), ause + length (filter array_key (used_keys ns)), nums')
     \<and> counts nums' (ks @ used_keys ns)"
  using assms
proof (induction ns arbitrary: tot ause nums ks)
  case Nil
  then show ?case by (simp add: used_keys_def)
next
  case (Cons n ns)
  show ?case
  proof (cases "i_val n = VNil")
    case True
    with Cons.IH [OF Cons.prems, of tot ause] show ?thesis by (simp add: used_keys_def)
  next
    case False
    from countint_counts [OF Cons.prems, of "i_key n"] obtain nums1
      where n1: "countint (i_key n) nums = (if array_key (i_key n) then 1 else 0, nums1)" "counts nums1 (ks @ [i_key n])"
      by blast
    from Cons.IH [OF n1(2), of "tot + 1" "ause + (if array_key (i_key n) then 1 else 0)"] False n1(1)
    show ?thesis by (auto simp: used_keys_def)
  qed
qed

lemma numusehash_counts:
  assumes "counts nums ks"
  shows "\<exists>nums'. numusehash t nums = (length (used_keys (rev (node t))),
      length (filter array_key (used_keys (rev (node t)))), nums') \<and> counts nums' (ks @ used_keys (rev (node t)))"
  unfolding numusehash_def using numusehash_loop [OF assms, of "rev (node t)" 0 0] by simp

text \<open>The keys of the first \<open>m\<close> array elements.\<close>

definition array_keys :: "TValue list \<Rightarrow> nat \<Rightarrow> TValue list" where
  "array_keys arr m = map num_key (filter (\<lambda>i. arr ! i \<noteq> VNil) [0..<m])"

lemma num_key_fits: "i < 2 ^ MAXBITS \<Longrightarrow> fits n (num_key i) \<longleftrightarrow> i < n"
  by (auto simp: fits_def arrayindex_cast)

lemma array_keys_slice:
  assumes "m \<le> m'" "m' \<le> 2 ^ lg" "lg \<le> MAXBITS" "lg = 0 \<or> 2 ^ (lg - 1) \<le> m"
  shows "\<forall>k \<in> set (map num_key (filter (\<lambda>i. arr ! i \<noteq> VNil) [m..<m'])). array_key k \<and> slice_of k = lg"
proof
  fix k
  assume "k \<in> set (map num_key (filter (\<lambda>i. arr ! i \<noteq> VNil) [m..<m']))"
  then obtain i where i: "k = num_key i" "m \<le> i" "i < m'" by auto
  have "(2 :: nat) ^ lg \<le> 2 ^ 26" using assms(3) by (intro power_increasing) simp_all
  with i assms(2) have small: "i < 2 ^ MAXBITS" by simp
  then have ak: "array_key k" by (simp add: array_key_def i(1) num_key_fits [OF small] del: power_numeral)
  have f: "fits (2 ^ j) k \<longleftrightarrow> i < 2 ^ j" for j unfolding i(1) by (rule num_key_fits [OF small])
  have le: "slice_of k \<le> j \<longleftrightarrow> i < 2 ^ j" for j
    using slice_le_iff [of "2 ^ MAXBITS" k j] ak f [of j] by (simp add: array_key_def)
  have "slice_of k \<le> lg" unfolding le using i assms(2) by simp
  moreover have "lg \<le> slice_of k"
  proof (cases lg)
    case (Suc l)
    with assms(4) i(2) have "\<not> i < 2 ^ l" by simp
    then have "\<not> slice_of k \<le> l" using le by blast
    with Suc show ?thesis by simp
  qed simp
  ultimately show "array_key k \<and> slice_of k = lg" using ak by simp
qed

lemma counts_slice:
  assumes "counts nums ks" "lg < Suc MAXBITS" "\<forall>k \<in> set new. array_key k \<and> slice_of k = lg"
  shows "counts (nums[lg := nums ! lg + length new]) (ks @ new)"
proof -
  have "filter (\<lambda>k. array_key k \<and> slice_of k = i) new = (if i = lg then new else [])" for i
    using assms(3) by (auto simp: filter_id_conv filter_empty_conv)
  with assms(1,2) show ?thesis by (auto simp: counts_def nth_list_update)
qed

definition slice_start :: "nat \<Rightarrow> nat" where
  "slice_start lg = (if lg = 0 then 0 else 2 ^ (lg - 1))"

lemma array_keys_append:
  "m \<le> m' \<Longrightarrow> array_keys arr m' = array_keys arr m @ map num_key (filter (\<lambda>i. arr ! i \<noteq> VNil) [m..<m'])"
  unfolding array_keys_def by (metis filter_append le_add_diff_inverse map_append upt_add_eq_append zero_le)

lemma slice_count:
  "length (filter (\<lambda>v. \<not> ttisnil v) (map (\<lambda>j. arr ! (j - 1)) [Suc m..<Suc m'])) =
   length (map num_key (filter (\<lambda>i. arr ! i \<noteq> VNil) [m..<m']))"
proof -
  have "map (\<lambda>j. arr ! (j - 1)) [Suc m..<Suc m'] = map (\<lambda>i. arr ! i) [m..<m']"
    by (rule nth_equalityI) (simp_all del: upt_Suc)
  then show ?thesis by (simp add: filter_map comp_def)
qed

lemma numusearray_loop_counts:
  assumes "counts nums (array_keys arr m)" "ause = length (array_keys arr m)" "m = min (slice_start lg) (length arr)"
    "length arr \<le> 2 ^ MAXBITS" "lg \<le> Suc MAXBITS"
  shows "\<exists>nums'. numusearray_loop arr lg (Suc m) ause nums = (length (array_keys arr (length arr)), nums')
    \<and> counts nums' (array_keys arr (length arr))"
  using assms
proof (induction "Suc MAXBITS - lg" arbitrary: lg m ause nums rule: less_induct)
  case less
  let ?lim = "if 2 ^ lg > length arr then length arr else 2 ^ lg"
  show ?case
  proof (cases "lg \<le> MAXBITS \<and> \<not> (2 ^ lg > length arr \<and> Suc m > ?lim)")
    case False
    have "m = length arr"
    proof (cases "lg \<le> MAXBITS")
      case True
      with False less.prems(3) show ?thesis by (auto simp: min_def split: if_splits)
    next
      case over: False
      with less.prems(5) have "lg = Suc MAXBITS" by simp
      with less.prems(3,4) show ?thesis by (simp add: slice_start_def min_def)
    qed
    with False less.prems(1,2) show ?thesis by (subst numusearray_loop.simps) auto
  next
    case True
    then have lg: "lg \<le> MAXBITS" by simp
    have m: "m \<le> ?lim" "?lim \<le> 2 ^ lg" "?lim = min (slice_start (lg + 1)) (length arr)"
    proof -
      have "slice_start lg \<le> 2 ^ lg" by (cases lg) (simp_all add: slice_start_def)
      then show "m \<le> ?lim" using less.prems(3) by auto
    qed (auto simp: slice_start_def)
    have start: "lg = 0 \<or> 2 ^ (lg - 1) \<le> m"
    proof (cases "2 ^ lg > length arr")
      case big: True
      with True have "Suc m \<le> length arr" by simp
      with less.prems(3) show ?thesis by (auto simp: slice_start_def min_def split: if_splits)
    next
      case False
      have "(2 :: nat) ^ (lg - 1) \<le> 2 ^ lg" by (intro power_increasing) simp_all
      with False have "2 ^ (lg - 1) \<le> length arr" by (meson le_trans not_less)
      with less.prems(3) show ?thesis by (auto simp: slice_start_def)
    qed
    let ?new = "map num_key (filter (\<lambda>i. arr ! i \<noteq> VNil) [m..<?lim])"
    have cnt: "length (filter (\<lambda>v. \<not> ttisnil v) (map (\<lambda>j. arr ! (j - 1)) [Suc m..<?lim + 1])) = length ?new"
      using slice_count [of arr m ?lim] by (simp only: Suc_eq_plus1)
    note ks = array_keys_append [OF m(1), of arr]
    have counts: "counts (nums[lg := nums ! lg + length ?new]) (array_keys arr ?lim)"
      unfolding ks by (rule counts_slice [OF less.prems(1) _ array_keys_slice [OF m(1,2) lg start]]) (use lg in simp)
    have next_i: "max (Suc m) (?lim + 1) = Suc ?lim" using m(1) by simp
    have "numusearray_loop arr lg (Suc m) ause nums =
        numusearray_loop arr (lg + 1) (Suc ?lim) (ause + length ?new) (nums[lg := nums ! lg + length ?new])"
      using True by (subst numusearray_loop.simps) (simp only: Let_def cnt next_i if_True if_False simp_thms)
    moreover have "\<exists>nums'. numusearray_loop arr (lg + 1) (Suc ?lim) (ause + length ?new) (nums[lg := nums ! lg + length ?new])
        = (length (array_keys arr (length arr)), nums') \<and> counts nums' (array_keys arr (length arr))"
      by (rule less.hyps) (use lg counts less.prems(2,4) m(3) ks in simp_all)
    ultimately show ?thesis by simp
  qed
qed

section \<open>Rehashing\<close>

text \<open>The number of entries of a table.\<close>

definition table_count :: "Table \<Rightarrow> nat" where
  "table_count t = length (array_keys (array t) (length (array t))) + length (used_keys (node t))"

lemma array_keys_all:
  "m \<le> 2 ^ MAXBITS \<Longrightarrow> filter array_key (array_keys arr m) = array_keys arr m"
  by (auto simp: filter_id_conv array_keys_def array_key_def num_key_fits simp del: power_numeral)

lemma array_unfit:
  assumes "length arr \<le> 2 ^ MAXBITS"
  shows "length (filter (\<lambda>k. \<not> fits n k) (array_keys arr (length arr))) =
    length (filter (\<lambda>i. arr ! i \<noteq> VNil) [n..<length arr])"
proof -
  have "filter (\<lambda>k. \<not> fits n k) (array_keys arr (length arr)) =
      map num_key (filter (\<lambda>i. \<not> i < n) (filter (\<lambda>i. arr ! i \<noteq> VNil) [0..<length arr]))"
    unfolding array_keys_def filter_map comp_def
    by (intro arg_cong [of _ _ "map num_key"] filter_cong refl) (use assms in \<open>auto simp: num_key_fits\<close>)
  moreover have "filter (\<lambda>i. \<not> i < n) (filter (\<lambda>i. arr ! i \<noteq> VNil) [0..<length arr]) =
      filter (\<lambda>i. arr ! i \<noteq> VNil) [n..<length arr]"
  proof (cases "n \<le> length arr")
    case True
    then have "[0..<length arr] = [0..<n] @ [n..<length arr]"
      by (metis le_add_diff_inverse upt_add_eq_append zero_le)
    then show ?thesis by (auto simp: filter_empty_conv intro!: filter_cong)
  next
    case False
    then show ?thesis by (auto simp: filter_empty_conv)
  qed
  ultimately show ?thesis by simp
qed

lemma hash_unfit:
  "length (filter (\<lambda>k. \<not> fits n k) (used_keys (rev ns))) =
   length (filter (\<lambda>e. i_val e \<noteq> VNil \<and> \<not> fits n (i_key e)) ns)"
  by (induction ns) (auto simp: used_keys_def)

lemma sizes_fit:
  assumes "counts nums ks" "sizes_inv nums i na n" "i \<le> length nums"
  shows "na = length (filter (fits n) ks)" "n \<le> 2 ^ MAXBITS"
proof -
  from assms(2) consider "n = 0" "na = 0" | j where "j < i" "n = 2 ^ j" "na = upto_count nums j"
    unfolding sizes_inv_def by blast
  then have "na = length (filter (fits n) ks) \<and> n \<le> 2 ^ MAXBITS"
  proof cases
    case 1
    then show ?thesis by (simp add: fits_def filter_empty_conv)
  next
    case 2
    with assms(1,3) have "j < Suc MAXBITS" by (simp add: counts_def)
    moreover from this have "(2 :: nat) ^ j \<le> 2 ^ MAXBITS" by (intro power_increasing) simp_all
    ultimately show ?thesis using counts_upto [OF assms(1)] 2 by simp
  qed
  then show "na = length (filter (fits n) ks)" "n \<le> 2 ^ MAXBITS" by auto
qed

lemma rehash_ok:
  assumes ok: "table_ok t" and small: "length (array t) \<le> 2 ^ MAXBITS" and cnt: "table_count t < 2 ^ MAXBITS"
  shows "\<exists>t'. rehash (newkey (Suc d)) t ek = ROk t' \<and> table_ok t' \<and> same_map (contents t') (contents t)
    \<and> length (array t') \<le> 2 ^ MAXBITS \<and> (in_array t' ek \<or> 0 < usable t')"
proof -
  define aks where "aks = array_keys (array t) (length (array t))"
  define hks where "hks = used_keys (rev (node t))"
  define ks where "ks = aks @ hks @ [ek]"
  have "counts (replicate (MAXBITS + 1) 0) (array_keys (array t) 0)" by (simp add: counts_def array_keys_def)
  from numusearray_loop_counts [OF this, of 0 0] small obtain nums1
    where n1: "numusearray t (replicate (MAXBITS + 1) 0) = (length aks, nums1)" "counts nums1 aks"
    by (auto simp: numusearray_def aks_def array_keys_def slice_start_def)
  from numusehash_counts [OF n1(2), of t] obtain nums2
    where n2: "numusehash t nums1 = (length hks, length (filter array_key hks), nums2)" "counts nums2 (aks @ hks)"
    unfolding hks_def by blast
  from countint_counts [OF n2(2), of ek] obtain nums3
    where n3: "countint ek nums2 = (if array_key ek then 1 else 0, nums3)" "counts nums3 ks"
    by (auto simp: ks_def)
  have total: "length aks + length (filter array_key hks) + (if array_key ek then 1 else 0) = sum_list nums3"
    unfolding counts_sum [OF n3(2)] using array_keys_all [OF small, of "array t"] by (simp add: ks_def aks_def)
  have "nums3 \<noteq> []" using n3(2) by (auto simp: counts_def)
  from computesizes_spec [OF this] obtain na n i where cs: "computesizes nums3 (sum_list nums3) = Some (na, n)"
    "sizes_inv nums3 i na n" "i \<le> length nums3" by blast
  note fit = sizes_fit [OF n3(2) cs(2,3)]
  have "length ks - na = length (filter (\<lambda>k. \<not> fits n k) ks)"
    unfolding fit(1) using sum_length_filter_compl [of "fits n" ks] by simp
  also have "\<dots> = hash_need t n + (if fits n ek then 0 else 1)"
    using array_unfit [OF small, of n] hash_unfit [of n "node t"] by (simp add: ks_def hash_need_def aks_def hks_def)
  finally have sz: "length ks - na = hash_need t n + (if fits n ek then 0 else 1)" .
  have "length hks = length (used_keys (node t))" by (simp add: hks_def used_keys_def rev_filter [symmetric])
  with cnt have "length ks \<le> 2 ^ MAXBITS" by (simp add: ks_def aks_def table_count_def)
  then have "length ks - na \<le> 2 ^ MAXBITS" by simp
  moreover have "n < 2 ^ 31" using fit(2) by simp
  ultimately obtain t' where t': "resize (newkey (Suc d)) t n (length ks - na) = ROk t'" "table_ok t'"
    "same_map (contents t') (contents t)" "length (array t') = n" "length ks - na \<le> usable t' + hash_need t n"
    using resize_ok [OF ok, of n "length ks - na" d] sz by auto
  have "rehash (newkey (Suc d)) t ek = ROk t'"
    using t'(1) total cs(1) unfolding rehash_def n1(1) n2(1) n3(1) prod.case Let_def
    by (simp add: ks_def n2(1) n3(1))
  moreover have "in_array t' ek \<or> 0 < usable t'"
    using t'(4,5) sz by (auto simp: in_array_def fits_def split: if_splits)
  ultimately show ?thesis using t' fit(2) by auto
qed

end
