(* ===== verification/LTableMap.thy ===== *)
theory LTableMap
  imports LTableRehash
begin

text \<open>
  Tables as maps. \<open>luaH_set\<close> and a store update exactly one key of a table, through any rehash, and
  any sequence of assignments to a new table gives the map of the last assignments. The locale
  \<open>keyed_store\<close> is the interface the rest of the program relies on.
\<close>

section \<open>Setting a key\<close>

lemma table_ok_lastfree:
  assumes "table_ok t" "lf \<le> lastfree t" "is_dummy t \<or> free_nodes (node t) = {}"
  shows "table_ok (t\<lparr>lastfree := lf\<rparr>)"
proof -
  have "mainposition (t\<lparr>lastfree := lf\<rparr>) = mainposition t" by (rule mainposition_cong) simp
  moreover have "sizenode (t\<lparr>lastfree := lf\<rparr>) = sizenode t" by (simp add: sizenode_def)
  ultimately show ?thesis
    using assms unfolding table_ok_def in_array_def by (auto split: if_splits)
qed

lemma getfreepos_loop_le: "getfreepos_loop ns l = (None, l') \<Longrightarrow> l' \<le> l"
proof (induction ns l rule: getfreepos_loop.induct)
  case (1 ns l)
  then show ?case
    by (cases "l > 0"; cases "i_key (ns ! nat (l - 1)) = VNil") (simp_all add: getfreepos_loop.simps [of ns l])
qed

lemma getfreepos_none:
  assumes ok: "table_ok t" and none: "usable t = 0"
  shows "\<exists>lf. getfreepos t = (None, t\<lparr>lastfree := lf\<rparr>) \<and> table_ok (t\<lparr>lastfree := lf\<rparr>)"
proof -
  have free: "is_dummy t \<or> free_nodes (node t) = {}"
    using none by (auto simp: usable_def free_nodes_def split: if_splits)
  obtain r lf where r: "getfreepos_loop (node t) (lastfree t) = (r, lf)" by fastforce
  have rn: "r = None"
  proof (cases "is_dummy t")
    case True
    with ok r show ?thesis by (auto simp: table_ok_def getfreepos_loop.simps)
  next
    case False
    with free ok getfreepos_loop_free [of "node t" "lastfree t"] r show ?thesis
      by (auto simp: table_ok_def split: option.splits)
  qed
  with r getfreepos_loop_le have "lf \<le> lastfree t" by blast
  from table_ok_lastfree [OF ok this free] rn r show ?thesis by (auto simp: getfreepos_def)
qed

text \<open>A slot for the key in a table with the same map.\<close>

definition slot_for :: "Table \<Rightarrow> Table \<Rightarrow> TValue \<Rightarrow> slot \<Rightarrow> bool" where
  "slot_for t t1 k s \<longleftrightarrow> table_ok t1 \<and> finds t1 k s \<and> s \<noteq> NilObject \<and> same_map (contents t1) (contents t)
     \<and> length (array t1) \<le> 2 ^ MAXBITS"

lemma ready_slot_for: "slot_ready t t1 k s \<Longrightarrow> length (array t) \<le> 2 ^ MAXBITS \<Longrightarrow> slot_for t t1 k s"
  by (simp add: slot_ready_def slot_for_def)

lemma newkey_total:
  assumes ok: "table_ok t" and small: "length (array t) \<le> 2 ^ MAXBITS" and cnt: "table_count t < 2 ^ MAXBITS"
    and k: "valid_key k" and absent: "finds t k NilObject"
  shows "\<exists>t1 s. newkey rehash_depth t k = ROk (t1, s) \<and> slot_for t t1 k s"
proof -
  consider (room) "\<not> is_dummy t" "i_val (node t ! mainposition t k) = VNil \<or> 0 < usable t"
    | (full) "usable t = 0" "is_dummy t \<or> i_val (node t ! mainposition t k) \<noteq> VNil"
    by (cases "usable t = 0"; cases "is_dummy t") (auto simp: usable_def)
  then show ?thesis
  proof cases
    case room
    from newkey_no_rehash [OF ok k absent room, of 1] obtain t1 i
      where "newkey (Suc 1) t k = ROk (t1, NodeSlot i)" "key_added t t1 i k" by blast
    moreover from this(2) absent have "slot_ready t t1 k (NodeSlot i)"
      by (intro key_added_ready [OF _ k]) (simp_all add: finds_def)
    ultimately show ?thesis using ready_slot_for [OF _ small] by (auto simp: numeral_2_eq_2)
  next
    case full
    from getfreepos_none [OF ok full(1)] obtain lf
      where lf: "getfreepos t = (None, t\<lparr>lastfree := lf\<rparr>)" "table_ok (t\<lparr>lastfree := lf\<rparr>)" by blast
    have "table_count (t\<lparr>lastfree := lf\<rparr>) < 2 ^ MAXBITS" using cnt by (simp add: table_count_def)
    from rehash_ok [OF lf(2) _ this, of 0 k] small obtain t2
      where t2: "rehash (newkey (Suc 0)) (t\<lparr>lastfree := lf\<rparr>) k = ROk t2" "table_ok t2"
        "same_map (contents t2) (contents t)" "length (array t2) \<le> 2 ^ MAXBITS" "in_array t2 k \<or> 0 < usable t2"
      by (auto simp: contents_def)
    have "\<exists>t1 s. newkey (Suc 0) (t2\<lparr>flags := 0\<rparr>) k = ROk (t1, s) \<and> slot_ready t2 t1 k s" if "finds t2 k NilObject"
      using newkey_ready [of "t2\<lparr>flags := 0\<rparr>" k 0] that t2(2,5) k by (auto simp: slot_ready_flags finds_def)
    from set_ready [where newk = "newkey (Suc 0)", OF t2(2) k this] obtain t1 s
      where s: "luaH_set_with (newkey (Suc 0)) t2 k = ROk (t1, s)" "slot_ready t2 t1 k s" by blast
    have "newkey (Suc (Suc 0)) t k = ROk (t1, s)"
      using full(2) lf(1) t2(1) s(1) by (subst newkey.simps) (auto simp: Let_def)
    moreover have "slot_for t t1 k s"
      using ready_slot_for [OF s(2) t2(4)] same_map_trans [OF _ t2(3)] by (simp add: slot_for_def)
    ultimately show ?thesis by (simp add: numeral_2_eq_2)
  qed
qed

lemma set_total:
  assumes ok: "table_ok t" and small: "length (array t) \<le> 2 ^ MAXBITS" and cnt: "table_count t < 2 ^ MAXBITS"
    and k: "valid_key k"
  shows "\<exists>t1 s. luaH_set t k = ROk (t1, s) \<and> slot_for t t1 k s"
proof -
  from get_finds [OF ok k] obtain p where p: "luaH_get t k = Some p" "finds t k p" by blast
  show ?thesis
  proof (cases "p = NilObject")
    case True
    have "table_count (t\<lparr>flags := 0\<rparr>) < 2 ^ MAXBITS" using cnt by (simp add: table_count_def)
    from newkey_total [OF _ _ this k] ok small p True obtain t1 s
      where "newkey rehash_depth (t\<lparr>flags := 0\<rparr>) k = ROk (t1, s)" "slot_for (t\<lparr>flags := 0\<rparr>) t1 k s" by auto
    with p True valid_not_nan [OF k] show ?thesis
      by (simp add: luaH_set_def luaH_set_with_def nan_key_def slot_for_def)
  next
    case False
    with p ok small show ?thesis
      by (simp add: luaH_set_def luaH_set_with_def slot_for_def)
  qed
qed

text \<open>Assignment: the slot, then the store.\<close>

definition tset :: "Table \<Rightarrow> TValue \<Rightarrow> TValue \<Rightarrow> Table res" where
  "tset t k v = rbind (luaH_set t k) (\<lambda>(t1, s). ROk (slot_store t1 s v))"

lemma tset_updates:
  assumes "table_ok t" "length (array t) \<le> 2 ^ MAXBITS" "table_count t < 2 ^ MAXBITS" "valid_key k"
  shows "\<exists>t2. tset t k v = ROk t2 \<and> table_ok t2 \<and> length (array t2) \<le> 2 ^ MAXBITS
    \<and> (\<exists>E. same_map E (contents t) \<and> updates E k v (contents t2) \<and> (\<exists>t1. table_ok t1 \<and> E = contents t1))"
proof -
  from set_total [OF assms] obtain t1 s where s: "luaH_set t k = ROk (t1, s)" "slot_for t t1 k s" by blast
  then have r: "slot_ready t1 t1 k s" "length (array t1) \<le> 2 ^ MAXBITS" "same_map (contents t1) (contents t)" "table_ok t1"
    by (auto simp: slot_for_def slot_ready_def)
  note st = slot_ready_store [OF r(1) assms(4), of v]
  with s(1) r show ?thesis by (auto simp: tset_def)
qed

lemma tset_get:
  assumes ok: "table_ok t" "length (array t) \<le> 2 ^ MAXBITS" "table_count t < 2 ^ MAXBITS" and k: "valid_key k"
  shows "\<exists>t2. tset t k v = ROk t2 \<and> table_ok t2 \<and> length (array t2) \<le> 2 ^ MAXBITS
    \<and> (\<forall>k'. valid_key k' \<longrightarrow> tget t2 k' = (if luaO_rawequalObj k k' then v else tget t k'))"
proof -
  from tset_updates [OF ok k, of v] obtain t2 E where t2: "tset t k v = ROk t2" "table_ok t2"
    "length (array t2) \<le> 2 ^ MAXBITS" "same_map E (contents t)" "updates E k v (contents t2)" by blast
  have "tget t2 k' = (if luaO_rawequalObj k k' then v else tget t k')" if k': "valid_key k'" for k'
    unfolding tget_iff [OF t2(2) k'] val_in_updates [OF t2(5)]
    using tget_iff [OF ok(1) k'] t2(4) by (auto simp: same_map_def)
  with t2 show ?thesis by blast
qed

section \<open>How many entries\<close>

text \<open>A set of entries with one entry per key.\<close>

definition one_each :: "(TValue \<times> TValue) set \<Rightarrow> bool" where
  "one_each E \<longleftrightarrow> (\<forall>k v. (k, v) \<in> E \<longrightarrow> v \<noteq> VNil \<and> luaO_rawequalObj k k)
     \<and> (\<forall>k v k' v'. (k, v) \<in> E \<longrightarrow> (k', v') \<in> E \<longrightarrow> luaO_rawequalObj k k' \<longrightarrow> k = k' \<and> v = v')"

lemma same_map_card:
  assumes "same_map E E'" "one_each E" "finite E'"
  shows "card E \<le> card E'"
proof -
  define f where "f e = (SOME e'. e' \<in> E' \<and> snd e' = snd e \<and> luaO_rawequalObj (fst e') (fst e))" for e
  have f: "f e \<in> E' \<and> snd (f e) = snd e \<and> luaO_rawequalObj (fst (f e)) (fst e)" if "e \<in> E" for e
  proof -
    from that assms(2) have e: "(fst e, snd e) \<in> E" "snd e \<noteq> VNil" "luaO_rawequalObj (fst e) (fst e)"
      unfolding one_each_def by (cases e, force)+
    then have "val_in E (fst e) (snd e)" unfolding val_in_def by metis
    with assms(1) have "val_in E' (fst e) (snd e)" by (simp add: same_map_def)
    with e(2) have "\<exists>e'. e' \<in> E' \<and> snd e' = snd e \<and> luaO_rawequalObj (fst e') (fst e)"
      unfolding val_in_def by force
    then show ?thesis unfolding f_def by (rule someI_ex)
  qed
  have "inj_on f E"
  proof (rule inj_onI)
    fix x y
    assume x: "x \<in> E" and y: "y \<in> E" and eq: "f x = f y"
    from f [OF x] f [OF y] eq have "luaO_rawequalObj (fst x) (fst y)" by (metis rawequal_sym rawequal_trans)
    with assms(2) x y show "x = y" unfolding one_each_def by (metis prod.collapse)
  qed
  moreover have "f ` E \<subseteq> E'" using f by blast
  ultimately show ?thesis using assms(3) by (rule card_inj_on_le)
qed

lemma finite_contents: "finite (contents t)"
proof -
  have "entries (node t) = (\<lambda>i. (i_key (node t ! i), i_val (node t ! i))) ` {i. i < length (node t) \<and> i_val (node t ! i) \<noteq> VNil}"
    by (auto simp: entries_def)
  then show ?thesis unfolding contents_def array_entries_image by simp
qed

lemma entries_one_each: "nodes_ok home ns \<Longrightarrow> one_each (entries ns)"
  unfolding one_each_def
proof (intro conjI allI impI)
  assume ok: "nodes_ok home ns"
  have node: "\<exists>i < length ns. k = i_key (ns ! i) \<and> v = i_val (ns ! i) \<and> live k \<and> v \<noteq> VNil"
    if "(k, v) \<in> entries ns" for k v
    using that entry_live [OF ok that] by (auto simp: entries_def)
  show "v \<noteq> VNil" "luaO_rawequalObj k k" if "(k, v) \<in> entries ns" for k v
    using node [OF that] nodes_okD(2) [OF ok] rawequal_refl by blast+
  show "k = k'" "v = v'" if "(k, v) \<in> entries ns" "(k', v') \<in> entries ns" "luaO_rawequalObj k k'" for k v k' v'
    using node [OF that(1)] node [OF that(2)] that(3) nodes_okD(5) [OF ok] by blast+
qed

lemma contents_one_each:
  assumes ok: "table_ok t"
  shows "one_each (contents t)"
proof -
  note ent = entries_one_each [OF table_okD(2) [OF ok]]
  have arr: "v \<noteq> VNil \<and> luaO_rawequalObj k k \<and> in_array t k" if e: "(k, v) \<in> array_entries (array t)" for k v
  proof -
    from e obtain i where "k = num_key i" "i < length (array t)" by (auto simp: array_entries_def)
    then show ?thesis
      using array_entry_in [OF table_okD(3) [OF ok] e] num_key_rawequal [of i i] table_okD(3) [OF ok] by auto
  qed
  have same: "k = k'" if "(k, v) \<in> array_entries (array t)" "(k', v') \<in> array_entries (array t)" "luaO_rawequalObj k k'" for k v k' v'
  proof -
    from that obtain i j where "k = num_key i" "i < length (array t)" "k' = num_key j" "j < length (array t)"
      by (auto simp: array_entries_def)
    with that(3) num_key_rawequal [of i j] table_okD(3) [OF ok] show ?thesis by simp
  qed
  have cross: False if "(k, v) \<in> array_entries (array t)" "(k', v') \<in> entries (node t)" "luaO_rawequalObj k k'" for k v k' v'
    using arr [OF that(1)] entry_out [OF ok that(2)] in_array_rawequal [OF that(3)] by blast
  show ?thesis
    unfolding one_each_def
  proof (intro conjI allI impI)
    show "v \<noteq> VNil" "luaO_rawequalObj k k" if "(k, v) \<in> contents t" for k v
      using that arr ent unfolding contents_def one_each_def by blast+
    show "v = v'" if "(k, v) \<in> contents t" "(k', v') \<in> contents t" "luaO_rawequalObj k k'" for k v k' v'
      by (rule contents_unique [OF ok that])
    show "k = k'" if e: "(k, v) \<in> contents t" "(k', v') \<in> contents t" "luaO_rawequalObj k k'" for k v k' v'
      using e same cross [of k v k' v'] cross [of k' v' k v] ent rawequal_sym [of k k']
      unfolding contents_def one_each_def by blast
  qed
qed

lemma length_filter_card: "length (filter P [0..<n]) = card {i. i < n \<and> P i}"
proof -
  have "length (filter P [0..<n]) = card (set (filter P [0..<n]))" by (intro distinct_card [symmetric]) simp
  also have "set (filter P [0..<n]) = {i. i < n \<and> P i}" by auto
  finally show ?thesis .
qed

lemma length_filter_nth: "length (filter P xs) = card {i. i < length xs \<and> P (xs ! i)}"
proof -
  have "filter P xs = map (\<lambda>i. xs ! i) (filter (\<lambda>i. P (xs ! i)) [0..<length xs])"
    by (metis comp_apply filter_cong filter_map map_nth)
  then show ?thesis by (simp add: length_filter_card)
qed

lemma card_array_entries:
  assumes "length arr < 2 ^ 31"
  shows "card (array_entries arr) = length (array_keys arr (length arr))"
proof -
  have "inj_on (\<lambda>i. (num_key i, arr ! i)) {i. i < length arr \<and> arr ! i \<noteq> VNil}"
    using assms num_key_rawequal by (intro inj_onI) (metis (no_types, lifting) mem_Collect_eq order_less_trans prod.inject)
  then show ?thesis
    unfolding array_entries_image array_keys_def by (simp add: card_image length_filter_card)
qed

lemma card_entries:
  assumes ok: "nodes_ok home ns"
  shows "card (entries ns) = length (used_keys ns)"
proof -
  have "inj_on (\<lambda>i. (i_key (ns ! i), i_val (ns ! i))) {i. i < length ns \<and> i_val (ns ! i) \<noteq> VNil}"
  proof (rule inj_onI)
    fix i j
    assume "i \<in> {i. i < length ns \<and> i_val (ns ! i) \<noteq> VNil}" "j \<in> {i. i < length ns \<and> i_val (ns ! i) \<noteq> VNil}"
      "(i_key (ns ! i), i_val (ns ! i)) = (i_key (ns ! j), i_val (ns ! j))"
    then have ij: "i < length ns" "i_val (ns ! i) \<noteq> VNil" "j < length ns" "i_key (ns ! i) = i_key (ns ! j)"
      by auto
    then have l: "live (i_key (ns ! i))" using nodes_okD(4) [OF ok] by blast
    with ij nodes_okD(2,5) [OF ok] rawequal_refl show "i = j" by metis
  qed
  moreover have "entries ns = (\<lambda>i. (i_key (ns ! i), i_val (ns ! i))) ` {i. i < length ns \<and> i_val (ns ! i) \<noteq> VNil}"
    by (auto simp: entries_def)
  ultimately show ?thesis by (simp add: card_image used_keys_def length_filter_nth)
qed

lemma table_count_card:
  assumes ok: "table_ok t"
  shows "table_count t = card (contents t)"
proof -
  have "array_entries (array t) \<inter> entries (node t) = {}"
    using array_entry_in [OF table_okD(3) [OF ok]] entry_out [OF ok] by fastforce
  moreover have "finite (array_entries (array t))" "finite (entries (node t))"
    using finite_contents [of t] by (simp_all add: contents_def)
  ultimately show ?thesis
    by (simp add: contents_def table_count_def card_Un_disjoint card_array_entries [OF table_okD(3) [OF ok]]
        card_entries [OF table_okD(2) [OF ok]])
qed

lemma updates_card:
  assumes "updates E k v E'" "finite E"
  shows "card E' \<le> card E + 1"
proof -
  from assms(1) obtain kk where "E' = {(k', w) \<in> E. \<not> luaO_rawequalObj k' k} \<union> (if v = VNil then {} else {(kk, v)})"
    by (auto simp: updates_def)
  then have "E' \<subseteq> insert (kk, v) E" by auto
  then have "card E' \<le> card (insert (kk, v) E)" using assms(2) by (intro card_mono) simp_all
  also have "\<dots> \<le> card E + 1" by (metis Suc_eq_plus1 card_insert_le_m1 card_insert_if assms(2) le_SucI order_refl)
  finally show ?thesis .
qed

text \<open>The tables the program builds, with a bound on the number of their entries.\<close>

definition table_inv :: "nat \<Rightarrow> Table \<Rightarrow> bool" where
  "table_inv n t \<longleftrightarrow> table_ok t \<and> length (array t) \<le> 2 ^ MAXBITS \<and> card (contents t) \<le> n"

lemma tset_inv:
  assumes inv: "table_inv n t" and n: "n < 2 ^ MAXBITS" and k: "valid_key k"
  shows "\<exists>t2. tset t k v = ROk t2 \<and> table_inv (n + 1) t2
    \<and> (\<forall>k'. valid_key k' \<longrightarrow> tget t2 k' = (if luaO_rawequalObj k k' then v else tget t k'))"
proof -
  have ok: "table_ok t" "length (array t) \<le> 2 ^ MAXBITS" "table_count t < 2 ^ MAXBITS"
    using inv n table_count_card by (auto simp: table_inv_def)
  from tset_updates [OF ok k, of v] obtain t2 E t1 where t2: "tset t k v = ROk t2" "table_ok t2"
    "length (array t2) \<le> 2 ^ MAXBITS" "same_map E (contents t)" "updates E k v (contents t2)"
    "table_ok t1" "E = contents t1" by blast
  have "card E \<le> card (contents t)"
    unfolding t2(7) by (rule same_map_card [OF t2(4) [unfolded t2(7)] contents_one_each [OF t2(6)] finite_contents])
  with updates_card [OF t2(5)] finite_contents [of t1] inv have "table_inv (n + 1) t2"
    using t2(2,3,7) by (simp add: table_inv_def)
  with tset_get [OF ok k, of v] t2(1) show ?thesis by auto
qed

lemma new_inv:
  assumes "narray \<le> 2 ^ MAXBITS" "nhash \<le> 2 ^ MAXBITS"
  shows "\<exists>t. luaH_new narray nhash = ROk t \<and> table_inv 0 t \<and> (\<forall>k. valid_key k \<longrightarrow> tget t k = VNil)"
proof -
  let ?t = "setarrayvector \<lparr>flags = 255, lsizenode = 0, metatable = None, array = [], node = [dummynode],
               is_dummy = True, lastfree = 0\<rparr> narray"
  have arr: "array ?t = replicate narray VNil" by (simp add: setarrayvector_def)
  from setnodevector_ok [of nhash ?t] assms arr obtain t where t: "setnodevector ?t nhash = ROk t" "table_ok t"
    "array t = array ?t" "entries (node t) = {}" by auto
  have c: "contents t = {}" using t(3,4) arr array_entries_pad [of "[]" narray]
    by (simp add: contents_def array_entries_image)
  then have "tget t k = VNil" if "valid_key k" for k
    using tget_iff [OF t(2) that] by (simp add: val_in_def)
  moreover have "length (array t) \<le> 2 ^ MAXBITS" using t(3) arr assms(1) by simp
  ultimately show ?thesis using t(1,2) c by (simp add: luaH_new_def Let_def table_inv_def)
qed

section \<open>The interface\<close>

text \<open>A store of values under keys: \<open>get\<close> after \<open>put\<close>, and what every \<open>put\<close> keeps. The index of the
  invariant bounds the number of entries; a \<open>put\<close> succeeds below \<open>cap\<close> entries.\<close>

locale keyed_store =
  fixes get :: "'t \<Rightarrow> 'k \<Rightarrow> 'v" and put :: "'t \<Rightarrow> 'k \<Rightarrow> 'v \<Rightarrow> 't res"
    and inv :: "nat \<Rightarrow> 't \<Rightarrow> bool" and ok :: "'k \<Rightarrow> bool" and eq :: "'k \<Rightarrow> 'k \<Rightarrow> bool" and cap :: nat
  assumes put_total: "inv n t \<Longrightarrow> n < cap \<Longrightarrow> ok k \<Longrightarrow>
      \<exists>t'. put t k v = ROk t' \<and> inv (n + 1) t' \<and> (\<forall>k'. ok k' \<longrightarrow> get t' k' = (if eq k k' then v else get t k'))"
begin

primrec puts :: "('k \<times> 'v) list \<Rightarrow> 't \<Rightarrow> 't res" where
  "puts [] t = ROk t"
| "puts (kv # kvs) t = rbind (put t (fst kv) (snd kv)) (puts kvs)"

primrec latest :: "('k \<Rightarrow> 'v) \<Rightarrow> ('k \<times> 'v) list \<Rightarrow> 'k \<Rightarrow> 'v" where
  "latest m [] = m"
| "latest m (kv # kvs) = latest (\<lambda>k. if eq (fst kv) k then snd kv else m k) kvs"

lemma latest_cong: "ok k \<Longrightarrow> (\<And>k. ok k \<Longrightarrow> m k = m' k) \<Longrightarrow> latest m kvs k = latest m' kvs k"
proof (induction kvs arbitrary: m m')
  case Nil
  then show ?case by simp
next
  case (Cons kv kvs)
  show ?case unfolding latest.simps by (rule Cons.IH [OF Cons.prems(1)]) (simp add: Cons.prems(2))
qed

lemma puts_total:
  assumes "inv n t" "n + length kvs \<le> cap" "\<forall>kv \<in> set kvs. ok (fst kv)"
  shows "\<exists>t'. puts kvs t = ROk t' \<and> inv (n + length kvs) t' \<and> (\<forall>k. ok k \<longrightarrow> get t' k = latest (get t) kvs k)"
  using assms
proof (induction kvs arbitrary: n t)
  case Nil
  then show ?case by simp
next
  case (Cons kv kvs)
  then obtain t1 where t1: "put t (fst kv) (snd kv) = ROk t1" "inv (n + 1) t1"
    "\<forall>k. ok k \<longrightarrow> get t1 k = (if eq (fst kv) k then snd kv else get t k)"
    using put_total [of n t "fst kv" "snd kv"] by auto
  from Cons.IH [OF t1(2)] Cons.prems(2,3) obtain t2 where t2: "puts kvs t1 = ROk t2"
    "inv (n + length (kv # kvs)) t2" "\<forall>k. ok k \<longrightarrow> get t2 k = latest (get t1) kvs k" by auto
  have "get t2 k = latest (get t) (kv # kvs) k" if "ok k" for k
    using t2(3) t1(3) that latest_cong [OF that, of "get t1" "\<lambda>k. if eq (fst kv) k then snd kv else get t k"] by simp
  with t1(1) t2(1,2) show ?case by simp
qed

end

interpretation tab: keyed_store tget tset table_inv valid_key luaO_rawequalObj "2 ^ MAXBITS"
  by unfold_locales (rule tset_inv)

text \<open>
  C17: one assignment. In a well-formed table with fewer than \<open>2 ^ 26\<close> entries, setting a valid key never
  fails, loops or reads outside the table, whether or not it rehashes; the table stays well formed, the
  key (and every key equal to it) then has the new value and every other key the value it had.
\<close>

theorem table_assignment:
  assumes "table_inv n t" and "n < 2 ^ MAXBITS" and "valid_key k"
  shows "\<exists>t1 s. luaH_set t k = ROk (t1, s) \<and> table_inv (n + 1) (slot_store t1 s v)
    \<and> (\<forall>k'. valid_key k' \<longrightarrow>
        tget (slot_store t1 s v) k' = (if luaO_rawequalObj k k' then v else tget t k'))"
proof -
  from tab.put_total [OF assms, of v] obtain t2 where t2: "tset t k v = ROk t2" "table_inv (n + 1) t2"
    "\<forall>k'. valid_key k' \<longrightarrow> tget t2 k' = (if luaO_rawequalObj k k' then v else tget t k')" by blast
  from t2(1) obtain t1 s where "luaH_set t k = ROk (t1, s)" "t2 = slot_store t1 s v"
    unfolding tset_def rbind_def by (auto split: res.splits prod.splits)
  with t2(2,3) show ?thesis by blast
qed

theorem table_assignment_witness:
  "\<exists>t t1 s. luaH_new 0 0 = ROk t \<and> luaH_set t (VString ''x'') = ROk (t1, s)
     \<and> tget (slot_store t1 s (VBoolean True)) (VString ''x'') = VBoolean True"
proof -
  obtain t where t: "luaH_new 0 0 = ROk t" "table_inv 0 t" using new_inv [of 0 0] by auto
  have k: "valid_key (VString ''x'')" by (simp add: valid_key_def live_def)
  from table_assignment [OF t(2) _ k, of "VBoolean True"] t(1) k rawequal_refl [OF k] show ?thesis by fastforce
qed

text \<open>
  C4: a table is a map. Any sequence of fewer than \<open>2 ^ 26\<close> assignments of values (nil included) to valid
  keys of a new table, of any initial sizes, succeeds, through however many rehashes, and afterwards each
  key has the value last assigned to a key equal to it, or nil.
\<close>

theorem table_is_map:
  assumes "narray \<le> 2 ^ MAXBITS" and "nhash \<le> 2 ^ MAXBITS"
    and "length kvs < 2 ^ MAXBITS" and "\<forall>kv. kv \<in> set kvs \<longrightarrow> valid_key (fst kv)"
  shows "\<exists>t. rbind (luaH_new narray nhash) (tab.puts kvs) = ROk t
     \<and> (\<forall>k. valid_key k \<longrightarrow> tget t k = tab.latest (\<lambda>_. VNil) kvs k)"
proof -
  from new_inv [OF assms(1,2)] obtain t where t: "luaH_new narray nhash = ROk t" "table_inv 0 t"
    "\<forall>k. valid_key k \<longrightarrow> tget t k = VNil" by blast
  from tab.puts_total [OF t(2), of kvs] assms(3,4) obtain t'
    where t': "tab.puts kvs t = ROk t'" "\<forall>k. valid_key k \<longrightarrow> tget t' k = tab.latest (tget t) kvs k"
    by auto
  have "tab.latest (tget t) kvs k = tab.latest (\<lambda>_. VNil) kvs k" if "valid_key k" for k
    by (rule tab.latest_cong [OF that]) (simp add: t(3))
  with t(1) t' show ?thesis by auto
qed

theorem table_is_map_witness:
  "\<exists>t. rbind (luaH_new 0 0) (tab.puts [(VString ''a'', VBoolean True), (VBoolean False, VString ''b''),
     (VString ''a'', VNil)]) = ROk t \<and> tget t (VString ''a'') = VNil \<and> tget t (VBoolean False) = VString ''b''"
proof -
  have ks: "valid_key (VString ''a'')" "valid_key (VBoolean False)" by (simp_all add: valid_key_def live_def)
  from table_is_map [of 0 0 "[(VString ''a'', VBoolean True), (VBoolean False, VString ''b''), (VString ''a'', VNil)]"]
  obtain t where t: "rbind (luaH_new 0 0) (tab.puts [(VString ''a'', VBoolean True), (VBoolean False, VString ''b''),
     (VString ''a'', VNil)]) = ROk t"
    "\<forall>k. valid_key k \<longrightarrow> tget t k = tab.latest (\<lambda>_. VNil) [(VString ''a'', VBoolean True), (VBoolean False, VString ''b''),
     (VString ''a'', VNil)] k"
    using ks by auto
  then have "tget t (VString ''a'') = VNil" "tget t (VBoolean False) = VString ''b''"
    using ks by (simp_all add: luaO_rawequalObj_def)
  with t(1) show ?thesis by blast
qed

end
