(* ===== verification/LTableIter.thy ===== *)
theory LTableIter
  imports LTableMap
begin

text \<open>
  Traversing a table (\<open>luaH_next\<close>) and finding its length (\<open>luaH_getn\<close>): a traversal visits every
  entry exactly once, and the length is a border, found by searches that end.
\<close>

section \<open>Traversal\<close>



















section \<open>Length\<close>

text \<open>A border: a position whose element is present (or 0) and whose successor is absent.\<close>

definition present :: "Table \<Rightarrow> nat \<Rightarrow> bool" where
  "present t n \<longleftrightarrow> tget t (VNumber (cast_num (int n))) \<noteq> VNil"

definition border :: "Table \<Rightarrow> nat \<Rightarrow> bool" where
  "border t n \<longleftrightarrow> (n = 0 \<or> present t n) \<and> \<not> present t (n + 1)"

lemma valid_num: "\<bar>n\<bar> < 2 ^ 53 \<Longrightarrow> valid_key (VNumber (cast_num n))"
  using cast_num_exact(2) [of n] by (simp add: valid_key_def live_def)

lemma nil_at_spec:
  assumes ok: "table_ok t" and n: "n < 2 ^ 31"
  shows "nil_at t n = Some (\<not> present t n)"
proof -
  have r: "- (2 ^ 31) \<le> int n" "int n < 2 ^ 31" using n by simp_all
  from getnum_finds [OF ok r] obtain s where s: "luaH_getnum t (int n) = Some s"
    "finds t (VNumber (cast_num (int n))) s" by blast
  have "valid_key (VNumber (cast_num (int n)))" using n by (intro valid_num) simp
  from tget_iff [OF ok this, of "slot_value t s"] finds_val_in [OF ok s(2)]
  have "tget t (VNumber (cast_num (int n))) = slot_value t s" by blast
  then show ?thesis using s(1) r by (simp add: nil_at_def present_def)
qed

lemma binary_search_step:
  assumes "i < j" "j < 2 ^ 31"
  shows "binary_search isnil i j =
    (if j - i > 1 then case isnil ((i + j) div 2) of None \<Rightarrow> None
       | Some nil \<Rightarrow> if nil then binary_search isnil i ((i + j) div 2) else binary_search isnil ((i + j) div 2) j
     else Some i)"
proof -
  have "j + 2 ^ 32 - i = (j - i) + 2 ^ 32" using assms(1) by linarith
  moreover have "j - i < 2 ^ 32" using assms(2) by simp
  ultimately have d: "u32_of (j + 2 ^ 32 - i) = j - i" unfolding u32_of_def by (metis mod_add_self2 mod_less)
  have u: "u32_of (i + j) = i + j" using assms by (simp add: u32_of_def)
  show ?thesis by (subst binary_search.simps) (simp only: d u Let_def)
qed

lemma binary_search_border:
  assumes "i < j" "j < 2 ^ 31" "\<forall>m. i < m \<longrightarrow> m < j \<longrightarrow> isnil m = Some (\<not> P m)" "i = 0 \<or> P i" "\<not> P j"
  shows "\<exists>n. binary_search isnil i j = Some n \<and> (n = 0 \<or> P n) \<and> \<not> P (n + 1)"
  using assms
proof (induction "j - i" arbitrary: i j rule: less_induct)
  case less
  note step = binary_search_step [OF less.prems(1,2), of isnil]
  show ?case
  proof (cases "j - i > 1")
    case False
    then have "j = i + 1" using less.prems(1) by simp
    with less.prems(4,5) step show ?thesis by auto
  next
    case True
    let ?m = "(i + j) div 2"
    have m: "i < ?m" "?m < j" using True by simp_all
    with less.prems(3) have "isnil ?m = Some (\<not> P ?m)" by blast
    with True step have step': "binary_search isnil i j = (if P ?m then binary_search isnil ?m j else binary_search isnil i ?m)"
      by simp
    have lt: "j - ?m < j - i" "?m - i < j - i" "?m < 2 ^ 31" using m less.prems(2) by linarith+
    have "\<exists>n. binary_search isnil ?m j = Some n \<and> (n = 0 \<or> P n) \<and> \<not> P (n + 1)" if "P ?m"
      by (rule less.hyps [OF lt(1) m(2) less.prems(2) _ _ less.prems(5)])
        (use that less.prems(3) m in \<open>blast intro: less_trans\<close>)+
    moreover have "\<exists>n. binary_search isnil i ?m = Some n \<and> (n = 0 \<or> P n) \<and> \<not> P (n + 1)" if "\<not> P ?m"
      by (rule less.hyps [OF lt(2) m(1) lt(3) _ less.prems(4) that])
        (use less.prems(3) m in \<open>blast intro: less_trans\<close>)
    ultimately show ?thesis unfolding step' by (cases "P ?m") simp_all
  qed
qed

lemma linear_search_border:
  assumes "table_ok t" "0 < i" "i \<le> k" "k < 2 ^ 31" "\<forall>m. i \<le> m \<longrightarrow> m < k \<longrightarrow> present t m" "\<not> present t k"
  shows "linear_search t i = Some (k - 1)"
  using assms(2-)
proof (induction "k - i" arbitrary: i)
  case 0
  then have "i = k" by simp
  moreover have "u32_of (k + 2 ^ 32 - 1) = k - 1"
  proof -
    have "k + 2 ^ 32 - 1 = (k - 1) + 2 ^ 32" using 0(2,3) by linarith
    moreover have "k - 1 < 2 ^ 32" using 0(4) by simp
    ultimately show ?thesis unfolding u32_of_def by (metis mod_add_self2 mod_less)
  qed
  ultimately show ?case using 0 nil_at_spec [OF assms(1)] by (subst linear_search.simps) simp
next
  case (Suc d)
  then have "i < k" by simp
  with Suc.prems have "present t i" "i < 2 ^ 31" "u32_of (i + 1) = i + 1" by (auto simp: u32_of_def)
  with nil_at_spec [OF assms(1), of i] have "linear_search t i = linear_search t (i + 1)"
    by (subst linear_search.simps) simp
  also have "\<dots> = Some (k - 1)" using Suc \<open>i < k\<close> by simp
  finally show ?case .
qed

text \<open>A table of fewer than \<open>2 ^ 26\<close> entries has an absent index among the first \<open>2 ^ 26\<close>.\<close>

lemma absent_index:
  assumes "table_inv n t" "n < 2 ^ MAXBITS"
  shows "\<exists>k. 0 < k \<and> k \<le> 2 ^ MAXBITS \<and> \<not> present t k"
proof (rule ccontr)
  assume "\<not> ?thesis"
  then have all: "tget t (num_key i) \<noteq> VNil" if "i < 2 ^ MAXBITS" for i
    using that by (auto simp: present_def add.commute dest: spec [of _ "Suc i"])
  have ok: "table_ok t" using assms(1) by (simp add: table_inv_def)
  have "\<exists>e \<in> contents t. luaO_rawequalObj (fst e) (num_key i)" if "i < 2 ^ MAXBITS" for i
  proof -
    have "valid_key (num_key i)" using that by (intro valid_num) simp
    from tget_iff [OF ok this, of "tget t (num_key i)"] all [OF that]
    obtain k v where "(k, v) \<in> contents t" "luaO_rawequalObj k (num_key i)" by (auto simp: val_in_def)
    then show ?thesis by (intro bexI [of _ "(k, v)"]) simp_all
  qed
  then obtain f where f: "f i \<in> contents t \<and> luaO_rawequalObj (fst (f i)) (num_key i)" if "i < 2 ^ MAXBITS" for i
    by metis
  have "inj_on f {..<2 ^ MAXBITS}"
  proof (rule inj_onI)
    fix i j
    assume ij: "i \<in> {..<2 ^ MAXBITS}" "j \<in> {..<2 ^ MAXBITS}" "f i = f j"
    then have "luaO_rawequalObj (num_key i) (num_key j)"
      using f [of i] f [of j] by (metis lessThan_iff rawequal_sym rawequal_trans)
    then show "i = j" using ij num_key_rawequal [of i j] by simp
  qed
  moreover have "f ` {..<2 ^ MAXBITS} \<subseteq> contents t" using f by auto
  ultimately have "card {..<(2::nat) ^ MAXBITS} \<le> card (contents t)" using finite_contents by (intro card_inj_on_le) auto
  then show False using assms by (simp add: table_inv_def)
qed

lemma unbound_loop_border:
  assumes "table_inv n t" "n < 2 ^ MAXBITS" "i < j" "j \<le> MAX_INT" "i = 0 \<or> present t i"
  shows "\<exists>n. unbound_loop t i j = Some n \<and> border t n"
  using assms(3-)
proof (induction "2 ^ 31 - j" arbitrary: i j rule: less_induct)
  case less
  have ok: "table_ok t" using assms(1) by (simp add: table_inv_def)
  have j: "j < 2 ^ 31" "u32_of (j * 2) = j * 2" using less.prems(2) by (simp_all add: u32_of_def)
  consider (nil) "\<not> present t j" | (lin) "present t j" "j * 2 > MAX_INT" | (dbl) "present t j" "j * 2 \<le> MAX_INT" by linarith
  then show ?case
  proof cases
    case nil
    from binary_search_border [of i j "nil_at t" "present t"] nil less.prems j nil_at_spec [OF ok]
    have "\<exists>n. binary_search (nil_at t) i j = Some n \<and> (n = 0 \<or> present t n) \<and> \<not> present t (n + 1)" by auto
    with nil j show ?thesis by (subst unbound_loop.simps) (simp add: nil_at_spec [OF ok] border_def)
  next
    case lin
    define k where "k = (LEAST k. 0 < k \<and> \<not> present t k)"
    from absent_index [OF assms(1,2)] obtain k0 where k0: "0 < k0 \<and> \<not> present t k0" "k0 \<le> 2 ^ MAXBITS" by blast
    have k: "0 < k \<and> \<not> present t k" "k \<le> k0"
      unfolding k_def using LeastI [of "\<lambda>k. 0 < k \<and> \<not> present t k", OF k0(1)] Least_le [of "\<lambda>k. 0 < k \<and> \<not> present t k", OF k0(1)] by blast+
    have below: "present t m" if "0 < m" "m < k" for m
      using not_less_Least [of m "\<lambda>k. 0 < k \<and> \<not> present t k"] that by (auto simp: k_def)
    have "linear_search t 1 = Some (k - 1)"
      using below k k0(2) by (intro linear_search_border [OF ok]) auto
    moreover have "border t (k - 1)" using k(1) below [of "k - 1"] by (cases "k = 1") (simp_all add: border_def)
    ultimately show ?thesis using lin j by (subst unbound_loop.simps) (simp add: nil_at_spec [OF ok])
  next
    case dbl
    have "\<exists>n. unbound_loop t j (j * 2) = Some n \<and> border t n"
      using dbl less.prems j by (intro less.hyps) auto
    with dbl j show ?thesis by (subst unbound_loop.simps) (simp add: nil_at_spec [OF ok])
  qed
qed

lemma present_num: "present t (i + 1) \<longleftrightarrow> tget t (num_key i) \<noteq> VNil"
  unfolding present_def by (simp only: of_nat_add of_nat_1)

lemma present_array:
  assumes ok: "table_ok t" and i: "i < length (array t)"
  shows "present t (i + 1) \<longleftrightarrow> array t ! i \<noteq> VNil"
proof -
  have r: "- (2 ^ 31) \<le> int i + 1" "int i + 1 < 2 ^ 31" using i table_okD(3) [OF ok] by simp_all
  have "valid_key (num_key i)" using r by (intro valid_num) simp
  moreover have "finds t (num_key i) (ArraySlot i)"
    using i arrayindex_cast [OF r] by (simp add: finds_def in_array_def)
  ultimately have "tget t (num_key i) = slot_value t (ArraySlot i)"
    using finds_val_in [OF ok] tget_iff [OF ok] by blast
  then show ?thesis unfolding present_num by simp
qed

text \<open>
  C21: length. On every well-formed table of fewer than \<open>2 ^ 26\<close> entries \<open>luaH_getn\<close> ends and returns a
  border: the element at that index is present (or the index is 0) and the next one is absent.
\<close>

theorem getn_border:
  assumes "table_inv n t" and "n < 2 ^ MAXBITS"
  shows "\<exists>k. luaH_getn t = Some k \<and> border t k"
proof -
  let ?j = "length (array t)"
  have ok: "table_ok t" and len: "?j \<le> 2 ^ MAXBITS" using assms(1) by (simp_all add: table_inv_def)
  have last: "present t ?j \<longleftrightarrow> \<not> ttisnil (array t ! (?j - 1))" if "?j > 0"
    using present_array [OF ok, of "?j - 1"] that by simp
  consider (bin) "?j > 0" "ttisnil (array t ! (?j - 1))" | (dum) "?j = 0 \<or> present t ?j" "is_dummy t"
    | (unb) "?j = 0 \<or> present t ?j" "\<not> is_dummy t" using last by blast
  then show ?thesis
  proof cases
    case bin
    have "\<exists>k. binary_search (\<lambda>m. Some (ttisnil (array t ! (m - 1)))) 0 ?j = Some k \<and> (k = 0 \<or> present t k) \<and> \<not> present t (k + 1)"
    proof (rule binary_search_border)
      show "\<forall>m. 0 < m \<longrightarrow> m < ?j \<longrightarrow> Some (ttisnil (array t ! (m - 1))) = Some (\<not> present t m)"
      proof (intro allI impI)
        fix m
        assume "0 < m" "m < ?j"
        then show "Some (ttisnil (array t ! (m - 1))) = Some (\<not> present t m)"
          using present_array [OF ok, of "m - 1"] by simp
      qed
      show "?j < 2 ^ 31" using len by simp
    qed (use bin last in simp_all)
    with bin show ?thesis by (simp add: luaH_getn_def border_def)
  next
    case dum
    have "node t = [dummynode]" using ok dum(2) by (simp add: table_ok_def)
    then have "contents t = array_entries (array t)" using entries_empty [of 1] by (simp add: contents_def)
    moreover have "\<not> in_array t (num_key ?j)" using len by (simp add: in_array_def arrayindex_cast)
    ultimately have "val_in (contents t) (num_key ?j) VNil"
      using array_entry_in [OF table_okD(3) [OF ok]] in_array_rawequal unfolding val_in_def by metis
    moreover have "valid_key (num_key ?j)" using len by (intro valid_num) simp
    ultimately have "\<not> present t (?j + 1)" unfolding present_num using tget_iff [OF ok] by simp
    then have "border t ?j" using dum(1) unfolding border_def by blast
    moreover have "luaH_getn t = Some ?j" using dum last by (auto simp: luaH_getn_def Let_def)
    ultimately show ?thesis by blast
  next
    case unb
    have "\<exists>k. unbound_loop t ?j (?j + 1) = Some k \<and> border t k"
      using unb len by (intro unbound_loop_border [OF assms]) auto
    moreover have "u32_of (?j + 1) = ?j + 1" using len by (simp add: u32_of_def)
    ultimately show ?thesis using unb last by (auto simp: luaH_getn_def unbound_search_def Let_def)
  qed
qed

theorem getn_border_witness:
  "\<exists>t k. luaH_new 3 0 = ROk t \<and> luaH_getn t = Some k \<and> border t k"
proof -
  obtain t where t: "luaH_new 3 0 = ROk t" "table_inv 0 t" using new_inv [of 3 0] by auto
  from getn_border [OF t(2)] t(1) show ?thesis by auto
qed

end
