(* ===== verification/Terminal.thy ===== *)
theory Terminal
  imports LObject
begin

text \<open>
  The terminal (\<open>src/term.cpp\<close>): a grid of characters and colours, a cursor, a palette, and the
  four bit planes of the VGA frame that show them. Each function takes the values its calls of
  \<open>lua_tointeger\<close>, \<open>lua_tolstring\<close> (the empty string for a NULL result) and so on give it, and the
  state; what it pushes is returned. Accesses to the video hardware are recorded as actions in \<open>io\<close>,
  bytes read from a port are arguments. An access outside an array is \<open>RUndef\<close>. The glyph table of
  \<open>src/font.h\<close> is the argument \<open>font\<close>: the theorems hold for every table of its size.
\<close>

section \<open>State\<close>

abbreviation (input) TERM_HEIGHT :: int where "TERM_HEIGHT \<equiv> 26"
abbreviation (input) TERM_WIDTH :: int where "TERM_WIDTH \<equiv> 53"

datatype io_action =
    Outb int byte
  | Inb int
  | VideoCopy int "byte list"
  | VideoFill int byte nat
  | VideoAnd int byte
  | VideoStore int byte

record terminal =
  characters :: "byte list"
  colors :: "byte list"
  current_colors :: byte
  cursorX :: int
  cursorY :: int
  cursorBlink :: bool
  cursorShow :: bool
  palette :: "u32 list"
  pixel_buffer :: "byte list list"
  io :: "io_action list"

definition term_globals :: "terminal" where
  "term_globals = \<lparr>characters = replicate 1378 0, colors = replicate 1378 0, current_colors = 0xF0,
     cursorX = 0, cursorY = 0, cursorBlink = True, cursorShow = True,
     palette = [0xf0f0f0, 0xf2b233, 0xe57fd8, 0x99b2f2, 0xdede6c, 0x7fcc19, 0xf2b2cc, 0x4c4c4c,
       0x999999, 0x4c99b2, 0xb266e5, 0x3366cc, 0x7f664c, 0x57a64e, 0xcc4c4c, 0x111111],
     pixel_buffer = replicate 4 (replicate 38400 0), io = []\<rparr>"

definition act :: "io_action list \<Rightarrow> terminal \<Rightarrow> terminal" where
  "act as t = t\<lparr>io := io t @ as\<rparr>"

section \<open>Drawing\<close>

text \<open>The bitmap of a region: each glyph pixel is written as a two by two block.\<close>

definition glyph_writes :: "int \<Rightarrow> int \<Rightarrow> int \<Rightarrow> int \<Rightarrow> byte \<Rightarrow> (int \<times> byte) list" where
  "glyph_writes len x py px val =
     [(py * len * 24 + x * 12 + px * 2, val),
      (py * len * 24 + x * 12 + px * 2 + 1, val),
      (py * len * 24 + len * 12 + x * 12 + px * 2, val),
      (py * len * 24 + len * 12 + x * 12 + px * 2 + 1, val)]"

primrec arr_writes :: "(int \<times> 'a) list \<Rightarrow> 'a list \<Rightarrow> 'a list res" where
  "arr_writes [] xs = ROk xs"
| "arr_writes (w # ws) xs = rbind (arr_set xs (fst w) (snd w)) (arr_writes ws)"

definition draw_pixel :: "byte list \<Rightarrow> byte \<Rightarrow> byte \<Rightarrow> int \<Rightarrow> int \<Rightarrow> int \<Rightarrow> int \<Rightarrow> byte list \<Rightarrow> byte list res" where
  "draw_pixel font ch col len x py px bitmap =
     rbind (arr_get font (uint (drop_bit 4 ch) * 864 + py * 96 + uint (ch AND 0x0f) * 6 + px)) (\<lambda>p.
       let val = (if p \<noteq> 0 then col AND 0x0f else drop_bit 4 col)
       in arr_writes (glyph_writes len x py px val) bitmap)"

primrec rfold :: "('a \<Rightarrow> 's \<Rightarrow> 's res) \<Rightarrow> 'a list \<Rightarrow> 's \<Rightarrow> 's res" where
  "rfold f [] s = ROk s"
| "rfold f (x # xs) s = rbind (f x s) (rfold f xs)"

definition draw_char :: "byte list \<Rightarrow> terminal \<Rightarrow> int \<Rightarrow> int \<Rightarrow> int \<Rightarrow> int \<Rightarrow> byte list \<Rightarrow> byte list res" where
  "draw_char font t y start_x len x bitmap =
     rbind (arr_get (characters t) (y * TERM_WIDTH + x + start_x)) (\<lambda>ch.
     rbind (arr_get (colors t) (y * TERM_WIDTH + x + start_x)) (\<lambda>col.
       rfold (\<lambda>py. rfold (\<lambda>px. draw_pixel font ch col len x py px) [0..5]) [0..8] bitmap))"

definition draw_bitmap :: "byte list \<Rightarrow> terminal \<Rightarrow> int \<Rightarrow> int \<Rightarrow> int \<Rightarrow> byte list res" where
  "draw_bitmap font t y start_x len =
     rfold (draw_char font t y start_x len) [0..len - 1] (replicate (nat (len * 12 * 18)) 0)"

definition arr_slice :: "'a list \<Rightarrow> int \<Rightarrow> int \<Rightarrow> 'a list res" where
  "arr_slice xs off n =
     (if 0 \<le> off \<and> off + n \<le> int (length xs) then ROk (take (nat n) (drop (nat off) xs)) else RUndef)"

text \<open>One row of one plane: pixels are collected in \<open>b\<close> from the bit \<open>boff\<close> down and stored when the
  byte is full.\<close>

primrec row_loop :: "nat \<Rightarrow> byte list \<Rightarrow> byte \<times> int \<times> int \<times> byte list \<Rightarrow> (byte \<times> int \<times> int \<times> byte list) res" where
  "row_loop i [] st = ROk st"
| "row_loop i (v # vs) st =
     (case st of (b, boff, xoff, buf) \<Rightarrow>
        let b1 = b OR push_bit (nat boff) (drop_bit i v AND 1) in
        if boff - 1 < 0 then rbind (arr_set buf xoff b1) (\<lambda>buf1. row_loop i vs (0, 7, xoff + 1, buf1))
        else row_loop i vs (b1, boff - 1, xoff, buf))"

definition blit_row :: "byte list \<Rightarrow> int \<Rightarrow> int \<Rightarrow> int \<Rightarrow> nat \<Rightarrow> int \<Rightarrow> byte list \<Rightarrow> byte list res" where
  "blit_row bitmap y start_x len i py buf =
     (let boff = 7 - (start_x mod 2) * 4; xoff = y * 1440 + py * 80 + (start_x * 3) div 2 in
      rbind (if boff \<noteq> 7 then rbind (arr_get buf xoff) (\<lambda>old. ROk (old AND 0xF0)) else ROk 0) (\<lambda>b.
      rbind (arr_slice bitmap (py * len * 12) (len * 12)) (\<lambda>vs.
      rbind (row_loop i vs (b, boff, xoff, buf))
        (\<lambda>(b, boff, xoff, buf).
           if boff \<noteq> 7 then rbind (arr_get buf xoff) (\<lambda>old. arr_set buf xoff (b OR (old AND (push_bit (nat (8 - boff)) 1 - 1))))
           else ROk buf))))"

definition blit_plane :: "byte list \<Rightarrow> int \<Rightarrow> int \<Rightarrow> int \<Rightarrow> nat \<Rightarrow> terminal \<Rightarrow> terminal res" where
  "blit_plane bitmap y start_x len i t =
     rbind (rfold (blit_row bitmap y start_x len i) [0..17] (pixel_buffer t ! i)) (\<lambda>buf.
     rbind (arr_slice buf (y * 1440) 1440) (\<lambda>line.
       ROk (act [Outb 0x3C4 2, Outb 0x3C5 (push_bit i 1), VideoCopy (0xA0000 + y * 1440) line]
            (t\<lparr>pixel_buffer := (pixel_buffer t)[i := buf]\<rparr>))))"

definition blit_line :: "byte list \<Rightarrow> int \<Rightarrow> int \<Rightarrow> int \<Rightarrow> terminal \<Rightarrow> terminal res" where
  "blit_line font y start_x end_x t =
     (let len = end_x - start_x + 1 in
      rbind (draw_bitmap font t y start_x len) (\<lambda>bitmap. rfold (blit_plane bitmap y start_x len) [0..<4] t))"

definition blit_screen :: "byte list \<Rightarrow> terminal \<Rightarrow> terminal res" where
  "blit_screen font = rfold (\<lambda>i. blit_line font i 0 (TERM_WIDTH - 1)) [0..TERM_HEIGHT - 1]"

definition cursor_visible :: "terminal \<Rightarrow> bool" where
  "cursor_visible t \<longleftrightarrow> 0 \<le> cursorX t \<and> cursorX t < TERM_WIDTH \<and> 0 \<le> cursorY t \<and> cursorY t < TERM_HEIGHT"

definition cursor_marks :: "terminal \<Rightarrow> nat \<Rightarrow> io_action list" where
  "cursor_marks t i =
     (let at = 0xA0000 + cursorY t * 1440 + (cursorX t * 3) div 2 in
      [Outb 0x3C4 2, Outb 0x3C5 (push_bit i 1)] @
      (if cursorX t mod 2 \<noteq> 0 then
         [VideoAnd (at + 1280) 0xF0, VideoStore (at + 1281) 0, VideoAnd (at + 1360) 0xF0, VideoStore (at + 1361) 0]
       else
         [VideoStore (at + 1280) 0, VideoAnd (at + 1281) 0x0F, VideoStore (at + 1360) 0, VideoAnd (at + 1361) 0x0F]))"

definition redrawCursor :: "byte list \<Rightarrow> terminal \<Rightarrow> terminal res" where
  "redrawCursor font t =
     (if cursorX t < 0 \<or> TERM_WIDTH \<le> cursorX t \<or> cursorY t < 0 \<or> TERM_HEIGHT \<le> cursorY t then ROk t
      else rbind (blit_line font (cursorY t) (cursorX t) (cursorX t) t) (\<lambda>t1.
        ROk (if cursorShow t1 then act (concat (map (cursor_marks t1) [0..<4])) t1 else t1)))"

section \<open>The library functions\<close>

text \<open>\<open>memset\<close> and \<open>memmove\<close> inside an array.\<close>

definition arr_fill :: "'a list \<Rightarrow> int \<Rightarrow> int \<Rightarrow> 'a \<Rightarrow> 'a list res" where
  "arr_fill xs off n v =
     (if 0 \<le> off \<and> 0 \<le> n \<and> off + n \<le> int (length xs)
      then ROk (take (nat off) xs @ replicate (nat n) v @ drop (nat (off + n)) xs) else RUndef)"

definition arr_move :: "'a list \<Rightarrow> int \<Rightarrow> int \<Rightarrow> int \<Rightarrow> 'a list res" where
  "arr_move xs dst src n =
     (if 0 \<le> dst \<and> 0 \<le> src \<and> 0 \<le> n \<and> dst + n \<le> int (length xs) \<and> src + n \<le> int (length xs)
      then ROk (take (nat dst) xs @ take (nat n) (drop (nat src) xs) @ drop (nat (dst + n)) xs) else RUndef)"

text \<open>The pixel planes start all ones; \<open>ac i\<close> is the byte read from the attribute controller.\<close>

definition palette_init :: "(nat \<Rightarrow> byte) \<Rightarrow> terminal \<Rightarrow> nat \<Rightarrow> io_action list" where
  "palette_init ac t i =
     [Inb 0x3DA, Outb 0x3C0 (of_nat i), Inb 0x3C1, Outb 0x3C8 (ac i),
      Outb 0x3C9 (ucast (drop_bit 18 (palette t ! i) AND 0x3F)),
      Outb 0x3C9 (ucast (drop_bit 10 (palette t ! i) AND 0x3F)),
      Outb 0x3C9 (ucast (drop_bit 2 (palette t ! i) AND 0x3F))]"

definition plane_init :: "nat \<Rightarrow> io_action list" where
  "plane_init i = [Outb 0x3C4 2, Outb 0x3C5 (push_bit i 1), Outb 0x3CE 4, Outb 0x3CF (of_nat i), VideoFill 0xA0000 0xFF 38400]"

definition termInit :: "byte list \<Rightarrow> (nat \<Rightarrow> byte) \<Rightarrow> terminal \<Rightarrow> terminal res" where
  "termInit font ac t =
     (let t1 = act (concat (map (palette_init ac t) [0..<16]) @ concat (map plane_init [0..<4]) @
                    [Outb 0x3CE 0, Outb 0x3CF 0, Outb 0x3CE 1, Outb 0x3CF 0, Outb 0x3CE 3, Outb 0x3CF 0,
                     Outb 0x3CE 5, Outb 0x3CF 0, Outb 0x3CE 8, Outb 0x3CF 0xFF])
                 (t\<lparr>pixel_buffer := replicate 4 (replicate 38400 0xFF)\<rparr>)
      in rbind (arr_fill (characters t1) 0 (TERM_WIDTH * TERM_HEIGHT) 32) (\<lambda>chs.
         rbind (arr_fill (colors t1) 0 (TERM_WIDTH * TERM_HEIGHT) 0xF0) (\<lambda>cols.
         rbind (blit_screen font (t1\<lparr>characters := chs, colors := cols\<rparr>)) (\<lambda>t2.
         rbind (redrawCursor font t2) (\<lambda>t3. ROk (act [Inb 0x3DA, Outb 0x3C0 0x20] t3))))))"

text \<open>The loops of \<open>term_write\<close> and \<open>term_blit\<close>; each element is a character and its colours.\<close>

primrec write_cells :: "int \<Rightarrow> (byte \<times> byte) list \<Rightarrow> int \<Rightarrow> terminal \<Rightarrow> terminal res" where
  "write_cells y [] x t = ROk t"
| "write_cells y (c # cs) x t =
     (if x < TERM_WIDTH then
        if x < 0 then write_cells y cs (x + 1) t
        else rbind (arr_set (characters t) (y * TERM_WIDTH + x) (fst c)) (\<lambda>chs.
             rbind (arr_set (colors t) (y * TERM_WIDTH + x) (snd c)) (\<lambda>cols.
               write_cells y cs (x + 1) (t\<lparr>characters := chs, colors := cols\<rparr>)))
      else ROk t)"

text \<open>\<open>cursorX + len\<close> is computed in \<open>size_t\<close>: a negative cursor column wraps.\<close>

definition after_write :: "byte list \<Rightarrow> nat \<Rightarrow> terminal \<Rightarrow> terminal res" where
  "after_write font len t =
     (let e = (cursorX t + int len) mod 2 ^ 64 in
      rbind (if e > 0 then
               blit_line font (cursorY t) (if cursorX t > 0 then cursorX t else 0)
                 (if e \<ge> TERM_WIDTH then TERM_WIDTH - 1 else wrap32 (e - 1)) t
             else ROk t) (\<lambda>t1.
      rbind (if cursor_visible t1 then blit_line font (cursorY t1) (cursorX t1) (cursorX t1) t1 else ROk t1) (\<lambda>t2.
        redrawCursor font (t2\<lparr>cursorX := wrap32 (cursorX t2 + int len)\<rparr>))))"

definition term_write :: "byte list \<Rightarrow> byte list \<Rightarrow> terminal \<Rightarrow> terminal res" where
  "term_write font str t =
     (if cursorY t < 0 \<or> TERM_HEIGHT \<le> cursorY t \<or> TERM_WIDTH \<le> cursorX t then ROk t
      else rbind (write_cells (cursorY t) (map (\<lambda>c. (c, current_colors t)) str) (cursorX t) t)
             (after_write font (length str)))"

text \<open>\<open>-scroll\<close> overflows for the least \<open>int\<close>.\<close>

definition term_scroll :: "byte list \<Rightarrow> int \<Rightarrow> terminal \<Rightarrow> terminal res" where
  "term_scroll font arg t =
     (let scroll = wrap32 arg in
      rbind
        (if scroll = - (2 ^ 31) then RUndef
         else if scroll \<ge> TERM_HEIGHT \<or> - scroll \<ge> TERM_HEIGHT then
           rbind (arr_fill (characters t) 0 (TERM_WIDTH * TERM_HEIGHT) 32) (\<lambda>chs.
           rbind (arr_fill (colors t) 0 (TERM_WIDTH * TERM_HEIGHT) (current_colors t)) (\<lambda>cols.
             ROk (t\<lparr>characters := chs, colors := cols\<rparr>)))
         else if scroll > 0 then
           rbind (arr_move (characters t) 0 (scroll * TERM_WIDTH) ((TERM_HEIGHT - scroll) * TERM_WIDTH)) (\<lambda>c1.
           rbind (arr_fill c1 ((TERM_HEIGHT - scroll) * TERM_WIDTH) (scroll * TERM_WIDTH) 32) (\<lambda>chs.
           rbind (arr_move (colors t) 0 (scroll * TERM_WIDTH) ((TERM_HEIGHT - scroll) * TERM_WIDTH)) (\<lambda>c2.
           rbind (arr_fill c2 ((TERM_HEIGHT - scroll) * TERM_WIDTH) (scroll * TERM_WIDTH) (current_colors t)) (\<lambda>cols.
             ROk (t\<lparr>characters := chs, colors := cols\<rparr>)))))
         else if scroll < 0 then
           rbind (arr_move (characters t) (- scroll * TERM_WIDTH) 0 ((TERM_HEIGHT + scroll) * TERM_WIDTH)) (\<lambda>c1.
           rbind (arr_fill c1 0 (- scroll * TERM_WIDTH) 32) (\<lambda>chs.
           rbind (arr_move (colors t) (- scroll * TERM_WIDTH) 0 ((TERM_HEIGHT + scroll) * TERM_WIDTH)) (\<lambda>c2.
           rbind (arr_fill c2 0 (- scroll * TERM_WIDTH) (current_colors t)) (\<lambda>cols.
             ROk (t\<lparr>characters := chs, colors := cols\<rparr>)))))
         else ROk t)
        (blit_screen font))"

definition term_setCursorPos :: "byte list \<Rightarrow> int \<Rightarrow> int \<Rightarrow> terminal \<Rightarrow> terminal res" where
  "term_setCursorPos font x y t =
     rbind (if cursor_visible t then blit_line font (cursorY t) (cursorX t) (cursorX t) t else ROk t) (\<lambda>t1.
       redrawCursor font (t1\<lparr>cursorX := wrap32 (x - 1), cursorY := wrap32 (y - 1)\<rparr>))"

definition term_setCursorBlink :: "byte list \<Rightarrow> bool \<Rightarrow> terminal \<Rightarrow> terminal res" where
  "term_setCursorBlink font b t = redrawCursor font (t\<lparr>cursorShow := b, cursorBlink := b\<rparr>)"

definition term_getCursorPos :: "terminal \<Rightarrow> int \<times> int" where
  "term_getCursorPos t = (wrap32 (cursorX t + 1), wrap32 (cursorY t + 1))"

definition term_getSize :: "int \<times> int" where
  "term_getSize = (TERM_WIDTH, TERM_HEIGHT)"

definition term_clear :: "byte list \<Rightarrow> terminal \<Rightarrow> terminal res" where
  "term_clear font t =
     rbind (arr_fill (characters t) 0 (TERM_WIDTH * TERM_HEIGHT) 32) (\<lambda>chs.
     rbind (arr_fill (colors t) 0 (TERM_WIDTH * TERM_HEIGHT) (current_colors t)) (\<lambda>cols.
       blit_screen font (t\<lparr>characters := chs, colors := cols\<rparr>)))"

definition term_clearLine :: "byte list \<Rightarrow> terminal \<Rightarrow> terminal res" where
  "term_clearLine font t =
     (if cursorY t < 0 \<or> TERM_HEIGHT \<le> cursorY t then ROk t
      else rbind (arr_fill (characters t) (cursorY t * TERM_WIDTH) TERM_WIDTH 32) (\<lambda>chs.
           rbind (arr_fill (colors t) (cursorY t * TERM_WIDTH) TERM_WIDTH (current_colors t)) (\<lambda>cols.
             blit_line font (cursorY t) 0 (TERM_WIDTH - 1) (t\<lparr>characters := chs, colors := cols\<rparr>))))"

text \<open>\<open>(int)log2(n)\<close>: the logarithm of 0 or of a negative number does not fit an \<open>int\<close>, and the
  conversion yields the least one. For the positive numbers used as colours (below \<open>2 ^ 47\<close>) rounding
  does not carry the logarithm to the next integer.\<close>

definition int_log2 :: "int \<Rightarrow> int" where
  "int_log2 n = (if n \<le> 0 then - (2 ^ 31) else int (bitlen (nat n)) - 1)"

definition term_setTextColor :: "int \<Rightarrow> terminal \<Rightarrow> terminal" where
  "term_setTextColor n t =
     t\<lparr>current_colors := (current_colors t AND 0xF0) OR word_of_int (int_log2 n AND 0x0F)\<rparr>"

definition term_setBackgroundColor :: "int \<Rightarrow> terminal \<Rightarrow> terminal" where
  "term_setBackgroundColor n t =
     t\<lparr>current_colors := (current_colors t AND 0x0F) OR word_of_int (push_bit 4 (int_log2 n) AND 0xF0)\<rparr>"

definition term_isColor :: bool where
  "term_isColor = True"

definition term_getTextColor :: "terminal \<Rightarrow> int" where
  "term_getTextColor t = 2 ^ unat (current_colors t AND 0x0F)"

definition term_getBackgroundColor :: "terminal \<Rightarrow> int" where
  "term_getBackgroundColor t = 2 ^ unat (drop_bit 4 (current_colors t))"

definition hexch :: "byte \<Rightarrow> int" where
  "hexch c = (if 0x30 \<le> c \<and> c \<le> 0x39 then uint c - 0x30
     else if 0x61 \<le> c \<and> c \<le> 0x66 then uint c - 0x61 + 10 else -1)"

definition term_blit :: "byte list \<Rightarrow> byte list \<Rightarrow> byte list \<Rightarrow> byte list \<Rightarrow> terminal \<Rightarrow> terminal res" where
  "term_blit font str fg bg t =
     (if length str \<noteq> length fg \<or> length fg \<noteq> length bg
      then RErr (LUA_ERRRUN ''arguments must be the same length'')
      else rbind (write_cells (cursorY t)
                    (zip str (map (\<lambda>(f, b). word_of_int (hexch f OR push_bit 4 (hexch b))) (zip fg bg))) (cursorX t) t)
             (after_write font (length str)))"

definition term_getPaletteColor :: "int \<Rightarrow> terminal \<Rightarrow> (lua_Number \<times> lua_Number \<times> lua_Number) res" where
  "term_getPaletteColor n t =
     rbind (arr_get (palette t) (int_log2 n)) (\<lambda>c.
       ROk (luai_numdiv (cast_num (uint (c AND 0xFF))) (cast_num 255),
            luai_numdiv (cast_num (uint (drop_bit 8 c AND 0xFF))) (cast_num 255),
            luai_numdiv (cast_num (uint (drop_bit 24 c AND 0xFF))) (cast_num 255)))"

definition term_setPaletteColor :: "byte \<Rightarrow> int \<Rightarrow> lua_Number \<Rightarrow> lua_Number \<Rightarrow> lua_Number \<Rightarrow> terminal \<Rightarrow> terminal res" where
  "term_setPaletteColor ac n rn gn bn t =
     (let color = int_log2 n;
          r = lua_number2int (luai_nummul rn (cast_num 63));
          g = lua_number2int (luai_nummul gn (cast_num 63));
          b = lua_number2int (luai_nummul bn (cast_num 63));
          t1 = act [Inb 0x3DA, Outb 0x3C0 (word_of_int color), Inb 0x3C1, Outb 0x3C8 ac, Outb 0x3C9 (word_of_int r),
                    Outb 0x3C9 (word_of_int g), Outb 0x3C9 (word_of_int b), Inb 0x3DA, Outb 0x3C0 0x20] t
      in rbind (arr_set (palette t1) color
                  (word_of_int (wrap32 (push_bit 2 b) OR wrap32 (push_bit 10 g) OR wrap32 (push_bit 18 r))))
           (\<lambda>p. ROk (t1\<lparr>palette := p\<rparr>)))"

end
