(* ===== verification/TerminalDraw.thy ===== *)
theory TerminalDraw
  imports Terminal
begin

text \<open>
  What \<open>blit_line\<close> draws. The bit planes are read as a picture of 640 by 480 pixels; a call repaints
  the pixels of the cells it is given with the pixels of their glyphs, and no other.
\<close>

section \<open>Loops over arrays\<close>

text \<open>\<open>paints V W xs ys\<close>: \<open>ys\<close> is \<open>xs\<close> with the values \<open>V\<close> at the indices \<open>W\<close>.\<close>

definition paints :: "(nat \<Rightarrow> 'a) \<Rightarrow> nat set \<Rightarrow> 'a list \<Rightarrow> 'a list \<Rightarrow> bool" where
  "paints V W xs ys \<longleftrightarrow> length ys = length xs
     \<and> (\<forall>k < length xs. ys ! k = (if k \<in> W then V k else xs ! k))"

lemma paints_refl: "paints V {} xs xs"
  by (simp add: paints_def)

lemma paints_trans:
  assumes "paints V W xs ys" "paints V U ys zs"
  shows "paints V (W \<union> U) xs zs"
  using assms by (auto simp: paints_def)

lemma rfold_paints:
  assumes "\<And>x s. x \<in> set xs \<Longrightarrow> length s = n \<Longrightarrow> \<exists>s'. f x s = ROk s' \<and> paints V (W x) s s'" "length s = n"
  shows "\<exists>s'. rfold f xs s = ROk s' \<and> paints V (\<Union>x \<in> set xs. W x) s s'"
  using assms
proof (induction xs arbitrary: s)
  case Nil
  then show ?case by (simp add: paints_refl)
next
  case (Cons x xs)
  obtain s1 where s1: "f x s = ROk s1" "paints V (W x) s s1" using Cons.prems by fastforce
  then have "length s1 = n" using Cons.prems(2) by (simp add: paints_def)
  with Cons.IH [of s1] Cons.prems(1) obtain s2
    where s2: "rfold f xs s1 = ROk s2" "paints V (\<Union>x \<in> set xs. W x) s1 s2" by auto
  with paints_trans [OF s1(2) s2(2)] s1(1) show ?case by simp
qed

lemma rfold_append: "rfold f (xs @ ys) s = rbind (rfold f xs s) (rfold f ys)"
  by (induction xs arbitrary: s) (auto simp: rbind_def split: res.splits)

lemma rfold_upt:
  assumes "\<And>n s. n < N \<Longrightarrow> I n s \<Longrightarrow> \<exists>s'. f (g n) s = ROk s' \<and> I (Suc n) s'" "I 0 s"
  shows "\<exists>s'. rfold f (map g [0..<N]) s = ROk s' \<and> I N s'"
  using assms(1)
proof (induction N)
  case 0
  then show ?case using assms(2) by simp
next
  case (Suc N)
  then obtain s1 where s1: "rfold f (map g [0..<N]) s = ROk s1" "I N s1" by auto
  with Suc.prems obtain s2 where "f (g N) s1 = ROk s2" "I (Suc N) s2" by blast
  with s1 show ?case by (simp add: rfold_append)
qed

lemma arr_writes_paints:
  assumes "\<forall>w \<in> set ws. 0 \<le> fst w \<and> fst w < int (length xs) \<and> snd w = V (nat (fst w))"
  shows "\<exists>ys. arr_writes ws xs = ROk ys \<and> paints V (nat ` fst ` set ws) xs ys"
  using assms
proof (induction ws arbitrary: xs)
  case Nil
  then show ?case by (simp add: paints_refl)
next
  case (Cons w ws)
  let ?x = "xs[nat (fst w) := snd w]"
  have "paints V {nat (fst w)} xs ?x" using Cons.prems by (auto simp: paints_def nth_list_update)
  moreover obtain ys where "arr_writes ws ?x = ROk ys" "paints V (nat ` fst ` set ws) ?x ys"
    using Cons.IH [of ?x] Cons.prems by auto
  ultimately show ?case using Cons.prems paints_trans by fastforce
qed

lemma arr_get_nat: "i < length xs \<Longrightarrow> arr_get xs (int i) = ROk (xs ! i)"
  by simp

lemma arr_set_nat: "i < length xs \<Longrightarrow> arr_set xs (int i) v = ROk (xs[i := v])"
  by simp

section \<open>The bitmap\<close>

definition shade :: "byte list \<Rightarrow> byte \<Rightarrow> byte \<Rightarrow> nat \<Rightarrow> nat \<Rightarrow> byte" where
  "shade font ch col py px =
     (if font ! (unat (drop_bit 4 ch) * 864 + py * 96 + unat (ch AND 0x0f) * 6 + px) \<noteq> 0
      then col AND 0x0f else drop_bit 4 col)"

text \<open>The pixel at row \<open>r\<close> and column \<open>c\<close> of a run of cells that starts at cell \<open>k\<close> of the grid.\<close>

definition cell_pixel :: "byte list \<Rightarrow> terminal \<Rightarrow> nat \<Rightarrow> nat \<Rightarrow> nat \<Rightarrow> byte" where
  "cell_pixel font t k r c =
     shade font (characters t ! (k + c div 12)) (colors t ! (k + c div 12)) (r div 2) (c mod 12 div 2)"

lemma font_index_less:
  assumes "py < 9" "px < 6"
  shows "unat (drop_bit 4 (ch :: byte)) * 864 + py * 96 + unat (ch AND 0x0f) * 6 + px < 13824"
proof -
  have "unat (drop_bit 4 ch) = unat ch div 16" unfolding unat_drop_bit_eq by (simp add: drop_bit_eq_div)
  then have "unat (drop_bit 4 ch) \<le> 15" using unat_byte_less [of ch] by presburger
  moreover have "ch AND 0x0f = take_bit 4 ch" by (simp add: take_bit_eq_mask mask_eq_exp_minus_1)
  then have "unat (ch AND 0x0f) < 16" using take_bit_nat_less_exp [of 4 "unat ch"] by (simp add: unsigned_take_bit_eq)
  ultimately show ?thesis using assms by linarith
qed

text \<open>The bitmap index of pixel \<open>(e, d)\<close> of the block of glyph pixel \<open>(px, py)\<close>.\<close>

definition block_index :: "nat \<Rightarrow> nat \<Rightarrow> nat \<Rightarrow> nat \<Rightarrow> nat \<times> nat \<Rightarrow> nat" where
  "block_index len x py px de = (2 * py + fst de) * (12 * len) + (12 * x + 2 * px + snd de)"

definition block :: "(nat \<times> nat) list" where
  "block = [(0, 0), (0, 1), (1, 0), (1, 1)]"

lemma block_iff: "de \<in> set block \<longleftrightarrow> fst de < 2 \<and> snd de < 2"
  by (cases de) (auto simp: block_def less_2_cases_iff)

lemma block_col_less:
  assumes "px < 6" "x < len" "de \<in> set block"
  shows "12 * x + 2 * px + snd de < 12 * len"
  using assms by (simp add: block_iff)

lemma block_index_less:
  assumes "py < 9" "px < 6" "x < len" "de \<in> set block"
  shows "block_index len x py px de < len * 216"
proof -
  have "block_index len x py px de < (2 * py + fst de + 1) * (12 * len)"
    using block_col_less [OF assms(2-4)] by (simp add: block_index_def)
  also have "\<dots> \<le> 18 * (12 * len)" using assms by (intro mult_right_mono) (auto simp: block_iff)
  finally show ?thesis by simp
qed

lemma glyph_writes_block:
  "glyph_writes (int len) (int x) (int py) (int px) v = map (\<lambda>de. (int (block_index len x py px de), v)) block"
  by (simp add: glyph_writes_def block_def block_index_def algebra_simps)

lemma draw_pixel_paints:
  assumes font: "length font = 13824" and i: "py < 9" "px < 6" "x < len" and bm: "length bm = len * 216"
    and V: "\<And>de. de \<in> set block \<Longrightarrow> V (block_index len x py px de) = shade font ch col py px"
  shows "\<exists>bm'. draw_pixel font ch col (int len) (int x) (int py) (int px) bm = ROk bm' \<and>
    paints V (block_index len x py px ` set block) bm bm'"
proof -
  let ?ws = "map (\<lambda>de. (int (block_index len x py px de), shade font ch col py px)) block"
  have f: "uint (drop_bit 4 ch) * 864 + int py * 96 + uint (ch AND 0x0f) * 6 + int px =
      int (unat (drop_bit 4 ch) * 864 + py * 96 + unat (ch AND 0x0f) * 6 + px)"
    by simp
  have "draw_pixel font ch col (int len) (int x) (int py) (int px) bm = arr_writes ?ws bm"
    unfolding draw_pixel_def f glyph_writes_block arr_get_nat [OF font_index_less [OF i(1,2), of ch, folded font]]
      rbind_simps Let_def shade_def ..
  moreover have "\<exists>ys. arr_writes ?ws bm = ROk ys \<and> paints V (nat ` fst ` set ?ws) bm ys"
    using block_index_less [OF i] V by (intro arr_writes_paints) (auto simp: bm simp del: of_nat_mult)
  moreover have "nat ` fst ` set ?ws = block_index len x py px ` set block" by (simp add: image_image)
  ultimately show ?thesis by simp
qed

lemma div_mod_row:
  assumes "c < (n :: nat)"
  shows "(r * n + c) div n = r" "(r * n + c) mod n = c"
  using assms by simp_all

lemma upto_int: "[0..int n - 1] = map int [0..<n]"
  by (rule nth_equalityI) auto

lemma draw_bitmap_spec:
  assumes font: "length font = 13824" and k: "k + len \<le> length (characters t)" "k + len \<le> length (colors t)"
    and y: "y * 53 + s = int k"
  shows "\<exists>bm. draw_bitmap font t y s (int len) = ROk bm \<and> length bm = len * 216
    \<and> (\<forall>r c. r < 18 \<longrightarrow> c < 12 * len \<longrightarrow> bm ! (r * (12 * len) + c) = cell_pixel font t k r c)"
proof -
  define V where "V j = cell_pixel font t k (j div (12 * len)) (j mod (12 * len))" for j
  let ?W = "\<lambda>x. (\<Union>py \<in> {..<9}. \<Union>px \<in> {..<6}. block_index len x py px ` set block)"
  have V: "V (block_index len x py px de) = shade font (characters t ! (k + x)) (colors t ! (k + x)) py px"
    if "py < 9" "px < 6" "x < len" "de \<in> set block" for x py px de
  proof -
    have "(12 * x + 2 * px + snd de) div 12 = x" "(12 * x + 2 * px + snd de) mod 12 = 2 * px + snd de"
      using that div_mod_row [of "2 * px + snd de" 12 x] by (simp_all add: block_iff mult.commute add.assoc)
    moreover have "(2 * px + snd de) div 2 = px" "(2 * py + fst de) div 2 = py" using that by (simp_all add: block_iff)
    ultimately show ?thesis
      unfolding V_def block_index_def div_mod_row [OF block_col_less [OF that(2-4)]] cell_pixel_def by simp
  qed
  have char: "\<exists>bm'. draw_char font t y s (int len) (int x) bm = ROk bm' \<and> paints V (?W x) bm bm'"
    if x: "x < len" and bm: "length bm = len * 216" for x bm
  proof -
    have ix: "y * 53 + int x + s = int (k + x)" using y by simp
    have "\<exists>bm'. rfold (\<lambda>px. draw_pixel font (characters t ! (k + x)) (colors t ! (k + x)) (int len) (int x) (int py) px) (map int [0..<6]) bm = ROk bm'
        \<and> paints V (\<Union>px \<in> set (map int [0..<6]). block_index len x py (nat px) ` set block) bm bm'"
      if "py < 9" "length bm = len * 216" for py bm
      by (rule rfold_paints [where n = "len * 216"])
        (use that draw_pixel_paints [OF font that(1) _ x] V [OF that(1) _ x] in auto)
    then have "\<exists>bm'. rfold (\<lambda>py. rfold (\<lambda>px. draw_pixel font (characters t ! (k + x)) (colors t ! (k + x)) (int len) (int x) py px) (map int [0..<6])) (map int [0..<9]) bm = ROk bm'
        \<and> paints V (\<Union>py \<in> set (map int [0..<9]). \<Union>px \<in> set (map int [0..<6]). block_index len x (nat py) (nat px) ` set block) bm bm'"
      using bm by - (rule rfold_paints [where n = "len * 216"], auto)
    moreover have "(\<Union>py \<in> set (map int [0..<9]). \<Union>px \<in> set (map int [0..<6]). block_index len x (nat py) (nat px) ` set block) = ?W x"
      by (simp add: atLeast0LessThan)
    moreover have "k + x < length (characters t)" "k + x < length (colors t)" using k x by simp_all
    ultimately show ?thesis
      using upto_int [of 6] upto_int [of 9] unfolding draw_char_def ix by (simp add: arr_get_nat del: of_nat_add)
  qed
  have "\<exists>bm'. rfold (draw_char font t y s (int len)) (map int [0..<len]) (replicate (len * 216) 0) = ROk bm'
      \<and> paints V (\<Union>x \<in> set (map int [0..<len]). ?W (nat x)) (replicate (len * 216) 0) bm'"
    using char by (intro rfold_paints [where n = "len * 216"]) auto
  then obtain bm where bm: "draw_bitmap font t y s (int len) = ROk bm"
    "paints V (\<Union>x \<in> set (map int [0..<len]). ?W (nat x)) (replicate (len * 216) 0) bm"
    unfolding draw_bitmap_def upto_int by (auto simp: nat_mult_distrib mult.commute)
  have "bm ! (r * (12 * len) + c) = cell_pixel font t k r c" if rc: "r < 18" "c < 12 * len" for r c
  proof -
    let ?de = "(r mod 2, c mod 2)" and ?x = "c div 12" and ?py = "r div 2" and ?px = "c mod 12 div 2"
    have x: "?x < len" "?py < 9" "?px < 6" "?de \<in> set block" using rc by (auto simp: block_iff)
    have "c mod 2 = c mod 12 mod 2" by (simp add: mod_mod_cancel)
    then have c: "12 * ?x + 2 * ?px + c mod 2 = c"
      using mult_div_mod_eq [of 12 c] mult_div_mod_eq [of 2 "c mod 12"] by linarith
    have "2 * ?py + r mod 2 = r" by simp
    with c have "block_index len ?x ?py ?px ?de = r * (12 * len) + c" by (simp add: block_index_def)
    with x have "r * (12 * len) + c \<in> (\<Union>x \<in> set (map int [0..<len]). ?W (nat x))" by force
    moreover have "r * (12 * len) + c < len * 216"
      using block_index_less [OF x(2,3,1,4)] \<open>block_index len ?x ?py ?px ?de = _\<close> by simp
    ultimately show ?thesis using bm(2) div_mod_row [OF rc(2), of r] by (simp add: paints_def V_def)
  qed
  with bm show ?thesis by (simp add: paints_def)
qed

section \<open>One row of a plane\<close>

text \<open>The planes hold eight pixels per byte, leftmost in the highest bit. While a row is written the
  byte \<open>b\<close> under construction stands in front of the stored one.\<close>

definition pix :: "byte list \<Rightarrow> nat \<Rightarrow> bool" where
  "pix buf p \<longleftrightarrow> bit (buf ! (p div 8)) (7 - p mod 8)"

definition front :: "byte \<Rightarrow> nat \<Rightarrow> byte list \<Rightarrow> nat \<Rightarrow> bool" where
  "front b x buf p \<longleftrightarrow> (if p div 8 = x then bit b (7 - p mod 8) else pix buf p)"

text \<open>\<open>row_at b k x buf\<close>: writing goes on at bit \<open>k\<close> of byte \<open>x\<close>.\<close>

definition row_at :: "byte \<Rightarrow> nat \<Rightarrow> nat \<Rightarrow> byte list \<Rightarrow> bool" where
  "row_at b k x buf \<longleftrightarrow> k \<le> 7 \<and> (\<forall>n \<le> k. \<not> bit b n)"

lemma bit_set_pixel: "n < 8 \<Longrightarrow> k < 8 \<Longrightarrow> bit (b OR push_bit k (drop_bit i v AND 1)) n \<longleftrightarrow> bit b n \<or> n = k \<and> bit (v :: byte) i"
  by (auto simp: bit_simps bit_1_iff)

lemma bit_index_eq: "p div 8 = x \<Longrightarrow> 7 - p mod 8 = k \<Longrightarrow> k \<le> 7 \<Longrightarrow> p = 8 * x + (7 - k)"
  for p x k :: nat
  using mult_div_mod_eq [of 8 p] by auto

lemma row_step:
  assumes at: "row_at b k x buf" and room: "x < length buf"
  shows "\<exists>b' k' x' buf'. row_loop i (v # vs) (b, int k, int x, buf) = row_loop i vs (b', int k', int x', buf')
    \<and> row_at b' k' x' buf' \<and> 8 * x' + (7 - k') = 8 * x + (7 - k) + 1 \<and> length buf' = length buf
    \<and> (\<forall>p < 8 * x + (7 - k) + 1. front b' x' buf' p = (if p = 8 * x + (7 - k) then bit v i else front b x buf p))
    \<and> (\<forall>p. x' \<le> p div 8 \<longrightarrow> pix buf' p = pix buf p)"
proof -
  define b1 where "b1 = b OR push_bit k (drop_bit i v AND 1)"
  have k: "k \<le> 7" "\<forall>n \<le> k. \<not> bit b n" using at by (simp_all add: row_at_def)
  have b1: "bit b1 n \<longleftrightarrow> bit b n \<or> n = k \<and> bit v i" if "n \<le> 7" for n unfolding b1_def using that k by (intro bit_set_pixel) simp_all
  have new: "bit b1 (7 - p mod 8) = (if p = 8 * x + (7 - k) then bit v i else bit b (7 - p mod 8))" if "p div 8 = x" for p
  proof (cases "p = 8 * x + (7 - k)")
    case True
    then have "p mod 8 = 7 - k" using div_mod_row(2) [of "7 - k" 8 x] by (simp only: mult.commute)
    then have "7 - p mod 8 = k" using k(1) by simp
    with True b1 [of k] k show ?thesis by auto
  next
    case False
    then have "7 - p mod 8 \<noteq> k" using bit_index_eq [OF that] k(1) by blast
    with False b1 [of "7 - p mod 8"] show ?thesis by simp
  qed
  show ?thesis
  proof (cases k)
    case 0
    have "row_loop i (v # vs) (b, int k, int x, buf) = row_loop i vs (0, int 7, int (x + 1), buf[x := b1])"
      using 0 room by (simp add: Let_def add.commute b1_def)
    moreover have "front 0 (x + 1) (buf[x := b1]) p = (if p = 8 * x + (7 - k) then bit v i else front b x buf p)"
      if "p < 8 * x + (7 - k) + 1" for p
    proof -
      have le: "p div 8 \<le> x" using that 0 by auto
      show ?thesis
      proof (cases "p div 8 = x")
        case True
        then have "front 0 (x + 1) (buf[x := b1]) p = bit b1 (7 - p mod 8)" using room by (simp add: front_def pix_def)
        with new [OF True] True show ?thesis by (simp add: front_def)
      next
        case False
        with le have "p \<noteq> 8 * x + (7 - k)" by auto
        with False le show ?thesis by (simp add: front_def pix_def)
      qed
    qed
    moreover have "pix (buf[x := b1]) p = pix buf p" if "x + 1 \<le> p div 8" for p using that by (simp add: pix_def)
    ultimately show ?thesis using 0
      by (intro exI [of _ 0] exI [of _ 7] exI [of _ "x + 1"] exI [of _ "buf[x := b1]"]) (simp add: row_at_def)
  next
    case (Suc m)
    have "row_loop i (v # vs) (b, int k, int x, buf) = row_loop i vs (b1, int m, int x, buf)"
      unfolding row_loop.simps prod.case Let_def nat_int b1_def [symmetric] using Suc by simp
    moreover have "front b1 x buf p = (if p = 8 * x + (7 - k) then bit v i else front b x buf p)" for p
      using new [of p] k(1) by (auto simp: front_def)
    moreover have "row_at b1 m x buf" using k b1 Suc by (auto simp: row_at_def)
    ultimately show ?thesis using Suc k(1)
      by (intro exI [of _ b1] exI [of _ m] exI [of _ x] exI [of _ buf]) auto
  qed
qed

lemma row_loop_spec:
  assumes "row_at b k x buf" "8 * x + (7 - k) + length vs \<le> 8 * length buf"
  shows "\<exists>b' k' x' buf'. row_loop i vs (b, int k, int x, buf) = ROk (b', int k', int x', buf')
    \<and> row_at b' k' x' buf' \<and> 8 * x' + (7 - k') = 8 * x + (7 - k) + length vs \<and> length buf' = length buf
    \<and> (\<forall>p < 8 * x + (7 - k) + length vs.
        front b' x' buf' p = (if 8 * x + (7 - k) \<le> p then bit (vs ! (p - (8 * x + (7 - k)))) i else front b x buf p))
    \<and> (\<forall>p. x' \<le> p div 8 \<longrightarrow> pix buf' p = pix buf p)"
  using assms
proof (induction vs arbitrary: b k x buf)
  case Nil
  then show ?case by fastforce
next
  case (Cons v vs)
  let ?P = "8 * x + (7 - k)"
  have "k \<le> 7" using Cons.prems(1) by (simp add: row_at_def)
  with Cons.prems(2) have "x < length buf" by simp
  from row_step [OF Cons.prems(1) this] obtain b1 k1 x1 buf1 where s:
    "row_loop i (v # vs) (b, int k, int x, buf) = row_loop i vs (b1, int k1, int x1, buf1)"
    "row_at b1 k1 x1 buf1" "8 * x1 + (7 - k1) = ?P + 1" "length buf1 = length buf"
    "\<forall>p < ?P + 1. front b1 x1 buf1 p = (if p = ?P then bit v i else front b x buf p)"
    "\<forall>p. x1 \<le> p div 8 \<longrightarrow> pix buf1 p = pix buf p" by blast
  have "8 * x1 + (7 - k1) + length vs \<le> 8 * length buf1" using s(3,4) Cons.prems(2) by simp
  from Cons.IH [OF s(2) this] obtain b2 k2 x2 buf2 where r:
    "row_loop i vs (b1, int k1, int x1, buf1) = ROk (b2, int k2, int x2, buf2)"
    "row_at b2 k2 x2 buf2" "8 * x2 + (7 - k2) = ?P + 1 + length vs" "length buf2 = length buf1"
    "\<forall>p < ?P + 1 + length vs. front b2 x2 buf2 p = (if ?P + 1 \<le> p then bit (vs ! (p - (?P + 1))) i else front b1 x1 buf1 p)"
    "\<forall>p. x2 \<le> p div 8 \<longrightarrow> pix buf2 p = pix buf1 p" unfolding s(3) by blast
  have "x1 \<le> x2" using s(3) r(3) by linarith
  have "front b2 x2 buf2 p = (if ?P \<le> p then bit ((v # vs) ! (p - ?P)) i else front b x buf p)"
    if "p < ?P + length (v # vs)" for p
  proof (cases "?P + 1 \<le> p")
    case True
    then have "p - ?P = Suc (p - (?P + 1))" by simp
    with True r(5) that show ?thesis by simp
  next
    case False
    with r(5) that s(5) show ?thesis by auto
  qed
  moreover have "pix buf2 p = pix buf p" if "x2 \<le> p div 8" for p
    using that r(6) s(6) \<open>x1 \<le> x2\<close> by auto
  moreover have "8 * x2 + (7 - k2) = ?P + length (v # vs)" "length buf2 = length buf" using r(3,4) s(4) by simp_all
  ultimately show ?case unfolding s(1) using r(1,2) by blast
qed

section \<open>A line of cells\<close>

text \<open>The picture: pixel \<open>(X, Y)\<close> is at position \<open>640 * Y + X\<close>. In a run of cells that ends at an odd
  column the last pixel of each row shares a byte with its right neighbour, and the mask that keeps the
  neighbour's bits keeps one bit too many: \<open>stuck\<close> is that pixel.\<close>

definition stuck :: "nat \<Rightarrow> nat \<Rightarrow> nat \<Rightarrow> bool" where
  "stuck s len X \<longleftrightarrow> odd (s + len) \<and> X + 1 = 12 * (s + len)"

text \<open>\<open>run_drawn f P n st buf buf'\<close>: positions \<open>P\<close> to \<open>P + n\<close> have the pixels \<open>f\<close> (joined with the old
  one where \<open>st\<close>), and the others are as before.\<close>

definition run_drawn :: "(nat \<Rightarrow> bool) \<Rightarrow> nat \<Rightarrow> nat \<Rightarrow> bool \<Rightarrow> byte list \<Rightarrow> byte list \<Rightarrow> bool" where
  "run_drawn f P n st buf buf' \<longleftrightarrow> length buf' = length buf \<and> (\<forall>p < 8 * length buf. pix buf' p =
     (if P \<le> p \<and> p < P + n then f (p - P) \<or> st \<and> p + 1 = P + n \<and> pix buf p else pix buf p))"

lemma byte_masks:
  "n < 8 \<Longrightarrow> bit ((old :: byte) AND 0xF0) n \<longleftrightarrow> bit old n \<and> 4 \<le> n"
  "n < 8 \<Longrightarrow> bit ((old :: byte) AND (push_bit 5 1 - 1)) n \<longleftrightarrow> bit old n \<and> n < 5"
proof -
  assume n: "n < 8"
  have m: "(0xF0 :: byte) = push_bit 4 (mask 4)" "push_bit 5 1 - 1 = (mask 5 :: byte)"
    by (simp_all add: mask_eq_exp_minus_1 push_bit_eq_mult)
  show "bit (old AND 0xF0) n \<longleftrightarrow> bit old n \<and> 4 \<le> n" "bit (old AND (push_bit 5 1 - 1)) n \<longleftrightarrow> bit old n \<and> n < 5"
    using n unfolding m by (auto simp: bit_and_iff bit_push_bit_iff bit_mask_iff)
qed

text \<open>The end of a row: the byte under construction joins the stored one.\<close>

definition row_end :: "byte \<Rightarrow> nat \<Rightarrow> nat \<Rightarrow> byte list \<Rightarrow> byte list" where
  "row_end b k x buf = (if k \<noteq> 7 then buf[x := b OR (buf ! x AND (push_bit (8 - k) 1 - 1))] else buf)"

lemma row_end_full:
  assumes "8 * x = e" "\<forall>p < e. front b x buf p = g p" "\<forall>p. x \<le> p div 8 \<longrightarrow> pix buf p = old p"
  shows "pix (row_end b 7 x buf) p = (if p < e then g p else old p)"
proof (cases "p < e")
  case True
  then have "p div 8 \<noteq> x" using assms(1) by auto
  with True assms(2) show ?thesis by (auto simp: row_end_def front_def)
next
  case False
  then have "x \<le> p div 8" using assms(1) by auto
  with False assms(3) show ?thesis by (simp add: row_end_def)
qed

lemma row_end_half:
  assumes at: "row_at b 3 x buf" and e: "8 * x + 4 = e" and x: "x < length buf"
    and g: "\<forall>p < e. front b x buf p = g p" and old: "\<forall>p. x \<le> p div 8 \<longrightarrow> pix buf p = old p"
  shows "pix (row_end b 3 x buf) p = (if p < e then g p \<or> p + 1 = e \<and> old p else old p)"
proof (cases "p div 8 = x")
  case True
  let ?n = "7 - p mod 8"
  have n: "?n < 8" by simp
  have pd: "p = 8 * x + p mod 8" "p mod 8 < 8" using True mult_div_mod_eq [of 8 p] by simp_all
  have new: "pix (row_end b 3 x buf) p \<longleftrightarrow> bit b ?n \<or> old p \<and> ?n < 5"
    using old True x byte_masks(2) [OF n, of "buf ! x"] by (auto simp: pix_def bit_or_iff row_end_def)
  show ?thesis
  proof (cases "p < e")
    case in_run: True
    have "4 \<le> ?n" using pd in_run e by linarith
    moreover have "?n < 5 \<longleftrightarrow> p + 1 = e" using pd in_run e by (intro iffI) linarith+
    ultimately show ?thesis using new g True in_run by (auto simp: front_def)
  next
    case False
    have "?n \<le> 3" using pd False e by linarith
    with new at False show ?thesis by (auto simp: row_at_def)
  qed
next
  case False
  then have "pix (row_end b 3 x buf) p = pix buf p" by (simp add: pix_def row_end_def)
  moreover have "p < e \<longleftrightarrow> p div 8 < x" "p + 1 \<noteq> e"
    using False e mult_div_mod_eq [of 8 p] mod_less_divisor [of 8 p] by (intro iffI notI; linarith)+
  ultimately show ?thesis using False g old by (auto simp: front_def)
qed

text \<open>The start of a row.\<close>

lemma row_start:
  assumes "8 * x + (7 - k) = P" "k = 3 \<or> k = 7" "b = (if k \<noteq> 7 then buf ! x AND 0xF0 else 0)"
  shows "row_at b k x buf" "\<forall>p < P. front b x buf p = pix buf p"
proof -
  show "row_at b k x buf" using assms(2,3) byte_masks(1) by (auto simp: row_at_def)
  show "\<forall>p < P. front b x buf p = pix buf p"
  proof (intro allI impI)
    fix p
    assume p: "p < P"
    show "front b x buf p = pix buf p"
    proof (cases "p div 8 = x \<and> k = 3")
      case True
      with p assms(1) have "4 \<le> 7 - p mod 8" using mult_div_mod_eq [of 8 p] by linarith
      with True assms(3) byte_masks(1) [of "7 - p mod 8"] show ?thesis by (simp add: front_def pix_def)
    next
      case False
      with p assms(1,2) have "p div 8 \<noteq> x" by auto
      then show ?thesis by (simp add: front_def)
    qed
  qed
qed

lemma blit_row_unfold:
  assumes sl: "py * len * 12 + len * 12 \<le> length bm" and x: "x = y * 1440 + py * 80 + (s * 3) div 2" "x < length buf"
    and k: "k = 7 - (s mod 2) * 4"
    and r: "row_loop i (take (len * 12) (drop (py * len * 12) bm)) (if k \<noteq> 7 then buf ! x AND 0xF0 else 0, int k, int x, buf) =
      ROk (b', int k', int x', buf')" "k' = 7 \<or> x' < length buf'"
  shows "blit_row bm (int y) (int s) (int len) i (int py) buf = ROk (row_end b' k' x' buf')"
proof -
  have i: "int y * 1440 + int py * 80 + (int s * 3) div 2 = int x" "7 - (int s mod 2) * 4 = int k"
    unfolding x(1) k by (simp_all add: zdiv_int of_nat_mod)
  have sl': "arr_slice bm (int py * int len * 12) (int len * 12) = ROk (take (len * 12) (drop (py * len * 12) bm))"
  proof -
    have "int py * int len * 12 = int (py * len * 12)" "int len * 12 = int (len * 12)" by simp_all
    with sl show ?thesis unfolding arr_slice_def by (simp add: nat_mult_distrib del: of_nat_mult flip: of_nat_add)
  qed
  have start: "(if int k \<noteq> 7 then rbind (arr_get buf (int x)) (\<lambda>old. ROk (old AND 0xF0)) else ROk 0) =
      ROk (if k \<noteq> 7 then buf ! x AND 0xF0 else 0)"
    using x(2) by (simp add: arr_get_nat)
  have nb: "nat (8 - int k') = 8 - k'" by simp
  show ?thesis unfolding blit_row_def Let_def i sl' start rbind_simps r(1) row_end_def
    using r(2) by (auto simp: nb arr_get_nat arr_set_nat)
qed

lemma twelve_mod: "12 * u mod 8 = (if even u then 0 else (4 :: nat))"
proof (cases "even u")
  case True
  then obtain h where "u = 2 * h" by (elim evenE)
  then have "12 * u = 8 * (3 * h)" by simp
  with True show ?thesis by (simp only: mod_mult_self1_is_0 if_True)
next
  case False
  then obtain h where "u = 2 * h + 1" by (elim oddE)
  then have "12 * u = (3 * h + 1) * 8 + 4" by simp
  with False show ?thesis by (simp only: div_mod_row if_False)
qed

lemma three_halves: "8 * ((s * 3) div 2) + (7 - (7 - s mod 2 * 4)) = 12 * (s :: nat)"
proof (cases "even s")
  case True
  then show ?thesis by (elim evenE) simp
next
  case False
  then obtain h where h: "s = 2 * h + 1" by (elim oddE)
  then have "s * 3 = (3 * h + 1) * 2 + 1" by simp
  then have "(s * 3) div 2 = 3 * h + 1" by (simp only: div_mod_row)
  with h show ?thesis by simp
qed

lemma blit_row_spec:
  assumes bm: "length bm = len * 216" and py: "py < 18"
    and fit: "y * 11520 + py * 640 + 12 * (s + len) \<le> 8 * length buf" "y * 1440 + py * 80 + (s * 3) div 2 < length buf"
  shows "\<exists>buf'. blit_row bm (int y) (int s) (int len) i (int py) buf = ROk buf'
    \<and> run_drawn (\<lambda>c. bit (bm ! (py * (12 * len) + c)) i) (y * 11520 + py * 640 + 12 * s) (12 * len) (odd (s + len)) buf buf'"
proof -
  define x k P where "x = y * 1440 + py * 80 + (s * 3) div 2" and "k = 7 - (s mod 2) * 4" and
    "P = y * 11520 + py * 640 + 12 * s"
  define vs where "vs = take (len * 12) (drop (py * len * 12) bm)"
  have P: "8 * x + (7 - k) = P" unfolding x_def k_def P_def using three_halves [of s] by simp
  have k37: "k = 3 \<or> k = 7" unfolding k_def by (cases "even s") (auto elim!: evenE oddE)
  have "(py + 1) * (len * 12) \<le> 18 * (len * 12)" using py by (intro mult_right_mono) simp_all
  with bm have sl: "py * len * 12 + len * 12 \<le> length bm" by simp
  then have vs: "length vs = 12 * len" "\<And>c. c < 12 * len \<Longrightarrow> vs ! c = bm ! (py * (12 * len) + c)"
    by (simp_all add: vs_def algebra_simps)
  note start = row_start [OF P k37 refl, of buf]
  have "8 * x + (7 - k) + length vs \<le> 8 * length buf" unfolding P vs(1) using fit(1) by (simp add: P_def)
  from row_loop_spec [OF start(1) this, of i, unfolded P vs(1)] obtain b' k' x' buf' where r:
    "row_loop i vs (if k \<noteq> 7 then buf ! x AND 0xF0 else 0, int k, int x, buf) = ROk (b', int k', int x', buf')"
    "row_at b' k' x' buf'" "8 * x' + (7 - k') = P + 12 * len" "length buf' = length buf"
    "\<forall>p < P + 12 * len. front b' x' buf' p = (if P \<le> p then bit (vs ! (p - P)) i else front (if k \<noteq> 7 then buf ! x AND 0xF0 else 0) x buf p)"
    "\<forall>p. x' \<le> p div 8 \<longrightarrow> pix buf' p = pix buf p" by blast
  define g where "g p = (if P \<le> p then bit (bm ! (py * (12 * len) + (p - P))) i else pix buf p)" for p
  have drawn: "\<forall>p < P + 12 * len. front b' x' buf' p = g p" using r(5) start(2) vs(2) by (auto simp: g_def)
  have "k' \<le> 7" using r(2) by (simp add: row_at_def)
  have "7 - k' < 8" by simp
  from div_mod_row(2) [OF this, of x'] have "7 - k' = (8 * x' + (7 - k')) mod 8" by (simp only: mult.commute)
  also have "8 * x' + (7 - k') = 12 * (s + len) + 8 * (1440 * y + 80 * py)" unfolding r(3) P_def by simp
  also have "\<dots> mod 8 = 12 * (s + len) mod 8" by (rule mod_mult_self2)
  also have "\<dots> = (if even (s + len) then 0 else 4)" by (rule twelve_mod)
  finally have cases: "even (s + len) \<and> k' = 7 \<or> odd (s + len) \<and> k' = 3" using \<open>k' \<le> 7\<close> by (auto split: if_splits)
  have room: "k' = 7 \<or> x' < length buf'" using cases r(3,4) fit(1) by (auto simp: P_def)
  from cases have fin: "pix (row_end b' k' x' buf') p =
      (if p < P + 12 * len then g p \<or> odd (s + len) \<and> p + 1 = P + 12 * len \<and> pix buf p else pix buf p)" for p
    using row_end_full [OF _ drawn r(6), of p] row_end_half [OF _ _ _ drawn r(6), of p] r(2,3) room by auto
  have "run_drawn (\<lambda>c. bit (bm ! (py * (12 * len) + c)) i) P (12 * len) (odd (s + len)) buf (row_end b' k' x' buf')"
    using fin r(4) by (auto simp: run_drawn_def g_def row_end_def)
  with blit_row_unfold [OF sl x_def fit(2) [folded x_def] k_def r(1) [unfolded vs_def] room] show ?thesis
    unfolding P_def by blast
qed

text \<open>The first \<open>n\<close> rows of the line of cells \<open>y\<close>, columns \<open>s\<close> to \<open>s + len\<close>.\<close>

definition rows_drawn :: "(nat \<Rightarrow> nat \<Rightarrow> bool) \<Rightarrow> nat \<Rightarrow> nat \<Rightarrow> nat \<Rightarrow> byte list \<Rightarrow> nat \<Rightarrow> byte list \<Rightarrow> bool" where
  "rows_drawn f y s len buf n buf' \<longleftrightarrow> length buf' = length buf
     \<and> (\<forall>X < 640. \<forall>Y < 480. pix buf' (640 * Y + X) =
         (if 18 * y \<le> Y \<and> Y < 18 * y + n \<and> 12 * s \<le> X \<and> X < 12 * (s + len)
          then f (Y - 18 * y) (X - 12 * s) \<or> stuck s len X \<and> pix buf (640 * Y + X) else pix buf (640 * Y + X)))"

lemma run_in_rows:
  assumes "X < (640 :: nat)" "Y < 480" "s + len \<le> 53"
  shows "y * 11520 + n * 640 + 12 * s \<le> 640 * Y + X \<and> 640 * Y + X < y * 11520 + n * 640 + 12 * s + 12 * len
    \<longleftrightarrow> Y = 18 * y + n \<and> 12 * s \<le> X \<and> X < 12 * (s + len)" (is "?L \<longleftrightarrow> ?R")
proof
  assume L: ?L
  then have "Y = 18 * y + n" using assms by linarith
  with L show ?R by simp
qed simp

lemma rows_drawn_step:
  assumes r: "rows_drawn f y s len buf n b1" and len: "length buf = 38400" and y: "y < 26" "s + len \<le> 53"
    and d: "run_drawn (f n) (y * 11520 + n * 640 + 12 * s) (12 * len) (odd (s + len)) b1 b2" and n: "n < 18"
  shows "rows_drawn f y s len buf (Suc n) b2"
proof -
  let ?P = "y * 11520 + n * 640 + 12 * s"
  have l: "length b1 = 38400" "length b2 = 38400" using r d len by (simp_all add: rows_drawn_def run_drawn_def)
  have "pix b2 (640 * Y + X) =
      (if 18 * y \<le> Y \<and> Y < 18 * y + Suc n \<and> 12 * s \<le> X \<and> X < 12 * (s + len)
       then f (Y - 18 * y) (X - 12 * s) \<or> stuck s len X \<and> pix buf (640 * Y + X) else pix buf (640 * Y + X))"
    if XY: "X < 640" "Y < 480" for X Y
  proof -
    let ?p = "640 * Y + X"
    note run = run_in_rows [OF XY y(2), of y n]
    have b2: "pix b2 ?p = (if ?P \<le> ?p \<and> ?p < ?P + 12 * len then f n (?p - ?P) \<or> odd (s + len) \<and> ?p + 1 = ?P + 12 * len \<and> pix b1 ?p else pix b1 ?p)"
      using d l XY by (simp add: run_drawn_def)
    have b1: "pix b1 ?p = (if 18 * y \<le> Y \<and> Y < 18 * y + n \<and> 12 * s \<le> X \<and> X < 12 * (s + len)
        then f (Y - 18 * y) (X - 12 * s) \<or> stuck s len X \<and> pix buf ?p else pix buf ?p)"
      using r XY by (simp add: rows_drawn_def)
    show ?thesis
    proof (cases "Y = 18 * y + n")
      case True
      then have e: "?p - ?P = X - 12 * s" "?p + 1 = ?P + 12 * len \<longleftrightarrow> X + 1 = 12 * (s + len)" by auto
      have old: "pix b1 ?p = pix buf ?p" using b1 True by simp
      have row: "18 * y \<le> Y" "Y < 18 * y + Suc n" "Y - 18 * y = n" using True by simp_all
      show ?thesis using b2 unfolding run e old stuck_def row(3) using row(1,2) True by simp
    next
      case False
      then have "pix b2 ?p = pix b1 ?p" using b2 unfolding run by simp
      moreover have "Y < 18 * y + Suc n \<longleftrightarrow> Y < 18 * y + n" using False by auto
      ultimately show ?thesis using b1 by simp
    qed
  qed
  then show ?thesis using l len by (simp add: rows_drawn_def)
qed

lemma rows_drawn_cong:
  assumes "rows_drawn f y s len buf n buf'" "\<And>r c. r < n \<Longrightarrow> c < 12 * len \<Longrightarrow> f r c = g r c"
  shows "rows_drawn g y s len buf n buf'"
  unfolding rows_drawn_def
proof (intro conjI allI impI)
  show "length buf' = length buf" using assms(1) by (simp add: rows_drawn_def)
  fix X Y :: nat
  assume XY: "X < 640" "Y < 480"
  have "f (Y - 18 * y) (X - 12 * s) = g (Y - 18 * y) (X - 12 * s)"
    if "18 * y \<le> Y \<and> Y < 18 * y + n \<and> 12 * s \<le> X \<and> X < 12 * (s + len)"
    using that by (intro assms(2)) auto
  moreover have "pix buf' (640 * Y + X) = (if 18 * y \<le> Y \<and> Y < 18 * y + n \<and> 12 * s \<le> X \<and> X < 12 * (s + len)
      then f (Y - 18 * y) (X - 12 * s) \<or> stuck s len X \<and> pix buf (640 * Y + X) else pix buf (640 * Y + X))"
    using assms(1) XY by (simp add: rows_drawn_def)
  ultimately show "pix buf' (640 * Y + X) = (if 18 * y \<le> Y \<and> Y < 18 * y + n \<and> 12 * s \<le> X \<and> X < 12 * (s + len)
      then g (Y - 18 * y) (X - 12 * s) \<or> stuck s len X \<and> pix buf (640 * Y + X) else pix buf (640 * Y + X))"
    by presburger
qed

text \<open>All planes.\<close>

definition term_ok :: "terminal \<Rightarrow> bool" where
  "term_ok t \<longleftrightarrow> length (characters t) = 1378 \<and> length (colors t) = 1378 \<and> length (palette t) = 16
     \<and> length (pixel_buffer t) = 4 \<and> (\<forall>i < 4. length (pixel_buffer t ! i) = 38400)"

definition pixel :: "terminal \<Rightarrow> nat \<Rightarrow> nat \<Rightarrow> nat \<Rightarrow> bool" where
  "pixel t i X Y \<longleftrightarrow> pix (pixel_buffer t ! i) (640 * Y + X)"

definition plane_actions :: "byte list \<Rightarrow> nat \<Rightarrow> nat \<Rightarrow> io_action list" where
  "plane_actions buf y i = [Outb 0x3C4 2, Outb 0x3C5 (push_bit i 1),
     VideoCopy (0xA0000 + int y * 1440) (take 1440 (drop (y * 1440) buf))]"

lemma blit_plane_spec:
  assumes ok: "length (pixel_buffer t) = 4" "i < 4" "length (pixel_buffer t ! i) = 38400"
    and bm: "length bm = len * 216" and y: "y < 26" "s + len \<le> 53"
  shows "\<exists>buf. blit_plane bm (int y) (int s) (int len) i t =
      ROk (t\<lparr>pixel_buffer := (pixel_buffer t)[i := buf], io := io t @ plane_actions buf y i\<rparr>)
    \<and> rows_drawn (\<lambda>r c. bit (bm ! (r * (12 * len) + c)) i) y s len (pixel_buffer t ! i) 18 buf"
proof -
  let ?f = "\<lambda>r c. bit (bm ! (r * (12 * len) + c)) i" and ?b = "pixel_buffer t ! i"
  have "\<exists>buf. rfold (blit_row bm (int y) (int s) (int len) i) (map int [0..<18]) ?b = ROk buf
      \<and> rows_drawn ?f y s len ?b 18 buf"
  proof (rule rfold_upt)
    show "rows_drawn ?f y s len ?b 0 ?b" by (auto simp: rows_drawn_def)
  next
    fix n b1
    assume n: "n < 18" and r: "rows_drawn ?f y s len ?b n b1"
    then have "length b1 = 38400" using ok(3) by (simp add: rows_drawn_def)
    then have fit: "y * 11520 + n * 640 + 12 * (s + len) \<le> 8 * length b1" "y * 1440 + n * 80 + (s * 3) div 2 < length b1"
      using n y by auto
    from blit_row_spec [OF bm n fit, of i] rows_drawn_step [OF r ok(3) y _ n]
    show "\<exists>b2. blit_row bm (int y) (int s) (int len) i (int n) b1 = ROk b2 \<and> rows_drawn ?f y s len ?b (Suc n) b2"
      by blast
  qed
  then obtain buf where buf: "rfold (blit_row bm (int y) (int s) (int len) i) [0..17] ?b = ROk buf"
    "rows_drawn ?f y s len ?b 18 buf" using upto_int [of 18] by auto
  then have "length buf = 38400" using ok(3) by (simp add: rows_drawn_def)
  then have "arr_slice buf (int y * 1440) 1440 = ROk (take 1440 (drop (y * 1440) buf))"
    using y(1) by (simp add: arr_slice_def nat_mult_distrib)
  with buf show ?thesis by (intro exI [of _ buf]) (simp add: blit_plane_def act_def plane_actions_def)
qed

text \<open>The first \<open>n\<close> planes drawn; everything but the planes and the actions is as before.\<close>

definition planes_drawn :: "(nat \<Rightarrow> nat \<Rightarrow> nat \<Rightarrow> bool) \<Rightarrow> nat \<Rightarrow> nat \<Rightarrow> nat \<Rightarrow> terminal \<Rightarrow> nat \<Rightarrow> terminal \<Rightarrow> bool" where
  "planes_drawn f y s len t n t' \<longleftrightarrow>
     (\<exists>bufs. t' = t\<lparr>pixel_buffer := bufs, io := io t @ concat (map (\<lambda>i. plane_actions (bufs ! i) y i) [0..<n])\<rparr>
      \<and> length bufs = 4 \<and> (\<forall>i < 4. if i < n then rows_drawn (f i) y s len (pixel_buffer t ! i) 18 (bufs ! i)
                                          else bufs ! i = pixel_buffer t ! i))"

lemma planes_drawn_step:
  assumes d: "planes_drawn f y s len t n t1" and n: "n < 4"
    and t2: "t2 = t1\<lparr>pixel_buffer := (pixel_buffer t1)[n := buf], io := io t1 @ plane_actions buf y n\<rparr>"
    and r: "rows_drawn (f n) y s len (pixel_buffer t1 ! n) 18 buf"
  shows "planes_drawn f y s len t (Suc n) t2"
proof -
  from d obtain bufs where b: "t1 = t\<lparr>pixel_buffer := bufs, io := io t @ concat (map (\<lambda>i. plane_actions (bufs ! i) y i) [0..<n])\<rparr>"
    "length bufs = 4" "\<forall>i < 4. if i < n then rows_drawn (f i) y s len (pixel_buffer t ! i) 18 (bufs ! i)
                                          else bufs ! i = pixel_buffer t ! i" unfolding planes_drawn_def by blast
  have pre: "map (\<lambda>i. plane_actions (bufs[n := buf] ! i) y i) [0..<n] = map (\<lambda>i. plane_actions (bufs ! i) y i) [0..<n]"
    by (rule map_cong) simp_all
  have acts: "concat (map (\<lambda>i. plane_actions (bufs[n := buf] ! i) y i) [0..<Suc n]) =
      concat (map (\<lambda>i. plane_actions (bufs ! i) y i) [0..<n]) @ plane_actions buf y n"
    unfolding upt_Suc_append [OF le0] map_append pre using b(2) n by simp
  have a1: "t2 = t\<lparr>pixel_buffer := bufs[n := buf],
      io := io t @ concat (map (\<lambda>i. plane_actions (bufs[n := buf] ! i) y i) [0..<Suc n])\<rparr>"
    unfolding acts using t2 b(1) by simp
  have a2: "if i < Suc n then rows_drawn (f i) y s len (pixel_buffer t ! i) 18 (bufs[n := buf] ! i)
      else bufs[n := buf] ! i = pixel_buffer t ! i" if "i < 4" for i
    using that b n r by (cases "i = n") auto
  show ?thesis unfolding planes_drawn_def
    by (intro exI [of _ "bufs[n := buf]"] conjI allI impI a1 a2) (simp_all add: b(2))
qed

lemma blit_line_planes:
  assumes ok: "term_ok t" and font: "length font = 13824" and y: "y < 26" "s + len \<le> 53"
  shows "\<exists>t'. blit_line font (int y) (int s) (int s + int len - 1) t = ROk t' \<and>
    planes_drawn (\<lambda>i r c. r < 18 \<and> c < 12 * len \<and> bit (cell_pixel font t (53 * y + s) r c) i) y s len t 4 t'"
proof -
  have k: "53 * y + s + len \<le> length (characters t)" "53 * y + s + len \<le> length (colors t)"
    using ok y by (simp_all add: term_ok_def)
  from draw_bitmap_spec [OF font k, of "int y" "int s"] obtain bm where bm:
    "draw_bitmap font t (int y) (int s) (int len) = ROk bm" "length bm = len * 216"
    "\<And>r c. r < 18 \<Longrightarrow> c < 12 * len \<Longrightarrow> bm ! (r * (12 * len) + c) = cell_pixel font t (53 * y + s) r c"
    by (auto simp: mult.commute)
  let ?f = "\<lambda>i r c. r < 18 \<and> c < 12 * len \<and> bit (cell_pixel font t (53 * y + s) r c) i"
  have "\<exists>t'. rfold (blit_plane bm (int y) (int s) (int len)) (map (\<lambda>i. i) [0..<4]) t = ROk t' \<and> planes_drawn ?f y s len t 4 t'"
  proof (rule rfold_upt)
    show "planes_drawn ?f y s len t 0 t" using ok
      by (auto simp: planes_drawn_def term_ok_def intro!: exI [of _ "pixel_buffer t"])
  next
    fix n t1
    assume n: "n < 4" and d: "planes_drawn ?f y s len t n t1"
    then have t1: "length (pixel_buffer t1) = 4" "length (pixel_buffer t1 ! n) = 38400"
      using ok by (auto simp: planes_drawn_def term_ok_def)
    from blit_plane_spec [OF t1(1) n t1(2) bm(2) y] obtain buf where buf:
      "blit_plane bm (int y) (int s) (int len) n t1 =
        ROk (t1\<lparr>pixel_buffer := (pixel_buffer t1)[n := buf], io := io t1 @ plane_actions buf y n\<rparr>)"
      "rows_drawn (\<lambda>r c. bit (bm ! (r * (12 * len) + c)) n) y s len (pixel_buffer t1 ! n) 18 buf" by blast
    have "rows_drawn (?f n) y s len (pixel_buffer t1 ! n) 18 buf"
      using bm(3) by (intro rows_drawn_cong [OF buf(2)]) simp
    with buf(1) planes_drawn_step [OF d n refl]
    show "\<exists>t2. blit_plane bm (int y) (int s) (int len) n t1 = ROk t2 \<and> planes_drawn ?f y s len t (Suc n) t2" by blast
  qed
  then show ?thesis using bm(1) by (simp add: blit_line_def)
qed

section \<open>What a line looks like\<close>

definition screen_pixel :: "byte list \<Rightarrow> terminal \<Rightarrow> nat \<Rightarrow> nat \<Rightarrow> byte" where
  "screen_pixel font t X Y = cell_pixel font t (53 * (Y div 18)) (Y mod 18) X"

lemma cell_pixel_shift: "12 * s \<le> X \<Longrightarrow> cell_pixel font t (k + s) r (X - 12 * s) = cell_pixel font t k r X"
proof -
  assume "12 * s \<le> X"
  then obtain c where c: "X = c + 12 * s" by (metis le_add_diff_inverse2)
  then show ?thesis by (simp add: cell_pixel_def add.assoc add.commute)
qed

text \<open>\<open>redraws t t'\<close>: only the planes and the recorded actions changed.\<close>

definition redraws :: "terminal \<Rightarrow> terminal \<Rightarrow> bool" where
  "redraws t t' \<longleftrightarrow> (\<exists>bufs ios. t' = t\<lparr>pixel_buffer := bufs, io := io t @ ios\<rparr> \<and> length bufs = 4 \<and> (\<forall>i < 4. length (bufs ! i) = 38400))"

lemma redraws_refl: "term_ok t \<Longrightarrow> redraws t t"
  unfolding redraws_def term_ok_def by (intro exI [of _ "pixel_buffer t"] exI [of _ "[]"]) simp

lemma redraws_trans:
  assumes "redraws t u" "redraws u v"
  shows "redraws t v"
proof -
  from assms obtain b1 i1 b2 i2 where "u = t\<lparr>pixel_buffer := b1, io := io t @ i1\<rparr>"
    "v = u\<lparr>pixel_buffer := b2, io := io u @ i2\<rparr>" "length b2 = 4" "\<forall>i < 4. length (b2 ! i) = 38400"
    unfolding redraws_def by blast
  then show ?thesis unfolding redraws_def by (intro exI [of _ b2] exI [of _ "i1 @ i2"]) simp
qed

lemma redraws_ok: "redraws t t' \<Longrightarrow> term_ok t \<Longrightarrow> term_ok t'"
  by (auto simp: redraws_def term_ok_def)

lemma redraws_fields:
  assumes "redraws t t'"
  shows "characters t' = characters t" "colors t' = colors t" "current_colors t' = current_colors t"
    "cursorX t' = cursorX t" "cursorY t' = cursorY t" "cursorBlink t' = cursorBlink t" "cursorShow t' = cursorShow t"
    "palette t' = palette t"
  using assms by (auto simp: redraws_def)

lemma planes_redraw: "planes_drawn f y s len t 4 t' \<Longrightarrow> term_ok t \<Longrightarrow> redraws t t'"
  by (auto simp: planes_drawn_def redraws_def term_ok_def rows_drawn_def)

lemma blit_line_redraws:
  assumes "term_ok t" "length font = 13824" "0 \<le> y" "y < 26" "0 \<le> s" "s \<le> e + 1" "e < 53"
  shows "\<exists>t'. blit_line font y s e t = ROk t' \<and> redraws t t'"
proof -
  have "int (nat s) + int (nat (e - s + 1)) - 1 = e" "nat s + nat (e - s + 1) \<le> 53" "nat y < 26" using assms(3-) by linarith+
  with blit_line_planes [OF assms(1,2), of "nat y" "nat s" "nat (e - s + 1)"] planes_redraw [OF _ assms(1)] assms(3,5)
  show ?thesis by fastforce
qed

lemma line_region:
  "18 * y \<le> Y \<and> Y < 18 * y + 18 \<and> 12 * s \<le> X \<and> X < 12 * (e + 1) \<longleftrightarrow> Y div 18 = y \<and> s \<le> X div 12 \<and> X div 12 \<le> e"
  for X Y y s e :: nat
proof -
  have Y: "Y = 18 * (Y div 18) + Y mod 18" "Y mod 18 < 18" and X: "X = 12 * (X div 12) + X mod 12" "X mod 12 < 12" by simp_all
  have "18 * y \<le> Y \<and> Y < 18 * y + 18 \<longleftrightarrow> Y div 18 = y" using Y by (intro iffI conjI; linarith)
  moreover have "12 * s \<le> X \<longleftrightarrow> s \<le> X div 12" using X by (intro iffI; linarith)
  moreover have "X < 12 * (e + 1) \<longleftrightarrow> X div 12 \<le> e"
    using div_less_iff_less_mult [of 12 X "e + 1"] by (simp add: less_Suc_eq_le mult.commute)
  ultimately show ?thesis by blast
qed

lemma planes_pixel:
  assumes d: "planes_drawn (\<lambda>i r c. r < 18 \<and> c < 12 * (e - s + 1) \<and> bit (cell_pixel font t (53 * y + s) r c) i) y s (e - s + 1) t 4 t'"
    and i: "i < 4" "X < 640" "Y < 480" "s \<le> e"
  shows "pixel t' i X Y = (if Y div 18 = y \<and> s \<le> X div 12 \<and> X div 12 \<le> e
      then bit (screen_pixel font t X Y) i \<or> (even e \<and> X = 12 * e + 11 \<and> pixel t i X Y) else pixel t i X Y)"
proof -
  let ?f = "\<lambda>r c. r < 18 \<and> c < 12 * (e - s + 1) \<and> bit (cell_pixel font t (53 * y + s) r c) i"
  have len: "s + (e - s + 1) = e + 1" using i(4) by simp
  have stk: "stuck s (e - s + 1) X \<longleftrightarrow> even e \<and> X = 12 * e + 11" for X unfolding stuck_def len by auto
  have "rows_drawn ?f y s (e - s + 1) (pixel_buffer t ! i) 18 (pixel_buffer t' ! i)"
    using d i(1) by (auto simp: planes_drawn_def)
  then have p: "pixel t' i X Y = (if Y div 18 = y \<and> s \<le> X div 12 \<and> X div 12 \<le> e
      then ?f (Y - 18 * y) (X - 12 * s) \<or> (even e \<and> X = 12 * e + 11) \<and> pixel t i X Y else pixel t i X Y)"
    using i(2,3) unfolding rows_drawn_def pixel_def len line_region stk by simp
  show ?thesis
  proof (cases "Y div 18 = y \<and> s \<le> X div 12 \<and> X div 12 \<le> e")
    case True
    then have r: "18 * y \<le> Y" "Y < 18 * y + 18" "12 * s \<le> X" "X < 12 * (e + 1)" using line_region [of y Y s X e] by blast+
    then have "Y - 18 * y < 18" "X - 12 * s < 12 * (e - s + 1)" using i(4) by auto
    moreover have "Y - 18 * y = Y mod 18" using True by (simp add: minus_mult_div_eq_mod [symmetric])
    ultimately show ?thesis
      using p True cell_pixel_shift [OF r(3), of font t "53 * y" "Y mod 18"] by (simp add: screen_pixel_def)
  next
    case False
    show ?thesis unfolding p if_not_P [OF False] ..
  qed
qed

lemma blit_line_drawn:
  assumes "term_ok t" "length font = 13824" "y < 26" "s \<le> e" "e < 53"
  shows "\<exists>t'. blit_line font (int y) (int s) (int e) t = ROk t' \<and>
    planes_drawn (\<lambda>i r c. r < 18 \<and> c < 12 * (e - s + 1) \<and> bit (cell_pixel font t (53 * y + s) r c) i) y s (e - s + 1) t 4 t'"
proof -
  have len: "s + (e - s + 1) \<le> 53" "int s + int (e - s + 1) - 1 = int e" using assms(4,5) by simp_all
  from blit_line_planes [OF assms(1-3) len(1)] show ?thesis unfolding len(2) .
qed

text \<open>
  C12: drawing. \<open>blit_line\<close> on columns \<open>s\<close> to \<open>e\<close> of line \<open>y\<close> reads and writes only inside its arrays,
  and afterwards every pixel of those cells, in every plane, is the pixel of the cell's glyph in the
  cell's colours, every other pixel is unchanged, and so is the rest of the terminal. The one exception is
  the last pixel column when \<open>e\<close> is even: there the new pixel is joined with the old one.
\<close>

theorem blit_line_draws:
  assumes "term_ok t" and "length font = 13824" and "y < 26" and "s \<le> e" and "e < 53"
  shows "\<exists>t'. blit_line font (int y) (int s) (int e) t = ROk t' \<and> redraws t t' \<and>
    (\<forall>i < 4. \<forall>X < 640. \<forall>Y < 480. pixel t' i X Y =
       (if Y div 18 = y \<and> s \<le> X div 12 \<and> X div 12 \<le> e
        then bit (screen_pixel font t X Y) i \<or> (even e \<and> X = 12 * e + 11 \<and> pixel t i X Y)
        else pixel t i X Y))"
proof -
  from blit_line_drawn [OF assms] obtain t' where t': "blit_line font (int y) (int s) (int e) t = ROk t'"
    "planes_drawn (\<lambda>i r c. r < 18 \<and> c < 12 * (e - s + 1) \<and> bit (cell_pixel font t (53 * y + s) r c) i) y s (e - s + 1) t 4 t'"
    by blast
  show ?thesis
    by (intro exI [of _ t'] conjI allI impI t'(1) planes_redraw [OF t'(2) assms(1)] planes_pixel [OF t'(2) _ _ _ assms(4)])
qed

definition white_screen :: terminal where
  "white_screen = term_globals\<lparr>pixel_buffer := replicate 4 (replicate 38400 0xFF)\<rparr>"

lemma white_ok: "term_ok white_screen"
  by (simp add: term_ok_def white_screen_def term_globals_def)

theorem blit_line_draws_witness:
  "\<exists>t'. blit_line (replicate 13824 0) 3 4 9 white_screen = ROk t' \<and> redraws white_screen t'"
  using blit_line_draws [OF white_ok, of "replicate 13824 0" 3 4 9] by auto

text \<open>
  a stale pixel. In the last pixel column of a run that ends at an even column, a pixel that is set
  stays set whatever is drawn there: the mask \<open>(1 << (8 - boff)) - 1\<close> keeps five old bits where four
  belong to the next cell. \<open>blit_screen\<close> ends every line at column 52, and \<open>termInit\<close> sets every pixel.
\<close>

theorem blit_line_stale_pixel:
  assumes "term_ok t" and "length font = 13824" and "Y div 18 < 26" and "s \<le> e" and "e < 53" and "even e"
    and "i < 4" and "pixel t i (12 * e + 11) Y"
  shows "\<exists>t'. blit_line font (int (Y div 18)) (int s) (int e) t = ROk t' \<and> pixel t' i (12 * e + 11) Y"
proof -
  from blit_line_drawn [OF assms(1-5)] obtain t' where t': "blit_line font (int (Y div 18)) (int s) (int e) t = ROk t'"
    "planes_drawn (\<lambda>i r c. r < 18 \<and> c < 12 * (e - s + 1) \<and> bit (cell_pixel font t (53 * (Y div 18) + s) r c) i) (Y div 18) s (e - s + 1) t 4 t'"
    by blast
  have "12 * e + 11 < 640" "Y < 480" using assms(3,5) by auto
  from planes_pixel [OF t'(2) assms(7) this assms(4)] t'(1) assms(6,8) show ?thesis by auto
qed

theorem blit_line_stale_pixel_witness:
  "\<exists>t'. blit_line (replicate 13824 0) 0 0 52 white_screen = ROk t' \<and> pixel t' 2 635 7"
proof -
  have "pixel white_screen 2 635 7" by (simp add: pixel_def pix_def white_screen_def)
  then show ?thesis using blit_line_stale_pixel [OF white_ok, of "replicate 13824 0" 7 0 52 2] by simp
qed

end
