(* ===== verification/TerminalOps.thy ===== *)
theory TerminalOps
  imports TerminalDraw
begin

text \<open>
  The functions of the \<open>term\<close> library on the grid of cells: what each writes, that none leaves the
  arrays (\<open>term_blit\<close> off the screen excepted), and that the colours read back.
\<close>

section \<open>Redrawing never fails\<close>

definition cell :: "terminal \<Rightarrow> nat \<Rightarrow> nat \<Rightarrow> byte \<times> byte" where
  "cell t x y = (characters t ! (53 * y + x), colors t ! (53 * y + x))"

lemma cell_redraws: "redraws t t' \<Longrightarrow> cell t' = cell t"
  by (auto simp: cell_def redraws_fields fun_eq_iff)

lemma blit_screen_redraws:
  assumes "term_ok t" "length font = 13824"
  shows "\<exists>t'. blit_screen font t = ROk t' \<and> redraws t t'"
proof -
  have "\<exists>t'. rfold (\<lambda>i. blit_line font i 0 52) (map int [0..<26]) t = ROk t' \<and> redraws t t'"
  proof (rule rfold_upt)
    show "redraws t t" by (rule redraws_refl [OF assms(1)])
  next
    fix n :: nat and t1
    assume "n < 26" and r: "redraws t t1"
    then show "\<exists>t2. blit_line font (int n) 0 52 t1 = ROk t2 \<and> redraws t t2"
      using blit_line_redraws [OF redraws_ok [OF r assms(1)] assms(2), of "int n" 0 52] redraws_trans [OF r] by fastforce
  qed
  then show ?thesis using upto_int [of 26] by (simp add: blit_screen_def)
qed

lemma redraws_act: "term_ok t \<Longrightarrow> redraws t (act as t)"
  unfolding redraws_def term_ok_def act_def by (intro exI [of _ "pixel_buffer t"] exI [of _ as]) simp

lemma redrawCursor_redraws:
  assumes "term_ok t" "length font = 13824"
  shows "\<exists>t'. redrawCursor font t = ROk t' \<and> redraws t t'"
proof (cases "cursor_visible t")
  case True
  then obtain t1 where t1: "blit_line font (cursorY t) (cursorX t) (cursorX t) t = ROk t1" "redraws t t1"
    using blit_line_redraws [OF assms, of "cursorY t" "cursorX t" "cursorX t"] by (auto simp: cursor_visible_def)
  with True redraws_trans [OF t1(2) redraws_act [OF redraws_ok [OF t1(2) assms(1)]]] show ?thesis
    by (auto simp: redrawCursor_def cursor_visible_def)
next
  case False
  with redraws_refl [OF assms(1)] show ?thesis by (auto simp: redrawCursor_def cursor_visible_def)
qed

section \<open>Writing\<close>

text \<open>\<open>grid_set t f t'\<close>: the cells of \<open>t'\<close> are given by \<open>f\<close>; the rest is as in \<open>t\<close>.\<close>

definition grid_set :: "terminal \<Rightarrow> (nat \<Rightarrow> nat \<Rightarrow> byte \<times> byte) \<Rightarrow> terminal \<Rightarrow> bool" where
  "grid_set t f t' \<longleftrightarrow> t' = t\<lparr>characters := characters t', colors := colors t'\<rparr> \<and> term_ok t'
     \<and> (\<forall>x < 53. \<forall>y < 26. cell t' x y = f x y)"

lemma grid_set_fields:
  assumes "grid_set t f t'"
  shows "cursorX t' = cursorX t" "cursorY t' = cursorY t" "current_colors t' = current_colors t" "term_ok t'"
  using assms unfolding grid_set_def by (metis terminal.select_convs terminal.surjective terminal.update_convs(1,2))+

lemma cell_index: "x < 53 \<Longrightarrow> x' < 53 \<Longrightarrow> 53 * y + x = 53 * y' + x' \<longleftrightarrow> x = x' \<and> y = (y' :: nat)"
  using div_mod_row [of x 53 y] div_mod_row [of x' 53 y'] by (metis mult.commute)

lemma write_cells_spec:
  assumes "term_ok t" "y < 26"
  shows "\<exists>t'. write_cells (int y) cs x t = ROk t' \<and> grid_set t
    (\<lambda>x' y'. if y' = y \<and> 0 \<le> int x' - x \<and> int x' - x < int (length cs) then cs ! nat (int x' - x) else cell t x' y') t'"
  using assms(1)
proof (induction cs arbitrary: x t)
  case Nil
  then show ?case by (auto simp: grid_set_def)
next
  case (Cons c cs)
  consider (off) "53 \<le> x" | (left) "x < 0" | (on) n where "x = int n" "n < 53"
    by (metis nat_less_iff not_le nat_eq_iff2 of_nat_numeral)
  then show ?case
  proof cases
    case off
    then show ?thesis using Cons.prems by (auto simp: grid_set_def)
  next
    case left
    then obtain t' where t': "write_cells (int y) cs (x + 1) t = ROk t'" "grid_set t
      (\<lambda>x' y'. if y' = y \<and> 0 \<le> int x' - (x + 1) \<and> int x' - (x + 1) < int (length cs) then cs ! nat (int x' - (x + 1)) else cell t x' y') t'"
      using Cons.IH [OF Cons.prems] by blast
    have "nat (int x' - x) = Suc (nat (int x' - (x + 1)))" for x' using left by simp
    with t'(2) left have "grid_set t (\<lambda>x' y'. if y' = y \<and> 0 \<le> int x' - x \<and> int x' - x < int (length (c # cs))
        then (c # cs) ! nat (int x' - x) else cell t x' y') t'" by (simp add: grid_set_def)
    with t'(1) left show ?thesis by auto
  next
    case on
    let ?t = "t\<lparr>characters := (characters t)[53 * y + n := fst c], colors := (colors t)[53 * y + n := snd c]\<rparr>"
    have ok: "term_ok ?t" using Cons.prems by (simp add: term_ok_def)
    have ix: "int y * 53 + x = int (53 * y + n)" "53 * y + n < 1378" using on assms(2) by simp_all
    have cell: "cell ?t x' y' = (if x' = n \<and> y' = y then c else cell t x' y')" if "x' < 53" for x' y'
      using cell_index [OF that on(2), of y' y] ix(2) Cons.prems by (auto simp: cell_def term_ok_def)
    have step: "write_cells (int y) (c # cs) x t = write_cells (int y) cs (x + 1) ?t"
      using on ix Cons.prems unfolding write_cells.simps ix(1) by (simp add: term_ok_def arr_set_nat del: of_nat_add of_nat_mult)
    from Cons.IH [OF ok, of "x + 1"] obtain t' where t': "write_cells (int y) cs (x + 1) ?t = ROk t'" "grid_set ?t
      (\<lambda>x' y'. if y' = y \<and> 0 \<le> int x' - (x + 1) \<and> int x' - (x + 1) < int (length cs) then cs ! nat (int x' - (x + 1)) else cell ?t x' y') t'"
      by blast
    have "(if y' = y \<and> 0 \<le> int x' - (x + 1) \<and> int x' - (x + 1) < int (length cs) then cs ! nat (int x' - (x + 1)) else cell ?t x' y') =
        (if y' = y \<and> 0 \<le> int x' - x \<and> int x' - x < int (length (c # cs)) then (c # cs) ! nat (int x' - x) else cell t x' y')"
      if "x' < 53" for x' y'
    proof (cases "x' = n")
      case True
      with on cell [OF that] show ?thesis by auto
    next
      case False
      then have "x < int x' \<longleftrightarrow> x \<le> int x'" "x < int x' \<Longrightarrow> nat (int x' - x) = Suc (nat (int x' - (x + 1)))" using on by auto
      with False cell [OF that] show ?thesis by auto
    qed
    with t'(2) have "grid_set t (\<lambda>x' y'. if y' = y \<and> 0 \<le> int x' - x \<and> int x' - x < int (length (c # cs))
        then (c # cs) ! nat (int x' - x) else cell t x' y') t'" by (simp add: grid_set_def)
    with t'(1) step show ?thesis by auto
  qed
qed

lemma after_write_redraws:
  assumes ok: "term_ok t" "length font = 13824" and y: "0 \<le> cursorY t" "cursorY t < 26"
    and x: "- (2 ^ 31) \<le> cursorX t" "cursorX t < 53" and len: "len < 2 ^ 62"
  shows "\<exists>t' t2. after_write font len t = ROk t' \<and> redraws t t2
    \<and> redraws (t2\<lparr>cursorX := wrap32 (cursorX t + int len)\<rparr>) t'"
proof -
  define e where "e = (cursorX t + int len) mod 2 ^ 64"
  define s r where "s = (if cursorX t > 0 then cursorX t else 0)" and "r = (if e \<ge> 53 then 53 - 1 else wrap32 (e - 1))"
  have e: "0 \<le> e" "cursorX t > 0 \<Longrightarrow> e = cursorX t + int len" using x len by (simp_all add: e_def)
  have r: "0 \<le> s" "s \<le> r + 1" "r < 53" if "e > 0" using that e x by (auto simp: s_def r_def)
  have "\<exists>t1. (if e > 0 then blit_line font (cursorY t) s r t else ROk t) = ROk t1 \<and> redraws t t1"
    using blit_line_redraws [OF ok y r] redraws_refl [OF ok(1)] by (cases "e > 0") simp_all
  then obtain t1 where t1: "(if e > 0 then blit_line font (cursorY t) s r t else ROk t) = ROk t1" "redraws t t1" by blast
  have ok1: "term_ok t1" by (rule redraws_ok [OF t1(2) ok(1)])
  obtain t2 where t2: "(if cursor_visible t1 then blit_line font (cursorY t1) (cursorX t1) (cursorX t1) t1 else ROk t1) = ROk t2"
    "redraws t1 t2"
    using blit_line_redraws [OF ok1 ok(2), of "cursorY t1" "cursorX t1" "cursorX t1"] redraws_refl [OF ok1]
    by (cases "cursor_visible t1") (auto simp: cursor_visible_def)
  have "term_ok (t2\<lparr>cursorX := wrap32 (cursorX t2 + int len)\<rparr>)" using redraws_ok [OF t2(2) ok1] by (simp add: term_ok_def)
  from redrawCursor_redraws [OF this ok(2)] obtain t3
    where t3: "redrawCursor font (t2\<lparr>cursorX := wrap32 (cursorX t2 + int len)\<rparr>) = ROk t3"
      "redraws (t2\<lparr>cursorX := wrap32 (cursorX t2 + int len)\<rparr>) t3" by blast
  have "cursorX t2 = cursorX t" using redraws_fields(4) t1(2) t2(2) by metis
  with t3 redraws_trans [OF t1(2) t2(2)] show ?thesis
    unfolding after_write_def Let_def e_def [symmetric] s_def [symmetric] r_def [symmetric] t1(1) rbind_simps t2(1) by auto
qed

lemma written:
  assumes g: "grid_set t f t1" and w: "redraws t1 t2" "redraws (t2\<lparr>cursorX := X\<rparr>) t'"
  shows "term_ok t'" "cursorX t' = X" "cursorY t' = cursorY t" "current_colors t' = current_colors t" "palette t' = palette t"
    "\<forall>x < 53. \<forall>y < 26. cell t' x y = f x y"
proof -
  have "term_ok t2" using redraws_ok [OF w(1)] grid_set_fields(4) [OF g] by blast
  then have "term_ok (t2\<lparr>cursorX := X\<rparr>)" by (simp add: term_ok_def)
  then show "term_ok t'" by (rule redraws_ok [OF w(2)])
  note a = redraws_fields [OF w(1)] and b = redraws_fields [OF w(2)]
  have "palette t1 = palette t" using g unfolding grid_set_def by (metis terminal.select_convs(8) terminal.surjective terminal.update_convs(1,2))
  then show "cursorX t' = X" "cursorY t' = cursorY t" "current_colors t' = current_colors t" "palette t' = palette t"
    using a b grid_set_fields [OF g] by simp_all
  have "cell t' = cell t1" using cell_redraws [OF w(2)] cell_redraws [OF w(1)] by (simp add: cell_def fun_eq_iff)
  then show "\<forall>x < 53. \<forall>y < 26. cell t' x y = f x y" using g by (simp add: grid_set_def)
qed

text \<open>
  C23: writing text. With the cursor on a line of the screen and at or left of its right edge,
  \<open>term.write\<close> stays inside its arrays, puts the characters that fall on the screen, in the current
  colours, into the cells from the cursor on, changes no other cell, and moves the cursor by the length.
\<close>

theorem term_write_effect:
  assumes "term_ok t" and "length font = 13824" and "0 \<le> cursorY t" and "cursorY t < 26"
    and "- (2 ^ 31) \<le> cursorX t" and "cursorX t < 53" and "length str < 2 ^ 62"
  shows "\<exists>t'. term_write font str t = ROk t' \<and> term_ok t'
    \<and> cursorX t' = wrap32 (cursorX t + int (length str)) \<and> cursorY t' = cursorY t
    \<and> (\<forall>x < 53. \<forall>y < 26. cell t' x y =
        (if int y = cursorY t \<and> 0 \<le> int x - cursorX t \<and> int x - cursorX t < int (length str)
         then (str ! nat (int x - cursorX t), current_colors t) else cell t x y))"
proof -
  obtain Y where Y: "cursorY t = int Y" "Y < 26" using assms(3,4) by (metis nat_less_iff nat_eq_iff2 of_nat_numeral)
  let ?cs = "map (\<lambda>c. (c, current_colors t)) str"
  from write_cells_spec [OF assms(1) Y(2), of ?cs "cursorX t"] obtain t1
    where t1: "write_cells (int Y) ?cs (cursorX t) t = ROk t1" "grid_set t (\<lambda>x' y'. if y' = Y \<and> 0 \<le> int x' - cursorX t
      \<and> int x' - cursorX t < int (length ?cs) then ?cs ! nat (int x' - cursorX t) else cell t x' y') t1" by blast
  note f = grid_set_fields [OF t1(2)]
  from after_write_redraws [OF f(4) assms(2), unfolded f(1,2), OF assms(3-7)] obtain t' t2
    where t': "after_write font (length str) t1 = ROk t'" "redraws t1 t2"
      "redraws (t2\<lparr>cursorX := wrap32 (cursorX t + int (length str))\<rparr>) t'" by blast
  have "term_write font str t = ROk t'"
    using assms(3,4,6) t1(1) t'(1) Y(1) by (simp add: term_write_def)
  moreover have "(if y = Y \<and> 0 \<le> int x - cursorX t \<and> int x - cursorX t < int (length ?cs) then ?cs ! nat (int x - cursorX t) else cell t x y) =
      (if int y = cursorY t \<and> 0 \<le> int x - cursorX t \<and> int x - cursorX t < int (length str)
         then (str ! nat (int x - cursorX t), current_colors t) else cell t x y)" for x y
    by (auto simp: Y(1))
  ultimately show ?thesis using written [OF t1(2) t'(2,3)] by simp
qed

section \<open>Scrolling and clearing\<close>

lemma arr_fill_nth:
  assumes "0 \<le> off" "0 \<le> n" "off + n \<le> int (length xs)"
  shows "\<exists>ys. arr_fill xs off n v = ROk ys \<and> length ys = length xs
    \<and> (\<forall>k < length xs. ys ! k = (if off \<le> int k \<and> int k < off + n then v else xs ! k))"
proof -
  obtain a b where ab: "off = int a" "n = int b" using assms(1,2) by (metis nonneg_int_cases)
  let ?ys = "take a xs @ replicate b v @ drop (a + b) xs"
  have "arr_fill xs off n v = ROk ?ys" using assms ab by (simp add: arr_fill_def nat_int_add)
  moreover have "length ?ys = length xs" using assms(3) ab by simp
  moreover have "?ys ! k = (if off \<le> int k \<and> int k < off + n then v else xs ! k)" if "k < length xs" for k
    using that assms(3) ab by (auto simp: nth_append)
  ultimately show ?thesis by blast
qed

lemma arr_move_nth:
  assumes "0 \<le> dst" "0 \<le> src" "0 \<le> n" "dst + n \<le> int (length xs)" "src + n \<le> int (length xs)"
  shows "\<exists>ys. arr_move xs dst src n = ROk ys \<and> length ys = length xs
    \<and> (\<forall>k < length xs. ys ! k = (if dst \<le> int k \<and> int k < dst + n then xs ! nat (int k - dst + src) else xs ! k))"
proof -
  obtain a b c where abc: "dst = int a" "n = int b" "src = int c" using assms(1-3) by (metis nonneg_int_cases)
  let ?ys = "take a xs @ take b (drop c xs) @ drop (a + b) xs"
  have "arr_move xs dst src n = ROk ?ys" using assms abc by (simp add: arr_move_def nat_int_add)
  moreover have "length ?ys = length xs" using assms(4,5) abc by simp
  moreover have "?ys ! k = (if dst \<le> int k \<and> int k < dst + n then xs ! nat (int k - dst + src) else xs ! k)" if "k < length xs" for k
  proof -
    have "nat (int k - dst + src) = c + (k - a)" if "a \<le> k" using that abc by simp
    with that assms(4,5) abc show ?thesis by (auto simp: nth_append)
  qed
  ultimately show ?thesis by blast
qed

text \<open>An array moved by \<open>n\<close> lines, blank lines coming in.\<close>

definition moved :: "'a list \<Rightarrow> int \<Rightarrow> 'a \<Rightarrow> 'a list \<Rightarrow> bool" where
  "moved xs n v ys \<longleftrightarrow> length ys = 1378
     \<and> (\<forall>k < 1378. ys ! k = (if 0 \<le> int k + 53 * n \<and> int k + 53 * n < 1378 then xs ! nat (int k + 53 * n) else v))"

lemma move_up:
  assumes "length xs = 1378" "0 < n" "n < 26"
  shows "\<exists>c ys. arr_move xs 0 (n * 53) ((26 - n) * 53) = ROk c \<and> arr_fill c ((26 - n) * 53) (n * 53) v = ROk ys \<and> moved xs n v ys"
proof -
  from arr_move_nth [of 0 "n * 53" "(26 - n) * 53" xs] assms obtain c where c: "arr_move xs 0 (n * 53) ((26 - n) * 53) = ROk c"
    "length c = 1378" "\<forall>k < 1378. c ! k = (if int k < (26 - n) * 53 then xs ! nat (int k + n * 53) else xs ! k)" by auto
  from arr_fill_nth [of "(26 - n) * 53" "n * 53" c v] assms c(2) obtain ys where ys: "arr_fill c ((26 - n) * 53) (n * 53) v = ROk ys"
    "length ys = 1378" "\<forall>k < 1378. ys ! k = (if (26 - n) * 53 \<le> int k \<and> int k < 1378 then v else c ! k)" by auto
  have "moved xs n v ys" unfolding moved_def
  proof (intro conjI allI impI ys(2))
    fix k :: nat
    assume k: "k < 1378"
    then show "ys ! k = (if 0 \<le> int k + 53 * n \<and> int k + 53 * n < 1378 then xs ! nat (int k + 53 * n) else v)"
      using ys(3) c(3) assms(2) by (cases "(26 - n) * 53 \<le> int k") (auto simp: mult.commute)
  qed
  with c(1) ys(1) show ?thesis by blast
qed

lemma move_down:
  assumes "length xs = 1378" "- 26 < n" "n < 0"
  shows "\<exists>c ys. arr_move xs (- n * 53) 0 ((26 + n) * 53) = ROk c \<and> arr_fill c 0 (- n * 53) v = ROk ys \<and> moved xs n v ys"
proof -
  from arr_move_nth [of "- n * 53" 0 "(26 + n) * 53" xs] assms obtain c where c: "arr_move xs (- n * 53) 0 ((26 + n) * 53) = ROk c"
    "length c = 1378" "\<forall>k < 1378. c ! k = (if - n * 53 \<le> int k \<and> int k < 1378 then xs ! nat (int k + n * 53) else xs ! k)" by auto
  from arr_fill_nth [of 0 "- n * 53" c v] assms c(2) obtain ys where ys: "arr_fill c 0 (- n * 53) v = ROk ys"
    "length ys = 1378" "\<forall>k < 1378. ys ! k = (if int k < - n * 53 then v else c ! k)" by auto
  have "moved xs n v ys" unfolding moved_def
  proof (intro conjI allI impI ys(2))
    fix k :: nat
    assume k: "k < 1378"
    then show "ys ! k = (if 0 \<le> int k + 53 * n \<and> int k + 53 * n < 1378 then xs ! nat (int k + 53 * n) else v)"
      using ys(3) c(3) assms(3) by (cases "int k < - n * 53") (auto simp: mult.commute)
  qed
  with c(1) ys(1) show ?thesis by blast
qed

lemma clear_all:
  assumes "length xs = 1378" "26 \<le> n \<or> n \<le> - 26"
  shows "\<exists>ys. arr_fill xs 0 (53 * 26) v = ROk ys \<and> moved xs n v ys"
proof -
  from arr_fill_nth [of 0 "53 * 26" xs v] assms(1) obtain ys where ys: "arr_fill xs 0 (53 * 26) v = ROk ys"
    "length ys = 1378" "\<forall>k < 1378. ys ! k = v" by auto
  then have "moved xs n v ys" using assms(2) by (auto simp: moved_def)
  with ys(1) show ?thesis by blast
qed

lemma moved_cells:
  assumes m: "moved (characters t) n 32 chs" "moved (colors t) n (current_colors t) cols" and ok: "term_ok t"
  shows "grid_set t (\<lambda>x y. if 0 \<le> int y + n \<and> int y + n < 26 then cell t x (nat (int y + n)) else (32, current_colors t))
    (t\<lparr>characters := chs, colors := cols\<rparr>)"
proof -
  have "cell (t\<lparr>characters := chs, colors := cols\<rparr>) x y =
      (if 0 \<le> int y + n \<and> int y + n < 26 then cell t x (nat (int y + n)) else (32, current_colors t))"
    if xy: "x < 53" "y < 26" for x y
  proof -
    have k: "53 * y + x < 1378" using xy by simp
    have cond: "0 \<le> int (53 * y + x) + 53 * n \<and> int (53 * y + x) + 53 * n < 1378 \<longleftrightarrow> 0 \<le> int y + n \<and> int y + n < 26"
      using xy by (intro iffI; simp; linarith)
    have "nat (int (53 * y + x) + 53 * n) = 53 * nat (int y + n) + x" if "0 \<le> int y + n" using that by simp
    moreover have "chs ! (53 * y + x) = (if 0 \<le> int y + n \<and> int y + n < 26 then characters t ! nat (int (53 * y + x) + 53 * n) else 32)"
      "cols ! (53 * y + x) = (if 0 \<le> int y + n \<and> int y + n < 26 then colors t ! nat (int (53 * y + x) + 53 * n) else current_colors t)"
      unfolding cond [symmetric] using m k unfolding moved_def by blast+
    ultimately show ?thesis by (simp add: cell_def)
  qed
  with m ok show ?thesis by (simp add: grid_set_def term_ok_def moved_def)
qed

lemma scroll_grid:
  assumes ok: "term_ok t" and n: "- (2 ^ 31) < n" "n < 2 ^ 31"
  shows "\<exists>chs cols. term_scroll font n t = blit_screen font (t\<lparr>characters := chs, colors := cols\<rparr>)
    \<and> (moved (characters t) n 32 chs \<and> moved (colors t) n (current_colors t) cols \<or> n = 0 \<and> chs = characters t \<and> cols = colors t)"
proof -
  have len: "length (characters t) = 1378" "length (colors t) = 1378" using ok by (simp_all add: term_ok_def)
  have w: "wrap32 n = n" "n \<noteq> - (2 ^ 31)" using n by simp_all
  note def = term_scroll_def Let_def w(1)
  consider (all) "26 \<le> n \<or> n \<le> - 26" | (up) "0 < n" "n < 26" | (down) "- 26 < n" "n < 0" | (none) "n = 0" by linarith
  then show ?thesis
  proof cases
    case all
    from clear_all [OF len(1) all, of 32] clear_all [OF len(2) all, of "current_colors t"] obtain chs cols where
      m: "arr_fill (characters t) 0 (53 * 26) 32 = ROk chs" "moved (characters t) n 32 chs"
      "arr_fill (colors t) 0 (53 * 26) (current_colors t) = ROk cols" "moved (colors t) n (current_colors t) cols" by blast
    then have "term_scroll font n t = blit_screen font (t\<lparr>characters := chs, colors := cols\<rparr>)" using all w(2) by (auto simp: def)
    with m show ?thesis by blast
  next
    case up
    from move_up [OF len(1) up, of 32] move_up [OF len(2) up, of "current_colors t"] obtain c chs d cols where
      m: "arr_move (characters t) 0 (n * 53) ((26 - n) * 53) = ROk c" "arr_fill c ((26 - n) * 53) (n * 53) 32 = ROk chs"
      "moved (characters t) n 32 chs" "arr_move (colors t) 0 (n * 53) ((26 - n) * 53) = ROk d"
      "arr_fill d ((26 - n) * 53) (n * 53) (current_colors t) = ROk cols" "moved (colors t) n (current_colors t) cols" by blast
    then have "term_scroll font n t = blit_screen font (t\<lparr>characters := chs, colors := cols\<rparr>)" using up w(2) by (simp add: def)
    with m show ?thesis by blast
  next
    case down
    from move_down [OF len(1) down, of 32] move_down [OF len(2) down, of "current_colors t"] obtain c chs d cols where
      m: "arr_move (characters t) (- n * 53) 0 ((26 + n) * 53) = ROk c" "arr_fill c 0 (- n * 53) 32 = ROk chs"
      "moved (characters t) n 32 chs" "arr_move (colors t) (- n * 53) 0 ((26 + n) * 53) = ROk d"
      "arr_fill d 0 (- n * 53) (current_colors t) = ROk cols" "moved (colors t) n (current_colors t) cols" by blast
    then have "term_scroll font n t = blit_screen font (t\<lparr>characters := chs, colors := cols\<rparr>)" using down w(2) by (simp add: def)
    with m show ?thesis by blast
  next
    case none
    with w show ?thesis by (intro exI [of _ "characters t"] exI [of _ "colors t"]) (simp add: def)
  qed
qed

lemma grid_redraws:
  assumes "grid_set t f t1" "redraws t1 t'"
  shows "term_ok t'" "cursorX t' = cursorX t" "cursorY t' = cursorY t" "current_colors t' = current_colors t"
    "\<forall>x < 53. \<forall>y < 26. cell t' x y = f x y"
  using assms grid_set_fields [OF assms(1)] redraws_fields [OF assms(2)] cell_redraws [OF assms(2)] redraws_ok [OF assms(2)]
  by (auto simp: grid_set_def)

text \<open>
  C24: scrolling. \<open>term.scroll\<close> by \<open>n\<close> lines, either way, stays inside its arrays and moves every line
  by \<open>n\<close>; the lines that come in are blank in the current colours. The cursor and the colours stay.
\<close>

theorem term_scroll_effect:
  assumes "term_ok t" and "length font = 13824" and "- (2 ^ 31) < n" and "n < 2 ^ 31"
  shows "\<exists>t'. term_scroll font n t = ROk t' \<and> term_ok t' \<and> cursorX t' = cursorX t \<and> cursorY t' = cursorY t
    \<and> current_colors t' = current_colors t \<and> (\<forall>x < 53. \<forall>y < 26. cell t' x y =
        (if 0 \<le> int y + n \<and> int y + n < 26 then cell t x (nat (int y + n)) else (32, current_colors t)))"
proof -
  let ?f = "\<lambda>x y. if 0 \<le> int y + n \<and> int y + n < 26 then cell t x (nat (int y + n)) else (32, current_colors t)"
  from scroll_grid [OF assms(1,3,4), of font] obtain chs cols where
    s: "term_scroll font n t = blit_screen font (t\<lparr>characters := chs, colors := cols\<rparr>)"
      "moved (characters t) n 32 chs \<and> moved (colors t) n (current_colors t) cols \<or> n = 0 \<and> chs = characters t \<and> cols = colors t" by blast
  have g: "grid_set t ?f (t\<lparr>characters := chs, colors := cols\<rparr>)"
    using s(2) moved_cells [OF _ _ assms(1), of n chs cols] assms(1) by (auto simp: grid_set_def)
  from blit_screen_redraws [OF grid_set_fields(4) [OF g] assms(2)] obtain t' where
    t': "blit_screen font (t\<lparr>characters := chs, colors := cols\<rparr>) = ROk t'" "redraws (t\<lparr>characters := chs, colors := cols\<rparr>) t'" by blast
  show ?thesis using s(1) t'(1) grid_redraws [OF g t'(2)] by simp
qed

theorem term_scroll_effect_witness:
  "\<exists>t'. term_scroll (replicate 13824 0) 3 white_screen = ROk t' \<and> cell t' 5 25 = (32, 0xF0)"
  using term_scroll_effect [OF white_ok, of "replicate 13824 0" 3] by (auto simp: white_screen_def term_globals_def)

theorem term_write_effect_witness:
  "\<exists>t'. term_write (replicate 13824 0) [72, 105] white_screen = ROk t' \<and> cell t' 1 0 = (105, 0xF0) \<and> cursorX t' = 2"
  using term_write_effect [OF white_ok, of "replicate 13824 0" "[72, 105]"]
  by (auto simp: white_screen_def term_globals_def)

section \<open>Safety of the library\<close>




definition term_inv :: "terminal \<Rightarrow> bool" where
  "term_inv t \<longleftrightarrow> term_ok t \<and> - (2 ^ 31) \<le> cursorX t"





lemma grid_redraw_inv: "grid_set t f t1 \<Longrightarrow> redraws t1 t' \<Longrightarrow> term_inv t \<Longrightarrow> term_inv t'"
  using grid_redraws(1,2) [of t f t1 t'] by (simp add: term_inv_def)





lemma int_log2_pow2: "int_log2 (2 ^ k) = int k"
proof -
  have "2 ^ k \<noteq> (0 :: nat)" by simp
  from bitlen_bounds [OF this] have b: "(2 :: nat) ^ (bitlen (2 ^ k) - 1) \<le> 2 ^ k" "(2 :: nat) ^ k < 2 ^ bitlen (2 ^ k)" by blast+
  then have "bitlen (2 ^ k) - 1 \<le> k" "k < bitlen (2 ^ k)" by (simp_all only: power_increasing_iff power_strict_increasing_iff one_less_numeral_iff semiring_norm)
  then show ?thesis by (simp add: int_log2_def nat_power_eq)
qed




section \<open>Colours\<close>

lemma nibbles:
  assumes "\<And>n. 4 \<le> n \<Longrightarrow> \<not> bit (w :: byte) n"
  shows "(c AND 0xF0 OR w) AND 0x0F = w" "drop_bit 4 (c AND 0xF0 OR w) = drop_bit 4 c"
    "drop_bit 4 (c AND 0x0F OR push_bit 4 w) = w" "(c AND 0x0F OR push_bit 4 w) AND 0x0F = c AND 0x0F"
proof -
  have m: "(0xF0 :: byte) = push_bit 4 (mask 4)" "(0x0F :: byte) = mask 4"
    by (simp_all add: mask_eq_exp_minus_1 push_bit_eq_mult)
  note bits = bit_and_iff bit_or_iff bit_push_bit_iff bit_drop_bit_eq bit_mask_iff
  have hi: "bit w n \<Longrightarrow> n < 4" for n using assms [of n] by (cases "n < 4") simp_all
  show "(c AND 0xF0 OR w) AND 0x0F = w" unfolding m by (rule bit_word_eqI) (auto simp: bits dest: hi)
  have lo: "bit c (4 + n) \<Longrightarrow> n < 4" for n using bit_imp_le_length [of c "4 + n"] by simp
  show "drop_bit 4 (c AND 0xF0 OR w) = drop_bit 4 c" unfolding m by (rule bit_word_eqI) (auto simp: bits dest: hi lo)
  show "drop_bit 4 (c AND 0x0F OR push_bit 4 w) = w" unfolding m by (rule bit_word_eqI) (auto simp: bits dest: hi)
  show "(c AND 0x0F OR push_bit 4 w) AND 0x0F = c AND 0x0F" unfolding m by (rule bit_word_eqI) (auto simp: bits dest: hi)
qed

lemma color_nibble:
  assumes "k < 16"
  shows "int_log2 (2 ^ k) AND 0x0F = int k" "push_bit 4 (int_log2 (2 ^ k)) AND 0xF0 = push_bit 4 (int k)"
    "unat (of_nat k :: byte) = k" "4 \<le> n \<Longrightarrow> \<not> bit (of_nat k :: byte) n"
proof -
  have k: "take_bit 4 (int k) = int k" "take_bit 4 k = k" using assms by (simp_all add: take_bit_int_eq_self_iff take_bit_nat_eq_self_iff)
  have m: "(0x0F :: int) = mask 4" "(0xF0 :: int) = push_bit 4 (mask 4)" by (simp_all add: mask_eq_exp_minus_1 push_bit_eq_mult)
  show "int_log2 (2 ^ k) AND 0x0F = int k" unfolding int_log2_pow2 m(1) using k(1) by (simp add: take_bit_eq_mask)
  show "push_bit 4 (int_log2 (2 ^ k)) AND 0xF0 = push_bit 4 (int k)"
    unfolding int_log2_pow2 m(2) push_bit_and [symmetric] using k(1) by (simp add: take_bit_eq_mask)
  show "unat (of_nat k :: byte) = k" using assms by (simp add: unsigned_of_nat take_bit_nat_eq_self_iff)
  show "4 \<le> n \<Longrightarrow> \<not> bit (of_nat k :: byte) n" using k(2) by (metis bit_of_nat_iff bit_take_bit_iff not_le)
qed

text \<open>
  the colours read back. Setting the text colour to one of the sixteen colours \<open>2 ^ k\<close> and
  reading it gives \<open>2 ^ k\<close> and leaves the background colour, and the other way round.
\<close>

theorem term_color_roundtrip:
  assumes "k < 16"
  shows "term_getTextColor (term_setTextColor (2 ^ k) t) = 2 ^ k
    \<and> term_getBackgroundColor (term_setTextColor (2 ^ k) t) = term_getBackgroundColor t
    \<and> term_getBackgroundColor (term_setBackgroundColor (2 ^ k) t) = 2 ^ k
    \<and> term_getTextColor (term_setBackgroundColor (2 ^ k) t) = term_getTextColor t"
proof -
  have w: "word_of_int (int k) = (of_nat k :: byte)" "word_of_int (push_bit 4 (int k)) = push_bit 4 (of_nat k :: byte)"
    by (simp_all add: push_bit_eq_mult)
  have sel: "current_colors (t\<lparr>current_colors := c\<rparr>) = c" for c by simp
  note n = nibbles [OF color_nibble(4) [OF assms], of "current_colors t"]
  show ?thesis
    unfolding term_getTextColor_def term_getBackgroundColor_def term_setTextColor_def term_setBackgroundColor_def color_nibble(1,2) [OF assms]
    by (simp only: sel w n color_nibble(3) [OF assms])
qed

theorem term_color_roundtrip_witness:
  "term_getTextColor (term_setTextColor 16384 white_screen) = 16384"
  using term_color_roundtrip [of 14 white_screen] by simp

text \<open>
  \<open>term.getPaletteColor\<close> reads the third component from bits 24 to 31, which no palette entry of
  the program uses: the red component it should return is always 0, and blue comes first.
\<close>

theorem palette_red_lost:
  assumes "k < 16" and "length (palette t) = 16" and "palette t ! k < 2 ^ 24"
  shows "term_getPaletteColor (2 ^ k) t =
    ROk (luai_numdiv (cast_num (uint (palette t ! k AND 0xFF))) (cast_num 255),
         luai_numdiv (cast_num (uint (drop_bit 8 (palette t ! k) AND 0xFF))) (cast_num 255),
         luai_numdiv (cast_num 0) (cast_num 255))"
proof -
  have "uint (palette t ! k) < 2 ^ 24" using assms(3) by (simp add: word_less_def)
  then have "uint (drop_bit 24 (palette t ! k)) = 0"
    unfolding unsigned_drop_bit_eq by (simp add: drop_bit_eq_div take_bit_eq_mod)
  then have "drop_bit 24 (palette t ! k) = 0" by (simp only: uint_0_iff)
  then show ?thesis using assms(1,2) by (simp add: term_getPaletteColor_def int_log2_pow2)
qed

theorem palette_red_lost_witness:
  "term_getPaletteColor 2 white_screen =
    ROk (luai_numdiv (cast_num (uint (0xf2b233 AND 0xFF :: u32))) (cast_num 255),
         luai_numdiv (cast_num (uint (drop_bit 8 0xf2b233 AND 0xFF :: u32))) (cast_num 255),
         luai_numdiv (cast_num 0) (cast_num 255))"
  using palette_red_lost [of 1 white_screen] by (simp add: white_screen_def term_globals_def)

end
