(* ===== verification/OsEvents.thy ===== *)
theory OsEvents
  imports EventQueue LObject "HOL-Library.Signed_Division"
begin

text \<open>
  The \<open>os\<close> library and the event loop (\<open>src/os.cpp\<close>): scan codes and timers become events, which wait
  in a queue of names beside a stack of parameter lists until the running program asks for one. The
  hardware is a list of what it delivers, in order; when it is used up the polling loops wait forever.
  \<open>strs\<close> is the memory of the C strings the queue points to. A computation that does not return, that
  reads a string or a cell that is not there or writes past the end of a Lua stack is \<open>None\<close>. Library
  functions take the values they get from the Lua stack and return those they push. Memory allocation
  succeeds.
\<close>

section \<open>State\<close>

abbreviation (input) key_name :: nat where "key_name \<equiv> 1"
abbreviation (input) key_up_name :: nat where "key_up_name \<equiv> 2"
abbreviation (input) char_name :: nat where "char_name \<equiv> 3"
abbreviation (input) timer_name :: nat where "timer_name \<equiv> 4"

record os_state =
  running :: int
  label :: "string option"
  eventQueue :: queue_t
  paramQueue :: "TValue list list"
  timerQueue :: queue_t
  modifiers :: byte
  strs :: "nat \<rightharpoonup> string"

datatype hw_event = ScanCode byte | TimerFired nat

text \<open>The state after \<open>main2\<close> has set up the queues; the names in the program text have their addresses.\<close>

definition os_init :: os_state where
  "os_init = \<lparr>running = 1, label = None, eventQueue = queue_init, paramQueue = [], timerQueue = queue_init,
     modifiers = 0, strs = [1 \<mapsto> ''key'', 2 \<mapsto> ''key_up'', 3 \<mapsto> ''char'', 4 \<mapsto> ''timer'']\<rparr>"

section \<open>The keyboard\<close>

definition ps2codes_sc1 :: "byte list" where
  "ps2codes_sc1 = [0, 26, 49, 50, 51, 52, 53, 54, 55, 56, 57, 48, 45, 61, 26, 26, 113, 119, 101, 114, 116, 121, 117,
     105, 111, 112, 91, 93, 26, 26, 97, 115, 100, 102, 103, 104, 106, 107, 108, 59, 39, 96, 26, 92, 122, 120, 99, 118,
     98, 110, 109, 44, 46, 47, 26, 0, 26, 32, 26, 26, 26, 26, 26, 26, 26, 26, 26, 26, 26, 26, 26, 0, 0, 0, 0, 0, 0, 0,
     0, 0, 0, 0, 0, 0, 0, 0, 0, 0, 26, 26]"

definition ps2codes_sc1_upper :: "byte list" where
  "ps2codes_sc1_upper = [0, 26, 33, 64, 35, 36, 37, 94, 38, 42, 40, 41, 95, 43, 26, 26, 81, 87, 69, 82, 84, 89, 85,
     73, 79, 80, 123, 125, 26, 26, 65, 83, 68, 70, 71, 72, 74, 75, 76, 58, 34, 126, 26, 124, 90, 88, 67, 86, 66, 78,
     77, 60, 62, 63, 26, 0, 26, 32, 26, 26, 26, 26, 26, 26, 26, 26, 26, 26, 26, 26, 26, 0, 0, 0, 0, 0, 0, 0, 0, 0, 0,
     0, 0, 0, 0, 0, 0, 0, 26, 26]"

abbreviation (input) MODIFIER_SHIFT :: byte where "MODIFIER_SHIFT \<equiv> 1"
abbreviation (input) MODIFIER_CONTROL :: byte where "MODIFIER_CONTROL \<equiv> 2"
abbreviation (input) MODIFIER_ALT :: byte where "MODIFIER_ALT \<equiv> 4"

definition getcode :: "byte \<Rightarrow> byte" where
  "getcode code = code AND 0x7f"

text \<open>The character of a scan code (0 for none) and the new modifiers. The tables are read only up to
  index \<open>0x58\<close>; reading past their end would be \<open>None\<close>.\<close>

definition table_at :: "byte list \<Rightarrow> byte \<Rightarrow> byte option" where
  "table_at xs c = (if unat c < length xs then Some (xs ! unat c) else None)"

definition convert_ps2_code :: "byte \<Rightarrow> byte \<Rightarrow> (byte \<times> byte) option" where
  "convert_ps2_code code m =
     (if code = 0xAA \<or> code = 0xB6 then Some (0, m AND NOT MODIFIER_SHIFT)
      else if code = 0x9D then Some (0, m AND NOT MODIFIER_CONTROL)
      else if code = 0xB8 then Some (0, m AND NOT MODIFIER_ALT)
      else if code > 0x58 then Some (0, m)
      else do {
        ch \<leftarrow> table_at ps2codes_sc1 code;
        if ch = 0 then Some (0, m)
        else if ch = 26 then
          let c = getcode code in
          Some (0, if c = 0x2A \<or> c = 0x36 then m OR MODIFIER_SHIFT
                   else if c = 0x1D then m OR MODIFIER_CONTROL
                   else if c = 0x38 then m OR MODIFIER_ALT
                   else if c = 0x3A then (m AND NOT MODIFIER_SHIFT) OR (if m AND MODIFIER_SHIFT = 0 then 1 else 0)
                   else m)
        else if m AND MODIFIER_SHIFT \<noteq> 0 then do { u \<leftarrow> table_at ps2codes_sc1_upper code; Some (u, m) }
        else Some (ch, m) })"

definition timerEvent :: "nat \<Rightarrow> os_state \<Rightarrow> os_state option" where
  "timerEvent tid s =
     do { q \<leftarrow> queue_push (timerQueue s) (if tid = 0 then None else Some tid); Some (s\<lparr>timerQueue := q\<rparr>) }"

fun get_scancode :: "os_state \<Rightarrow> hw_event list \<Rightarrow> (byte \<times> os_state \<times> hw_event list) option" where
  "get_scancode s hw =
     (if \<not> queue_empty (timerQueue s) then Some (0, s, hw)
      else case hw of
             [] \<Rightarrow> None
           | ScanCode c # hw' \<Rightarrow> Some (c, s, hw')
           | TimerFired tid # hw' \<Rightarrow> do { s' \<leftarrow> timerEvent tid s; get_scancode s' hw' })"

declare get_scancode.simps [simp del]

text \<open>The two calls of the \<open>E1\<close> case are operands of one expression, whose order the language leaves
  open: \<open>lr\<close> tells whether the compiler evaluates the left one first.\<close>

definition getkey :: "bool \<Rightarrow> os_state \<Rightarrow> hw_event list \<Rightarrow> (int \<times> os_state \<times> hw_event list) option" where
  "getkey lr s hw =
     do { (c, s1, hw1) \<leftarrow> get_scancode s hw;
          if c = 0xE0 then do { (d, s2, hw2) \<leftarrow> get_scancode s1 hw1; Some (0xE000 OR uint d, s2, hw2) }
          else if c = 0xE1 then
            do { (d, s2, hw2) \<leftarrow> get_scancode s1 hw1; (e, s3, hw3) \<leftarrow> get_scancode s2 hw2;
                 Some (if lr then 0xE00000 OR push_bit 8 (uint d) OR uint e
                       else 0xE00000 OR push_bit 8 (uint e) OR uint d, s3, hw3) }
          else Some (uint c, s1, hw1) }"

definition ps2tocc :: "int \<Rightarrow> int" where
  "ps2tocc code =
     (if code AND 0xFF00 = 0xE000 then (code AND 0x7F) OR 0x80
      else if code AND 0xFF7F7F = 0xE11D45 then 197
      else code AND 0x7F)"

section \<open>The event loop\<close>

text \<open>A new thread has a stack of \<open>BASIC_STACK_SIZE + EXTRA_STACK\<close> = 45 values, the first of which is
  taken (\<open>stack_init\<close> in \<open>src/lua/lstate.c\<close>). \<open>lua_newthread\<close>, \<open>lua_xmove\<close> and the pushes do not grow it, and
  nothing here calls \<open>lua_checkstack\<close> for the parameter stack or the thread of an event.\<close>

abbreviation (input) thread_slots :: nat where "thread_slots \<equiv> 44"

text \<open>An event is its name in the queue and a new thread with its parameters on the parameter stack.\<close>

definition push_event :: "ptr \<Rightarrow> TValue list \<Rightarrow> os_state \<Rightarrow> os_state option" where
  "push_event name params s =
     (if length (paramQueue s) \<ge> thread_slots \<or> length params > thread_slots then None
      else do { q \<leftarrow> queue_push (eventQueue s) name;
                Some (s\<lparr>eventQueue := q, paramQueue := paramQueue s @ [params]\<rparr>) })"

definition key_events :: "int \<Rightarrow> os_state \<Rightarrow> os_state option" where
  "key_events code s =
     do { s1 \<leftarrow> push_event (Some (if code AND 0x80 \<noteq> 0 then key_up_name else key_name))
                 [VNumber (cast_num (ps2tocc code)), VBoolean False] s;
          (c, m) \<leftarrow> convert_ps2_code (word_of_int code) (modifiers s1);
          let s2 = s1\<lparr>modifiers := m\<rparr>;
          if c \<noteq> 0 then
            do { (c', m') \<leftarrow> convert_ps2_code (word_of_int code) (modifiers s2);
                 push_event (Some char_name) [VString [char_of_byte c']] (s2\<lparr>modifiers := m'\<rparr>) }
          else Some s2 }"

partial_function (option) drain_timers :: "os_state \<Rightarrow> os_state option" where
  "drain_timers s =
     (if queue_empty (timerQueue s) then Some s
      else do { p \<leftarrow> queue_front (timerQueue s);
                s1 \<leftarrow> push_event (Some timer_name)
                        [VNumber (cast_num (case p of None \<Rightarrow> 0 | Some a \<Rightarrow> int a))] s;
                q \<leftarrow> queue_pop (timerQueue s1);
                drain_timers (s1\<lparr>timerQueue := q\<rparr>) })"

partial_function (option) wait_event ::
  "bool \<Rightarrow> os_state \<Rightarrow> hw_event list \<Rightarrow> (os_state \<times> hw_event list) option" where
  "wait_event lr s hw =
     do { n \<leftarrow> queue_size (eventQueue s);
          if n = 0 then
            do { (code, s1, hw1) \<leftarrow> getkey lr s hw;
                 s2 \<leftarrow> (if code \<noteq> 0 then key_events code s1 else Some s1);
                 s3 \<leftarrow> drain_timers s2;
                 wait_event lr s3 hw1 }
          else Some (s, hw) }"

definition name_at :: "os_state \<Rightarrow> ptr \<Rightarrow> string option" where
  "name_at s p = (case p of None \<Rightarrow> None | Some a \<Rightarrow> strs s a)"

text \<open>The \<open>do\<close> loop: events whose name is not the filter are dropped together with their parameters.\<close>

partial_function (option) next_name ::
  "bool \<Rightarrow> string \<Rightarrow> os_state \<Rightarrow> hw_event list \<Rightarrow> (string \<times> os_state \<times> hw_event list) option" where
  "next_name lr filt s hw =
     do { (s1, hw1) \<leftarrow> wait_event lr s hw;
          p \<leftarrow> queue_front (eventQueue s1);
          ev \<leftarrow> name_at s1 p;
          q \<leftarrow> queue_pop (eventQueue s1);
          if filt \<noteq> [] \<and> ev \<noteq> filt then
            if paramQueue s1 = [] then None
            else next_name lr filt (s1\<lparr>eventQueue := q, paramQueue := tl (paramQueue s1)\<rparr>) hw1
          else Some (ev, s1\<lparr>eventQueue := q\<rparr>, hw1) }"

declare drain_timers.simps [code] wait_event.simps [code] next_name.simps [code]

text \<open>\<open>lua_checkstack (L, size)\<close> with \<open>used\<close> values in the frame of \<open>L\<close>.\<close>

abbreviation (input) LUAI_MAXCSTACK :: nat where "LUAI_MAXCSTACK \<equiv> 8000"

definition lua_checkstack :: "nat \<Rightarrow> nat \<Rightarrow> bool" where
  "lua_checkstack used sz \<longleftrightarrow> \<not> (sz > LUAI_MAXCSTACK \<or> used + sz > LUAI_MAXCSTACK)"

text \<open>\<open>used\<close> is the number of values the resumed coroutine has on its stack. When they leave no room for the event its
  name is gone from the queue and its parameters are not.\<close>

definition getNextEvent ::
  "bool \<Rightarrow> nat \<Rightarrow> string \<Rightarrow> os_state \<Rightarrow> hw_event list \<Rightarrow> (TValue list \<times> os_state \<times> hw_event list) option" where
  "getNextEvent lr used filt s hw =
     do { (ev, s1, hw1) \<leftarrow> next_name lr filt s hw;
          case paramQueue s1 of
            [] \<Rightarrow> Some ([], s1, hw1)
          | param # rest \<Rightarrow>
              if \<not> lua_checkstack used (length param + 1) then Some ([], s1, hw1)
              else Some (VString ev # param, s1\<lparr>paramQueue := rest\<rparr>, hw1) }"

section \<open>The library\<close>

definition os_getComputerID :: "TValue list" where
  "os_getComputerID = [VNumber (cast_num 0)]"

definition os_getComputerLabel :: "os_state \<Rightarrow> TValue list" where
  "os_getComputerLabel s = (case label s of None \<Rightarrow> [] | Some l \<Rightarrow> [VString l])"

definition os_setComputerLabel :: "string \<Rightarrow> os_state \<Rightarrow> os_state" where
  "os_setComputerLabel l s = s\<lparr>label := Some l\<rparr>"

definition os_queueEvent :: "ptr \<Rightarrow> TValue list \<Rightarrow> os_state \<Rightarrow> os_state option" where
  "os_queueEvent name args s = push_event name args s"

definition os_setAlarm :: "TValue list" where
  "os_setAlarm = []"

definition os_cancelAlarm :: "TValue list" where
  "os_cancelAlarm = []"

definition os_shutdown :: "os_state \<Rightarrow> os_state" where
  "os_shutdown s = s\<lparr>running := 0\<rparr>"

definition os_reboot :: "os_state \<Rightarrow> os_state" where
  "os_reboot s = s\<lparr>running := 2\<rparr>"

text \<open>Times of day. \<open>now\<close> is what \<open>time(NULL)\<close> returns; \<open>gmtime\<close>, \<open>localtime\<close> and \<open>mktime\<close> depend on
  the time zone and are arguments. The type of clock is the first argument, if there is one.\<close>

record tm =
  tm_hour :: int
  tm_min :: int
  tm_sec :: int
  tm_yday :: int

definition clock_type :: "string option \<Rightarrow> string" where
  "clock_type arg = (case arg of None \<Rightarrow> ''ingame'' | Some ty \<Rightarrow> ty)"

definition hours :: "tm \<Rightarrow> lua_Number" where
  "hours r = luai_numadd (luai_numadd (cast_num (tm_hour r)) (luai_numdiv (cast_num (tm_min r)) (cast_num 60)))
               (luai_numdiv (cast_num (tm_sec r)) (cast_num 3600))"

definition os_time :: "(int \<Rightarrow> tm) \<Rightarrow> (int \<Rightarrow> tm) \<Rightarrow> string option \<Rightarrow> int \<Rightarrow> lua_Number" where
  "os_time gmt loct arg now = hours (if clock_type arg = ''utc'' then gmt now else loct now)"

definition os_epoch :: "(int \<Rightarrow> tm) \<Rightarrow> (tm \<Rightarrow> int) \<Rightarrow> string option \<Rightarrow> int \<Rightarrow> lua_Number" where
  "os_epoch loct mkt arg now =
     cast_num
      (if clock_type arg = ''utc'' then now * 1000
       else if clock_type arg = ''local'' then mkt (loct now) * 1000
       else lua_number2integer (luai_numadd (luai_nummul (cast_num (tm_yday (loct now))) (cast_num 86400000))
              (cast_num (lua_number2int (luai_nummul (hours (loct now)) (cast_num 3600000))))))"

definition os_day :: "(int \<Rightarrow> tm) \<Rightarrow> (tm \<Rightarrow> int) \<Rightarrow> string option \<Rightarrow> int \<Rightarrow> lua_Number" where
  "os_day loct mkt arg now =
     cast_num
      (if clock_type arg = ''ingame'' then tm_yday (loct now)
       else if clock_type arg \<noteq> ''local'' then mkt (loct now) sdiv 86400
       else now sdiv 86400)"

section \<open>Names and parameters stay together\<close>

text \<open>\<open>aligned s evs\<close>: the queue holds the names of the events \<open>evs\<close> and the stack their parameters, and
  they fit their stacks.\<close>

definition aligned :: "os_state \<Rightarrow> (nat \<times> TValue list) list \<Rightarrow> bool" where
  "aligned s evs \<longleftrightarrow> represents (eventQueue s) (map (\<lambda>e. Some (fst e)) evs) \<and> paramQueue s = map snd evs
     \<and> length evs \<le> thread_slots \<and> list_all (\<lambda>e. length (snd e) \<le> thread_slots) evs"

definition same_rest :: "os_state \<Rightarrow> os_state \<Rightarrow> bool" where
  "same_rest s s' \<longleftrightarrow> running s' = running s \<and> label s' = label s \<and> timerQueue s' = timerQueue s
     \<and> modifiers s' = modifiers s \<and> strs s' = strs s"

lemma push_event_aligned:
  assumes "aligned s evs" "length evs < thread_slots" "length ps \<le> thread_slots"
  shows "\<exists>s'. push_event (Some a) ps s = Some s' \<and> aligned s' (evs @ [(a, ps)]) \<and> same_rest s s'"
proof -
  from assms(1) have "represents (eventQueue s) (map (\<lambda>e. Some (fst e)) evs)" by (simp add: aligned_def)
  from eq.push_abs [OF this, of "Some a"] obtain q
    where "queue_push (eventQueue s) (Some a) = Some q" "represents q (map (\<lambda>e. Some (fst e)) evs @ [Some a])" by blast
  with assms show ?thesis by (simp add: push_event_def aligned_def same_rest_def)
qed

lemma pop_aligned:
  assumes "aligned s (e # evs)"
  shows "\<exists>q. queue_front (eventQueue s) = Some (Some (fst e)) \<and> queue_pop (eventQueue s) = Some q
    \<and> aligned (s\<lparr>eventQueue := q, paramQueue := map snd evs\<rparr>) evs"
proof -
  from assms have r: "represents (eventQueue s) (map (\<lambda>e. Some (fst e)) (e # evs))" by (simp add: aligned_def)
  from eq.pop_abs [OF r] obtain q where "queue_pop (eventQueue s) = Some q" "represents q (map (\<lambda>e. Some (fst e)) evs)" by auto
  with eq.front_abs [OF r] assms show ?thesis by (simp add: aligned_def)
qed

lemma wait_event_nonempty:
  assumes r: "represents (eventQueue s) ps" and "ps \<noteq> []" "length ps \<le> thread_slots"
  shows "wait_event lr s hw = Some (s, hw)"
proof -
  have "queue_size (eventQueue s) = Some (of_nat (length ps))"
    using queue_size_represents [OF r] assms(3) by simp
  moreover have "(of_nat (length ps) :: u64) \<noteq> 0"
  proof
    assume "(of_nat (length ps) :: u64) = 0"
    then have "unat (of_nat (length ps) :: u64) = 0" by simp
    moreover have "unat (of_nat (length ps) :: u64) = length ps"
      using assms(3) by (simp add: unsigned_of_nat take_bit_nat_eq_self)
    ultimately show False using assms(2) by simp
  qed
  ultimately show ?thesis by (subst wait_event.simps) simp
qed

lemma wait_event_pending:
  "aligned s evs \<Longrightarrow> evs \<noteq> [] \<Longrightarrow> wait_event lr s hw = Some (s, hw)"
  by (rule wait_event_nonempty [of s "map (\<lambda>e. Some (fst e)) evs"]) (simp_all add: aligned_def)

text \<open>Whether an event passes a filter.\<close>

definition passes :: "string \<Rightarrow> string \<Rightarrow> bool" where
  "passes filt ev \<longleftrightarrow> filt = [] \<or> ev = filt"

lemma next_name_pending:
  assumes "aligned s (pre @ e # evs)" "strs s (fst e) = Some ev" "passes filt ev"
    "\<forall>d \<in> set pre. \<exists>n. strs s (fst d) = Some n \<and> \<not> passes filt n"
  shows "\<exists>q. next_name lr filt s hw = Some (ev, s\<lparr>eventQueue := q, paramQueue := snd e # map snd evs\<rparr>, hw)
    \<and> represents q (map (\<lambda>e. Some (fst e)) evs)"
  using assms
proof (induction pre arbitrary: s)
  case Nil
  then have al: "aligned s (e # evs)" by simp
  from pop_aligned [OF al] obtain q where q: "queue_front (eventQueue s) = Some (Some (fst e))" "queue_pop (eventQueue s) = Some q"
    "aligned (s\<lparr>eventQueue := q, paramQueue := map snd evs\<rparr>) evs" by blast
  have "next_name lr filt s hw = Some (ev, s\<lparr>eventQueue := q\<rparr>, hw)"
    using Nil.prems(2,3) q(1,2) wait_event_pending [OF al] by (subst next_name.simps) (auto simp: name_at_def passes_def)
  moreover have "paramQueue s = snd e # map snd evs" using al by (simp add: aligned_def)
  then have "s\<lparr>eventQueue := q\<rparr> = s\<lparr>eventQueue := q, paramQueue := snd e # map snd evs\<rparr>" by (cases s) simp
  ultimately show ?case using q(3) by (auto simp: aligned_def)
next
  case (Cons d pre)
  then have al: "aligned s (d # (pre @ e # evs))" by simp
  from pop_aligned [OF al] obtain q where q: "queue_front (eventQueue s) = Some (Some (fst d))" "queue_pop (eventQueue s) = Some q"
    "aligned (s\<lparr>eventQueue := q, paramQueue := map snd (pre @ e # evs)\<rparr>) (pre @ e # evs)" by blast
  from Cons.prems(4) obtain n where n: "strs s (fst d) = Some n" "\<not> passes filt n" by auto
  have "paramQueue s = snd d # map snd (pre @ e # evs)" using al by (simp add: aligned_def)
  then have "next_name lr filt s hw = next_name lr filt (s\<lparr>eventQueue := q, paramQueue := map snd (pre @ e # evs)\<rparr>) hw"
    using n q(1,2) wait_event_pending [OF al] by (subst next_name.simps) (simp add: name_at_def passes_def)
  with Cons.IH [OF q(3)] Cons.prems(2-4) show ?case by simp
qed

text \<open>
  C11: event delivery. When some pending event passes the filter, and the values on the stack of the
  coroutine leave room for it (\<open>lua_checkstack\<close>: with its name and parameters they are at most 8000),
  \<open>getNextEvent\<close> returns, without waiting for the hardware, the name of the first such event followed by
  exactly the parameters it was queued with; that event and those before it are gone, the later ones keep
  their order and their parameters. The names and parameters pending are those of a queue that has not
  outgrown its Lua stacks: at most 44 events of at most 44 parameters each.
\<close>

theorem getNextEvent_delivers:
  assumes "aligned s (pre @ e # evs)" and "strs s (fst e) = Some ev" and "passes filt ev"
    and "\<forall>d \<in> set pre. \<exists>n. strs s (fst d) = Some n \<and> \<not> passes filt n"
    and "used + length (snd e) + 1 \<le> LUAI_MAXCSTACK"
  shows "\<exists>s'. getNextEvent lr used filt s hw = Some (VString ev # snd e, s', hw) \<and> aligned s' evs \<and> same_rest s s'"
proof -
  from next_name_pending [OF assms(1-4)] obtain q where
    "next_name lr filt s hw = Some (ev, s\<lparr>eventQueue := q, paramQueue := snd e # map snd evs\<rparr>, hw)"
    "represents q (map (\<lambda>e. Some (fst e)) evs)" by blast
  moreover have "length evs \<le> thread_slots" "list_all (\<lambda>e. length (snd e) \<le> thread_slots) evs"
    using assms(1) by (simp_all add: aligned_def)
  ultimately show ?thesis
    using assms(5) by (simp add: getNextEvent_def lua_checkstack_def aligned_def same_rest_def)
qed

text \<open>The program's queue of events, filled by \<open>os.queueEvent\<close> from the start.\<close>

lemma os_init_aligned: "aligned os_init []"
  by (simp add: aligned_def os_init_def represents_init)

theorem getNextEvent_delivers_witness:
  "\<exists>s1 s2 s3. os_queueEvent (Some 4) [VBoolean True] os_init = Some s1 \<and> os_queueEvent (Some 1) [VNil] s1 = Some s2
     \<and> getNextEvent True 3 ''key'' s2 [] = Some ([VString ''key'', VNil], s3, [])"
proof -
  from push_event_aligned [OF os_init_aligned, where a = 4 and ps = "[VBoolean True]"] obtain s1 where
    s1: "push_event (Some 4) [VBoolean True] os_init = Some s1" "aligned s1 [(4, [VBoolean True])]" "same_rest os_init s1" by auto
  from push_event_aligned [OF s1(2), where a = 1 and ps = "[VNil]"] obtain s2 where
    s2: "push_event (Some 1) [VNil] s1 = Some s2" "aligned s2 ([(4, [VBoolean True])] @ (1, [VNil]) # [])" "same_rest s1 s2" by auto
  have "strs s2 = strs os_init" using s1(3) s2(3) by (simp add: same_rest_def)
  then have "strs s2 1 = Some ''key''" "strs s2 4 = Some ''timer''" by (simp_all add: os_init_def)
  with getNextEvent_delivers [OF s2(2), of "''key''" "''key''" 3 True "[]"] s1(1) s2(1) show ?thesis
    by (auto simp: passes_def os_queueEvent_def)
qed

text \<open>
  C0: a full stack misaligns the events. With no filter and two events pending, when the values on
  the stack of the coroutine leave no room for the first event, \<open>getNextEvent\<close> returns nothing and drops its
  name but not its parameters: the next call, with room, returns the name of the second event with the
  parameters of the first.
\<close>

theorem getNextEvent_misaligns:
  assumes "aligned s (e # e' # evs)" and "strs s (fst e) = Some ev" and "strs s (fst e') = Some ev'"
    and "used + length (snd e) + 1 > LUAI_MAXCSTACK" and "used' + length (snd e) + 1 \<le> LUAI_MAXCSTACK"
  shows "\<exists>s' s''. getNextEvent lr used [] s hw = Some ([], s', hw)
    \<and> getNextEvent lr used' [] s' hw = Some (VString ev' # snd e, s'', hw)"
proof -
  from next_name_pending [of s "[]" e "e' # evs" ev "[]" lr hw] assms(1,2) obtain q where
    q: "next_name lr [] s hw = Some (ev, s\<lparr>eventQueue := q, paramQueue := snd e # map snd (e' # evs)\<rparr>, hw)"
    "represents q (map (\<lambda>e. Some (fst e)) (e' # evs))" by (auto simp: passes_def)
  let ?s = "s\<lparr>eventQueue := q, paramQueue := snd e # map snd (e' # evs)\<rparr>"
  have "length (e' # evs) \<le> thread_slots" using assms(1) by (simp add: aligned_def)
  then have w: "wait_event lr ?s hw = Some (?s, hw)" by (intro wait_event_nonempty [where ps = "map (\<lambda>e. Some (fst e)) (e' # evs)"]) (use q(2) in simp_all)
  from eq.pop_abs [OF q(2)] obtain q' where q': "queue_pop q = Some q'" by auto
  have "next_name lr [] ?s hw = Some (ev', ?s\<lparr>eventQueue := q'\<rparr>, hw)"
    using w q' eq.front_abs [OF q(2)] assms(3) by (subst next_name.simps) (simp add: name_at_def)
  with q(1) assms(4,5) show ?thesis
    by (intro exI [of _ ?s] exI [of _ "?s\<lparr>eventQueue := q', paramQueue := map snd (e' # evs)\<rparr>"])
      (simp add: getNextEvent_def lua_checkstack_def)
qed

theorem getNextEvent_misaligns_witness:
  "\<exists>s1 s2 s3 s4. os_queueEvent (Some 4) [VBoolean True] os_init = Some s1 \<and> os_queueEvent (Some 1) [VNil] s1 = Some s2
     \<and> getNextEvent True 7999 [] s2 [] = Some ([], s3, [])
     \<and> getNextEvent True 1 [] s3 [] = Some ([VString ''key'', VBoolean True], s4, [])"
proof -
  from push_event_aligned [OF os_init_aligned, where a = 4 and ps = "[VBoolean True]"] obtain s1 where
    s1: "push_event (Some 4) [VBoolean True] os_init = Some s1" "aligned s1 [(4, [VBoolean True])]" "same_rest os_init s1" by auto
  from push_event_aligned [OF s1(2), where a = 1 and ps = "[VNil]"] obtain s2 where
    s2: "push_event (Some 1) [VNil] s1 = Some s2" "aligned s2 [(4, [VBoolean True]), (1, [VNil])]" "same_rest s1 s2" by auto
  have "strs s2 = strs os_init" using s1(3) s2(3) by (simp add: same_rest_def)
  then have "strs s2 1 = Some ''key''" "strs s2 4 = Some ''timer''" by (simp_all add: os_init_def)
  with getNextEvent_misaligns [OF s2(2), of "''timer''" "''key''" 7999 1 True "[]"] s1(1) s2(1) show ?thesis
    by (auto simp: os_queueEvent_def)
qed

text \<open>
  the queue keeps a pointer to a name that belongs to Lua. Once the string has been collected,
  asking for the event reads memory that is no longer there.
\<close>

theorem queued_name_dangles:
  assumes "aligned s []"
    and "length args \<le> thread_slots"
  shows "\<exists>s1. os_queueEvent (Some a) args s = Some s1 \<and> getNextEvent lr used filt (s1\<lparr>strs := (strs s1)(a := None)\<rparr>) hw = None"
proof -
  from push_event_aligned [OF assms(1) _ assms(2), of a] obtain s1
    where s1: "push_event (Some a) args s = Some s1" "aligned s1 [(a, args)]" by auto
  let ?s = "s1\<lparr>strs := (strs s1)(a := None)\<rparr>"
  have al: "aligned ?s [(a, args)]" using s1(2) by (simp add: aligned_def)
  from pop_aligned [OF al] have "queue_front (eventQueue ?s) = Some (Some a)" by auto
  then have "next_name lr filt ?s hw = None"
    using wait_event_pending [OF al] by (subst next_name.simps) (simp add: name_at_def)
  with s1(1) show ?thesis by (auto simp: os_queueEvent_def getNextEvent_def)
qed

theorem queued_name_dangles_witness:
  "\<exists>s1. os_queueEvent (Some 9) [VNil] os_init = Some s1 \<and> getNextEvent True 0 [] (s1\<lparr>strs := (strs s1)(9 := None)\<rparr>) [] = None"
  by (rule queued_name_dangles [OF os_init_aligned]) simp

section \<open>The keyboard\<close>

lemma tables_length [simp]: "length ps2codes_sc1 = 90" "length ps2codes_sc1_upper = 90"
  by (simp_all add: ps2codes_sc1_def ps2codes_sc1_upper_def)

lemma table_at_small: "c \<le> 0x58 \<Longrightarrow> length xs = 90 \<Longrightarrow> table_at xs c = Some (xs ! unat c)"
  by (simp add: table_at_def word_le_nat_alt)

lemma shift_kept:
  "(m AND NOT 2) AND 1 = m AND 1" "(m AND NOT 4) AND 1 = m AND 1" "(m OR 2) AND 1 = m AND 1" "(m OR 4) AND 1 = m AND (1 :: byte)"
  by (rule bit_word_eqI, auto simp: bit_and_iff bit_or_iff bit_not_iff bit_1_iff)+

lemma getcode_small:
  assumes "code \<le> 0x58"
  shows "getcode code = code"
proof -
  have "unat code < 2 ^ 7" using assms by (simp add: word_le_nat_alt)
  then have small: "take_bit 7 (unat code) = unat code" by (rule take_bit_nat_eq_self)
  have m: "(0x7f :: byte) = mask 7" by (simp add: mask_eq_exp_minus_1)
  show ?thesis
    unfolding getcode_def m take_bit_eq_mask [symmetric] word_unat_eq_iff unsigned_take_bit_eq by (rule small)
qed

lemma convert_cases:
  "\<exists>c m'. convert_ps2_code code m = Some (c, m') \<and> (c \<noteq> 0 \<longrightarrow> m' = m)
    \<and> (m' AND 1 \<noteq> m AND 1 \<longrightarrow> code \<in> {0xAA, 0xB6, 0x2A, 0x36, 0x3A})"
proof (cases "code > 0x58")
  case True
  then show ?thesis using shift_kept [of m] by (auto simp: convert_ps2_code_def)
next
  case False
  then have le: "code \<le> 0x58" by simp
  then have ne: "code \<noteq> 0xAA" "code \<noteq> 0xB6" "code \<noteq> 0x9D" "code \<noteq> 0xB8" by auto
  let ?ch = "ps2codes_sc1 ! unat code"
  consider (none) "?ch = 0" | (special) "?ch = 26" | (char) "?ch \<noteq> 0" "?ch \<noteq> 26" by blast
  then show ?thesis
  proof cases
    case none
    then show ?thesis using ne False table_at_small [OF le] by (simp add: convert_ps2_code_def)
  next
    case special
    then show ?thesis using ne False table_at_small [OF le] shift_kept [of m] getcode_small [OF le]
      by (simp add: convert_ps2_code_def Let_def)
  next
    case char
    then show ?thesis using ne False table_at_small [OF le] by (cases "m AND 1 = 0") (simp_all add: convert_ps2_code_def)
  qed
qed

text \<open>
  scan codes. The conversion is defined for every byte (the tables are read only inside their
  bounds); a code that yields a character leaves the modifiers as they are, so the second conversion
  of the same code in the event loop yields the same character; and the Shift state, which chooses the
  table, is set and cleared exactly by the press and release codes of the two Shift keys and toggled by
  Caps Lock.
\<close>

theorem convert_ps2_code_total:
  "\<exists>c m'. convert_ps2_code code m = Some (c, m') \<and> (c \<noteq> 0 \<longrightarrow> m' = m \<and> convert_ps2_code code m' = Some (c, m'))
    \<and> (m' AND 1 \<noteq> m AND 1 \<longrightarrow> code \<in> {0xAA, 0xB6, 0x2A, 0x36, 0x3A})"
proof -
  from convert_cases [of code m] obtain c m' where c: "convert_ps2_code code m = Some (c, m')" "c \<noteq> 0 \<longrightarrow> m' = m"
    "m' AND 1 \<noteq> m AND 1 \<longrightarrow> code \<in> {0xAA, 0xB6, 0x2A, 0x36, 0x3A}" by blast
  then show ?thesis by (intro exI [of _ c] exI [of _ m']) auto
qed

theorem convert_ps2_code_total_witness:
  "\<exists>c m'. convert_ps2_code 0x1E 1 = Some (c, m') \<and> (c \<noteq> 0 \<longrightarrow> m' = 1 \<and> convert_ps2_code 0x1E m' = Some (c, m'))"
  using convert_ps2_code_total [of "0x1E" 1] by blast

text \<open>
  the Pause key is taken for Num Lock: \<open>getkey\<close> packs its sequence \<open>E1 1D 45\<close> under \<open>0xE0\<close> where
  \<open>ps2tocc\<close> expects \<open>0xE1\<close>, so it yields the key code 69, or 29 if the bytes are read in the other order,
  instead of 197.
\<close>

theorem pause_key_lost:
  assumes "queue_empty (timerQueue s)"
  shows "\<exists>code. getkey lr s (ScanCode 0xE1 # ScanCode 0x1D # ScanCode 0x45 # hw) = Some (code, s, hw)
    \<and> ps2tocc code = (if lr then 69 else 29)"
proof -
  have sc: "get_scancode s (ScanCode c # hw) = Some (c, s, hw)" for c hw using assms by (subst get_scancode.simps) simp
  have "getkey lr s (ScanCode 0xE1 # ScanCode 0x1D # ScanCode 0x45 # hw) = Some (if lr then 0xE01D45 else 0xE0451D, s, hw)"
    by (simp add: getkey_def sc push_bit_eq_mult)
  moreover have "ps2tocc 0xE01D45 = 69" "ps2tocc 0xE0451D = 29" by (simp_all add: ps2tocc_def)
  ultimately show ?thesis by auto
qed

theorem pause_key_lost_witness:
  "\<exists>code. getkey True os_init [ScanCode 0xE1, ScanCode 0x1D, ScanCode 0x45] = Some (code, os_init, []) \<and> ps2tocc code = 69"
  using pause_key_lost [of os_init True "[]"] by (simp add: os_init_def queue_empty_def queue_init_def)

section \<open>Waiting for input\<close>






end
