(* ===== verification/FileSystem.thy ===== *)
theory FileSystem
  imports LObject "HOL-Library.Char_ord" "HOL-Library.List_Lexorder"
begin

text \<open>
  Files (\<open>src/fs_handle.c\<close>) and the \<open>fs\<close> library (\<open>src/fs.cpp\<close>). A file is its bytes, a position and
  the end-of-file flag of \<open>stdio\<close>. Memory from \<open>malloc\<close> or the stack that the code does not initialise is
  an argument (\<open>junk\<close>, the bytes that happen to follow), because the strings the code returns run up to
  the first zero byte. The directory service of IncludeOS is an argument too. A path from Lua may hold
  zero bytes; what C sees of it, \<open>c_str\<close>, ends before the first. An access outside a buffer and a copy
  between overlapping strings are \<open>RUndef\<close>; each function takes its Lua arguments and returns what it
  pushes.
\<close>

section \<open>Files\<close>

record cfile =
  fbytes :: "byte list"
  fpos :: nat
  at_eof :: bool
  appends :: bool

definition fgetc :: "cfile \<Rightarrow> int \<times> cfile" where
  "fgetc f = (if fpos f < length (fbytes f) then (uint (fbytes f ! fpos f), f\<lparr>fpos := fpos f + 1\<rparr>)
              else (-1, f\<lparr>at_eof := True\<rparr>))"

text \<open>Seeking before the start fails and changes nothing.\<close>

definition fseek :: "int \<Rightarrow> cfile \<Rightarrow> cfile" where
  "fseek to f = (if to < 0 then f else f\<lparr>fpos := nat to, at_eof := False\<rparr>)"

definition fwrite :: "byte list \<Rightarrow> cfile \<Rightarrow> cfile" where
  "fwrite bs f =
     (let p = (if appends f then length (fbytes f) else fpos f)
      in f\<lparr>fbytes := take p (fbytes f) @ replicate (p - length (fbytes f)) 0 @ bs @ drop (p + length bs) (fbytes f),
           fpos := p + length bs\<rparr>)"

definition strlen_cut :: "byte list \<Rightarrow> byte list" where
  "strlen_cut bs = takeWhile (\<lambda>b. b \<noteq> 0) bs"

definition checkChar :: "byte \<Rightarrow> byte" where
  "checkChar c = (if c = 127 then 63
     else if (32 \<le> c \<and> c < 127) \<or> c = 10 \<or> c = 9 \<or> c = 13 then c else 63)"

section \<open>File handles\<close>

text \<open>Each read loop runs \<open>n\<close> times, or stops at the end of the file.\<close>

fun read_chars :: "nat \<Rightarrow> cfile \<Rightarrow> byte list \<times> cfile" where
  "read_chars 0 f = ([], f)"
| "read_chars (Suc n) f =
     (let (c, f1) = fgetc f; (cs, f2) = read_chars n f1 in (checkChar (word_of_int c) # cs, f2))"

fun read_until_eof :: "nat \<Rightarrow> cfile \<Rightarrow> byte list \<times> cfile" where
  "read_until_eof 0 f = ([], f)"
| "read_until_eof (Suc n) f =
     (if at_eof f then ([], f)
      else let (c, f1) = fgetc f; (cs, f2) = read_until_eof n f1 in (checkChar (word_of_int c) # cs, f2))"

definition handle_readAll :: "cfile \<Rightarrow> byte list option \<times> cfile" where
  "handle_readAll f =
     (if at_eof f then (None, f)
      else let pos = fpos f;
               f1 = fseek (int (length (fbytes f))) f;
               n = fpos f1 - pos;
               f2 = fseek (int pos) f1;
               (cs, f3) = read_until_eof n f2
           in (Some (strlen_cut cs), f3))"

text \<open>The length of the rest of the line: \<open>while (fgetc(fp) != '\n' && !feof(fp)) size++\<close>. The position
  grows in each round that goes on.\<close>

function line_size :: "cfile \<Rightarrow> nat \<Rightarrow> nat \<times> cfile" where
  "line_size f n =
     (let (c, f1) = fgetc f in
      if c \<noteq> 10 \<and> \<not> at_eof f1 then line_size f1 (n + 1) else (n, f1))"
  by pat_completeness auto
termination
  by (relation "measure (\<lambda>(f, n). length (fbytes f) - fpos f)") (auto simp: fgetc_def split: if_splits)

declare line_size.simps [simp del]

definition handle_readLine :: "byte list \<Rightarrow> cfile \<Rightarrow> byte list option \<times> cfile" where
  "handle_readLine junk f =
     (if at_eof f then (None, f)
      else let (n, f1) = line_size f 0;
               f2 = fseek (int (fpos f1) - int n - 1) f1;
               (cs, f3) = read_chars n f2;
               (_, f4) = fgetc f3
           in (Some (strlen_cut (cs @ junk)), f4))"

definition handle_readChar :: "byte list \<Rightarrow> cfile \<Rightarrow> byte list option \<times> cfile" where
  "handle_readChar junk f =
     (if at_eof f then (None, f)
      else let (c, f1) = fgetc f in (Some (strlen_cut (checkChar (word_of_int c) # junk)), f1))"

text \<open>\<open>char\<close> is signed on the target.\<close>

definition handle_readByte :: "cfile \<Rightarrow> int option \<times> cfile" where
  "handle_readByte f =
     (if at_eof f then (None, f)
      else let (c, f1) = fgetc f in (Some (sint (word_of_int c :: byte)), f1))"

definition handle_writeString :: "byte list \<Rightarrow> cfile \<Rightarrow> cfile" where
  "handle_writeString str f = fwrite (strlen_cut str) f"

definition handle_writeLine :: "byte list \<Rightarrow> cfile \<Rightarrow> cfile" where
  "handle_writeLine str f = fwrite [10] (fwrite (strlen_cut str) f)"

definition handle_writeByte :: "int \<Rightarrow> cfile \<Rightarrow> cfile" where
  "handle_writeByte n f = fwrite [word_of_int (n AND 0xFF)] f"

section \<open>Paths\<close>

definition strrchr_cut :: "char \<Rightarrow> string \<Rightarrow> nat option" where
  "strrchr_cut ch path = (if ch \<in> set path then Some (length path - 1 - length (takeWhile (\<lambda>c. c \<noteq> ch) (rev path))) else None)"

definition basename :: "string \<Rightarrow> string" where
  "basename path = (case strrchr_cut (CHR ''/'') path of None \<Rightarrow> path | Some i \<Rightarrow> drop (i + 1) path)"

text \<open>\<open>strcpy (path, &path[1])\<close> copies a string onto itself, one place to the left; the two overlap unless
  only the final zero is copied.\<close>

definition dirname :: "string \<Rightarrow> string res" where
  "dirname path0 =
     (if path0 \<noteq> [] \<and> hd path0 = CHR ''/'' \<and> length path0 > 1 then RUndef
      else let path = (if path0 \<noteq> [] \<and> hd path0 = CHR ''/'' then tl path0 else path0) in
        ROk (case strrchr_cut (CHR ''/'') path of
               Some i \<Rightarrow> take i path
             | None \<Rightarrow> (case strrchr_cut (CHR 0x5C) path of Some i \<Rightarrow> take i path | None \<Rightarrow> path)))"

text \<open>The result of \<open>fs.combine\<close> in a buffer of \<open>blen + llen + 2\<close> bytes, one of them for the final zero.
  \<open>blen\<close> and \<open>llen\<close> count all bytes of the arguments, \<open>strcpy\<close> and \<open>strcat\<close> stop at a zero byte.\<close>

definition skip_slash :: "string \<Rightarrow> string" where
  "skip_slash s = (if s \<noteq> [] \<and> hd s = CHR ''/'' then tl s else s)"

definition fs_combine :: "string \<Rightarrow> string \<Rightarrow> string res" where
  "fs_combine basePath localPath =
     (let blen = length basePath; llen = length localPath; cap = blen + llen + 2;
          r1 = skip_slash (c_str basePath)
      in if blen = 0 then RUndef
         else let r2 = (if basePath ! (blen - 1) \<noteq> CHR ''/'' then r1 @ ''/'' else r1);
                  r3 = r2 @ skip_slash (c_str localPath)
              in if llen = 0 then RUndef
                 else if length r3 + 1 > cap then RUndef
                 else if localPath ! (llen - 1) = CHR ''/'' then (if r3 = [] then RUndef else ROk (butlast r3))
                 else ROk r3)"

section \<open>The fs library\<close>

text \<open>What IncludeOS says of a path.\<close>

record dirent =
  is_valid :: bool
  is_dir :: bool
  is_file :: bool
  dsize :: int
  attrib :: byte
  dname :: string

definition hidden :: "dirent \<Rightarrow> bool" where
  "hidden d \<longleftrightarrow> (\<not> is_dir d \<and> \<not> is_file d) \<or> (attrib d AND 0x0F \<noteq> 0x0F \<and> attrib d AND 0x02 \<noteq> 0)"

text \<open>The message without the position that \<open>luaL_error\<close> puts before it and the \<open>errno\<close> after it.\<close>

definition err :: "string \<Rightarrow> string \<Rightarrow> lua_error" where
  "err path msg = LUA_ERRRUN (c_str path @ '': '' @ msg)"

fun list_entries :: "dirent list \<Rightarrow> nat \<Rightarrow> nat \<Rightarrow> (int \<times> string) list" where
  "list_entries [] i io = []"
| "list_entries (d # ds) i io =
     (if hidden d then list_entries ds (i + 1) (io + 1)
      else (int i - int io, dname d) # list_entries ds (i + 1) io)"

definition fs_list :: "(string \<Rightarrow> dirent) \<Rightarrow> (string \<Rightarrow> dirent list) \<Rightarrow> string \<Rightarrow> (int \<times> string) list res" where
  "fs_list stat ls path =
     (if is_dir (stat (c_str path)) then ROk (list_entries (sort_key dname (ls (c_str path))) 0 0)
      else RErr (err path ''Not a directory''))"

definition fs_exists :: "(string \<Rightarrow> dirent) \<Rightarrow> string \<Rightarrow> bool" where
  "fs_exists stat path = is_valid (stat (c_str path))"

definition fs_isDir :: "(string \<Rightarrow> dirent) \<Rightarrow> string \<Rightarrow> bool" where
  "fs_isDir stat path = is_dir (stat (c_str path))"

definition fs_isReadOnly :: bool where
  "fs_isReadOnly = True"

definition fs_getName :: "string \<Rightarrow> string" where
  "fs_getName path = basename (c_str path)"

definition fs_getDrive :: string where
  "fs_getDrive = ''hdd''"

definition fs_getSize :: "(string \<Rightarrow> dirent) \<Rightarrow> string \<Rightarrow> int res" where
  "fs_getSize stat path =
     (let d = stat (c_str path) in
      if is_file d then ROk (dsize d) else if is_dir d then ROk 0 else RErr (err path ''No such file''))"

definition fs_getFreeSpace :: int where
  "fs_getFreeSpace = 100000000"

definition fs_getDir :: "string \<Rightarrow> string res" where
  "fs_getDir path = dirname (c_str path)"

text \<open>The loop of \<open>fs_copy\<close>: blocks of 1024 bytes until a short one. An error of the device shortens a
  block: \<open>got k\<close> and \<open>put k\<close> are how many bytes the \<open>k\<close>-th read and write can transfer. The code ignores
  what \<open>fwrite\<close> returns.\<close>

definition fread_block :: "nat \<Rightarrow> nat \<Rightarrow> cfile \<Rightarrow> byte list \<times> cfile" where
  "fread_block lim n f =
     (let rest = drop (fpos f) (fbytes f); bs = take (min lim n) rest
      in (bs, f\<lparr>fpos := fpos f + length bs, at_eof := at_eof f \<or> (length rest < n \<and> length rest \<le> lim)\<rparr>))"

function copy_loop :: "(nat \<Rightarrow> nat) \<Rightarrow> (nat \<Rightarrow> nat) \<Rightarrow> nat \<Rightarrow> cfile \<Rightarrow> cfile \<Rightarrow> cfile" where
  "copy_loop got put k from to =
     (if at_eof from then to
      else let (bs, from1) = fread_block (got k) 1024 from; to1 = fwrite (take (put k) bs) to
           in if length bs < 1024 then to1 else copy_loop got put (k + 1) from1 to1)"
  by pat_completeness auto
termination
  by (relation "measure (\<lambda>(g, p, k, f, t). length (fbytes f) - fpos f)")
    (auto simp: fread_block_def Let_def)

declare copy_loop.simps [simp del]

definition open_file :: "byte list \<Rightarrow> cfile" where
  "open_file bs = \<lparr>fbytes = bs, fpos = 0, at_eof = False, appends = False\<rparr>"

text \<open>\<open>files\<close> maps a file, whatever the file system identifies it by, to its bytes, and \<open>resolve\<close> is the
  file a path names. Opening the target for writing empties it before the source is read.\<close>

definition fs_copy ::
  "(string \<Rightarrow> 'f) \<Rightarrow> ('f \<Rightarrow> bool) \<Rightarrow> ('f \<Rightarrow> bool) \<Rightarrow> (nat \<Rightarrow> nat) \<Rightarrow> (nat \<Rightarrow> nat) \<Rightarrow> string \<Rightarrow> string
   \<Rightarrow> ('f \<rightharpoonup> byte list) \<Rightarrow> ('f \<rightharpoonup> byte list) res" where
  "fs_copy resolve can_read can_write got put fromPath toPath files =
     (let src = resolve (c_str fromPath); dst = resolve (c_str toPath) in
      if files src = None \<or> \<not> can_read src then RErr (err fromPath ''Cannot read file'')
      else if \<not> can_write dst then RErr (err toPath ''Cannot write file'')
      else let files1 = files(dst \<mapsto> [])
           in ROk (files1(dst \<mapsto> fbytes (copy_loop got put 0 (open_file (the (files1 src))) (open_file [])))))"

text \<open>The methods of the handle that \<open>fs_open\<close> returns for a mode.\<close>

datatype handler = H_close | H_readAll | H_readLine | H_readChar | H_readByte | H_writeString | H_writeLine | H_writeByte | H_flush

definition open_methods :: "string \<Rightarrow> (string \<times> handler) list option" where
  "open_methods mode =
     (if mode = ''r'' then Some [(''close'', H_close), (''readAll'', H_readAll), (''readLine'', H_readLine), (''read'', H_readChar)]
      else if mode = ''w'' \<or> mode = ''a'' then
        Some [(''close'', H_close), (''write'', H_writeString), (''writeLine'', H_writeLine), (''flush'', H_flush)]
      else if mode = ''rb'' then Some [(''close'', H_close), (''read'', H_readByte)]
      else if mode = ''wb'' then Some [(''close'', H_close), (''write'', H_writeByte), (''flush'', H_flush)]
      else None)"

text \<open>\<open>fdopen_fails\<close> says with what message \<open>fdopen\<close> fails in a mode, if it does.\<close>

definition fs_open ::
  "(string \<Rightarrow> dirent) \<Rightarrow> (string \<Rightarrow> string option) \<Rightarrow> string \<Rightarrow> string \<Rightarrow> (string \<times> handler) list res" where
  "fs_open stat fdopen_fails path mode =
     (if \<not> is_file (stat (c_str path)) then RErr (err path ''No such file'')
      else case fdopen_fails (c_str mode) of
        Some msg \<Rightarrow> RErr (err path msg)
      | None \<Rightarrow>
          (case open_methods (c_str mode) of
             None \<Rightarrow> RErr (err mode ''Invalid mode'')
           | Some ms \<Rightarrow> ROk ms))"

section \<open>Reading lines\<close>

lemma checkChar_nonzero [simp]: "checkChar c \<noteq> 0"
  by (auto simp: checkChar_def)

lemma strlen_cut_append: "0 \<notin> set bs \<Longrightarrow> strlen_cut (bs @ rest) = bs @ strlen_cut rest"
  by (induction bs) (auto simp: strlen_cut_def)

lemma fgetc_in: "fpos f < length (fbytes f) \<Longrightarrow> fgetc f = (uint (fbytes f ! fpos f), f\<lparr>fpos := fpos f + 1\<rparr>)"
  by (simp add: fgetc_def)

lemma read_chars_in:
  "fpos f + n \<le> length (fbytes f) \<Longrightarrow>
   read_chars n f = (map checkChar (take n (drop (fpos f) (fbytes f))), f\<lparr>fpos := fpos f + n\<rparr>)"
proof (induction n arbitrary: f)
  case 0
  then show ?case by simp
next
  case (Suc n)
  then have lt: "fpos f < length (fbytes f)" by simp
  from Suc.IH [of "f\<lparr>fpos := fpos f + 1\<rparr>"] Suc.prems Cons_nth_drop_Suc [OF lt, symmetric] show ?case
    by (simp add: fgetc_in [OF lt])
qed

lemma read_until_eof_in:
  "\<not> at_eof f \<Longrightarrow> fpos f + n \<le> length (fbytes f) \<Longrightarrow>
   read_until_eof n f = (map checkChar (take n (drop (fpos f) (fbytes f))), f\<lparr>fpos := fpos f + n\<rparr>)"
proof (induction n arbitrary: f)
  case 0
  then show ?case by simp
next
  case (Suc n)
  then have lt: "fpos f < length (fbytes f)" by simp
  from Suc.IH [of "f\<lparr>fpos := fpos f + 1\<rparr>"] Suc.prems Cons_nth_drop_Suc [OF lt, symmetric] show ?case
    by (simp add: fgetc_in [OF lt])
qed

lemma uint_newline: "uint (b :: byte) = 10 \<longleftrightarrow> b = 10"
  by (simp add: word_uint_eq_iff)

lemma line_size_newline:
  assumes "\<not> at_eof f" "drop (fpos f) (fbytes f) = line @ 10 # rest" "10 \<notin> set line"
  shows "line_size f n = (n + length line, f\<lparr>fpos := fpos f + length line + 1\<rparr>)"
  using assms
proof (induction line arbitrary: f n)
  case Nil
  then have lt: "fpos f < length (fbytes f)" by (metis append_Nil drop_all linorder_not_less list.simps(3))
  with Nil.prems(2) have "fbytes f ! fpos f = 10" using Cons_nth_drop_Suc [OF lt] by simp
  with Nil.prems(1) lt show ?case by (subst line_size.simps) (simp add: fgetc_in)
next
  case (Cons c line)
  then have lt: "fpos f < length (fbytes f)" by (metis append_Cons drop_all linorder_not_less list.simps(3))
  with Cons.prems(2) have c: "fbytes f ! fpos f = c" "drop (Suc (fpos f)) (fbytes f) = line @ 10 # rest"
    using Cons_nth_drop_Suc [OF lt] by simp_all
  have "line_size f n = line_size (f\<lparr>fpos := fpos f + 1\<rparr>) (n + 1)"
    using lt c Cons.prems(1,3) by (subst line_size.simps) (auto simp: fgetc_in uint_newline)
  with Cons.IH [of "f\<lparr>fpos := fpos f + 1\<rparr>" "n + 1"] Cons.prems c(2) show ?case by simp
qed

lemma line_size_last:
  assumes "\<not> at_eof f" "drop (fpos f) (fbytes f) = line" "10 \<notin> set line" "fpos f \<le> length (fbytes f)"
  shows "line_size f n = (n + length line, f\<lparr>fpos := length (fbytes f), at_eof := True\<rparr>)"
  using assms
proof (induction line arbitrary: f n)
  case Nil
  then have "fpos f = length (fbytes f)" by simp
  then show ?case by (subst line_size.simps) (simp add: fgetc_def)
next
  case (Cons c line)
  then have lt: "fpos f < length (fbytes f)" by (metis drop_all linorder_not_less list.simps(3))
  with Cons.prems(2) have c: "fbytes f ! fpos f = c" "drop (Suc (fpos f)) (fbytes f) = line"
    using Cons_nth_drop_Suc [OF lt] by simp_all
  have "line_size f n = line_size (f\<lparr>fpos := fpos f + 1\<rparr>) (n + 1)"
    using lt c Cons.prems(1,3) by (subst line_size.simps) (auto simp: fgetc_in uint_newline)
  with Cons.IH [of "f\<lparr>fpos := fpos f + 1\<rparr>" "n + 1"] Cons.prems c(2) lt show ?case by simp
qed

lemma checkChar_list [simp]: "0 \<notin> set (map checkChar bs)"
  using checkChar_nonzero by (metis ex_map_conv)

lemma strlen_cut_checked: "strlen_cut (map checkChar bs @ rest) = map checkChar bs @ strlen_cut rest"
  by (rule strlen_cut_append [OF checkChar_list])

text \<open>
  reading a line. When the rest of the file has a newline, \<open>handle_readLine\<close> ends with the position
  right after it and returns the characters before it, unprintable ones replaced, followed by whatever
  bytes happen to stand after them in the fresh buffer up to a zero: the code never writes the terminator,
  so the result is the line only if that byte is zero.
\<close>

theorem readLine_line:
  assumes "\<not> at_eof f" and "drop (fpos f) (fbytes f) = line @ 10 # rest" and "10 \<notin> set line"
  shows "handle_readLine junk f = (Some (map checkChar line @ strlen_cut junk), f\<lparr>fpos := fpos f + length line + 1\<rparr>)"
proof -
  let ?f = "f\<lparr>fpos := fpos f, at_eof := False\<rparr>"
  have len: "length (fbytes f) = fpos f + length line + 1 + length rest"
  proof -
    have "length (drop (fpos f) (fbytes f)) = length line + 1 + length rest" by (simp add: assms(2))
    then show ?thesis by simp
  qed
  then have read: "read_chars (length line) ?f = (map checkChar line, ?f\<lparr>fpos := fpos f + length line\<rparr>)"
    using assms(2) read_chars_in [of ?f "length line"] by simp
  have "fgetc (?f\<lparr>fpos := fpos f + length line\<rparr>) = (10, ?f\<lparr>fpos := fpos f + length line + 1\<rparr>)"
  proof -
    have "fbytes f ! (fpos f + length line) = drop (fpos f) (fbytes f) ! length line" using len by simp
    then have "fbytes f ! (fpos f + length line) = 10" by (simp add: assms(2))
    then show ?thesis using len by (simp add: fgetc_def)
  qed
  moreover have "?f\<lparr>fpos := fpos f + length line + 1\<rparr> = f\<lparr>fpos := fpos f + length line + 1\<rparr>" using assms(1) by (cases f) simp
  ultimately show ?thesis
    using assms(1) line_size_newline [OF assms, of 0] read
    by (simp add: handle_readLine_def fseek_def strlen_cut_checked)
qed

theorem readLine_line_witness:
  "handle_readLine [0] (open_file [72, 105, 10, 33]) = (Some [72, 105], (open_file [72, 105, 10, 33])\<lparr>fpos := 3\<rparr>)"
  using readLine_line [of "open_file [72, 105, 10, 33]" "[72, 105]" "[33]" "[0]"]
  by (simp add: open_file_def checkChar_def strlen_cut_def)

text \<open>
  reading the last line of a file that does not end in a newline. The code steps back one byte too
  far: it returns the byte before the line (the previous newline) and all of the line but its last
  character.
\<close>

theorem readLine_last_shifted:
  assumes "\<not> at_eof f" and "0 < fpos f" and "fpos f \<le> length (fbytes f)"
    and "drop (fpos f) (fbytes f) = line" and "10 \<notin> set line" and "line \<noteq> []"
  shows "fst (handle_readLine junk f) =
    Some (map checkChar (fbytes f ! (fpos f - 1) # butlast line) @ strlen_cut junk)"
proof -
  have len: "length (fbytes f) = fpos f + length line" using assms(3,4) by auto
  obtain p where p: "fpos f = Suc p" using assms(2) by (cases "fpos f") auto
  let ?f = "f\<lparr>fpos := p, at_eof := False\<rparr>"
  have seek: "fseek (int (length (fbytes f)) - int (length line) - 1) (f\<lparr>fpos := length (fbytes f), at_eof := True\<rparr>) = ?f"
    using len p by (simp add: fseek_def)
  have "take (length line) (drop p (fbytes f)) = fbytes f ! p # butlast line"
  proof -
    have "p < length (fbytes f)" using len p by simp
    then have "drop p (fbytes f) = fbytes f ! p # line" using Cons_nth_drop_Suc [of p "fbytes f"] assms(4) p by simp
    then show ?thesis using assms(6) by (cases line) (simp_all add: butlast_conv_take)
  qed
  moreover have "read_chars (length line) ?f = (map checkChar (take (length line) (drop p (fbytes f))), ?f\<lparr>fpos := p + length line\<rparr>)"
    using read_chars_in [of ?f "length line"] len p by simp
  ultimately show ?thesis
    using assms(1) line_size_last [OF assms(1,4,5,3), of 0] seek p
    by (simp add: handle_readLine_def split_beta strlen_cut_checked del: list.map)
qed

theorem readLine_last_shifted_witness:
  "fst (handle_readLine [0] \<lparr>fbytes = [97, 10, 98, 99], fpos = 2, at_eof = False, appends = False\<rparr>) = Some [10, 98]"
  using readLine_last_shifted [of "\<lparr>fbytes = [97, 10, 98, 99], fpos = 2, at_eof = False, appends = False\<rparr>" "[98, 99]" "[0]"]
  by (simp add: checkChar_def strlen_cut_def)

section \<open>Copying and paths\<close>

lemma copy_loop_rest:
  "\<not> at_eof src \<Longrightarrow> fpos dst = length (fbytes dst) \<Longrightarrow> \<not> appends dst \<Longrightarrow>
   (\<And>j. 1024 \<le> got j) \<Longrightarrow> (\<And>j. 1024 \<le> put j) \<Longrightarrow>
   fbytes (copy_loop got put k src dst) = fbytes dst @ drop (fpos src) (fbytes src)"
proof (induction got put k src dst rule: copy_loop.induct)
  case (1 got put k src dst)
  let ?rest = "drop (fpos src) (fbytes src)"
  let ?bs = "take 1024 ?rest"
  have lim: "min (got k) 1024 = 1024" "1024 \<le> put k" using "1.prems"(4,5) by (simp_all add: min_absorb2)
  then have tk: "take (put k) ?bs = ?bs" by simp
  have w: "fbytes (fwrite ?bs dst) = fbytes dst @ ?bs" "fpos (fwrite ?bs dst) = length (fbytes (fwrite ?bs dst))" "\<not> appends (fwrite ?bs dst)"
    using "1.prems"(2,3) by (simp_all add: fwrite_def Let_def)
  show ?case
  proof (cases "length ?bs < 1024")
    case True
    then have "?bs = ?rest" by simp
    with True "1.prems"(1) w(1) tk lim show ?thesis
      by (subst copy_loop.simps) (simp add: fread_block_def Let_def)
  next
    case False
    let ?f = "src\<lparr>fpos := fpos src + length ?bs, at_eof := False\<rparr>"
    have blk: "fread_block (got k) 1024 src = (?bs, ?f)"
      using False "1.prems"(1) lim by (simp add: fread_block_def Let_def)
    have "fbytes (copy_loop got put (k + 1) ?f (fwrite ?bs dst)) = fbytes (fwrite ?bs dst) @ drop (fpos ?f) (fbytes ?f)"
      using "1.IH" [of "(?bs, ?f)" ?bs ?f "fwrite ?bs dst"] "1.prems"(1,4,5) blk False w(2,3) tk by simp
    moreover have "?rest = ?bs @ drop (fpos src + length ?bs) (fbytes src)"
    proof -
      have "length ?bs = 1024" using False by simp
      then have "drop (fpos src + length ?bs) (fbytes src) = drop 1024 ?rest" by (simp add: add.commute)
      then show ?thesis using append_take_drop_id [of 1024 ?rest] by simp
    qed
    ultimately show ?thesis using False "1.prems"(1) blk w(1) tk by (subst copy_loop.simps) simp
  qed
qed

text \<open>
  C33: copying. When the source can be read, the target written, and no read or write of the device
  falls short, \<open>fs.copy\<close> ends, and leaves in the file the target path names exactly the bytes of the file the
  source path names, and every other file as it was. If both paths name the same file (the same path,
  an alias, or paths that differ after a zero byte), it empties it, because the target is opened for
  writing before the source is read.
\<close>

theorem fs_copy_exact:
  assumes "src = resolve (c_str fromPath)" and "dst = resolve (c_str toPath)"
    and "files src = Some bs" and "can_read src" and "can_write dst"
    and "\<And>k. 1024 \<le> got k" and "\<And>k. 1024 \<le> put k"
  shows "fs_copy resolve can_read can_write got put fromPath toPath files =
    ROk (files(dst \<mapsto> (if src = dst then [] else bs)))"
proof -
  have copied: "fbytes (copy_loop got put 0 (open_file xs) (open_file [])) = xs" for xs
    using copy_loop_rest [of "open_file xs" "open_file []" got put 0] assms(6,7) by (simp add: open_file_def)
  show ?thesis
    using assms(3-5) unfolding fs_copy_def assms(1,2) Let_def copied by simp
qed

text \<open>A file system that ignores a leading slash.\<close>

theorem fs_copy_exact_witness:
  "fs_copy skip_slash (\<lambda>_. True) (\<lambda>_. True) (\<lambda>_. 1024) (\<lambda>_. 1024) ''a'' ''/b'' [''a'' \<mapsto> [1, 2]] =
     ROk ([''a'' \<mapsto> [1, 2]](''b'' \<mapsto> [1, 2]))
   \<and> fs_copy skip_slash (\<lambda>_. True) (\<lambda>_. True) (\<lambda>_. 1024) (\<lambda>_. 1024) ''a'' ''/a'' [''a'' \<mapsto> [1, 2]] = ROk [''a'' \<mapsto> []]"
  using fs_copy_exact [of "''a''" skip_slash "''a''" "''b''" "''/b''" "[''a'' \<mapsto> [1, 2]]" "[1, 2]" "\<lambda>_. True"
      "\<lambda>_. True" "\<lambda>_. 1024" "\<lambda>_. 1024"]
    fs_copy_exact [of "''a''" skip_slash "''a''" "''a''" "''/a''" "[''a'' \<mapsto> [1, 2]]" "[1, 2]" "\<lambda>_. True"
      "\<lambda>_. True" "\<lambda>_. 1024" "\<lambda>_. 1024"]
  by (simp add: skip_slash_def c_str_def)





lemma strrchr_last:
  assumes "ch \<notin> set b"
  shows "strrchr_cut ch (a @ ch # b) = Some (length a)"
proof -
  have "takeWhile (\<lambda>c. c \<noteq> ch) (rev b @ ch # rev a) = rev b" using assms by (subst takeWhile_append2) auto
  then show ?thesis by (simp add: strrchr_cut_def)
qed

text \<open>
  C31: paths come apart again. For a directory \<open>a\<close> without a slash at either end and a name \<open>b\<close> without a
  slash, neither empty and neither with a zero byte, \<open>fs.combine\<close> joins them with one slash, and
  \<open>fs.getName\<close> and \<open>fs.getDir\<close> give \<open>b\<close> and \<open>a\<close> back.
\<close>

theorem combine_split:
  assumes "a \<noteq> []" and "hd a \<noteq> CHR ''/''" and "last a \<noteq> CHR ''/''" and "b \<noteq> []" and "CHR ''/'' \<notin> set b"
    and "CHR 0x00 \<notin> set a" and "CHR 0x00 \<notin> set b"
  shows "fs_combine a b = ROk (a @ CHR ''/'' # b) \<and> fs_getName (a @ CHR ''/'' # b) = b
    \<and> fs_getDir (a @ CHR ''/'' # b) = ROk a"
proof (intro conjI)
  have nz: "c_str a = a" "c_str b = b" "c_str (a @ CHR ''/'' # b) = a @ CHR ''/'' # b"
    using assms(6,7) by (auto intro!: c_str_id)
  have "hd b \<noteq> CHR ''/''" "last b \<noteq> CHR ''/''" using assms(4,5) by (metis hd_in_set, metis last_in_set)
  then show "fs_combine a b = ROk (a @ CHR ''/'' # b)"
    using assms(1-4) by (simp add: fs_combine_def Let_def nz skip_slash_def last_conv_nth)
  note cut = strrchr_last [OF assms(5), of a]
  show "fs_getName (a @ CHR ''/'' # b) = b" unfolding fs_getName_def basename_def nz cut by simp
  have "hd (a @ CHR ''/'' # b) \<noteq> CHR ''/''" using assms(1,2) by simp
  then show "fs_getDir (a @ CHR ''/'' # b) = ROk a" unfolding fs_getDir_def dirname_def Let_def nz using cut by simp
qed

theorem combine_split_witness:
  "fs_combine ''rom/apis'' ''io'' = ROk ''rom/apis/io'' \<and> fs_getName ''rom/apis/io'' = ''io''
   \<and> fs_getDir ''rom/apis/io'' = ROk ''rom/apis''"
  using combine_split [of "''rom/apis''" "''io''"] by simp

end
