(* ===== verification/Libraries.thy ===== *)
theory Libraries
  imports LTableMap
begin

text \<open>
  The tables of the computer's libraries: how a library of C functions becomes a Lua table
  (\<open>src/lib.h\<close>, \<open>src/lib.c\<close>), the five tables the program loads, and the functions of the two small
  libraries \<open>bit\<close> (\<open>src/bit.h\<close>) and \<open>redstone\<close> (\<open>src/redstone.h\<close>). C functions are named; \<open>fn\<close> gives
  their addresses. Arguments are the integers \<open>lua_tointeger\<close> returns, results those that are pushed.
\<close>

section \<open>Loading a library\<close>

record library_t =
  lib_name :: string
  lib_count :: int
  lib_keys :: "string list"
  lib_values :: "string list"

text \<open>The loop adds the entries \<open>i\<close> to \<open>lib.count\<close> to the new table \<open>t\<close>.\<close>

primrec load_entries :: "(string \<Rightarrow> addr) \<Rightarrow> library_t \<Rightarrow> nat list \<Rightarrow> Table \<Rightarrow> Table res" where
  "load_entries fn lib [] t = ROk t"
| "load_entries fn lib (i # is) t =
     rbind (arr_get (lib_keys lib) (int i)) (\<lambda>k.
     rbind (arr_get (lib_values lib) (int i)) (\<lambda>v.
     rbind (tset t (VString k) (VFunction (fn v))) (load_entries fn lib is)))"

definition load_library :: "(string \<Rightarrow> addr) \<Rightarrow> addr \<Rightarrow> library_t \<Rightarrow> Table \<Rightarrow> (Table \<times> Table) res" where
  "load_library fn a lib globals =
     rbind (luaH_new 0 0) (\<lambda>t.
     rbind (load_entries fn lib [0..<nat (lib_count lib)] t) (\<lambda>t1.
     rbind (tset globals (VString (lib_name lib)) (VTable a)) (\<lambda>g. ROk (t1, g))))"

section \<open>The five libraries\<close>

definition bit_lib :: library_t where
  "bit_lib = \<lparr>lib_name = ''bit'', lib_count = 7, lib_keys = [
     ''band'', ''bor'', ''bnot'', ''bxor'', ''blshift'', ''brshift'', ''blogic_rshift''],
     lib_values = [
     ''bit_band'', ''bit_bor'', ''bit_bnot'', ''bit_bxor'', ''bit_blshift'', ''bit_brshift'', ''bit_blogic_rshift'']\<rparr>"

definition fs_lib :: library_t where
  "fs_lib = \<lparr>lib_name = ''fs'', lib_count = 16, lib_keys = [
     ''list'', ''exists'', ''isDir'', ''isReadOnly'', ''getName'', ''getDrive'', ''getSize'', ''getFreeSpace'',
     ''makeDir'', ''move'', ''copy'', ''delete'', ''combine'', ''open'', ''find'', ''getDir''],
     lib_values = [
     ''fs_list'', ''fs_exists'', ''fs_isDir'', ''fs_isReadOnly'', ''fs_getName'', ''fs_getDrive'', ''fs_getSize'',
     ''fs_getFreeSpace'', ''fs_makeDir'', ''fs_move'', ''fs_copy'', ''fs_delete'', ''fs_combine'', ''fs_open'',
     ''fs_find'', ''fs_getDir'']\<rparr>"

definition os_lib :: library_t where
  "os_lib = \<lparr>lib_name = ''os'', lib_count = 14, lib_keys = [
     ''getComputerID'', ''getComputerLabel'', ''setComputerLabel'', ''queueEvent'', ''clock'', ''startTimer'',
     ''cancelTimer'', ''time'', ''epoch'', ''day'', ''setAlarm'', ''cancelAlarm'', ''shutdown'', ''reboot''],
     lib_values = [
     ''os_getComputerID'', ''os_getComputerLabel'', ''os_setComputerLabel'', ''os_queueEvent'', ''os_clock'',
     ''os_startTimer'', ''os_cancelTimer'', ''os_time'', ''os_epoch'', ''os_day'', ''os_setAlarm'',
     ''os_cancelAlarm'', ''os_shutdown'', ''os_reboot'']\<rparr>"

definition rs_lib :: library_t where
  "rs_lib = \<lparr>lib_name = ''redstone'', lib_count = 11, lib_keys = [
     ''getSides'', ''getInput'', ''setOutput'', ''getOutput'', ''getAnalogInput'', ''setAnalogOutput'',
     ''getAnalogOutput'', ''getBundledInput'', ''getBundledOutput'', ''setBundledOutput'', ''testBundledInput''],
     lib_values = [
     ''rs_getSides'', ''rs_false'', ''rs_none'', ''rs_false'', ''rs_0'', ''rs_none'', ''rs_0'', ''rs_0'',
     ''rs_0'', ''rs_none'', ''rs_false'']\<rparr>"

definition term_lib :: library_t where
  "term_lib = \<lparr>lib_name = ''term'', lib_count = 23, lib_keys = [
     ''write'', ''scroll'', ''setCursorPos'', ''setCursorBlink'', ''getCursorPos'', ''getSize'', ''clear'',
     ''clearLine'', ''setTextColour'', ''setTextColor'', ''setBackgroundColour'', ''setBackgroundColor'',
     ''isColour'', ''isColor'', ''getTextColour'', ''getTextColor'', ''getBackgroundColour'',
     ''getBackgroundColor'', ''blit'', ''getPaletteColor'', ''getPaletteColour'', ''setPaletteColor'',
     ''setPaletteColour''],
     lib_values = [
     ''term_write'', ''term_scroll'', ''term_setCursorPos'', ''term_setCursorBlink'', ''term_getCursorPos'',
     ''term_getSize'', ''term_clear'', ''term_clearLine'', ''term_setTextColor'', ''term_setTextColor'',
     ''term_setBackgroundColor'', ''term_setBackgroundColor'', ''term_isColor'', ''term_isColor'',
     ''term_getTextColor'', ''term_getTextColor'', ''term_getBackgroundColor'', ''term_getBackgroundColor'',
     ''term_blit'', ''term_getPaletteColor'', ''term_getPaletteColor'', ''term_setPaletteColor'',
     ''term_setPaletteColor'']\<rparr>"

section \<open>bit and redstone\<close>

definition bit_band :: "int \<Rightarrow> int \<Rightarrow> int" where
  "bit_band x y = uint (word_of_int x AND word_of_int y :: u32)"

definition bit_bor :: "int \<Rightarrow> int \<Rightarrow> int" where
  "bit_bor x y = uint (word_of_int x OR word_of_int y :: u32)"

definition bit_bnot :: "int \<Rightarrow> int" where
  "bit_bnot x = uint (NOT (word_of_int x) AND 0xFFFFFFFF :: u32)"

definition bit_bxor :: "int \<Rightarrow> int \<Rightarrow> int" where
  "bit_bxor x y = uint (word_of_int x XOR word_of_int y :: u32)"

text \<open>Shifting a 32-bit value by 32 or more is undefined.\<close>

definition shl32 :: "u32 \<Rightarrow> u32 \<Rightarrow> u32 res" where
  "shl32 x n = (if n < 32 then ROk (push_bit (unat n) x) else RUndef)"

definition shr32 :: "u32 \<Rightarrow> u32 \<Rightarrow> u32 res" where
  "shr32 x n = (if n < 32 then ROk (drop_bit (unat n) x) else RUndef)"

definition bit_blshift :: "int \<Rightarrow> int \<Rightarrow> int res" where
  "bit_blshift x y = rbind (shl32 (word_of_int x) (word_of_int y)) (\<lambda>r. ROk (uint r))"

definition bit_brshift :: "int \<Rightarrow> int \<Rightarrow> int res" where
  "bit_brshift x y =
     (let a = word_of_int x; b = word_of_int y in
      rbind (shr32 a b) (\<lambda>r.
      rbind (shl32 (a AND 0x80000000) b) (\<lambda>s.
      rbind (shl32 (s - 1) (32 - b)) (\<lambda>f. ROk (uint (r OR f))))))"

definition bit_blogic_rshift :: "int \<Rightarrow> int \<Rightarrow> int res" where
  "bit_blogic_rshift x y = rbind (shr32 (word_of_int x) (word_of_int y)) (\<lambda>r. ROk (uint r))"

definition rs_false :: TValue where
  "rs_false = VBoolean False"

definition rs_0 :: TValue where
  "rs_0 = VNumber (cast_num 0)"

definition rs_none :: "TValue list" where
  "rs_none = []"

section \<open>Properties\<close>

definition lib_ok :: "library_t \<Rightarrow> bool" where
  "lib_ok lib \<longleftrightarrow> lib_count lib = int (length (lib_keys lib)) \<and> length (lib_values lib) = length (lib_keys lib)
     \<and> distinct (lib_keys lib) \<and> length (lib_keys lib) < 2 ^ MAXBITS"

lemma libs_ok: "list_all lib_ok [bit_lib, fs_lib, os_lib, rs_lib, term_lib]"
  by (simp add: lib_ok_def bit_lib_def fs_lib_def os_lib_def rs_lib_def term_lib_def)

definition lib_pairs :: "(string \<Rightarrow> addr) \<Rightarrow> library_t \<Rightarrow> (TValue \<times> TValue) list" where
  "lib_pairs fn lib = map (\<lambda>(k, v). (VString k, VFunction (fn v))) (zip (lib_keys lib) (lib_values lib))"

lemma load_entries_puts:
  assumes "length (lib_values lib) = length (lib_keys lib)" "i \<le> length (lib_keys lib)"
  shows "load_entries fn lib [i..<length (lib_keys lib)] t = tab.puts (drop i (lib_pairs fn lib)) t"
  using assms(2)
proof (induction "length (lib_keys lib) - i" arbitrary: i t)
  case 0
  then show ?case by (simp add: lib_pairs_def)
next
  case (Suc n)
  then have i: "i < length (lib_keys lib)" by simp
  have "drop i (lib_pairs fn lib) = (VString (lib_keys lib ! i), VFunction (fn (lib_values lib ! i))) # drop (Suc i) (lib_pairs fn lib)"
    using i assms(1) Cons_nth_drop_Suc [of i "lib_pairs fn lib"] by (simp add: lib_pairs_def)
  moreover have "load_entries fn lib [Suc i..<length (lib_keys lib)] = tab.puts (drop (Suc i) (lib_pairs fn lib))"
    using Suc by (intro ext) simp
  ultimately show ?case using i assms(1) by (simp add: upt_conv_Cons)
qed

lemma rawequal_string: "luaO_rawequalObj (VString a) k \<longleftrightarrow> k = VString a"
  by (cases k) (auto simp: luaO_rawequalObj_def)

lemma latest_functions:
  "distinct (map fst ps) \<Longrightarrow> tab.latest m (map (\<lambda>(k, v). (VString k, VFunction (fn v))) ps) k =
    (case k of VString s \<Rightarrow> (case map_of ps s of Some v \<Rightarrow> VFunction (fn v) | None \<Rightarrow> m k) | _ \<Rightarrow> m k)"
proof (induction ps arbitrary: m)
  case Nil
  then show ?case by (cases k) simp_all
next
  case (Cons p ps)
  obtain a v where p: "p = (a, v)" by fastforce
  then have "map_of ps a = None" using Cons.prems by (auto simp: map_of_eq_None_iff)
  moreover have "tab.latest m (map (\<lambda>(k, v). (VString k, VFunction (fn v))) (p # ps)) k =
      tab.latest (\<lambda>k. if luaO_rawequalObj (VString a) k then VFunction (fn v) else m k) (map (\<lambda>(k, v). (VString k, VFunction (fn v))) ps) k"
    by (simp only: p list.map prod.case tab.latest.simps fst_conv snd_conv)
  moreover have "distinct (map fst ps)" using Cons.prems by simp
  ultimately show ?case using Cons.IH p by (cases k) (auto simp: rawequal_string split: option.splits)
qed

text \<open>
  C26: loading a library. For each of the five libraries of the program, into any global table with room,
  loading succeeds: the declared counts are the sizes of the arrays, the new table has under each name the
  function at the same place of the array of functions and nothing else, and in the globals exactly the
  library's name changes.
\<close>

theorem load_library_installs:
  assumes "lib \<in> {bit_lib, fs_lib, os_lib, rs_lib, term_lib}" and "table_inv n globals" and "n < 2 ^ MAXBITS"
  shows "\<exists>t g. load_library fn a lib globals = ROk (t, g)
    \<and> (\<forall>i < length (lib_keys lib). tget t (VString (lib_keys lib ! i)) = VFunction (fn (lib_values lib ! i)))
    \<and> (\<forall>k. valid_key k \<longrightarrow> k \<notin> VString ` set (lib_keys lib) \<longrightarrow> tget t k = VNil)
    \<and> (\<forall>k. valid_key k \<longrightarrow> tget g k = (if k = VString (lib_name lib) then VTable a else tget globals k))"
proof -
  have ok: "lib_ok lib" using libs_ok assms(1) by auto
  let ?ps = "zip (lib_keys lib) (lib_values lib)"
  have dist: "distinct (map fst ?ps)" using ok by (simp add: lib_ok_def)
  obtain t0 where t0: "luaH_new 0 0 = ROk t0" "table_inv 0 t0" "\<forall>k. valid_key k \<longrightarrow> tget t0 k = VNil"
    using new_inv [of 0 0] by auto
  have vs: "valid_key (VString s)" for s by (simp add: valid_key_def live_def)
  have "0 + length (lib_pairs fn lib) \<le> 2 ^ MAXBITS" using ok by (simp add: lib_pairs_def lib_ok_def)
  moreover have "\<forall>kv \<in> set (lib_pairs fn lib). valid_key (fst kv)" using vs by (auto simp: lib_pairs_def)
  ultimately obtain t where t: "tab.puts (lib_pairs fn lib) t0 = ROk t"
    "\<forall>k. valid_key k \<longrightarrow> tget t k = tab.latest (tget t0) (lib_pairs fn lib) k"
    using tab.puts_total [OF t0(2)] by blast
  from tab.put_total [OF assms(2,3) vs, of "lib_name lib" "VTable a"] obtain g where g:
    "tset globals (VString (lib_name lib)) (VTable a) = ROk g"
    "\<forall>k. valid_key k \<longrightarrow> tget g k = (if luaO_rawequalObj (VString (lib_name lib)) k then VTable a else tget globals k)" by blast
  have "nat (lib_count lib) = length (lib_keys lib)" using ok by (simp add: lib_ok_def)
  then have "load_library fn a lib globals = ROk (t, g)"
    using load_entries_puts [of lib 0 fn t0] ok t0(1) t(1) g(1) by (simp add: load_library_def lib_ok_def)
  moreover have "tget t (VString (lib_keys lib ! i)) = VFunction (fn (lib_values lib ! i))" if "i < length (lib_keys lib)" for i
  proof -
    have "map_of ?ps (lib_keys lib ! i) = Some (lib_values lib ! i)"
      using that ok by (intro map_of_is_SomeI dist) (auto simp: set_zip lib_ok_def)
    then show ?thesis using t(2) vs latest_functions [OF dist, of "tget t0" fn] by (simp add: lib_pairs_def)
  qed
  moreover have "tget t k = VNil" if "valid_key k" "k \<notin> VString ` set (lib_keys lib)" for k
  proof -
    have "map_of ?ps s = None" if "k = VString s" for s
      using that \<open>k \<notin> _\<close> by (auto simp: map_of_eq_None_iff dest: set_zip_leftD)
    then show ?thesis using t(2) t0(3) that(1) latest_functions [OF dist, of "tget t0" fn k]
      by (cases k) (simp_all add: lib_pairs_def)
  qed
  ultimately show ?thesis using g(2) by (auto simp: rawequal_string)
qed

theorem load_library_installs_witness:
  "\<exists>globals t g. load_library (\<lambda>_. 8) 16 bit_lib globals = ROk (t, g) \<and> tget t (VString ''bnot'') = VFunction 8
     \<and> tget g (VString ''bit'') = VTable 16"
proof -
  obtain gl where gl: "table_inv 0 gl" using new_inv [of 0 0] by auto
  have vs: "valid_key (VString ''bit'')" by (simp add: valid_key_def live_def)
  have "bit_lib \<in> {bit_lib, fs_lib, os_lib, rs_lib, term_lib}" by simp
  from load_library_installs [OF this gl, of "\<lambda>_. 8" 16] obtain t g where
    "load_library (\<lambda>_. 8) 16 bit_lib gl = ROk (t, g)"
    "\<forall>i < length (lib_keys bit_lib). tget t (VString (lib_keys bit_lib ! i)) = VFunction 8"
    "\<forall>k. valid_key k \<longrightarrow> tget g k = (if k = VString (lib_name bit_lib) then VTable 16 else tget gl k)" by auto
  moreover have "2 < length (lib_keys bit_lib)" "lib_keys bit_lib ! 2 = ''bnot''" "lib_name bit_lib = ''bit''"
    by (simp_all add: bit_lib_def)
  ultimately show ?thesis using vs by metis
qed

text \<open>
  \<open>bit.brshift\<close> is not an arithmetic shift. For every shift distance from 1 to 31 the vacated bits
  are filled with ones whatever the sign bit is (\<open>(a & 0x80000000) << b\<close> is always 0, and one less than
  that is all ones); the distance 0 shifts by 32, which is undefined.
\<close>

theorem brshift_fills_ones:
  "(0 < b \<and> b < 32 \<longrightarrow> bit_brshift x (int b) = ROk (uint (drop_bit b (word_of_int x) OR push_bit (32 - b) (NOT 0) :: u32)))
   \<and> bit_brshift x 0 = RUndef"
proof (intro conjI impI)
  assume b: "0 < b \<and> b < 32"
  have u: "unat (of_nat b :: u32) = b" "(of_nat b :: u32) < 32"
    using b by (simp_all add: unsigned_of_nat take_bit_nat_eq_self word_less_nat_alt)
  have w: "(32 - of_nat b :: u32) < 32" "unat (32 - of_nat b :: u32) = 32 - b"
  proof -
    have "(32 - of_nat b :: u32) = of_nat (32 - b)" using b by (simp add: of_nat_diff)
    moreover have "unat (of_nat (32 - b) :: u32) = 32 - b" by (simp add: unsigned_of_nat take_bit_nat_eq_self)
    ultimately show "(32 - of_nat b :: u32) < 32" "unat (32 - of_nat b :: u32) = 32 - b" using b by (simp_all add: word_less_nat_alt)
  qed
  have "push_bit b (a AND 0x80000000 :: u32) = 0" for a
  proof -
    have m: "(0x80000000 :: int) = push_bit 31 1" by (simp add: push_bit_eq_mult)
    have top: "bit (0x80000000 :: int) j \<Longrightarrow> j = 31" for j
      unfolding m bit_push_bit_iff bit_1_iff by auto
    show ?thesis using b by (intro bit_word_eqI) (auto simp: bit_push_bit_iff bit_and_iff dest!: top)
  qed
  then show "bit_brshift x (int b) = ROk (uint (drop_bit b (word_of_int x) OR push_bit (32 - b) (NOT 0) :: u32))"
    using u w by (simp add: bit_brshift_def shr32_def shl32_def Let_def)
next
  show "bit_brshift x 0 = RUndef" by (simp add: bit_brshift_def shr32_def shl32_def Let_def)
qed

theorem brshift_fills_ones_witness: "bit_brshift 8 1 = ROk 2147483652"
  using brshift_fills_ones [of 1 8] by (simp add: push_bit_eq_mult drop_bit_eq_div)

end
