(* ===== verification/TableLib.thy ===== *)
theory TableLib
  imports LObject
begin

text \<open>
  The \<open>table\<close> library (\<open>src/lua/ltablib.c\<close>). A table is seen through \<open>lua_rawgeti\<close> and
  \<open>lua_rawseti\<close> as a function from integers to values (what \<open>table_is_map\<close> shows of the tables
  themselves). \<open>lt\<close> is the order of \<open>table.sort\<close>: the comparison function of the call, or \<open>lua_lessthan\<close>.
  A sort that never ends is \<open>None\<close>; the loops that check for an invalid order function raise its error.
\<close>

section \<open>Insertion, removal, concatenation\<close>

type_synonym 'v arr = "int \<Rightarrow> 'v"

text \<open>The loop \<open>for (i = e; i > pos; i--) t[i] = t[i-1]\<close>.\<close>

function shift_up :: "int \<Rightarrow> int \<Rightarrow> 'v arr \<Rightarrow> 'v arr" where
  "shift_up i pos a = (if i > pos then shift_up (i - 1) pos (a(i := a (i - 1))) else a)"
  by pat_completeness auto
termination by (relation "measure (\<lambda>(i, pos, a). nat (i - pos))") auto

declare shift_up.simps [simp del]

text \<open>
  \<open>getn\<close> is the length operator, which these functions apply to the table as it is when they are called
  (\<open>luaH_getn\<close>, whose result also depends on how the table is stored); \<open>args\<close> are the arguments after the
  table, \<open>checkint\<close> what \<open>luaL_checkint\<close> makes of the position. Positions and lengths are C ints; none of
  the computations below leaves their range for a table of fewer than \<open>2 ^ 30\<close> elements.
\<close>

definition tinsert :: "('v arr \<Rightarrow> int) \<Rightarrow> ('v \<Rightarrow> int res) \<Rightarrow> 'v list \<Rightarrow> 'v arr \<Rightarrow> 'v arr res" where
  "tinsert getn checkint args a =
     (let e = getn a + 1 in
      case args of
        [v] \<Rightarrow> ROk (a(e := v))
      | [p, v] \<Rightarrow> rbind (checkint p) (\<lambda>pos.
          let e' = (if pos > e then pos else e) in ROk ((shift_up e' pos a)(pos := v)))
      | _ \<Rightarrow> RErr (LUA_ERRRUN ''wrong number of arguments to insert''))"

function shift_down :: "int \<Rightarrow> int \<Rightarrow> 'v arr \<Rightarrow> 'v arr" where
  "shift_down pos e a = (if pos < e then shift_down (pos + 1) e (a(pos := a (pos + 1))) else a)"
  by pat_completeness auto
termination by (relation "measure (\<lambda>(pos, e, a). nat (e - pos))") auto

declare shift_down.simps [simp del]

text \<open>The position is optional: a missing or nil one is the length.\<close>

definition tremove ::
  "('v arr \<Rightarrow> int) \<Rightarrow> ('v \<Rightarrow> int res) \<Rightarrow> 'v \<Rightarrow> 'v list \<Rightarrow> 'v arr \<Rightarrow> ('v option \<times> 'v arr) res" where
  "tremove getn checkint nil args a =
     (let e = getn a in
      rbind (case args of [] \<Rightarrow> ROk e | p # _ \<Rightarrow> if p = nil then ROk e else checkint p) (\<lambda>pos.
        if \<not> (1 \<le> pos \<and> pos \<le> e) then ROk (None, a)
        else ROk (Some (a pos), (shift_down pos e a)(e := nil))))"

definition addfield :: "('v \<Rightarrow> string option) \<Rightarrow> 'v arr \<Rightarrow> int \<Rightarrow> string res" where
  "addfield str a i =
     (case str (a i) of
        None \<Rightarrow> RErr (LUA_ERRRUN ''invalid value in table for concat'')
      | Some s \<Rightarrow> ROk s)"

function concat_loop :: "('v \<Rightarrow> string option) \<Rightarrow> string \<Rightarrow> 'v arr \<Rightarrow> int \<Rightarrow> int \<Rightarrow> string \<Rightarrow> string res" where
  "concat_loop str sep a i lst b =
     (if i < lst then rbind (addfield str a i) (\<lambda>s. concat_loop str sep a (i + 1) lst (b @ s @ sep))
      else if i = lst then rbind (addfield str a i) (\<lambda>s. ROk (b @ s))
      else ROk b)"
  by pat_completeness auto
termination by (relation "measure (\<lambda>(str, sep, a, i, lst, b). nat (lst - i))") auto

declare concat_loop.simps [simp del]

definition tconcat :: "('v \<Rightarrow> string option) \<Rightarrow> string \<Rightarrow> int \<Rightarrow> int \<Rightarrow> 'v arr \<Rightarrow> string res" where
  "tconcat str sep i lst a = concat_loop str sep a i lst []"

section \<open>Quicksort\<close>

definition set2 :: "int \<Rightarrow> int \<Rightarrow> 'v arr \<Rightarrow> 'v arr" where
  "set2 i j a = a(i := a j, j := a i)"

definition invalid_order :: lua_error where
  "invalid_order = LUA_ERRRUN ''invalid order function for sorting''"

text \<open>\<open>while (a[++i] < P)\<close> and \<open>while (P < a[--j])\<close>, with their checks.\<close>

function scan_up :: "('v \<Rightarrow> 'v \<Rightarrow> bool res) \<Rightarrow> 'v \<Rightarrow> int \<Rightarrow> 'v arr \<Rightarrow> int \<Rightarrow> int res" where
  "scan_up lt P u a i =
     (case lt (a (i + 1)) P of
        RUndef \<Rightarrow> RUndef | RErr e \<Rightarrow> RErr e
      | ROk c \<Rightarrow>
          if c then if i + 1 > u then RErr invalid_order else scan_up lt P u a (i + 1)
          else ROk (i + 1))"
  by pat_completeness auto
termination by (relation "measure (\<lambda>(lt, P, u, a, i). nat (u - i))") auto

function scan_down :: "('v \<Rightarrow> 'v \<Rightarrow> bool res) \<Rightarrow> 'v \<Rightarrow> int \<Rightarrow> 'v arr \<Rightarrow> int \<Rightarrow> int res" where
  "scan_down lt P l a j =
     (case lt P (a (j - 1)) of
        RUndef \<Rightarrow> RUndef | RErr e \<Rightarrow> RErr e
      | ROk c \<Rightarrow>
          if c then if j - 1 < l then RErr invalid_order else scan_down lt P l a (j - 1)
          else ROk (j - 1))"
  by pat_completeness auto
termination by (relation "measure (\<lambda>(lt, P, l, a, j). nat (j - l))") auto

declare scan_up.simps [simp del] scan_down.simps [simp del]

lemma scan_up_gt: "scan_up lt P u a i = ROk i' \<Longrightarrow> i < i'"
proof (induction lt P u a i rule: scan_up.induct)
  case (1 lt P u a i)
  then show ?case by (subst (asm) (2) scan_up.simps) (force split: if_splits res.splits)
qed

lemma scan_down_lt: "scan_down lt P l a j = ROk j' \<Longrightarrow> j' < j"
proof (induction lt P l a j rule: scan_down.induct)
  case (1 lt P l a j)
  then show ?case by (subst (asm) (2) scan_down.simps) (force split: if_splits res.splits)
qed

text \<open>The partition loop; it returns the place of the pivot.\<close>

function part_loop ::
  "('v \<Rightarrow> 'v \<Rightarrow> bool res) \<Rightarrow> 'v \<Rightarrow> int \<Rightarrow> int \<Rightarrow> int \<Rightarrow> int \<Rightarrow> 'v arr \<Rightarrow> (int \<times> 'v arr) res" where
  "part_loop lt P l u i j a =
     (case scan_up lt P u a i of
        RUndef \<Rightarrow> RUndef | RErr e \<Rightarrow> RErr e
      | ROk i' \<Rightarrow>
          (case scan_down lt P l a j of
             RUndef \<Rightarrow> RUndef | RErr e \<Rightarrow> RErr e
           | ROk j' \<Rightarrow> if j' < i' then ROk (i', a) else part_loop lt P l u i' j' (set2 i' j' a)))"
  by pat_completeness auto
termination
  by (relation "measure (\<lambda>(lt, P, l, u, i, j, a). nat (j - i))") (force dest: scan_up_gt scan_down_lt)+

declare part_loop.simps [simp del]

text \<open>The exchanges that put the first, the middle and the last element in order.\<close>

definition sort2 :: "('v \<Rightarrow> 'v \<Rightarrow> bool res) \<Rightarrow> int \<Rightarrow> int \<Rightarrow> 'v arr \<Rightarrow> 'v arr res" where
  "sort2 lt l u a = rbind (lt (a u) (a l)) (\<lambda>c. ROk (if c then set2 l u a else a))"

definition sort3 :: "('v \<Rightarrow> 'v \<Rightarrow> bool res) \<Rightarrow> int \<Rightarrow> int \<Rightarrow> int \<Rightarrow> 'v arr \<Rightarrow> 'v arr res" where
  "sort3 lt l i u a =
     rbind (lt (a i) (a l)) (\<lambda>c.
     if c then ROk (set2 i l a)
     else rbind (lt (a u) (a i)) (\<lambda>d. ROk (if d then set2 i u a else a)))"

text \<open>One pass of the loop of \<open>auxsort\<close>: the array, and the pivot's place unless the pass sorted the range.\<close>

definition sort_pass :: "('v \<Rightarrow> 'v \<Rightarrow> bool res) \<Rightarrow> int \<Rightarrow> int \<Rightarrow> 'v arr \<Rightarrow> ('v arr \<times> int option) res" where
  "sort_pass lt l u a =
     rbind (sort2 lt l u a) (\<lambda>a1.
     if u - l = 1 then ROk (a1, None)
     else
       let m = (l + u) div 2 in
       rbind (sort3 lt l m u a1) (\<lambda>a2.
       if u - l = 2 then ROk (a2, None)
       else
         rbind (part_loop lt (a2 m) l u l (u - 1) (set2 m (u - 1) a2)) (\<lambda>(i, a4).
         ROk (set2 (u - 1) i a4, Some i))))"

text \<open>The smaller part is sorted by the recursive call, the larger one by the next pass.\<close>

partial_function (option) auxsort ::
  "('v \<Rightarrow> 'v \<Rightarrow> bool res) \<Rightarrow> int \<Rightarrow> int \<Rightarrow> 'v arr \<Rightarrow> 'v arr res option" where
  "auxsort lt l u a =
     (if l < u then
        case sort_pass lt l u a of
          RUndef \<Rightarrow> Some RUndef | RErr e \<Rightarrow> Some (RErr e)
        | ROk (a5, p) \<Rightarrow>
            (case p of
               None \<Rightarrow> Some (ROk a5)
             | Some i \<Rightarrow>
                 if i - l < u - i then
                   Option.bind (auxsort lt l (i - 1) a5) (\<lambda>r.
                     case r of RUndef \<Rightarrow> Some RUndef | RErr e \<Rightarrow> Some (RErr e)
                     | ROk a6 \<Rightarrow> auxsort lt (i + 1) u a6)
                 else
                   Option.bind (auxsort lt (i + 1) u a5) (\<lambda>r.
                     case r of RUndef \<Rightarrow> Some RUndef | RErr e \<Rightarrow> Some (RErr e)
                     | ROk a6 \<Rightarrow> auxsort lt l (i - 1) a6))
      else Some (ROk a))"

declare auxsort.simps [code]

definition sort_array :: "('v \<Rightarrow> 'v \<Rightarrow> bool res) \<Rightarrow> int \<Rightarrow> 'v arr \<Rightarrow> 'v arr res option" where
  "sort_array lt n a = auxsort lt 1 n a"

section \<open>Traversals\<close>

text \<open>
  \<open>foreachi\<close> calls a Lua function, which may change the state \<open>s\<close> the table lives in: \<open>get s i\<close> is
  \<open>lua_rawgeti\<close>, \<open>call\<close> the call. Every call that ends the loop returns a value that is not nil.
\<close>

function foreachi_loop ::
  "('s \<Rightarrow> int \<Rightarrow> TValue) \<Rightarrow> (int \<Rightarrow> TValue \<Rightarrow> 's \<Rightarrow> (TValue \<times> 's) res) \<Rightarrow> int \<Rightarrow> int \<Rightarrow> 's \<Rightarrow> (TValue option \<times> 's) res" where
  "foreachi_loop get call i n s =
     (if i \<le> n then
        case call i (get s i) s of
          RUndef \<Rightarrow> RUndef | RErr e \<Rightarrow> RErr e
        | ROk (r, s') \<Rightarrow> if r \<noteq> VNil then ROk (Some r, s') else foreachi_loop get call (i + 1) n s'
      else ROk (None, s))"
  by pat_completeness auto
termination by (relation "measure (\<lambda>(get, call, i, n, s). nat (n + 1 - i))") auto

declare foreachi_loop.simps [simp del]

definition foreachi where
  "foreachi get call n s = foreachi_loop get call 1 n s"

text \<open>\<open>maxn\<close> folds over the entries that \<open>lua_next\<close> visits.\<close>

fun maxn_step :: "lua_Number \<Rightarrow> TValue \<times> TValue \<Rightarrow> lua_Number" where
  "maxn_step m (VNumber v, _) = (if luai_numlt m v then v else m)"
| "maxn_step m _ = m"

definition maxn :: "(TValue \<times> TValue) list \<Rightarrow> lua_Number" where
  "maxn entries = foldl maxn_step (cast_num 0) entries"

section \<open>Correctness of the sort\<close>

text \<open>\<open>lt\<close> is a strict weak order on \<open>V\<close> that never raises an error.\<close>

definition order_on :: "('v \<Rightarrow> 'v \<Rightarrow> bool res) \<Rightarrow> 'v set \<Rightarrow> bool" where
  "order_on lt V \<longleftrightarrow>
     (\<forall>x\<in>V. \<forall>y\<in>V. (lt x y = ROk True \<or> lt x y = ROk False) \<and>
        (lt x y = ROk True \<longrightarrow> lt y x = ROk False) \<and>
        (\<forall>z\<in>V. lt x z = ROk True \<longrightarrow> lt x y = ROk True \<or> lt y z = ROk True))"

text \<open>\<open>a'\<close> is \<open>a\<close> with the elements from \<open>l\<close> to \<open>u\<close> exchanged among themselves.\<close>

definition permuted :: "int \<Rightarrow> int \<Rightarrow> 'v arr \<Rightarrow> 'v arr \<Rightarrow> bool" where
  "permuted l u a a' \<longleftrightarrow> (\<exists>f. bij f \<and> (\<forall>k. k < l \<or> u < k \<longrightarrow> f k = k) \<and> a' = a \<circ> f)"

definition sorted_range :: "('v \<Rightarrow> 'v \<Rightarrow> bool res) \<Rightarrow> int \<Rightarrow> int \<Rightarrow> 'v arr \<Rightarrow> bool" where
  "sorted_range lt l u a \<longleftrightarrow> (\<forall>i j. l \<le> i \<and> i < j \<and> j \<le> u \<longrightarrow> lt (a j) (a i) = ROk False)"

lemma order_onD:
  assumes "order_on lt V" "x \<in> V" "y \<in> V"
  shows order_cases: "lt x y = ROk True \<or> lt x y = ROk False"
    and order_asym: "lt x y = ROk True \<Longrightarrow> lt y x = ROk False"
    and order_irrefl: "lt x x = ROk False"
  using assms unfolding order_on_def by (blast, blast, metis)

lemma order_trans_le:
  assumes "order_on lt V" "x \<in> V" "y \<in> V" "z \<in> V" "lt y x = ROk False" "lt z y = ROk False"
  shows "lt z x = ROk False"
  using assms unfolding order_on_def by (metis (full_types) res.inject(2))

lemma permuted_refl [simp]: "permuted l u a a"
  unfolding permuted_def by (intro exI [of _ id]) auto

lemma permuted_trans:
  assumes "permuted l u a b" "permuted l' u' b c" "l \<le> l'" "u' \<le> u"
  shows "permuted l u a c"
proof -
  obtain f g where fg: "bij f" "\<forall>k. k < l \<or> u < k \<longrightarrow> f k = k" "b = a \<circ> f"
      "bij g" "\<forall>k. k < l' \<or> u' < k \<longrightarrow> g k = k" "c = b \<circ> g"
    using assms unfolding permuted_def by auto
  show ?thesis unfolding permuted_def
    using fg assms(3,4) by (intro exI [of _ "f \<circ> g"]) (auto simp: bij_comp comp_assoc)
qed

lemma permuted_set2 [simp]:
  assumes "l \<le> i" "i \<le> u" "l \<le> j" "j \<le> u"
  shows "permuted l u a (set2 i j a)"
proof -
  define f where "f = id(i := j, j := i)"
  have "f \<circ> f = id" by (simp add: fun_eq_iff f_def)
  then have "bij f" using o_bij by blast
  then show ?thesis unfolding permuted_def set2_def
    using assms by (intro exI [of _ f]) (auto simp: f_def)
qed

lemma permuted_outside: "permuted l u a b \<Longrightarrow> k < l \<or> u < k \<Longrightarrow> b k = a k"
  unfolding permuted_def by auto

lemma permuted_inside:
  assumes "permuted l u a b" "l \<le> k" "k \<le> u"
  shows "\<exists>k'. l \<le> k' \<and> k' \<le> u \<and> b k = a k'"
proof -
  obtain f where f: "bij f" "\<forall>k. k < l \<or> u < k \<longrightarrow> f k = k" "b = a \<circ> f"
    using assms(1) unfolding permuted_def by auto
  have "\<not> (f k < l \<or> u < f k)"
    using f(1,2) assms(2,3) by (metis bij_pointE linorder_not_less)
  then show ?thesis using f(3) by (auto simp: not_less)
qed

lemma permuted_range: "permuted l u a b \<Longrightarrow> b ` {l..u} \<subseteq> a ` {l..u}"
  using permuted_inside [of l u a b] by fastforce

lemma order_on_subset: "order_on lt V \<Longrightarrow> W \<subseteq> V \<Longrightarrow> order_on lt W"
  unfolding order_on_def by (meson subsetD)

lemma scan_up_stops:
  assumes "order_on lt V" "\<forall>k. l \<le> k \<and> k \<le> u \<longrightarrow> a k \<in> V" "P \<in> V" "l \<le> i" "i < s" "s \<le> u" "a s = P"
  shows "\<exists>i'. scan_up lt P u a i = ROk i' \<and> i < i' \<and> i' \<le> s \<and> lt (a i') P = ROk False \<and>
    (\<forall>k. i < k \<and> k < i' \<longrightarrow> lt (a k) P = ROk True)"
  using assms
proof (induction lt P u a i rule: scan_up.induct)
  case (1 lt P u a i)
  have "lt (a (i + 1)) P = ROk True \<or> lt (a (i + 1)) P = ROk False"
    using "1.prems" by (intro order_cases [of lt V]) auto
  then show ?case
  proof
    assume c: "lt (a (i + 1)) P = ROk True"
    have "i + 1 \<noteq> s" using c order_irrefl [OF "1.prems"(1,3,3)] "1.prems"(7) by auto
    then obtain i' where i': "scan_up lt P u a (i + 1) = ROk i'" "i + 1 < i'" "i' \<le> s"
        "lt (a i') P = ROk False" "\<forall>k. i + 1 < k \<and> k < i' \<longrightarrow> lt (a k) P = ROk True"
      using "1.IH" [OF c] "1.prems" by auto
    have "lt (a k) P = ROk True" if "i < k" "k < i'" for k
      using that i'(5) c by (cases "k = i + 1") auto
    then show ?thesis using i' c "1.prems"(5,6) by (subst scan_up.simps) auto
  next
    assume "lt (a (i + 1)) P = ROk False"
    then show ?thesis using "1.prems"(5) by (subst scan_up.simps) auto
  qed
qed

lemma scan_down_stops:
  assumes "order_on lt V" "\<forall>k. l \<le> k \<and> k \<le> u \<longrightarrow> a k \<in> V" "P \<in> V" "l < j" "j \<le> u" "lt P (a l) = ROk False"
  shows "\<exists>j'. scan_down lt P l a j = ROk j' \<and> l \<le> j' \<and> j' < j \<and> lt P (a j') = ROk False \<and>
    (\<forall>k. j' < k \<and> k < j \<longrightarrow> lt P (a k) = ROk True)"
  using assms
proof (induction lt P l a j rule: scan_down.induct)
  case (1 lt P l a j)
  have "lt P (a (j - 1)) = ROk True \<or> lt P (a (j - 1)) = ROk False"
    using "1.prems" by (intro order_cases [of lt V]) auto
  then show ?case
  proof
    assume c: "lt P (a (j - 1)) = ROk True"
    have "j - 1 \<noteq> l" using c "1.prems"(6) by auto
    then obtain j' where j': "scan_down lt P l a (j - 1) = ROk j'" "l \<le> j'" "j' < j - 1"
        "lt P (a j') = ROk False" "\<forall>k. j' < k \<and> k < j - 1 \<longrightarrow> lt P (a k) = ROk True"
      using "1.IH" [OF c] "1.prems" by auto
    have "lt P (a k) = ROk True" if "j' < k" "k < j" for k
      using that j'(5) c by (cases "k = j - 1") auto
    then show ?thesis using j' c "1.prems"(4) by (subst scan_down.simps) auto
  next
    assume "lt P (a (j - 1)) = ROk False"
    then show ?thesis using "1.prems"(4) by (subst scan_down.simps) auto
  qed
qed

lemma part_loop_result:
  assumes "order_on lt V" "\<forall>k. l \<le> k \<and> k \<le> u \<longrightarrow> a k \<in> V" "P \<in> V" "a (u - 1) = P"
    and "l \<le> i" "i < u - 1" "l < j" "j \<le> u - 1"
    and "\<forall>k. l \<le> k \<and> k \<le> i \<longrightarrow> lt P (a k) = ROk False"
    and "\<forall>k. j \<le> k \<and> k \<le> u \<longrightarrow> lt (a k) P = ROk False"
  shows "\<exists>i' a'. part_loop lt P l u i j a = ROk (i', a') \<and> l < i' \<and> i' \<le> u - 1 \<and> permuted l u a a' \<and>
    a' (u - 1) = P \<and> (\<forall>k. l \<le> k \<and> k < i' \<longrightarrow> lt P (a' k) = ROk False) \<and>
    (\<forall>k. i' \<le> k \<and> k \<le> u \<longrightarrow> lt (a' k) P = ROk False)"
  using assms
proof (induction lt P l u i j a rule: part_loop.induct)
  case (1 lt P l u i j a)
  note inV = "1.prems"(2)
  obtain i' where i': "scan_up lt P u a i = ROk i'" "i < i'" "i' \<le> u - 1" "lt (a i') P = ROk False"
      "\<forall>k. i < k \<and> k < i' \<longrightarrow> lt (a k) P = ROk True"
    using scan_up_stops [of lt V l u a P i "u - 1"] "1.prems" by auto
  obtain j' where j': "scan_down lt P l a j = ROk j'" "l \<le> j'" "j' < j" "lt P (a j') = ROk False"
      "\<forall>k. j' < k \<and> k < j \<longrightarrow> lt P (a k) = ROk True"
    using scan_down_stops [of lt V l u a P j] "1.prems" by auto
  have low: "lt P (a k) = ROk False" if "l \<le> k" "k < i'" for k
    using that "1.prems"(9) i'(3,5) order_asym [OF "1.prems"(1) _ "1.prems"(3), of "a k"] inV
    by (cases "k \<le> i") auto
  have high: "lt (a k) P = ROk False" if "j' < k" "k \<le> u" for k
    using that "1.prems"(10) j'(2,5) order_asym [OF "1.prems"(1,3), of "a k"] inV
    by (cases "j \<le> k") auto
  show ?case
  proof (cases "j' < i'")
    case True
    have "lt (a k) P = ROk False" if "i' \<le> k" "k \<le> u" for k
      using that i'(4) high [of k] True by (cases "k = i'") auto
    then show ?thesis using True i' j'(1) low "1.prems"(4,5) by (subst part_loop.simps) auto
  next
    case False
    have perm: "permuted l u a (set2 i' j' a)" using i' j' "1.prems"(5,8) False by simp
    have "\<exists>i'' a'. part_loop lt P l u i' j' (set2 i' j' a) = ROk (i'', a') \<and> l < i'' \<and> i'' \<le> u - 1 \<and>
        permuted l u (set2 i' j' a) a' \<and> a' (u - 1) = P \<and>
        (\<forall>k. l \<le> k \<and> k < i'' \<longrightarrow> lt P (a' k) = ROk False) \<and>
        (\<forall>k. i'' \<le> k \<and> k \<le> u \<longrightarrow> lt (a' k) P = ROk False)"
    proof (rule "1.IH" [OF i'(1) j'(1) False "1.prems"(1) _ "1.prems"(3)])
      show "\<forall>k. l \<le> k \<and> k \<le> u \<longrightarrow> set2 i' j' a k \<in> V"
        using inV i' j' False "1.prems"(5,8) by (auto simp: set2_def)
      show "\<forall>k. l \<le> k \<and> k \<le> i' \<longrightarrow> lt P (set2 i' j' a k) = ROk False"
        using low j'(4) False by (auto simp: set2_def)
      show "\<forall>k. j' \<le> k \<and> k \<le> u \<longrightarrow> lt (set2 i' j' a k) P = ROk False"
        using high i'(4) False by (auto simp: set2_def)
    qed (use i' j' False "1.prems"(4,5,8) in \<open>auto simp: set2_def\<close>)
    then show ?thesis
      using i'(1) j'(1) False permuted_trans [OF perm, of l u] by (subst part_loop.simps) fastforce
  qed
qed

lemma sort2_result:
  assumes "order_on lt V" "a l \<in> V" "a u \<in> V" "l \<le> u"
  shows "\<exists>a'. sort2 lt l u a = ROk a' \<and> permuted l u a a' \<and> lt (a' u) (a' l) = ROk False"
proof (cases "lt (a u) (a l) = ROk True")
  case True
  then show ?thesis using order_asym [OF assms(1,3,2)] assms(4)
    by (auto simp: sort2_def set2_def intro: permuted_set2 [unfolded set2_def])
next
  case False
  then show ?thesis using order_cases [OF assms(1,3,2)] by (auto simp: sort2_def)
qed

lemma sort3_result:
  assumes "order_on lt V" "a l \<in> V" "a m \<in> V" "a u \<in> V" "l < m" "m < u" "lt (a u) (a l) = ROk False"
  shows "\<exists>a'. sort3 lt l m u a = ROk a' \<and> permuted l u a a' \<and>
    lt (a' m) (a' l) = ROk False \<and> lt (a' u) (a' m) = ROk False"
proof (cases "lt (a m) (a l) = ROk True")
  case True
  then show ?thesis using order_asym [OF assms(1,3,2)] assms
    by (auto simp: sort3_def set2_def intro!: permuted_set2 [unfolded set2_def])
next
  case False
  then have l: "lt (a m) (a l) = ROk False" using order_cases [OF assms(1,3,2)] by auto
  show ?thesis
  proof (cases "lt (a u) (a m) = ROk True")
    case True
    then show ?thesis using l order_asym [OF assms(1,4,3)] assms
      by (auto simp: sort3_def set2_def intro!: permuted_set2 [unfolded set2_def])
  next
    case False
    then show ?thesis using l order_cases [OF assms(1,4,3)] by (auto simp: sort3_def)
  qed
qed

text \<open>What a pass leaves: a sorted range, or a pivot with nothing above it to its left and nothing below it to its right.\<close>

definition split_at :: "('v \<Rightarrow> 'v \<Rightarrow> bool res) \<Rightarrow> int \<Rightarrow> int \<Rightarrow> int \<Rightarrow> 'v arr \<Rightarrow> bool" where
  "split_at lt l i u a \<longleftrightarrow> l < i \<and> i < u \<and>
     (\<forall>k. l \<le> k \<and> k < i \<longrightarrow> lt (a i) (a k) = ROk False) \<and>
     (\<forall>k. i < k \<and> k \<le> u \<longrightarrow> lt (a k) (a i) = ROk False)"

lemma part_result:
  assumes "order_on lt V" "\<forall>k. l \<le> k \<and> k \<le> u \<longrightarrow> a k \<in> V" "l < m" "m < u - 1"
    and "lt (a m) (a l) = ROk False" "lt (a u) (a m) = ROk False"
  shows "\<exists>i a'. part_loop lt (a m) l u l (u - 1) (set2 m (u - 1) a) = ROk (i, a') \<and>
    permuted l u a (set2 (u - 1) i a') \<and> split_at lt l i u (set2 (u - 1) i a')"
proof -
  define b where "b = set2 m (u - 1) a"
  have perm: "permuted l u a b" unfolding b_def using assms(3,4) by simp
  have b: "b l = a l" "b u = a u" "b (u - 1) = a m" using assms(3,4) by (auto simp: b_def set2_def)
  have irr: "lt (a m) (a m) = ROk False" using order_irrefl [OF assms(1), of "a m" "a m"] assms(2,3,4) by simp
  have "\<forall>k. l \<le> k \<and> k \<le> u \<longrightarrow> b k \<in> V" using assms(2,3,4) by (auto simp: b_def set2_def)
  moreover have "\<forall>k. u - 1 \<le> k \<and> k \<le> u \<longrightarrow> lt (b k) (a m) = ROk False"
  proof (intro allI impI)
    fix k assume "u - 1 \<le> k \<and> k \<le> u"
    then have "k = u - 1 \<or> k = u" by auto
    then show "lt (b k) (a m) = ROk False" using b irr assms(6) by auto
  qed
  moreover have "\<forall>k. l \<le> k \<and> k \<le> l \<longrightarrow> lt (a m) (b k) = ROk False" using b assms(5) by (auto dest: order_antisym)
  ultimately obtain i a' where r: "part_loop lt (a m) l u l (u - 1) b = ROk (i, a')" "l < i" "i \<le> u - 1"
      "permuted l u b a'" "a' (u - 1) = a m" "\<forall>k. l \<le> k \<and> k < i \<longrightarrow> lt (a m) (a' k) = ROk False"
      "\<forall>k. i \<le> k \<and> k \<le> u \<longrightarrow> lt (a' k) (a m) = ROk False"
    using part_loop_result [of lt V l u b "a m" l "u - 1"] assms b by auto
  have "permuted l u a (set2 (u - 1) i a')"
    using permuted_trans [OF permuted_trans [OF perm r(4)], of l u] r(2,3) by simp
  moreover have "split_at lt l i u (set2 (u - 1) i a')"
    using r irr by (auto simp: split_at_def set2_def)
  ultimately show ?thesis using r(1) unfolding b_def by blast
qed

lemma sort_pass_result:
  assumes "order_on lt (a ` {l..u})" "l < u"
  shows "\<exists>a' p. sort_pass lt l u a = ROk (a', p) \<and> permuted l u a a' \<and>
    (case p of None \<Rightarrow> sorted_range lt l u a' | Some i \<Rightarrow> split_at lt l i u a')"
proof -
  define V where "V = a ` {l..u}"
  have inV: "b k \<in> V" if "permuted l u a b" "l \<le> k" "k \<le> u" for b k
    using permuted_range [OF that(1)] that(2,3) by (auto simp: V_def)
  note ord = assms(1) [folded V_def]
  obtain a1 where a1: "sort2 lt l u a = ROk a1" "permuted l u a a1" "lt (a1 u) (a1 l) = ROk False"
    using sort2_result [OF ord, of a l u] inV [OF permuted_refl] assms(2) by auto
  show ?thesis
  proof (cases "u - l = 1")
    case True
    then have "i = l \<and> j = u" if "l \<le> i" "i < j" "j \<le> u" for i j using that by arith
    then have "sorted_range lt l u a1" using a1(3) unfolding sorted_range_def by blast
    then show ?thesis using True a1(1,2) by (simp add: sort_pass_def)
  next
    case False
    define m where "m = (l + u) div 2"
    have m: "l < m" "m < u" using False assms(2) by (auto simp: m_def)
    obtain a2 where a2: "sort3 lt l m u a1 = ROk a2" "permuted l u a1 a2"
        "lt (a2 m) (a2 l) = ROk False" "lt (a2 u) (a2 m) = ROk False"
      using sort3_result [OF ord, of a1 l m u] inV [OF a1(2)] m a1(3) assms(2) by auto
    have perm: "permuted l u a a2" using permuted_trans [OF a1(2) a2(2)] by simp
    show ?thesis
    proof (cases "u - l = 2")
      case True
      have "lt (a2 u) (a2 l) = ROk False"
        using order_trans_le [OF ord _ _ _ a2(3,4)] inV [OF perm] m assms(2) by simp
      moreover have "i = l \<and> j = m \<or> i = l \<and> j = u \<or> i = m \<and> j = u" if "l \<le> i" "i < j" "j \<le> u" for i j
        using that True m by arith
      ultimately have "sorted_range lt l u a2" using a2(3,4) unfolding sorted_range_def by blast
      then show ?thesis using True a1(1) a2(1) perm by (simp add: sort_pass_def m_def [symmetric])
    next
      case neq: False
      have "m < u - 1" using False neq assms(2) m by (auto simp: m_def)
      then obtain i a' where "part_loop lt (a2 m) l u l (u - 1) (set2 m (u - 1) a2) = ROk (i, a')"
          "permuted l u a2 (set2 (u - 1) i a')" "split_at lt l i u (set2 (u - 1) i a')"
        using part_result [OF ord _ m(1) _ a2(3,4)] inV [OF perm] by blast
      then show ?thesis using False neq a1(1) a2(1) permuted_trans [OF perm]
        by (simp add: sort_pass_def m_def [symmetric])
    qed
  qed
qed

lemma sorted_join:
  assumes "order_on lt V" "\<forall>k. l \<le> k \<and> k \<le> u \<longrightarrow> a k \<in> V"
    and "sorted_range lt l (i - 1) a" "sorted_range lt (i + 1) u a" "split_at lt l i u a"
  shows "sorted_range lt l u a"
  unfolding sorted_range_def
proof (intro allI impI)
  fix x y assume xy: "l \<le> x \<and> x < y \<and> y \<le> u"
  consider "y < i" | "y = i" | "x = i" | "i < x" | "x < i" "i < y" by linarith
  then show "lt (a y) (a x) = ROk False"
  proof cases
    case 5
    then show ?thesis using order_trans_le [OF assms(1), of "a x" "a i" "a y"] assms(2,5) xy
      by (auto simp: split_at_def)
  qed (use assms(3,4,5) xy in \<open>auto simp: sorted_range_def split_at_def\<close>)
qed

text \<open>Sorting one side of the pivot keeps the split.\<close>

lemma split_at_permuted:
  assumes "split_at lt l i u a" "permuted l' u' a b" "l \<le> l' \<and> u' < i \<or> i < l' \<and> u' \<le> u"
  shows "split_at lt l i u b"
proof -
  have i: "b i = a i" using permuted_outside [OF assms(2)] assms(3) by auto
  have "lt (b i) (b k) = ROk False" if "l \<le> k" "k < i" for k
    using permuted_inside [OF assms(2), of k] permuted_outside [OF assms(2), of k] assms(1,3) i that
    by (cases "l' \<le> k \<and> k \<le> u'") (auto simp: split_at_def not_le)
  moreover have "lt (b k) (b i) = ROk False" if "i < k" "k \<le> u" for k
    using permuted_inside [OF assms(2), of k] permuted_outside [OF assms(2), of k] assms(1,3) i that
    by (cases "l' \<le> k \<and> k \<le> u'") (auto simp: split_at_def not_le)
  ultimately show ?thesis using assms(1) by (simp add: split_at_def)
qed

lemma sorted_range_cong: "(\<And>k. l \<le> k \<Longrightarrow> k \<le> u \<Longrightarrow> b k = a k) \<Longrightarrow> sorted_range lt l u a \<Longrightarrow> sorted_range lt l u b"
  by (auto simp: sorted_range_def)

text \<open>One call and the rest of the loop, in either order.\<close>

definition sorts :: "('v \<Rightarrow> 'v \<Rightarrow> bool res) \<Rightarrow> int \<Rightarrow> int \<Rightarrow> bool" where
  "sorts lt l u \<longleftrightarrow> (\<forall>a. order_on lt (a ` {l..u}) \<longrightarrow>
     (\<exists>b. auxsort lt l u a = Some (ROk b) \<and> permuted l u a b \<and> sorted_range lt l u b))"

lemma sorts_both:
  assumes ord: "order_on lt (a ` {l..u})" and sp: "split_at lt l i u a"
    and "sorts lt l1 u1" "sorts lt l2 u2"
    and sides: "l1 = l \<and> u1 = i - 1 \<and> l2 = i + 1 \<and> u2 = u \<or> l1 = i + 1 \<and> u1 = u \<and> l2 = l \<and> u2 = i - 1"
  shows "\<exists>b c. auxsort lt l1 u1 a = Some (ROk b) \<and> auxsort lt l2 u2 b = Some (ROk c) \<and>
    permuted l u a c \<and> sorted_range lt l u c"
proof -
  have lu: "l \<le> l1" "u1 \<le> u" "l \<le> l2" "u2 \<le> u" using sides sp by (auto simp: split_at_def)
  have "order_on lt (a ` {l1..u1})" using lu by (intro order_on_subset [OF ord]) auto
  then obtain b where b: "auxsort lt l1 u1 a = Some (ROk b)" "permuted l1 u1 a b" "sorted_range lt l1 u1 b"
    using assms(3) unfolding sorts_def by blast
  have pb: "permuted l u a b" using permuted_trans [OF permuted_refl b(2) lu(1,2)] .
  have "order_on lt (b ` {l2..u2})"
    using permuted_range [OF pb] lu by (intro order_on_subset [OF ord]) fastforce
  then obtain c where c: "auxsort lt l2 u2 b = Some (ROk c)" "permuted l2 u2 b c" "sorted_range lt l2 u2 c"
    using assms(4) unfolding sorts_def by blast
  have pc: "permuted l u a c" using permuted_trans [OF pb c(2) lu(3,4)] .
  have "split_at lt l i u b" by (rule split_at_permuted [OF sp b(2)]) (use sides in auto)
  then have "split_at lt l i u c" by (rule split_at_permuted [OF _ c(2)]) (use sides in auto)
  moreover have "sorted_range lt l1 u1 c"
    by (rule sorted_range_cong [OF _ b(3)]) (use permuted_outside [OF c(2)] sides in auto)
  moreover have "\<forall>k. l \<le> k \<and> k \<le> u \<longrightarrow> c k \<in> a ` {l..u}" using permuted_range [OF pc] by auto
  ultimately have "sorted_range lt l u c" using sorted_join [OF ord] c(3) sides by metis
  then show ?thesis using b(1) c(1) pc by blast
qed

lemma auxsort_sorts: "sorts lt l u"
proof (induction "nat (u - l)" arbitrary: l u rule: less_induct)
  case less
  show ?case unfolding sorts_def
  proof (intro allI impI)
    fix a assume ord: "order_on lt (a ` {l..u})"
    show "\<exists>b. auxsort lt l u a = Some (ROk b) \<and> permuted l u a b \<and> sorted_range lt l u b"
    proof (cases "l < u")
      case False
      then show ?thesis by (subst auxsort.simps) (auto simp: sorted_range_def)
    next
      case True
      obtain a' p where p: "sort_pass lt l u a = ROk (a', p)" "permuted l u a a'"
          "case p of None \<Rightarrow> sorted_range lt l u a' | Some i \<Rightarrow> split_at lt l i u a'"
        using sort_pass_result [OF ord True] by blast
      show ?thesis
      proof (cases p)
        case None
        then show ?thesis using True p by (subst auxsort.simps) auto
      next
        case (Some i)
        then have sp: "split_at lt l i u a'" using p(3) by simp
        have s: "sorts lt l (i - 1)" "sorts lt (i + 1) u" using less sp by (auto simp: split_at_def)
        have ord': "order_on lt (a' ` {l..u})" using order_on_subset [OF ord permuted_range [OF p(2)]] .
        show ?thesis using sorts_both [OF ord' sp s] sorts_both [OF ord' sp s(2,1)] True p(1) Some
            permuted_trans [OF p(2)] by (subst auxsort.simps) (fastforce)
      qed
    qed
  qed
qed

text \<open>Numbers without NaN are ordered by \<open>luai_numlt\<close>.\<close>

lemma numlt_order_on: "\<forall>x\<in>V. \<not> d_isnan x \<Longrightarrow> order_on (\<lambda>x y. ROk (luai_numlt x y)) V"
  unfolding order_on_def by (auto simp: luai_numlt_def)

text \<open>
  C6: For every comparison that is a strict weak order on the elements, \<open>table.sort\<close> ends without an error, the
  elements from 1 to \<open>n\<close> are a permutation of what they were (nothing outside them changes), and no
  element is smaller than one before it.
\<close>

theorem sort_array_sorts:
  assumes "order_on lt (a ` {1..n})"
  shows "\<exists>b. sort_array lt n a = Some (ROk b) \<and> permuted 1 n a b \<and> sorted_range lt 1 n b"
  using auxsort_sorts [of lt 1 n] assms unfolding sorts_def sort_array_def by blast

theorem sort_array_sorts_witness:
  "\<exists>b. sort_array (\<lambda>x y. ROk (luai_numlt x y)) 3 (\<lambda>k. cast_num (5 - k)) = Some (ROk b) \<and>
     permuted 1 3 (\<lambda>k. cast_num (5 - k)) b \<and> sorted_range (\<lambda>x y. ROk (luai_numlt x y)) 1 3 b"
  by (rule sort_array_sorts, rule numlt_order_on) (auto simp: cast_num_exact)

section \<open>Insertion and removal\<close>

lemma shift_up_eq:
  "shift_up i pos a = (\<lambda>k. if pos < k \<and> k \<le> i then a (k - 1) else a k)"
proof (induction i pos a rule: shift_up.induct)
  case (1 i pos a)
  show ?case
  proof (cases "i > pos")
    case True
    show ?thesis by (subst shift_up.simps, simp add: 1 [OF True] True) (use True in \<open>auto simp: fun_eq_iff\<close>)
  qed (auto simp: shift_up.simps fun_eq_iff)
qed

lemma shift_down_eq:
  "shift_down pos e a = (\<lambda>k. if pos \<le> k \<and> k < e then a (k + 1) else a k)"
proof (induction pos e a rule: shift_down.induct)
  case (1 pos e a)
  show ?case
  proof (cases "pos < e")
    case True
    show ?thesis by (subst shift_down.simps, simp add: 1 [OF True] True) (use True in \<open>auto simp: fun_eq_iff\<close>)
  qed (auto simp: shift_down.simps fun_eq_iff)
qed

text \<open>What the length operator promises: a border of the table it is applied to.\<close>

definition arr_border :: "'v \<Rightarrow> int \<Rightarrow> 'v arr \<Rightarrow> bool" where
  "arr_border nil j a \<longleftrightarrow> 0 \<le> j \<and> (j = 0 \<or> a j \<noteq> nil) \<and> a (j + 1) = nil"

definition proper_sequence :: "'v \<Rightarrow> int \<Rightarrow> 'v arr \<Rightarrow> bool" where
  "proper_sequence nil n a \<longleftrightarrow> 0 \<le> n \<and> (\<forall>k. 1 \<le> k \<and> k \<le> n \<longrightarrow> a k \<noteq> nil) \<and> (\<forall>k. n < k \<longrightarrow> a k = nil)"

lemma arr_border_unique:
  assumes "proper_sequence nil n a" and "arr_border nil j a"
  shows "j = n"
proof (rule ccontr)
  assume "j \<noteq> n"
  then consider "n < j" | "j < n" by linarith
  then show False
  proof cases
    case 1
    with assms show False by (auto simp: proper_sequence_def arr_border_def)
  next
    case 2
    with assms(2) have "1 \<le> j + 1" "j + 1 \<le> n" by (simp_all add: arr_border_def)
    with assms show False unfolding proper_sequence_def arr_border_def by blast
  qed
qed

text \<open>
  C30: insertion and removal undo each other. In a proper sequence of \<open>n\<close> elements (not nil from 1 to
  \<open>n\<close>, nil from there on), \<open>table.insert\<close> of a value other than nil at a position from 1 to \<open>n + 1\<close> moves the
  elements from there on up by one and leaves the others; \<open>table.remove\<close> at the same position, which takes
  the length of the table anew, then returns the value and restores the table. Of the length operator
  only this is used, that it gives a border of each of the two tables.
\<close>

theorem tremove_tinsert:
  assumes "proper_sequence nil n a" and "v \<noteq> nil" and "p \<noteq> nil"
    and "checkint p = ROk pos" and "1 \<le> pos" and "pos \<le> n + 1"
    and "b = (\<lambda>k. if k < pos then a k else if k = pos then v else a (k - 1))"
    and "arr_border nil (getn a) a" and "arr_border nil (getn b) b"
  shows "tinsert getn checkint [p, v] a = ROk b \<and> tremove getn checkint nil [p] b = ROk (Some v, a)"
proof -
  have len: "getn a = n" by (rule arr_border_unique [OF assms(1,8)])
  have up: "(shift_up (n + 1) pos a)(pos := v) = b"
    using assms(1,5,6) unfolding shift_up_eq assms(7) proper_sequence_def fun_eq_iff by auto
  have "proper_sequence nil (n + 1) b"
    using assms(1,2,5,6) unfolding assms(7) proper_sequence_def by auto
  then have len': "getn b = n + 1" by (rule arr_border_unique [OF _ assms(9)])
  have down: "(shift_down pos (n + 1) b)(n + 1 := nil) = a"
    using assms(1,5,6) unfolding shift_down_eq assms(7) proper_sequence_def fun_eq_iff by auto
  have "b pos = v" by (simp add: assms(7))
  then show ?thesis
    using assms(3-6) up down by (simp add: tinsert_def tremove_def len len' rbind_def)
qed

text \<open>A sequence of two strings.\<close>

definition two_strings :: "TValue arr" where
  "two_strings k = (if k = 1 then VString ''a'' else if k = 2 then VString ''b'' else VNil)"

definition two_or_three :: "TValue arr \<Rightarrow> int" where
  "two_or_three a = (if a 3 = VNil then 2 else 3)"

theorem tremove_tinsert_witness:
  "tinsert two_or_three (\<lambda>w. ROk 1) [VBoolean True, VString ''c''] two_strings =
      ROk (\<lambda>k. if k < 1 then two_strings k else if k = 1 then VString ''c'' else two_strings (k - 1)) \<and>
   tremove two_or_three (\<lambda>w. ROk 1) VNil [VBoolean True]
      (\<lambda>k. if k < 1 then two_strings k else if k = 1 then VString ''c'' else two_strings (k - 1)) =
      ROk (Some (VString ''c''), two_strings)"
  by (rule tremove_tinsert [where n = 2 and pos = 1])
    (auto simp: two_strings_def two_or_three_def proper_sequence_def arr_border_def)

text \<open>Concatenation, against the list of the strings with the separator between them.\<close>

fun join :: "string \<Rightarrow> string list \<Rightarrow> string" where
  "join sep [] = []"
| "join sep [s] = s"
| "join sep (s # t # ss) = s @ sep @ join sep (t # ss)"

lemma concat_loop_join:
  "\<forall>k\<in>{i..j}. str (a k) = Some (s k) \<Longrightarrow> concat_loop str sep a i j b = ROk (b @ join sep (map s [i..j]))"
proof (induction str sep a i j b rule: concat_loop.induct)
  case (1 str sep a i j b)
  show ?case
  proof (cases "i < j")
    case True
    have tl: "[i + 1..j] = (i + 1) # [i + 1 + 1..j]" using True by (intro upto_rec1) simp
    moreover have "[i..j] = i # [i + 1..j]" using True by (intro upto_rec1) simp
    ultimately show ?thesis
      using True 1 by (subst concat_loop.simps) (simp add: addfield_def)
  next
    case False
    then show ?thesis using 1(2) by (subst concat_loop.simps) (auto simp: addfield_def)
  qed
qed

text \<open>
  \<open>table.concat\<close> joins the elements from \<open>i\<close> to \<open>j\<close>, each a string or a number, with the separator
  between them; an empty range gives the empty string.
\<close>

theorem tconcat_joins:
  assumes "\<forall>k\<in>{i..j}. str (a k) = Some (s k)"
  shows "tconcat str sep i j a = ROk (join sep (map s [i..j]))"
  using concat_loop_join [of i j str a s sep "[]"] assms by (simp add: tconcat_def)

theorem tconcat_joins_witness:
  "tconcat Some '', '' 1 3 (\<lambda>k. if k = 2 then ''two'' else ''x'') = ROk (join '', '' (map (\<lambda>k. if k = 2 then ''two'' else ''x'') [1..3]))"
  by (rule tconcat_joins) simp

text \<open>\<open>maxn\<close> is an upper bound of the numeric keys, and 0 or one of them.\<close>

lemma maxn_bound:
  "\<not> d_isnan m \<Longrightarrow> luai_numle m (foldl maxn_step m es) \<and>
    (\<forall>v w. (VNumber v, w) \<in> set es \<longrightarrow> \<not> d_isnan v \<longrightarrow> luai_numle v (foldl maxn_step m es)) \<and>
    (foldl maxn_step m es = m \<or> (\<exists>w. (VNumber (foldl maxn_step m es), w) \<in> set es))"
proof (induction es arbitrary: m)
  case Nil
  then show ?case by (simp add: luai_numle_def)
next
  case (Cons e es)
  obtain k w where e: "e = (k, w)" by fastforce
  have n: "\<not> d_isnan (maxn_step m e)" using Cons.prems e by (cases k) (auto simp: luai_numlt_def)
  have "luai_numle m (maxn_step m e)" using Cons.prems e by (cases k) (auto simp: luai_numlt_def luai_numle_def)
  moreover have "luai_numle v (maxn_step m e)" if "k = VNumber v" "\<not> d_isnan v" for v
    using Cons.prems that e by (auto simp: luai_numlt_def luai_numle_def)
  moreover have "maxn_step m e = m \<or> k = VNumber (maxn_step m e)" using e by (cases k) auto
  ultimately show ?case using Cons.IH [OF n] e by (auto simp: luai_numle_def)
qed

end
