(* ===== verification/StrMatch.thy ===== *)
theory StrMatch
  imports LObject
begin

text \<open>
  The pattern matcher of the string library (\<open>src/lua/lstrlib.c\<close>, \<open>check_capture\<close> to \<open>match\<close>). A pointer
  into the subject or the pattern is an index; \<open>sget\<close> reads a character, the terminating zero included,
  and reading further is \<open>RUndef\<close>. The functions that \<open>match\<close> calls and that call it back take the
  rest of the match as an argument \<open>rec\<close>. The subject (\<open>src_init\<close>, \<open>src_end\<close>) is the argument \<open>src\<close>.
\<close>

section \<open>Characters\<close>

abbreviation NUL :: char where
  "NUL \<equiv> CHR 0x00"

definition sget :: "string \<Rightarrow> nat \<Rightarrow> char res" where
  "sget s i = (if i < length s then ROk (s ! i) else if i = length s then ROk NUL else RUndef)"

definition uchar :: "char \<Rightarrow> nat" where
  "uchar c = of_char c"

text \<open>The character classes of the C locale.\<close>

definition isupper :: "nat \<Rightarrow> bool" where "isupper c \<longleftrightarrow> 65 \<le> c \<and> c \<le> 90"
definition islower :: "nat \<Rightarrow> bool" where "islower c \<longleftrightarrow> 97 \<le> c \<and> c \<le> 122"
definition isdigit :: "nat \<Rightarrow> bool" where "isdigit c \<longleftrightarrow> 48 \<le> c \<and> c \<le> 57"
definition isalpha :: "nat \<Rightarrow> bool" where "isalpha c \<longleftrightarrow> isupper c \<or> islower c"
definition isalnum :: "nat \<Rightarrow> bool" where "isalnum c \<longleftrightarrow> isalpha c \<or> isdigit c"
definition iscntrl :: "nat \<Rightarrow> bool" where "iscntrl c \<longleftrightarrow> c < 32 \<or> c = 127"
definition isspace :: "nat \<Rightarrow> bool" where "isspace c \<longleftrightarrow> c = 32 \<or> 9 \<le> c \<and> c \<le> 13"
definition ispunct :: "nat \<Rightarrow> bool" where "ispunct c \<longleftrightarrow> 33 \<le> c \<and> c \<le> 126 \<and> \<not> isalnum c"
definition isxdigit :: "nat \<Rightarrow> bool" where
  "isxdigit c \<longleftrightarrow> isdigit c \<or> 65 \<le> c \<and> c \<le> 70 \<or> 97 \<le> c \<and> c \<le> 102"
definition tolower :: "nat \<Rightarrow> nat" where "tolower c = (if isupper c then c + 32 else c)"
definition toupper :: "nat \<Rightarrow> nat" where "toupper c = (if islower c then c - 32 else c)"

section \<open>Single characters\<close>

lemma rbind_cong [fundef_cong]:
  "m = m' \<Longrightarrow> (\<And>x. m' = ROk x \<Longrightarrow> k x = k' x) \<Longrightarrow> rbind m k = rbind m' k'"
  by (cases m') auto

definition perror :: "string \<Rightarrow> 'a res" where
  "perror msg = RErr (LUA_ERRRUN msg)"

function class_loop :: "string \<Rightarrow> nat \<Rightarrow> nat res" where
  "class_loop pat p =
     rbind (sget pat p) (\<lambda>c.
     if c = NUL then perror ''malformed pattern (missing ])''
     else
       rbind (if c = CHR ''%'' then rbind (sget pat (p + 1)) (\<lambda>d. ROk (if d \<noteq> NUL then p + 2 else p + 1))
              else ROk (p + 1)) (\<lambda>p'.
       rbind (sget pat p') (\<lambda>e. if e \<noteq> CHR '']'' then class_loop pat p' else ROk (p' + 1))))"
  by pat_completeness auto
termination
  by (relation "measure (\<lambda>(pat, p). Suc (length pat) - p)") (auto simp: sget_def split: if_splits)

definition classend :: "string \<Rightarrow> nat \<Rightarrow> nat res" where
  "classend pat p =
     rbind (sget pat p) (\<lambda>c.
     if c = CHR ''%'' then
       rbind (sget pat (p + 1)) (\<lambda>d.
       if d = NUL then perror ''malformed pattern (ends with %)'' else ROk (p + 2))
     else if c = CHR ''['' then
       rbind (sget pat (p + 1)) (\<lambda>d. class_loop pat (if d = CHR ''^'' then p + 2 else p + 1))
     else ROk (p + 1))"

definition match_class :: "nat \<Rightarrow> nat \<Rightarrow> bool" where
  "match_class c cl =
     (let l = tolower cl; signed = (\<lambda>r. if islower cl then r else \<not> r) in
      if l = uchar (CHR ''a'') then signed (isalpha c)
      else if l = uchar (CHR ''c'') then signed (iscntrl c)
      else if l = uchar (CHR ''d'') then signed (isdigit c)
      else if l = uchar (CHR ''l'') then signed (islower c)
      else if l = uchar (CHR ''p'') then signed (ispunct c)
      else if l = uchar (CHR ''s'') then signed (isspace c)
      else if l = uchar (CHR ''u'') then signed (isupper c)
      else if l = uchar (CHR ''w'') then signed (isalnum c)
      else if l = uchar (CHR ''x'') then signed (isxdigit c)
      else if l = uchar (CHR ''z'') then signed (c = 0)
      else cl = c)"

text \<open>\<open>p\<close> is the pointer before the increment in \<open>while (++p < ec)\<close>.\<close>

function bracket_loop :: "bool \<Rightarrow> nat \<Rightarrow> string \<Rightarrow> nat \<Rightarrow> nat \<Rightarrow> bool res" where
  "bracket_loop sig c pat p ec =
     (if p + 1 < ec then
        rbind (sget pat (p + 1)) (\<lambda>x.
        if x = CHR ''%'' then
          rbind (sget pat (p + 2)) (\<lambda>y.
          if match_class c (uchar y) then ROk sig else bracket_loop sig c pat (p + 2) ec)
        else
          rbind (sget pat (p + 2)) (\<lambda>y.
          if y = CHR ''-'' \<and> p + 3 < ec then
            rbind (sget pat (p + 3)) (\<lambda>z.
            if uchar x \<le> c \<and> c \<le> uchar z then ROk sig else bracket_loop sig c pat (p + 3) ec)
          else if uchar x = c then ROk sig
          else bracket_loop sig c pat (p + 1) ec))
      else ROk (\<not> sig))"
  by pat_completeness auto
termination by (relation "measure (\<lambda>(sig, c, pat, p, ec). ec - p)") auto

declare class_loop.simps [simp del] bracket_loop.simps [simp del]

definition matchbracketclass :: "nat \<Rightarrow> string \<Rightarrow> nat \<Rightarrow> nat \<Rightarrow> bool res" where
  "matchbracketclass c pat p ec =
     rbind (sget pat (p + 1)) (\<lambda>d.
     if d = CHR ''^'' then bracket_loop False c pat (p + 1) ec else bracket_loop True c pat p ec)"

definition singlematch :: "nat \<Rightarrow> string \<Rightarrow> nat \<Rightarrow> nat \<Rightarrow> bool res" where
  "singlematch c pat p ep =
     rbind (sget pat p) (\<lambda>x.
     if x = CHR ''.'' then ROk True
     else if x = CHR ''%'' then rbind (sget pat (p + 1)) (\<lambda>y. ROk (match_class c (uchar y)))
     else if x = CHR ''['' then matchbracketclass c pat p (ep - 1)
     else ROk (uchar x = c))"

text \<open>\<open>s < src_end && singlematch(uchar( *s), p, ep)\<close>\<close>

definition match_here :: "string \<Rightarrow> string \<Rightarrow> nat \<Rightarrow> nat \<Rightarrow> nat \<Rightarrow> bool res" where
  "match_here src pat s p ep =
     (if s < length src then rbind (sget src s) (\<lambda>c. singlematch (uchar c) pat p ep) else ROk False)"

function balance_loop :: "string \<Rightarrow> char \<Rightarrow> char \<Rightarrow> nat \<Rightarrow> nat \<Rightarrow> nat option res" where
  "balance_loop src b e s cont =
     (if s + 1 < length src then
        rbind (sget src (s + 1)) (\<lambda>c.
        if c = e then if cont - 1 = 0 then ROk (Some (s + 2)) else balance_loop src b e (s + 1) (cont - 1)
        else if c = b then balance_loop src b e (s + 1) (cont + 1)
        else balance_loop src b e (s + 1) cont)
      else ROk None)"
  by pat_completeness auto
termination by (relation "measure (\<lambda>(src, b, e, s, cont). length src - s)") auto

declare balance_loop.simps [simp del]

definition matchbalance :: "string \<Rightarrow> string \<Rightarrow> nat \<Rightarrow> nat \<Rightarrow> nat option res" where
  "matchbalance src pat s p =
     rbind (sget pat p) (\<lambda>b.
     if b = NUL then perror ''unbalanced pattern''
     else rbind (sget pat (p + 1)) (\<lambda>e.
     if e = NUL then perror ''unbalanced pattern''
     else rbind (sget src s) (\<lambda>c. if c \<noteq> b then ROk None else balance_loop src b e s 1)))"

section \<open>Captures\<close>

definition CAP_UNFINISHED :: int where "CAP_UNFINISHED = - 1"
definition CAP_POSITION :: int where "CAP_POSITION = - 2"
definition LUA_MAXCAPTURES :: nat where "LUA_MAXCAPTURES = 32"

text \<open>The captures are pairs of \<open>init\<close> and \<open>len\<close>; those from \<open>level\<close> on are whatever was left there.\<close>

record MatchState =
  level :: nat
  capture :: "(nat \<times> int) list"

type_synonym outcome = "(nat option \<times> MatchState) res"

definition check_capture :: "MatchState \<Rightarrow> nat \<Rightarrow> nat res" where
  "check_capture ms c =
     (let l = int c - int (uchar (CHR ''1'')) in
      if l < 0 \<or> l \<ge> int (level ms) then perror ''invalid capture index''
      else rbind (arr_get (capture ms) l) (\<lambda>x.
        if snd x = CAP_UNFINISHED then perror ''invalid capture index'' else ROk (nat l)))"

primrec close_loop :: "MatchState \<Rightarrow> nat \<Rightarrow> nat res" where
  "close_loop ms 0 = perror ''invalid pattern capture''"
| "close_loop ms (Suc l) =
     rbind (arr_get (capture ms) (int l)) (\<lambda>x. if snd x = CAP_UNFINISHED then ROk l else close_loop ms l)"

definition capture_to_close :: "MatchState \<Rightarrow> nat res" where
  "capture_to_close ms = close_loop ms (level ms)"

definition start_capture :: "(MatchState \<Rightarrow> nat \<Rightarrow> outcome) \<Rightarrow> MatchState \<Rightarrow> nat \<Rightarrow> int \<Rightarrow> outcome" where
  "start_capture rec ms s what =
     (if level ms \<ge> LUA_MAXCAPTURES then perror ''too many captures''
      else
        rbind (arr_set (capture ms) (int (level ms)) (s, what)) (\<lambda>cs.
        rbind (rec (ms\<lparr>capture := cs, level := level ms + 1\<rparr>) s) (\<lambda>(r, ms').
        ROk (r, if r = None then ms'\<lparr>level := level ms' - 1\<rparr> else ms'))))"

definition end_capture :: "(MatchState \<Rightarrow> nat \<Rightarrow> outcome) \<Rightarrow> MatchState \<Rightarrow> nat \<Rightarrow> outcome" where
  "end_capture rec ms s =
     rbind (capture_to_close ms) (\<lambda>l.
     rbind (arr_get (capture ms) (int l)) (\<lambda>x.
     rbind (arr_set (capture ms) (int l) (fst x, int s - int (fst x))) (\<lambda>cs.
     rbind (rec (ms\<lparr>capture := cs\<rparr>) s) (\<lambda>(r, ms').
     if r = None then
       rbind (arr_get (capture ms') (int l)) (\<lambda>y.
       rbind (arr_set (capture ms') (int l) (fst y, CAP_UNFINISHED)) (\<lambda>cs'. ROk (None, ms'\<lparr>capture := cs'\<rparr>)))
     else ROk (r, ms')))))"

text \<open>\<open>len\<close> is read as a \<open>size_t\<close>, so that of a position capture is larger than any string.\<close>

definition match_capture :: "string \<Rightarrow> MatchState \<Rightarrow> nat \<Rightarrow> nat \<Rightarrow> nat option res" where
  "match_capture src ms s c =
     rbind (check_capture ms c) (\<lambda>l.
     rbind (arr_get (capture ms) (int l)) (\<lambda>x.
     let len = unat (word_of_int (snd x) :: 64 word) in
     if len \<le> length src - s then
       if fst x + len \<le> length src then
         ROk (if take len (drop (fst x) src) = take len (drop s src) then Some (s + len) else None)
       else RUndef
     else ROk None))"

section \<open>Repetitions\<close>

function count_loop :: "string \<Rightarrow> string \<Rightarrow> nat \<Rightarrow> nat \<Rightarrow> nat \<Rightarrow> nat \<Rightarrow> nat res" where
  "count_loop src pat s p ep i =
     rbind (match_here src pat (s + i) p ep) (\<lambda>m. if m then count_loop src pat s p ep (i + 1) else ROk i)"
  by pat_completeness auto
termination
  by (relation "measure (\<lambda>(src, pat, s, p, ep, i). length src - (s + i))")
    (auto simp: match_here_def split: if_splits)

primrec expand_loop :: "(MatchState \<Rightarrow> nat \<Rightarrow> outcome) \<Rightarrow> MatchState \<Rightarrow> nat \<Rightarrow> nat \<Rightarrow> outcome" where
  "expand_loop rec ms s 0 = rec ms s"
| "expand_loop rec ms s (Suc i) =
     rbind (rec ms (s + Suc i)) (\<lambda>rm.
     if fst rm \<noteq> None then ROk rm else expand_loop rec (snd rm) s i)"

definition max_expand ::
  "(MatchState \<Rightarrow> nat \<Rightarrow> outcome) \<Rightarrow> string \<Rightarrow> string \<Rightarrow> MatchState \<Rightarrow> nat \<Rightarrow> nat \<Rightarrow> nat \<Rightarrow> outcome" where
  "max_expand rec src pat ms s p ep =
     rbind (count_loop src pat s p ep 0) (\<lambda>i. expand_loop rec ms s i)"

function min_expand ::
  "(MatchState \<Rightarrow> nat \<Rightarrow> outcome) \<Rightarrow> string \<Rightarrow> string \<Rightarrow> MatchState \<Rightarrow> nat \<Rightarrow> nat \<Rightarrow> nat \<Rightarrow> outcome" where
  "min_expand rec src pat ms s p ep =
     rbind (rec ms s) (\<lambda>rm.
     if fst rm \<noteq> None then ROk rm
     else
       rbind (match_here src pat s p ep) (\<lambda>m.
       if m then min_expand rec src pat (snd rm) (s + 1) p ep else ROk (None, snd rm)))"
  by pat_completeness auto
termination
  by (relation "measure (\<lambda>(rec, src, pat, ms, s, p, ep). length src - s)")
    (auto simp: match_here_def split: if_splits)

declare count_loop.simps [simp del] min_expand.simps [simp del]

section \<open>Matching\<close>

lemma sget_ok [simp]: "i \<le> length s \<Longrightarrow> sget s i = ROk (if i < length s then s ! i else NUL)"
  by (simp add: sget_def)

lemma sget_le: "sget s i = ROk c \<Longrightarrow> i \<le> length s"
  by (simp add: sget_def split: if_splits)

lemma sget_nonzero: "sget s i = ROk c \<Longrightarrow> c \<noteq> NUL \<Longrightarrow> i < length s \<and> c = s ! i"
  by (simp add: sget_def split: if_splits)

lemma rbind_ROkD: "rbind m k = ROk y \<Longrightarrow> \<exists>x. m = ROk x \<and> k x = ROk y"
  by (cases m) auto

lemma class_loop_gt: "class_loop pat p = ROk ep \<Longrightarrow> p < ep"
proof (induction pat p rule: class_loop.induct)
  case (1 pat p)
  then show ?case
    by (subst (asm) (2) class_loop.simps)
      (fastforce dest!: rbind_ROkD simp: perror_def split: if_splits)
qed

lemma classend_gt: "classend pat p = ROk ep \<Longrightarrow> p < ep"
  by (fastforce simp: classend_def perror_def dest!: rbind_ROkD class_loop_gt split: if_splits)

text \<open>The \<open>default\<close> case, a pattern item with its repetition; \<open>rec p'\<close> matches the pattern from \<open>p'\<close> on.\<close>

definition match_item ::
  "(nat \<Rightarrow> MatchState \<Rightarrow> nat \<Rightarrow> outcome) \<Rightarrow> string \<Rightarrow> string \<Rightarrow> MatchState \<Rightarrow> nat \<Rightarrow> nat \<Rightarrow> outcome" where
  "match_item rec src pat ms s p =
     rbind (classend pat p) (\<lambda>ep.
     rbind (match_here src pat s p ep) (\<lambda>m.
     rbind (sget pat ep) (\<lambda>q.
     if q = CHR ''?'' then
       rbind (if m then rec (ep + 1) ms (s + 1) else ROk (None, ms)) (\<lambda>rm.
       if fst rm \<noteq> None then ROk rm else rec (ep + 1) (snd rm) s)
     else if q = CHR ''*'' then max_expand (rec (ep + 1)) src pat ms s p ep
     else if q = CHR ''+'' then
       if m then max_expand (rec (ep + 1)) src pat ms (s + 1) p ep else ROk (None, ms)
     else if q = CHR ''-'' then min_expand (rec (ep + 1)) src pat ms s p ep
     else if m then rec ep ms (s + 1)
     else ROk (None, ms))))"

lemma match_item_cong [fundef_cong]:
  assumes "src = src'" "pat = pat'" "ms = ms'" "s = s'" "p = p'"
    and "\<And>q. p' < q \<Longrightarrow> p' \<le> length pat' \<Longrightarrow> rec q = rec' q"
  shows "match_item rec src pat ms s p = match_item rec' src' pat' ms' s' p'"
proof (cases "classend pat' p'")
  case (ROk ep)
  have "p' \<le> length pat'" using ROk sget_le by (fastforce simp: classend_def dest!: rbind_ROkD)
  then have "rec ep = rec' ep" "rec (ep + 1) = rec' (ep + 1)" using assms(6) classend_gt [OF ROk] by auto
  then show ?thesis unfolding assms(1-5) match_item_def ROk rbind_simps by (simp only:)
qed (simp_all add: assms(1-5) match_item_def)

text \<open>The case \<open>%f\<close>: the end of the set if the frontier is here.\<close>

definition frontier :: "string \<Rightarrow> string \<Rightarrow> nat \<Rightarrow> nat \<Rightarrow> nat option res" where
  "frontier src pat s p =
     rbind (sget pat p) (\<lambda>e.
     if e \<noteq> CHR ''['' then perror ''missing [ after %f in pattern''
     else
       rbind (classend pat p) (\<lambda>ep.
       rbind (if s = 0 then ROk NUL else sget src (s - 1)) (\<lambda>previous.
       rbind (matchbracketclass (uchar previous) pat p (ep - 1)) (\<lambda>before.
       if before then ROk None
       else
         rbind (sget src s) (\<lambda>x.
         rbind (matchbracketclass (uchar x) pat p (ep - 1)) (\<lambda>after.
         ROk (if after then Some ep else None)))))))"

lemma frontier_gt: "frontier src pat s p = ROk (Some ep) \<Longrightarrow> p < ep"
  by (fastforce simp: frontier_def perror_def dest!: rbind_ROkD classend_gt split: if_splits)

function match :: "string \<Rightarrow> string \<Rightarrow> MatchState \<Rightarrow> nat \<Rightarrow> nat \<Rightarrow> outcome" where
  "match src pat ms s p =
     rbind (sget pat p) (\<lambda>c.
     let dflt = match_item (\<lambda>p' ms s. match src pat ms s p') src pat ms s p in
     if c = CHR ''('' then
       rbind (sget pat (p + 1)) (\<lambda>d.
       if d = CHR '')'' then start_capture (\<lambda>ms s. match src pat ms s (p + 2)) ms s CAP_POSITION
       else start_capture (\<lambda>ms s. match src pat ms s (p + 1)) ms s CAP_UNFINISHED)
     else if c = CHR '')'' then end_capture (\<lambda>ms s. match src pat ms s (p + 1)) ms s
     else if c = CHR ''%'' then
       rbind (sget pat (p + 1)) (\<lambda>d.
       if d = CHR ''b'' then
         rbind (matchbalance src pat s (p + 2)) (\<lambda>r.
         case r of None \<Rightarrow> ROk (None, ms) | Some s' \<Rightarrow> match src pat ms s' (p + 4))
       else if d = CHR ''f'' then
         rbind (frontier src pat s (p + 2)) (\<lambda>r.
         case r of None \<Rightarrow> ROk (None, ms) | Some ep \<Rightarrow> match src pat ms s ep)
       else if isdigit (uchar d) then
         rbind (match_capture src ms s (uchar d)) (\<lambda>r.
         case r of None \<Rightarrow> ROk (None, ms) | Some s' \<Rightarrow> match src pat ms s' (p + 2))
       else dflt)
     else if c = NUL then ROk (Some s, ms)
     else if c = CHR ''$'' then
       rbind (sget pat (p + 1)) (\<lambda>d.
       if d = NUL then ROk (if s = length src then Some s else None, ms) else dflt)
     else dflt)"
  by pat_completeness auto
termination
  by (relation "measure (\<lambda>(src, pat, ms, s, p). Suc (length pat) - p)")
    (auto dest!: sget_le classend_gt frontier_gt)

declare match.simps [simp del]

section \<open>Bounds\<close>

lemma class_loop_ok:
  "p \<le> length pat \<Longrightarrow> class_loop pat p \<noteq> RUndef \<and> (\<forall>ep. class_loop pat p = ROk ep \<longrightarrow> ep \<le> length pat)"
proof (induction pat p rule: class_loop.induct)
  case (1 pat p)
  show ?case
  proof (cases "p < length pat \<and> pat ! p \<noteq> NUL")
    case False
    then show ?thesis using "1.prems" by (subst (1 2) class_loop.simps) (auto simp: perror_def)
  next
    case True
    define p' where "p' = (if pat ! p = CHR ''%'' \<and> p + 1 < length pat \<and> pat ! (p + 1) \<noteq> NUL then p + 2 else p + 1)"
    have p': "p' \<le> length pat" using True by (auto simp: p'_def)
    have "class_loop pat p = (if p' < length pat \<and> pat ! p' = CHR '']'' then ROk (p' + 1) else class_loop pat p')"
      using True p' by (subst class_loop.simps) (auto simp: p'_def)
    moreover have "class_loop pat p' \<noteq> RUndef \<and> (\<forall>ep. class_loop pat p' = ROk ep \<longrightarrow> ep \<le> length pat)"
      if "\<not> (p' < length pat \<and> pat ! p' = CHR '']'')"
      by (rule "1.IH" [of "pat ! p" p' "if p' < length pat then pat ! p' else NUL"])
        (use True p' that in \<open>auto simp: p'_def\<close>)
    ultimately show ?thesis by auto
  qed
qed

lemma classend_ok:
  assumes "p < length pat" "pat ! p \<noteq> NUL"
  shows "classend pat p \<noteq> RUndef" and "classend pat p = ROk ep \<Longrightarrow> p < ep \<and> ep \<le> length pat"
proof -
  have "classend pat p \<noteq> RUndef \<and> (\<forall>ep. classend pat p = ROk ep \<longrightarrow> ep \<le> length pat)"
    using assms class_loop_ok [of "p + 1" pat] class_loop_ok [of "p + 2" pat]
    by (auto simp: classend_def perror_def)
  then show "classend pat p \<noteq> RUndef" and "classend pat p = ROk ep \<Longrightarrow> p < ep \<and> ep \<le> length pat"
    using classend_gt by auto
qed

lemma bracket_loop_ok: "ec \<le> length pat \<Longrightarrow> \<exists>b. bracket_loop sig c pat p ec = ROk b"
proof (induction sig c pat p ec rule: bracket_loop.induct)
  case (1 sig c pat p ec)
  show ?case
  proof (cases "p + 1 < ec")
    case True
    then show ?thesis using 1 by (subst bracket_loop.simps) auto
  qed (subst bracket_loop.simps, simp)
qed

lemma matchbracketclass_ok: "p < length pat \<Longrightarrow> ec \<le> length pat \<Longrightarrow> \<exists>b. matchbracketclass c pat p ec = ROk b"
  using bracket_loop_ok by (auto simp: matchbracketclass_def)

lemma singlematch_ok: "p < length pat \<Longrightarrow> ep \<le> length pat \<Longrightarrow> \<exists>b. singlematch c pat p ep = ROk b"
  using matchbracketclass_ok [of p pat "ep - 1" c] by (auto simp: singlematch_def)

lemma match_here_ok:
  "p < length pat \<Longrightarrow> ep \<le> length pat \<Longrightarrow> \<exists>b. match_here src pat s p ep = ROk b \<and> (b \<longrightarrow> s < length src)"
  using singlematch_ok by (auto simp: match_here_def)

lemma count_loop_ok:
  assumes "p < length pat" "ep \<le> length pat"
  shows "\<exists>k\<ge>i. count_loop src pat s p ep i = ROk k \<and> (s + k \<le> length src \<or> k = i) \<and>
    (\<forall>j. i \<le> j \<and> j < k \<longrightarrow> match_here src pat (s + j) p ep = ROk True) \<and>
    match_here src pat (s + k) p ep = ROk False"
  using assms
proof (induction src pat s p ep i rule: count_loop.induct)
  case (1 src pat s p ep i)
  obtain b where b: "match_here src pat (s + i) p ep = ROk b" "b \<longrightarrow> s + i < length src"
    using match_here_ok "1.prems" by blast
  show ?case
  proof (cases b)
    case True
    then obtain k where k: "i + 1 \<le> k" "count_loop src pat s p ep (i + 1) = ROk k"
        "s + k \<le> length src \<or> k = i + 1" "match_here src pat (s + k) p ep = ROk False"
        "\<forall>j. i + 1 \<le> j \<and> j < k \<longrightarrow> match_here src pat (s + j) p ep = ROk True"
      using 1 b by blast
    moreover have "match_here src pat (s + j) p ep = ROk True" if "i \<le> j" "j < k" for j
      using that k(5) b(1) True by (cases "j = i") auto
    ultimately show ?thesis using b True by (intro exI [of _ k]) (subst count_loop.simps, auto)
  next
    case False
    then show ?thesis using b by (intro exI [of _ i]) (subst count_loop.simps, auto)
  qed
qed

lemma balance_loop_ok:
  "\<exists>r. balance_loop src b e s cont = ROk r \<and> (\<forall>s'. r = Some s' \<longrightarrow> s < s' \<and> s' \<le> length src)"
proof (induction src b e s cont rule: balance_loop.induct)
  case (1 src b e s cont)
  show ?case
  proof (cases "s + 1 < length src")
    case True
    then show ?thesis using 1
      by (subst balance_loop.simps) (simp add: Suc_lessD; intro conjI impI; fastforce dest: Suc_lessD)
  qed (subst balance_loop.simps, simp)
qed

lemma matchbalance_ok:
  assumes "p \<le> length pat" "s \<le> length src"
  shows "matchbalance src pat s p \<noteq> RUndef"
    and "matchbalance src pat s p = ROk (Some s') \<Longrightarrow> s < s' \<and> s' \<le> length src \<and> p + 2 \<le> length pat"
proof -
  obtain r where "balance_loop src (pat ! p) (pat ! (p + 1)) s 1 = ROk r"
      "\<forall>s'. r = Some s' \<longrightarrow> s < s' \<and> s' \<le> length src"
    using balance_loop_ok by blast
  then show "matchbalance src pat s p \<noteq> RUndef"
    and "matchbalance src pat s p = ROk (Some s') \<Longrightarrow> s < s' \<and> s' \<le> length src \<and> p + 2 \<le> length pat"
    using assms by (auto simp: matchbalance_def perror_def split: if_splits)
qed

section \<open>What a match may do to the captures\<close>

definition cap_ok :: "string \<Rightarrow> nat \<Rightarrow> nat \<times> int \<Rightarrow> bool" where
  "cap_ok src s c \<longleftrightarrow> fst c \<le> s \<and>
     (snd c = CAP_UNFINISHED \<or> snd c = CAP_POSITION \<or> 0 \<le> snd c \<and> int (fst c) + snd c \<le> int (length src))"

definition ms_ok :: "string \<Rightarrow> MatchState \<Rightarrow> nat \<Rightarrow> bool" where
  "ms_ok src ms s \<longleftrightarrow> length src < 2 ^ 63 \<and> length (capture ms) = LUA_MAXCAPTURES \<and> level ms \<le> LUA_MAXCAPTURES \<and>
     (\<forall>i<level ms. cap_ok src s (capture ms ! i))"

text \<open>The live captures are as they were.\<close>

definition restored :: "MatchState \<Rightarrow> MatchState \<Rightarrow> bool" where
  "restored ms ms' \<longleftrightarrow> length (capture ms') = length (capture ms) \<and> level ms' = level ms \<and>
     (\<forall>i<level ms. capture ms' ! i = capture ms ! i)"

text \<open>
  The contract of a match from position \<open>s\<close>: memory is accessed in bounds; a failure puts the captures
  back; a success ends at or after \<open>s\<close>, within the subject, with well-formed captures.
\<close>

fun outcome_ok :: "string \<Rightarrow> MatchState \<Rightarrow> nat \<Rightarrow> outcome \<Rightarrow> bool" where
  "outcome_ok src ms s RUndef = False"
| "outcome_ok src ms s (RErr e) = True"
| "outcome_ok src ms s (ROk (None, ms')) = restored ms ms'"
| "outcome_ok src ms s (ROk (Some e, ms')) = (s \<le> e \<and> e \<le> length src \<and> ms_ok src ms' e \<and> level ms \<le> level ms')"

lemma restored_refl [simp]: "restored ms ms"
  by (simp add: restored_def)

lemma restored_trans: "restored a b \<Longrightarrow> restored b c \<Longrightarrow> restored a c"
  by (simp add: restored_def)

lemma ms_ok_restored: "ms_ok src ms s \<Longrightarrow> restored ms ms' \<Longrightarrow> ms_ok src ms' s"
  by (auto simp: ms_ok_def restored_def)

lemma ms_ok_later: "ms_ok src ms s \<Longrightarrow> s \<le> t \<Longrightarrow> ms_ok src ms t"
  by (fastforce simp: ms_ok_def cap_ok_def)

lemma outcome_ok_back:
  assumes "outcome_ok src ms' t r" "restored ms ms'" "s \<le> t"
  shows "outcome_ok src ms s r"
  using assms by (cases "(src, ms, s, r)" rule: outcome_ok.cases) (auto intro: restored_trans simp: restored_def)

lemma outcome_ok_perror [simp]: "outcome_ok src ms s (perror msg)"
  by (simp add: perror_def)

text \<open>Sequencing a first attempt with a second one from the same position.\<close>

lemma outcome_ok_orelse:
  assumes "outcome_ok src ms t r" "s \<le> t" "\<And>ms'. restored ms ms' \<Longrightarrow> outcome_ok src ms' s (f ms')"
  shows "outcome_ok src ms s (rbind r (\<lambda>rm. if fst rm \<noteq> None then ROk rm else f (snd rm)))"
  using assms
  by (cases "(src, ms, t, r)" rule: outcome_ok.cases) (auto intro: outcome_ok_back)

locale continuation =
  fixes src :: string and rec :: "MatchState \<Rightarrow> nat \<Rightarrow> outcome"
  assumes rec_ok: "ms_ok src ms s \<Longrightarrow> s \<le> length src \<Longrightarrow> outcome_ok src ms s (rec ms s)"
begin

lemma expand_ok:
  "ms_ok src ms s \<Longrightarrow> s + i \<le> length src \<Longrightarrow> outcome_ok src ms s (expand_loop rec ms s i)"
proof (induction i arbitrary: ms)
  case 0
  then show ?case using rec_ok by simp
next
  case (Suc i)
  have "outcome_ok src ms (s + Suc i) (rec ms (s + Suc i))"
    using Suc.prems by (intro rec_ok) (auto intro: ms_ok_later)
  then have "outcome_ok src ms s (rbind (rec ms (s + Suc i))
      (\<lambda>rm. if fst rm \<noteq> None then ROk rm else expand_loop rec (snd rm) s i))"
    using Suc by (intro outcome_ok_orelse) (auto intro: ms_ok_restored)
  then show ?case by simp
qed

lemma max_expand_ok:
  assumes "ms_ok src ms s" "s \<le> length src" "p < length pat" "ep \<le> length pat"
  shows "outcome_ok src ms s (max_expand rec src pat ms s p ep)"
  using count_loop_ok [OF assms(3,4), of 0 src s] expand_ok rec_ok assms by (auto simp: max_expand_def)

lemma min_expand_ok:
  assumes "ms_ok src ms s" "s \<le> length src" "p < length pat" "ep \<le> length pat"
  shows "outcome_ok src ms s (min_expand rec src pat ms s p ep)"
  using assms
proof (induction "length src - s" arbitrary: ms s rule: less_induct)
  case less
  obtain b where b: "match_here src pat s p ep = ROk b" "b \<longrightarrow> s < length src"
    using match_here_ok less.prems by blast
  show ?case unfolding min_expand.simps [of rec src pat ms]
  proof (rule outcome_ok_orelse [OF rec_ok [OF less.prems(1,2)]])
    fix ms' assume r: "restored ms ms'"
    show "outcome_ok src ms' s (rbind (match_here src pat s p ep)
        (\<lambda>m. if m then min_expand rec src pat ms' (s + 1) p ep else ROk (None, ms')))"
    proof (cases b)
      case True
      have "outcome_ok src ms' (s + 1) (min_expand rec src pat ms' (s + 1) p ep)"
        using less True b r by (intro less.hyps) (auto intro: ms_ok_restored ms_ok_later)
      then show ?thesis using b True outcome_ok_back [of src ms' "s + 1" _ ms' s] by simp
    qed (simp add: b)
  qed simp
qed

lemma start_capture_ok:
  assumes "ms_ok src ms s" "s \<le> length src" "what = CAP_POSITION \<or> what = CAP_UNFINISHED"
  shows "outcome_ok src ms s (start_capture rec ms s what)"
proof (cases "level ms < LUA_MAXCAPTURES")
  case True
  define ms1 where "ms1 = ms\<lparr>capture := (capture ms)[level ms := (s, what)], level := Suc (level ms)\<rparr>"
  have len: "length (capture ms) = LUA_MAXCAPTURES" using assms(1) by (simp add: ms_ok_def)
  have "ms_ok src ms1 s" using assms True by (auto simp: ms1_def ms_ok_def cap_ok_def nth_list_update less_Suc_eq)
  then have "outcome_ok src ms1 s (rec ms1 s)" using rec_ok assms(2) by blast
  moreover have "restored ms (ms'\<lparr>level := level ms' - 1\<rparr>)" if "restored ms1 ms'" for ms'
    using that len by (auto simp: restored_def ms1_def)
  moreover have "level ms \<le> level ms1" by (simp add: ms1_def)
  ultimately show ?thesis using True len
    by (cases "(src, ms1, s, rec ms1 s)" rule: outcome_ok.cases) (auto simp: start_capture_def ms1_def [symmetric])
qed (simp add: start_capture_def)

end

lemma close_loop_ok:
  "l \<le> length (capture ms) \<Longrightarrow> close_loop ms l \<noteq> RUndef \<and>
    (\<forall>k. close_loop ms l = ROk k \<longrightarrow> k < l \<and> snd (capture ms ! k) = CAP_UNFINISHED)"
  by (induction l) (auto simp: perror_def less_Suc_eq)

context continuation
begin

lemma end_capture_ok:
  assumes "ms_ok src ms s" "s \<le> length src"
  shows "outcome_ok src ms s (end_capture rec ms s)"
proof (cases "capture_to_close ms")
  case (ROk l)
  have len: "length (capture ms) = LUA_MAXCAPTURES" using assms(1) by (simp add: ms_ok_def)
  have l: "l < level ms" "l < length (capture ms)" "snd (capture ms ! l) = CAP_UNFINISHED"
    using close_loop_ok [of "level ms" ms] ROk assms(1) by (auto simp: ms_ok_def capture_to_close_def)
  define ini where "ini = fst (capture ms ! l)"
  define ms1 where "ms1 = ms\<lparr>capture := (capture ms)[l := (ini, int s - int ini)]\<rparr>"
  have "ms_ok src ms1 s"
    using assms l by (auto simp: ms1_def ms_ok_def cap_ok_def nth_list_update ini_def)
  then have "outcome_ok src ms1 s (rec ms1 s)" using rec_ok assms(2) by blast
  moreover have "restored ms (ms'\<lparr>capture := (capture ms')[l := (fst (capture ms' ! l), CAP_UNFINISHED)]\<rparr>)
      \<and> l < length (capture ms')" if "restored ms1 ms'" for ms'
    using that len l by (auto simp: restored_def ms1_def nth_list_update ini_def prod_eq_iff)
  moreover have "level ms \<le> level ms1" by (simp add: ms1_def)
  ultimately show ?thesis using ROk l len
    by (cases "(src, ms1, s, rec ms1 s)" rule: outcome_ok.cases)
      (auto simp: end_capture_def ms1_def [symmetric] ini_def [symmetric])
next
  case RUndef
  then show ?thesis using close_loop_ok [of "level ms" ms] assms(1) by (simp add: ms_ok_def capture_to_close_def)
qed (simp add: end_capture_def)

end

lemma match_capture_ok:
  assumes "ms_ok src ms s" "s \<le> length src"
  shows "match_capture src ms s c \<noteq> RUndef"
    and "match_capture src ms s c = ROk (Some s') \<Longrightarrow> s \<le> s' \<and> s' \<le> length src"
proof -
  have "match_capture src ms s c \<noteq> RUndef \<and>
    (match_capture src ms s c = ROk (Some s') \<longrightarrow> s \<le> s' \<and> s' \<le> length src)"
  proof (cases "check_capture ms c")
    case (ROk l)
    then have l: "l < level ms" "l < length (capture ms)" "snd (capture ms ! l) \<noteq> CAP_UNFINISHED"
      using assms(1) by (auto simp: check_capture_def perror_def Let_def ms_ok_def split: if_splits)
    define n where "n = unat (word_of_int (snd (capture ms ! l)) :: 64 word)"
    have c: "cap_ok src s (capture ms ! l)" using assms(1) l by (simp add: ms_ok_def)
    have "fst (capture ms ! l) + n \<le> length src" if "n \<le> length src - s"
    proof (cases "snd (capture ms ! l) = CAP_POSITION")
      case True
      then have "n = 2 ^ 64 - 2" by (simp add: n_def CAP_POSITION_def)
      then show ?thesis using that assms(1) by (auto simp: ms_ok_def)
    next
      case False
      then have nn: "0 \<le> snd (capture ms ! l)" "int (fst (capture ms ! l)) + snd (capture ms ! l) \<le> int (length src)"
        using c l(3) by (auto simp: cap_ok_def)
      then have "int n = snd (capture ms ! l)"
        using assms(1) unfolding n_def ms_ok_def by (simp add: uint_word_of_int_eq take_bit_int_eq_self)
      then show ?thesis using nn by linarith
    qed
    then show ?thesis using ROk l assms(2) by (auto simp: match_capture_def n_def [symmetric] Let_def split: if_splits)
  next
    case RUndef
    then show ?thesis using assms(1) by (auto simp: check_capture_def perror_def Let_def ms_ok_def split: if_splits)
  qed (simp add: match_capture_def)
  then show "match_capture src ms s c \<noteq> RUndef"
    and "match_capture src ms s c = ROk (Some s') \<Longrightarrow> s \<le> s' \<and> s' \<le> length src" by auto
qed

section \<open>The matcher keeps its contract\<close>

lemma match_item_ok:
  assumes rec: "\<And>ms s p'. p < p' \<Longrightarrow> p' \<le> length pat \<Longrightarrow> ms_ok src ms s \<Longrightarrow> s \<le> length src \<Longrightarrow>
      outcome_ok src ms s (match src pat ms s p')"
    and "ms_ok src ms s" "s \<le> length src" "p < length pat" "pat ! p \<noteq> NUL"
  shows "outcome_ok src ms s (match_item (\<lambda>p' ms s. match src pat ms s p') src pat ms s p)"
proof (cases "classend pat p")
  case (ROk ep)
  then have ep: "p < ep" "ep \<le> length pat" using classend_ok [OF assms(4,5)] by auto
  obtain m where m: "match_here src pat s p ep = ROk m" "m \<longrightarrow> s < length src"
    using match_here_ok assms(4) ep by blast
  define q where "q = (if ep < length pat then pat ! ep else NUL)"
  have q: "sget pat ep = ROk q" using ep by (simp add: q_def)
  have later: "ms_ok src ms (s + 1)" using ms_ok_later [OF assms(2)] by simp
  have next_ok: "outcome_ok src ms s (match src pat ms (s + 1) p')" if "m" "p < p'" "p' \<le> length pat" for p'
    by (rule outcome_ok_back [OF rec]) (use that later m in auto)
  show ?thesis
  proof (cases "q = NUL")
    case True
    then show ?thesis using next_ok [of ep] ep by (simp add: match_item_def ROk m q)
  next
    case False
    then have ep1: "ep + 1 \<le> length pat" by (auto simp: q_def split: if_splits)
    then have cont: "continuation src (\<lambda>ms s. match src pat ms s (ep + 1))"
      using rec [of "ep + 1"] ep(1) by unfold_locales auto
    have opt: "outcome_ok src ms s
        (rbind (if m then match src pat ms (s + 1) (ep + 1) else ROk (None, ms)) (\<lambda>rm.
         if fst rm \<noteq> None then ROk rm else match src pat (snd rm) s (ep + 1)))"
      by (rule outcome_ok_orelse [of _ _ s])
        (use next_ok [of "ep + 1"] rec [of "ep + 1"] ep1 ep assms(2,3) ms_ok_restored in auto)
    have plus: "outcome_ok src ms s (max_expand (\<lambda>ms s. match src pat ms s (ep + 1)) src pat ms (s + 1) p ep)" if m
      by (rule outcome_ok_back [OF continuation.max_expand_ok [OF cont later]]) (use that m assms(4) ep in auto)
    show ?thesis
      using opt plus next_ok [of ep] ep continuation.max_expand_ok [OF cont assms(2,3,4) ep(2)]
        continuation.min_expand_ok [OF cont assms(2,3,4) ep(2)]
      by (simp add: match_item_def ROk m q)
  qed
next
  case RUndef
  then show ?thesis using classend_ok(1) [OF assms(4,5)] by simp
qed (simp add: match_item_def)

lemma frontier_ok:
  assumes "p \<le> length pat" "s \<le> length src"
  shows "frontier src pat s p \<noteq> RUndef"
    and "frontier src pat s p = ROk (Some ep) \<Longrightarrow> p < ep \<and> ep \<le> length pat"
proof -
  have "frontier src pat s p \<noteq> RUndef \<and> (\<forall>ep. frontier src pat s p = ROk (Some ep) \<longrightarrow> p < ep \<and> ep \<le> length pat)"
  proof (cases "p < length pat \<and> pat ! p = CHR ''[''")
    case True
    then have p: "p < length pat" "pat ! p \<noteq> NUL" by auto
    show ?thesis
    proof (cases "classend pat p")
      case (ROk ep)
      then have ep: "p < ep" "ep \<le> length pat" using classend_ok [OF p] by auto
      have "\<exists>b. matchbracketclass c pat p (ep - 1) = ROk b" for c
        using matchbracketclass_ok [OF p(1)] ep(2) by simp
      then obtain b where "matchbracketclass c pat p (ep - 1) = ROk (b c)" for c by metis
      then show ?thesis using assms True ROk ep by (auto simp: frontier_def)
    next
      case RUndef
      then show ?thesis using classend_ok(1) [OF p] by simp
    qed (use True in \<open>simp add: frontier_def\<close>)
  qed (use assms in \<open>auto simp: frontier_def perror_def\<close>)
  then show "frontier src pat s p \<noteq> RUndef"
    and "frontier src pat s p = ROk (Some ep) \<Longrightarrow> p < ep \<and> ep \<le> length pat" by auto
qed

text \<open>A step that finds a new position and goes on from there.\<close>

lemma outcome_ok_step:
  assumes "m \<noteq> RUndef" "\<And>x. m = ROk (Some x) \<Longrightarrow> outcome_ok src ms s (f x)"
  shows "outcome_ok src ms s (rbind m (\<lambda>r. case r of None \<Rightarrow> ROk (None, ms) | Some x \<Rightarrow> f x))"
  using assms by (cases m) (auto split: option.split)

lemma match_escape_ok:
  assumes "ms_ok src ms s" "s \<le> length src" "p < length pat" "pat ! p = CHR ''%''"
    and rec: "\<And>p' ms s. p < p' \<Longrightarrow> p' \<le> length pat \<Longrightarrow> ms_ok src ms s \<Longrightarrow> s \<le> length src \<Longrightarrow>
      outcome_ok src ms s (match src pat ms s p')"
    and item: "outcome_ok src ms s (match_item (\<lambda>p' ms s. match src pat ms s p') src pat ms s p)"
  shows "outcome_ok src ms s (match src pat ms s p)"
proof -
  define d where "d = (if p + 1 < length pat then pat ! (p + 1) else NUL)"
  have d: "sget pat (p + 1) = ROk d" using assms(3) by (simp add: d_def)
  have d2: "p + 2 \<le> length pat" if "d \<noteq> NUL" using that by (auto simp: d_def split: if_splits)
  have goes_on: "outcome_ok src ms s (match src pat ms s' p')" if "s \<le> s'" "s' \<le> length src" "p < p'" "p' \<le> length pat" for s' p'
    by (rule outcome_ok_back [OF rec]) (use that ms_ok_later assms(1,2) in auto)
  have "outcome_ok src ms s (rbind (matchbalance src pat s (p + 2))
      (\<lambda>r. case r of None \<Rightarrow> ROk (None, ms) | Some s' \<Rightarrow> match src pat ms s' (p + 4)))" if "d \<noteq> NUL"
    using matchbalance_ok [OF d2 assms(2)] that goes_on by (intro outcome_ok_step) fastforce+
  moreover have "outcome_ok src ms s (rbind (frontier src pat s (p + 2))
      (\<lambda>r. case r of None \<Rightarrow> ROk (None, ms) | Some ep \<Rightarrow> match src pat ms s ep))" if "d \<noteq> NUL"
    using frontier_ok [OF d2 assms(2)] that goes_on assms(2) by (intro outcome_ok_step) fastforce+
  moreover have "outcome_ok src ms s (rbind (match_capture src ms s (uchar d))
      (\<lambda>r. case r of None \<Rightarrow> ROk (None, ms) | Some s' \<Rightarrow> match src pat ms s' (p + 2)))" if "isdigit (uchar d)"
  proof -
    have "d \<noteq> NUL" using that by (auto simp: isdigit_def uchar_def)
    then show ?thesis using match_capture_ok [OF assms(1,2)] d2 goes_on by (intro outcome_ok_step) auto
  qed
  ultimately show ?thesis using assms(3,4) d item
    by (subst match.simps) (simp add: Let_def del: add_2_eq_Suc add_2_eq_Suc')
qed

lemma match_ok:
  assumes "ms_ok src ms s" "s \<le> length src" "p \<le> length pat"
  shows "outcome_ok src ms s (match src pat ms s p)"
  using assms
proof (induction "length pat - p" arbitrary: ms s p rule: less_induct)
  case less
  define c where "c = (if p < length pat then pat ! p else NUL)"
  have c: "sget pat p = ROk c" using less.prems by (simp add: c_def)
  define d where "d = (if p + 1 < length pat then pat ! (p + 1) else NUL)"
  show ?case
  proof (cases "c = NUL")
    case True
    then show ?thesis using less.prems c by (subst match.simps) simp
  next
    case False
    then have p: "p < length pat" "pat ! p = c" by (auto simp: c_def split: if_splits)
    have d: "sget pat (p + 1) = ROk d" using p by (simp add: d_def)
    have rec: "outcome_ok src ms s (match src pat ms s p')"
      if "p < p'" "p' \<le> length pat" "ms_ok src ms s" "s \<le> length src" for ms s p'
      using less.hyps [of p'] that by auto
    have cont: "continuation src (\<lambda>ms s. match src pat ms s p')" if "p < p'" "p' \<le> length pat" for p'
      using rec that by unfold_locales auto
    have item: "outcome_ok src ms s (match_item (\<lambda>p' ms s. match src pat ms s p') src pat ms s p)"
      by (rule match_item_ok [OF rec]) (use less.prems p False in auto)
    have d2: "p + 2 \<le> length pat" if "d \<noteq> NUL" using that by (auto simp: d_def split: if_splits)
    consider "c = CHR ''(''" | "c = CHR '')''" | "c = CHR ''%''" | "c \<notin> {CHR ''('', CHR '')'', CHR ''%''}" by blast
    then show ?thesis
    proof cases
      case 1
      then show ?thesis
        using c d d2 p continuation.start_capture_ok [OF cont less.prems(1,2)]
        by (subst match.simps) auto
    next
      case 2
      then show ?thesis
        using c p continuation.end_capture_ok [OF cont less.prems(1,2)] by (subst match.simps) auto
    next
      case 3
      then show ?thesis using match_escape_ok [OF less.prems(1,2) p(1) _ rec item] p by simp
    next
      case 4
      then show ?thesis using c d item False less.prems by (subst match.simps) (simp add: Let_def, blast)
    qed
  qed
qed

interpretation pm: continuation src "\<lambda>ms s. match src pat ms s 0" for src pat
  by unfold_locales (simp add: match_ok)

text \<open>
  C9: On every subject and pattern, zero bytes and malformed patterns included, \<open>match\<close> ends and reads both
  strings and the capture array within their bounds. It raises a Lua error, fails with the captures as they
  were before it, or succeeds at a position at or after the start and within the subject, with
  every capture a range of the subject.
\<close>

theorem match_safe:
  assumes "ms_ok src ms s" "s \<le> length src" "p \<le> length pat"
  shows "outcome_ok src ms s (match src pat ms s p)"
  by (rule match_ok [OF assms])

theorem match_safe_witness:
  "outcome_ok ''key = value'' \<lparr>level = 0, capture = replicate 32 (0, 0)\<rparr> 0
     (match ''key = value'' ''(%w+)%s*=%s*(%w+)'' \<lparr>level = 0, capture = replicate 32 (0, 0)\<rparr> 0 0)"
  by (rule match_safe) (simp_all add: ms_ok_def LUA_MAXCAPTURES_def)

end
