(* ===== verification/StrMatchLang.thy ===== *)
theory StrMatchLang
  imports StrMatch
begin

text \<open>
  What the patterns mean. \<open>spans src pat s p e\<close> says that the pattern from position \<open>p\<close> on can match the
  subject from \<open>s\<close> to \<open>e\<close>; it has no order of attempts, no captures and no state. The backtracking
  matcher of \<open>lstrlib.c\<close> finds such an end whenever there is one and never another, for patterns
  without back references.
\<close>

section \<open>The meaning of a pattern\<close>

text \<open>The characters at \<open>p\<close> and after it; the zero at the end.\<close>

definition pchar :: "string \<Rightarrow> nat \<Rightarrow> char" where
  "pchar pat p = (if p < length pat then pat ! p else NUL)"

definition special :: "string \<Rightarrow> nat \<Rightarrow> bool" where
  "special pat p \<longleftrightarrow> pchar pat p \<in> {CHR ''('', CHR '')'', NUL} \<or>
     pchar pat p = CHR ''%'' \<and> (pchar pat (p + 1) \<in> {CHR ''b'', CHR ''f''} \<or> isdigit (uchar (pchar pat (p + 1)))) \<or>
     pchar pat p = CHR ''$'' \<and> pchar pat (p + 1) = NUL"

text \<open>The item from \<open>p\<close> to \<open>ep\<close> matches each of the \<open>k\<close> characters from \<open>s\<close> on.\<close>

definition repeats :: "string \<Rightarrow> string \<Rightarrow> nat \<Rightarrow> nat \<Rightarrow> nat \<Rightarrow> nat \<Rightarrow> bool" where
  "repeats src pat p ep s k \<longleftrightarrow> (\<forall>i<k. match_here src pat (s + i) p ep = ROk True)"

inductive spans :: "string \<Rightarrow> string \<Rightarrow> nat \<Rightarrow> nat \<Rightarrow> nat \<Rightarrow> bool" for src pat where
  spans_end: "pchar pat p = NUL \<Longrightarrow> spans src pat s p s"
| spans_dollar: "pchar pat p = CHR ''$'' \<Longrightarrow> pchar pat (p + 1) = NUL \<Longrightarrow> spans src pat (length src) p (length src)"
| spans_position: "pchar pat p = CHR ''('' \<Longrightarrow> pchar pat (p + 1) = CHR '')'' \<Longrightarrow>
    spans src pat s (p + 2) e \<Longrightarrow> spans src pat s p e"
| spans_open: "pchar pat p = CHR ''('' \<Longrightarrow> pchar pat (p + 1) \<noteq> CHR '')'' \<Longrightarrow>
    spans src pat s (p + 1) e \<Longrightarrow> spans src pat s p e"
| spans_close: "pchar pat p = CHR '')'' \<Longrightarrow> spans src pat s (p + 1) e \<Longrightarrow> spans src pat s p e"
| spans_balance: "pchar pat p = CHR ''%'' \<Longrightarrow> pchar pat (p + 1) = CHR ''b'' \<Longrightarrow>
    matchbalance src pat s (p + 2) = ROk (Some s') \<Longrightarrow> spans src pat s' (p + 4) e \<Longrightarrow> spans src pat s p e"
| spans_frontier: "pchar pat p = CHR ''%'' \<Longrightarrow> pchar pat (p + 1) = CHR ''f'' \<Longrightarrow>
    frontier src pat s (p + 2) = ROk (Some ep) \<Longrightarrow> spans src pat s ep e \<Longrightarrow> spans src pat s p e"
| spans_item: "\<not> special pat p \<Longrightarrow> classend pat p = ROk ep \<Longrightarrow>
    pchar pat ep \<notin> {CHR ''?'', CHR ''*'', CHR ''+'', CHR ''-''} \<Longrightarrow>
    repeats src pat p ep s 1 \<Longrightarrow> spans src pat (s + 1) ep e \<Longrightarrow> spans src pat s p e"
| spans_repeat: "\<not> special pat p \<Longrightarrow> classend pat p = ROk ep \<Longrightarrow> repeats src pat p ep s k \<Longrightarrow>
    pchar pat ep = CHR ''?'' \<and> k \<le> 1 \<or> pchar pat ep = CHR ''*'' \<or> pchar pat ep = CHR ''+'' \<and> 1 \<le> k \<or>
    pchar pat ep = CHR ''-'' \<Longrightarrow>
    spans src pat (s + k) (ep + 1) e \<Longrightarrow> spans src pat s p e"

text \<open>No \<open>%\<close> is followed by a digit.\<close>

definition no_backref :: "string \<Rightarrow> bool" where
  "no_backref pat \<longleftrightarrow> (\<forall>p<length pat. pat ! p = CHR ''%'' \<longrightarrow> \<not> isdigit (uchar (pchar pat (p + 1))))"

section \<open>The matcher finds exactly these\<close>

text \<open>A returned end is possible, and there is none when the match fails.\<close>

definition decides :: "(nat \<Rightarrow> bool) \<Rightarrow> outcome \<Rightarrow> bool" where
  "decides E r \<longleftrightarrow> (\<forall>rm. r = ROk rm \<longrightarrow> (case fst rm of None \<Rightarrow> \<forall>e. \<not> E e | Some e \<Rightarrow> E e))"

lemma decides_simps [simp]:
  "decides E RUndef" "decides E (RErr x)" "decides E (perror msg)"
  "decides E (ROk (None, ms)) \<longleftrightarrow> (\<forall>e. \<not> E e)" "decides E (ROk (Some e, ms)) \<longleftrightarrow> E e"
  by (auto simp: decides_def perror_def)

lemma decides_cong:
  assumes "decides E r" "\<And>e. E e \<longleftrightarrow> E' e"
  shows "decides E' r"
proof -
  have "E = E'" using assms(2) by blast
  then show ?thesis using assms(1) by simp
qed

lemma decides_orelse:
  assumes "decides E1 r" "\<And>ms. decides E2 (f ms)"
  shows "decides (\<lambda>e. E1 e \<or> E2 e) (rbind r (\<lambda>rm. if fst rm \<noteq> None then ROk rm else f (snd rm)))"
proof (cases r)
  case (ROk rm)
  then show ?thesis using assms by (cases "fst rm") (auto simp: decides_def split: option.splits)
qed auto

lemma decides_step:
  assumes "\<And>x. m = ROk (Some x) \<Longrightarrow> decides (E x) (f x)"
  shows "decides (\<lambda>e. \<exists>x. m = ROk (Some x) \<and> E x e)
    (rbind m (\<lambda>r. case r of None \<Rightarrow> ROk (None, ms) | Some x \<Rightarrow> f x))"
  using assms by (cases m) (auto split: option.split)

lemma decides_expand:
  "(\<And>ms i. decides (E (s + i)) (rec ms (s + i))) \<Longrightarrow> decides (\<lambda>e. \<exists>k\<le>n. E (s + k) e) (expand_loop rec ms s n)"
proof (induction n arbitrary: ms)
  case 0
  then show ?case using 0 [of 0] by simp
next
  case (Suc n)
  show ?case unfolding expand_loop.simps
    by (rule decides_cong [OF decides_orelse [OF Suc.prems Suc.IH [OF Suc.prems]]]) (auto simp: le_Suc_eq)
qed

lemma repeats_0 [simp]: "repeats src pat p ep s 0"
  by (simp add: repeats_def)

lemma repeats_Suc: "repeats src pat p ep s (Suc k) \<longleftrightarrow> match_here src pat s p ep = ROk True \<and> repeats src pat p ep (s + 1) k"
  by (auto simp: repeats_def less_Suc_eq_0_disj)

lemma decides_max_expand:
  assumes "\<And>ms i. decides (E (s + i)) (rec ms (s + i))" "p < length pat" "ep \<le> length pat"
  shows "decides (\<lambda>e. \<exists>k. repeats src pat p ep s k \<and> E (s + k) e) (max_expand rec src pat ms s p ep)"
proof -
  obtain n where n: "count_loop src pat s p ep 0 = ROk n"
      "\<forall>j. j < n \<longrightarrow> match_here src pat (s + j) p ep = ROk True" "match_here src pat (s + n) p ep = ROk False"
    using count_loop_ok [OF assms(2,3), of 0 src s] by auto
  have "repeats src pat p ep s k \<longleftrightarrow> k \<le> n" for k
    using n(2,3) unfolding repeats_def by (metis (full_types) linorder_not_less order_less_le_trans res.inject(2))
  then show ?thesis unfolding max_expand_def n(1) rbind_simps
    by (intro decides_cong [OF decides_expand [of E s rec n ms]] assms(1)) auto
qed

lemma decides_min_expand:
  assumes "\<And>ms i. decides (E (s + i)) (rec ms (s + i))"
  shows "decides (\<lambda>e. \<exists>k. repeats src pat p ep s k \<and> E (s + k) e) (min_expand rec src pat ms s p ep)"
  using assms
proof (induction "length src - s" arbitrary: ms s rule: less_induct)
  case less
  have ex: "(\<exists>k. repeats src pat p ep s k \<and> E (s + k) e) \<longleftrightarrow>
      E s e \<or> match_here src pat s p ep = ROk True \<and> (\<exists>k. repeats src pat p ep (s + 1) k \<and> E (s + 1 + k) e)" for e
  proof -
    have "(\<exists>k. repeats src pat p ep s k \<and> E (s + k) e) \<longleftrightarrow>
        E s e \<or> (\<exists>k. repeats src pat p ep s (Suc k) \<and> E (s + Suc k) e)"
      by (metis add_0_right not0_implies_Suc repeats_0)
    then show ?thesis by (auto simp: repeats_Suc)
  qed
  have "decides (\<lambda>e. match_here src pat s p ep = ROk True \<and> (\<exists>k. repeats src pat p ep (s + 1) k \<and> E (s + 1 + k) e))
      (rbind (match_here src pat s p ep) (\<lambda>m. if m then min_expand rec src pat ms' (s + 1) p ep else ROk (None, ms')))" for ms'
  proof (cases "match_here src pat s p ep = ROk True")
    case True
    then have "s < length src" by (simp add: match_here_def split: if_splits)
    then have "length src - (s + 1) < length src - s" by simp
    moreover have "decides (E (s + 1 + i)) (rec ms (s + 1 + i))" for ms i
      using less.prems [of "1 + i" ms] by simp
    ultimately show ?thesis using less.hyps [of "s + 1" ms'] by (simp add: True)
  next
    case False
    then show ?thesis by (cases "match_here src pat s p ep") auto
  qed
  then show ?case unfolding min_expand.simps [of rec src pat ms]
    using less.prems [of 0] by (intro decides_cong [OF decides_orelse ex [symmetric]]) simp_all
qed

inductive_simps spans_unfold: "spans src pat s p e"

lemma spans_item_iff:
  assumes "\<not> special pat p" "classend pat p = ROk ep"
  shows "spans src pat s p e \<longleftrightarrow>
    (if pchar pat ep = CHR ''?'' then spans src pat s (ep + 1) e \<or> repeats src pat p ep s 1 \<and> spans src pat (s + 1) (ep + 1) e
     else if pchar pat ep = CHR ''*'' \<or> pchar pat ep = CHR ''-'' then \<exists>k. repeats src pat p ep s k \<and> spans src pat (s + k) (ep + 1) e
     else if pchar pat ep = CHR ''+'' then \<exists>k. repeats src pat p ep s (Suc k) \<and> spans src pat (s + Suc k) (ep + 1) e
     else repeats src pat p ep s 1 \<and> spans src pat (s + 1) ep e)"
proof -
  have "spans src pat s p e \<longleftrightarrow>
      pchar pat ep \<notin> {CHR ''?'', CHR ''*'', CHR ''+'', CHR ''-''} \<and> repeats src pat p ep s 1 \<and> spans src pat (s + 1) ep e \<or>
      (\<exists>k. repeats src pat p ep s k \<and> (pchar pat ep = CHR ''?'' \<and> k \<le> 1 \<or> pchar pat ep = CHR ''*'' \<or>
         pchar pat ep = CHR ''+'' \<and> 1 \<le> k \<or> pchar pat ep = CHR ''-'') \<and> spans src pat (s + k) (ep + 1) e)"
    using assms by (subst spans_unfold) (auto simp: special_def)
  moreover have "(\<exists>k. repeats src pat p ep s k \<and> k \<le> 1 \<and> spans src pat (s + k) (ep + 1) e) \<longleftrightarrow>
      spans src pat s (ep + 1) e \<or> repeats src pat p ep s 1 \<and> spans src pat (s + 1) (ep + 1) e"
    by (metis One_nat_def add_0_right le_0_eq le_SucE le_refl repeats_0 zero_le)
  moreover have "(\<exists>k. repeats src pat p ep s k \<and> 1 \<le> k \<and> spans src pat (s + k) (ep + 1) e) \<longleftrightarrow>
      (\<exists>k. repeats src pat p ep s (Suc k) \<and> spans src pat (s + Suc k) (ep + 1) e)"
    by (metis One_nat_def Suc_le_D Suc_le_mono le0)
  moreover consider "pchar pat ep = CHR ''?''" | "pchar pat ep = CHR ''*''" | "pchar pat ep = CHR ''+''"
    | "pchar pat ep = CHR ''-''" | "pchar pat ep \<notin> {CHR ''?'', CHR ''*'', CHR ''+'', CHR ''-''}" by blast
  ultimately show ?thesis by cases simp_all
qed

lemma matchbalance_pat: "matchbalance src pat s p = ROk (Some s') \<Longrightarrow> p + 2 \<le> length pat"
  by (auto simp: matchbalance_def perror_def dest!: rbind_ROkD sget_nonzero split: if_splits)

lemma frontier_pat: "frontier src pat s p = ROk (Some ep) \<Longrightarrow> p < ep \<and> ep \<le> length pat"
proof -
  assume f: "frontier src pat s p = ROk (Some ep)"
  then have "sget pat p = ROk (CHR ''['')" "classend pat p = ROk ep"
    by (auto simp: frontier_def perror_def dest!: rbind_ROkD split: if_splits)
  then show ?thesis using classend_ok(2) [of p pat ep] sget_nonzero [of pat p "CHR ''[''"] by auto
qed

lemma sget_pchar: "p \<le> length pat \<Longrightarrow> sget pat p = ROk (pchar pat p)"
  by (simp add: pchar_def)

lemma decides_item:
  assumes rec: "\<And>p' ms s. p < p' \<Longrightarrow> p' \<le> length pat \<Longrightarrow> decides (spans src pat s p') (match src pat ms s p')"
    and p: "p < length pat" "\<not> special pat p"
  shows "decides (spans src pat s p) (match_item (\<lambda>p' ms s. match src pat ms s p') src pat ms s p)"
proof (cases "classend pat p")
  case (ROk ep)
  have "pat ! p \<noteq> NUL" using p by (auto simp: special_def pchar_def)
  then have ep: "p < ep" "ep \<le> length pat" using classend_ok [OF p(1)] ROk by auto
  obtain m where m: "match_here src pat s p ep = ROk m" using match_here_ok p(1) ep by blast
  have m1: "repeats src pat p ep s 1 \<longleftrightarrow> m" by (simp add: repeats_def m)
  note iff = spans_item_iff [OF p(2) ROk, of src s]
  have ep1: "ep + 1 \<le> length pat" if "pchar pat ep \<noteq> NUL" using that ep by (auto simp: pchar_def split: if_splits)
  define E where "E s = spans src pat s (ep + 1)" for s
  have recE: "decides (E s) (match src pat ms s (ep + 1))" if "pchar pat ep \<noteq> NUL" for ms s
    unfolding E_def using rec ep ep1 [OF that] by simp
  note item = match_item_def [of _ src pat ms s p, unfolded ROk m sget_pchar [OF ep(2)] rbind_simps]
  consider "pchar pat ep = CHR ''?''" | "pchar pat ep = CHR ''*''" | "pchar pat ep = CHR ''+''"
    | "pchar pat ep = CHR ''-''" | "pchar pat ep \<notin> {CHR ''?'', CHR ''*'', CHR ''+'', CHR ''-''}" by blast
  then show ?thesis
  proof cases
    case 1
    then have nz: "pchar pat ep \<noteq> NUL" by simp
    have "decides (\<lambda>e. (m \<and> E (s + 1) e) \<or> E s e)
        (rbind (if m then match src pat ms (s + 1) (ep + 1) else ROk (None, ms)) (\<lambda>rm.
         if fst rm \<noteq> None then ROk rm else match src pat (snd rm) s (ep + 1)))"
      by (rule decides_orelse) (use recE [OF nz] in auto)
    moreover have "spans src pat s p = (\<lambda>e. (m \<and> E (s + 1) e) \<or> E s e)"
      using iff 1 m1 by (auto simp: E_def)
    ultimately show ?thesis using 1 item by simp
  next
    case 2
    then have "decides (\<lambda>e. \<exists>k. repeats src pat p ep s k \<and> E (s + k) e)
        (max_expand (\<lambda>ms s. match src pat ms s (ep + 1)) src pat ms s p ep)"
      using recE p(1) ep(2) by (intro decides_max_expand) auto
    moreover have "spans src pat s p = (\<lambda>e. \<exists>k. repeats src pat p ep s k \<and> E (s + k) e)"
      using iff 2 by (simp add: E_def fun_eq_iff)
    ultimately show ?thesis using 2 item by simp
  next
    case 3
    then have "decides (\<lambda>e. \<exists>k. repeats src pat p ep (s + 1) k \<and> E (s + 1 + k) e)
        (max_expand (\<lambda>ms s. match src pat ms s (ep + 1)) src pat ms (s + 1) p ep)"
      using recE p(1) ep(2) by (intro decides_max_expand) auto
    moreover have "spans src pat s p = (\<lambda>e. m \<and> (\<exists>k. repeats src pat p ep (s + 1) k \<and> E (s + 1 + k) e))"
      using iff 3 m by (simp add: E_def repeats_Suc fun_eq_iff)
    ultimately show ?thesis using 3 item by (cases m) simp_all
  next
    case 4
    then have "decides (\<lambda>e. \<exists>k. repeats src pat p ep s k \<and> E (s + k) e)
        (min_expand (\<lambda>ms s. match src pat ms s (ep + 1)) src pat ms s p ep)"
      using recE by (intro decides_min_expand) auto
    moreover have "spans src pat s p = (\<lambda>e. \<exists>k. repeats src pat p ep s k \<and> E (s + k) e)"
      using iff 4 by (simp add: E_def fun_eq_iff)
    ultimately show ?thesis using 4 item by simp
  next
    case 5
    then have "spans src pat s p = (\<lambda>e. m \<and> spans src pat (s + 1) ep e)" using iff m1 by auto
    then show ?thesis using 5 item rec [OF ep] by (cases m) simp_all
  qed
qed (simp_all add: match_item_def)

text \<open>Captures do not restrict what is matched.\<close>

lemma decides_start_capture:
  assumes "\<And>ms. decides E (rec ms s)"
  shows "decides E (start_capture rec ms s what)"
proof (cases "level ms < LUA_MAXCAPTURES")
  case True
  show ?thesis
  proof (cases "arr_set (capture ms) (int (level ms)) (s, what)")
    case (ROk cs)
    show ?thesis using assms [of "ms\<lparr>capture := cs, level := level ms + 1\<rparr>"] True ROk
      by (cases "rec (ms\<lparr>capture := cs, level := level ms + 1\<rparr>) s") (auto simp: start_capture_def decides_def)
  qed (use True in \<open>simp_all add: start_capture_def\<close>)
qed (simp add: start_capture_def)

lemma decides_rbind: "(\<And>x. m = ROk x \<Longrightarrow> decides E (f x)) \<Longrightarrow> decides E (rbind m f)"
  by (cases m) auto

lemma decides_end_capture:
  assumes "\<And>ms. decides E (rec ms s)"
  shows "decides E (end_capture rec ms s)"
  unfolding end_capture_def
proof (intro decides_rbind)
  fix l x cs rm
  assume "rec (ms\<lparr>capture := cs\<rparr>) s = ROk rm"
  then have "decides E (ROk rm)" using assms [of "ms\<lparr>capture := cs\<rparr>"] by simp
  then show "decides E (case rm of (r, ms') \<Rightarrow>
       if r = None then
         rbind (arr_get (capture ms') (int l)) (\<lambda>y.
         rbind (arr_set (capture ms') (int l) (fst y, CAP_UNFINISHED)) (\<lambda>cs'. ROk (None, ms'\<lparr>capture := cs'\<rparr>)))
       else ROk (r, ms'))"
    by (cases rm) (auto intro!: decides_rbind)
qed

lemma special_cases:
  assumes "special pat p" "pchar pat p \<noteq> NUL" "no_backref pat"
  obtains "pchar pat p = CHR ''(''" | "pchar pat p = CHR '')''"
    | "pchar pat p = CHR ''%''" "pchar pat (p + 1) = CHR ''b''"
    | "pchar pat p = CHR ''%''" "pchar pat (p + 1) = CHR ''f''"
    | "pchar pat p = CHR ''$''" "pchar pat (p + 1) = NUL"
  using assms unfolding special_def no_backref_def by (auto simp: pchar_def split: if_splits)

lemma match_not_special:
  assumes "\<not> special pat p" "p \<le> length pat"
  shows "p < length pat \<and> match src pat ms s p = match_item (\<lambda>p' ms s. match src pat ms s p') src pat ms s p"
proof -
  have p: "p < length pat" using assms by (auto simp: special_def pchar_def split: if_splits)
  have "sget pat (p + 1) = ROk (pchar pat (p + 1))" using p by (intro sget_pchar) simp
  then show ?thesis using assms p sget_pchar [of p pat]
    by (subst match.simps) (auto simp: special_def Let_def)
qed

text \<open>The special cases of the matcher and of the meaning side by side.\<close>

lemma special_step:
  assumes "no_backref pat" "p \<le> length pat" "special pat p"
    and rec: "\<And>ms s p'. p < p' \<Longrightarrow> p' \<le> length pat \<Longrightarrow> decides (spans src pat s p') (match src pat ms s p')"
  shows "decides (spans src pat s p) (match src pat ms s p)"
proof (cases "pchar pat p = NUL")
  case True
  then have "spans src pat s p = (\<lambda>e. e = s)" by (subst spans_unfold [abs_def]) (auto simp: special_def)
  then show ?thesis using True sget_pchar [OF assms(2)] by (simp add: match.simps [of src pat ms s p])
next
  case False
  then have p: "p < length pat" by (auto simp: pchar_def split: if_splits)
  have d2: "p + 2 \<le> length pat" if "pchar pat (p + 1) \<noteq> NUL" using that by (auto simp: pchar_def split: if_splits)
  note sg = sget_pchar [OF assms(2)] sget_pchar [of "p + 1" pat]
  from assms(3) False assms(1) show ?thesis
  proof (cases rule: special_cases)
    case 1
    have "spans src pat s p = spans src pat s (if pchar pat (p + 1) = CHR '')'' then p + 2 else p + 1)"
      using 1 by (intro ext, subst spans_unfold) (auto simp: special_def)
    then show ?thesis using 1 p d2 sg rec by (subst match.simps) (auto intro!: decides_start_capture)
  next
    case 2
    have "spans src pat s p = spans src pat s (p + 1)"
      using 2 by (intro ext, subst spans_unfold) (auto simp: special_def)
    then show ?thesis using 2 p sg rec by (subst match.simps) (auto intro!: decides_end_capture)
  next
    case 3
    have eq: "spans src pat s p = (\<lambda>e. \<exists>s'. matchbalance src pat s (p + 2) = ROk (Some s') \<and> spans src pat s' (p + 4) e)"
      using 3 by (intro ext, subst spans_unfold) (auto simp: special_def)
    have "p + 4 \<le> length pat" if "matchbalance src pat s (p + 2) = ROk (Some s')" for s'
      using that matchbalance_pat [of src pat s "p + 2" s'] by simp
    then have "decides (spans src pat s p) (rbind (matchbalance src pat s (p + 2)) (\<lambda>r.
         case r of None \<Rightarrow> ROk (None, ms) | Some s' \<Rightarrow> match src pat ms s' (p + 4)))"
      unfolding eq by (intro decides_step rec) simp_all
    then show ?thesis using 3 p sg by (subst match.simps) (simp add: Let_def)
  next
    case 4
    have eq: "spans src pat s p = (\<lambda>e. \<exists>ep. frontier src pat s (p + 2) = ROk (Some ep) \<and> spans src pat s ep e)"
      using 4 by (intro ext, subst spans_unfold) (auto simp: special_def)
    have "decides (spans src pat s p) (rbind (frontier src pat s (p + 2)) (\<lambda>r.
         case r of None \<Rightarrow> ROk (None, ms) | Some ep \<Rightarrow> match src pat ms s ep))"
      unfolding eq using frontier_pat [of src pat s "p + 2"] by (intro decides_step rec) fastforce+
    then show ?thesis using 4 p sg by (subst match.simps) (simp add: Let_def)
  next
    case 5
    have "spans src pat s p = (\<lambda>e. s = length src \<and> e = s)"
      using 5 by (intro ext, subst spans_unfold) (auto simp: special_def)
    then show ?thesis using 5 p sg by (subst match.simps) (simp add: Let_def)
  qed
qed

lemma match_decides:
  assumes "no_backref pat" "p \<le> length pat"
  shows "decides (spans src pat s p) (match src pat ms s p)"
  using assms(2)
proof (induction "length pat - p" arbitrary: ms s p rule: less_induct)
  case less
  have rec: "decides (spans src pat s p') (match src pat ms s p')" if "p < p'" "p' \<le> length pat" for ms s p'
    using less.hyps [of p'] that by auto
  show ?case
  proof (cases "special pat p")
    case False
    then show ?thesis using match_not_special [OF False less.prems] decides_item [OF rec _ False] by simp
  next
    case True
    then show ?thesis using special_step [OF assms(1) less.prems _ rec] by simp
  qed
qed

text \<open>
  C5: For every pattern without back references: when \<open>match\<close> returns an end, the pattern can match the
  subject from the start to that end, and when it fails, there is no end at all that the pattern could match.
  So the order of its attempts and its captures never lose or invent a match.
\<close>

theorem match_complete:
  assumes "no_backref pat" "match src pat ms s 0 = ROk (r, ms')"
  shows "case r of None \<Rightarrow> \<forall>e. \<not> spans src pat s 0 e | Some e \<Rightarrow> spans src pat s 0 e"
  using match_decides [OF assms(1), of 0 src s ms] assms(2) by (simp add: decides_def)

text \<open>Evaluation: the continuation of a bind is rewritten only after its first part.\<close>

lemma rbind_weak_cong: "m = m' \<Longrightarrow> rbind m k = rbind m' k"
  by simp

lemmas match_eval = match_item_def classend_def match_here_def singlematch_def count_loop.simps
  max_expand_def min_expand.simps start_capture_def end_capture_def capture_to_close_def sget_def perror_def
  LUA_MAXCAPTURES_def CAP_UNFINISHED_def uchar_def Let_def

lemma match_example:
  "match ''aab'' ''a*b'' \<lparr>level = 0, capture = []\<rparr> 0 0 = ROk (Some 3, \<lparr>level = 0, capture = []\<rparr>)"
  by (simp add: match.simps match_eval cong: rbind_weak_cong)

lemma match_example_fails:
  "match ''aab'' ''a-c'' \<lparr>level = 0, capture = []\<rparr> 0 0 = ROk (None, \<lparr>level = 0, capture = []\<rparr>)"
  by (simp add: match.simps match_eval cong: rbind_weak_cong)

theorem match_complete_witness:
  "spans ''aab'' ''a*b'' 0 0 3 \<and> (\<forall>e. \<not> spans ''aab'' ''a-c'' 0 0 e)"
  using match_complete [OF _ match_example] match_complete [OF _ match_example_fails]
  by (simp add: no_backref_def less_Suc_eq)

end
