(* ===== verification/StrLib.thy ===== *)
theory StrLib
  imports StrMatchLang LNumber
begin

text \<open>
  The functions of the string library (\<open>src/lua/lstrlib.c\<close>) around the matcher: substrings and bytes,
  searching, \<open>gmatch\<close>, \<open>gsub\<close> and quoting. Arguments are given after the \<open>luaL_check\<close> conversions.
  What a replacement function or table does in the Lua state \<open>'s\<close>, and the conversion \<open>str\<close> of
  strings and numbers to strings (\<open>lua_tolstring\<close>), are parameters.
\<close>

section \<open>Bytes and substrings\<close>

text \<open>Copying \<open>n\<close> characters from index \<open>off\<close> of a string.\<close>

definition sread :: "string \<Rightarrow> nat \<Rightarrow> nat \<Rightarrow> string res" where
  "sread s off n = (if off + n \<le> length s then ROk (take n (drop off s)) else RUndef)"

definition str_len :: "string \<Rightarrow> lua_Number" where
  "str_len s = cast_num (int (length s))"

definition posrelat :: "int \<Rightarrow> nat \<Rightarrow> int" where
  "posrelat pos len =
     (let pos' = (if pos < 0 then pos + (int len + 1) else pos) in if pos' \<ge> 0 then pos' else 0)"

definition str_sub :: "string \<Rightarrow> int \<Rightarrow> int \<Rightarrow> string res" where
  "str_sub s i j =
     (let l = length s;
          st = posrelat i l; en = posrelat j l;
          st' = (if st < 1 then 1 else st); en' = (if en > int l then int l else en) in
      if st' \<le> en' then sread s (nat (st' - 1)) (nat (en' - st' + 1)) else ROk [])"

primrec reverse_loop :: "string \<Rightarrow> nat \<Rightarrow> string res" where
  "reverse_loop s 0 = ROk []"
| "reverse_loop s (Suc l) = rbind (sget s l) (\<lambda>c. rbind (reverse_loop s l) (\<lambda>b. ROk (c # b)))"

definition str_reverse :: "string \<Rightarrow> string res" where
  "str_reverse s = reverse_loop s (length s)"

definition str_lower :: "string \<Rightarrow> string" where
  "str_lower s = map (\<lambda>c. char_of (tolower (uchar c))) s"

definition str_upper :: "string \<Rightarrow> string" where
  "str_upper s = map (\<lambda>c. char_of (toupper (uchar c))) s"

definition str_rep :: "string \<Rightarrow> int \<Rightarrow> string" where
  "str_rep s n = concat (replicate (nat n) s)"

text \<open>\<open>int n = (int)(pose - posi + 1)\<close> keeps the low 32 bits; \<open>room\<close> is the free space of the C stack.\<close>

definition str_byte :: "nat \<Rightarrow> string \<Rightarrow> int \<Rightarrow> int option \<Rightarrow> int list res" where
  "str_byte room s i j =
     (let l = length s;
          posi = posrelat i l;
          pose = posrelat (case j of None \<Rightarrow> posi | Some x \<Rightarrow> x) l;
          posi' = (if posi \<le> 0 then 1 else posi);
          pose' = (if pose > int l then int l else pose) in
      if posi' > pose' then ROk []
      else
        let n = sint (word_of_int (pose' - posi' + 1) :: 32 word) in
        if posi' + n \<le> pose' then perror ''string slice too long''
        else if n > int room then perror ''stack overflow (string slice too long)''
        else rbind (sread s (nat (posi' - 1)) (nat n)) (\<lambda>cs. ROk (map (\<lambda>c. int (uchar c)) cs)))"

fun str_char :: "int list \<Rightarrow> string res" where
  "str_char [] = ROk []"
| "str_char (c # cs) =
     (if c mod 256 = c then rbind (str_char cs) (\<lambda>b. ROk (char_of (nat c) # b))
      else perror ''invalid value'')"

section \<open>Plain search\<close>

text \<open>\<open>memchr\<close> from index \<open>s\<close> over \<open>l\<close> characters.\<close>

primrec memchr :: "string \<Rightarrow> char \<Rightarrow> nat \<Rightarrow> nat \<Rightarrow> nat option res" where
  "memchr str c s 0 = ROk None"
| "memchr str c s (Suc l) = rbind (sget str s) (\<lambda>x. if x = c then ROk (Some s) else memchr str c (s + 1) l)"

lemma memchr_bounds: "memchr str c s l = ROk (Some k) \<Longrightarrow> s \<le> k \<and> k < s + l"
  by (induction l arbitrary: s) (force dest!: rbind_ROkD split: if_splits)+

text \<open>\<open>s1\<close> is an index of \<open>str\<close>, \<open>l1\<close> the number of places left for the first character of \<open>s2\<close>.\<close>

function memfind_loop :: "string \<Rightarrow> string \<Rightarrow> nat \<Rightarrow> nat \<Rightarrow> nat option res" where
  "memfind_loop str s2 s1 l1 =
     (if l1 = 0 then ROk None
      else
        rbind (sget s2 0) (\<lambda>c.
        rbind (memchr str c s1 l1) (\<lambda>r.
        case r of
          None \<Rightarrow> ROk None
        | Some k \<Rightarrow>
            let ini = k + 1 in
            rbind (sread str ini (length s2 - 1)) (\<lambda>cs.
            if cs = tl s2 then ROk (Some (ini - 1))
            else memfind_loop str s2 ini (l1 - (ini - s1))))))"
  by pat_completeness auto
termination
  by (relation "measure (\<lambda>(str, s2, s1, l1). l1)") (auto dest: memchr_bounds)

declare memfind_loop.simps [simp del]

definition lmemfind :: "string \<Rightarrow> nat \<Rightarrow> nat \<Rightarrow> string \<Rightarrow> nat option res" where
  "lmemfind str s1 l1 s2 =
     (if length s2 = 0 then ROk (Some s1)
      else if length s2 > l1 then ROk None
      else memfind_loop str s2 s1 (l1 - (length s2 - 1)))"

section \<open>Captures as results\<close>

text \<open>\<open>s\<close> and \<open>e\<close> are the start and the end of the match; \<open>s\<close> is \<open>None\<close> for a null pointer.\<close>

definition push_onecapture :: "string \<Rightarrow> MatchState \<Rightarrow> nat \<Rightarrow> nat option \<Rightarrow> nat \<Rightarrow> TValue res" where
  "push_onecapture src ms i s e =
     (if i \<ge> level ms then
        if i = 0 then
          (case s of None \<Rightarrow> RUndef | Some s' \<Rightarrow> rbind (sread src s' (e - s')) (\<lambda>t. ROk (VString t)))
        else perror ''invalid capture index''
      else
        rbind (arr_get (capture ms) (int i)) (\<lambda>(ini, l).
        if l = CAP_UNFINISHED then perror ''unfinished capture''
        else if l = CAP_POSITION then ROk (VNumber (cast_num (int ini + 1)))
        else rbind (sread src ini (nat l)) (\<lambda>t. ROk (VString t))))"

fun push_each :: "string \<Rightarrow> MatchState \<Rightarrow> nat option \<Rightarrow> nat \<Rightarrow> nat list \<Rightarrow> TValue list res" where
  "push_each src ms s e [] = ROk []"
| "push_each src ms s e (i # is) =
     rbind (push_onecapture src ms i s e) (\<lambda>v. rbind (push_each src ms s e is) (\<lambda>vs. ROk (v # vs)))"

definition push_captures :: "string \<Rightarrow> MatchState \<Rightarrow> nat option \<Rightarrow> nat \<Rightarrow> TValue list res" where
  "push_captures src ms s e =
     (let nlevels = (if level ms = 0 \<and> s \<noteq> None then 1 else level ms) in push_each src ms s e [0..<nlevels])"

section \<open>Searching\<close>

definition SPECIALS :: "char set" where
  "SPECIALS = set ''^$*+?.([%-''"

definition no_specials :: "string \<Rightarrow> bool" where
  "no_specials p \<longleftrightarrow> set (takeWhile (\<lambda>c. c \<noteq> NUL) p) \<inter> SPECIALS = {}"

text \<open>The loop over the starting points: the start, the end and the captures of the first match.\<close>

function find_loop :: "string \<Rightarrow> string \<Rightarrow> nat \<Rightarrow> bool \<Rightarrow> nat \<Rightarrow> MatchState \<Rightarrow> (nat \<times> nat \<times> MatchState) option res" where
  "find_loop src pat p anchor s1 ms =
     rbind (match src pat (ms\<lparr>level := 0\<rparr>) s1 p) (\<lambda>rm.
     case fst rm of
       Some e \<Rightarrow> ROk (Some (s1, e, snd rm))
     | None \<Rightarrow>
         if s1 < length src \<and> \<not> anchor then find_loop src pat p anchor (s1 + 1) (snd rm) else ROk None)"
  by pat_completeness auto
termination by (relation "measure (\<lambda>(src, pat, p, anchor, s1, ms). length src - s1)") auto

declare find_loop.simps [simp del]

definition skip_anchor :: "string \<Rightarrow> nat \<times> bool" where
  "skip_anchor pat = (if pat \<noteq> [] \<and> hd pat = CHR ''^'' then (1, True) else (0, False))"

definition find_init :: "int \<Rightarrow> nat \<Rightarrow> nat" where
  "find_init i l = (let ini = posrelat i l - 1 in if ini < 0 then 0 else if ini > int l then l else nat ini)"

text \<open>\<open>ms\<close> is the uninitialised \<open>MatchState\<close> on the stack.\<close>

definition str_find_aux :: "MatchState \<Rightarrow> bool \<Rightarrow> string \<Rightarrow> string \<Rightarrow> int \<Rightarrow> bool \<Rightarrow> TValue list res" where
  "str_find_aux ms fnd s pat i plain =
     (let ini = find_init i (length s) in
      if fnd \<and> (plain \<or> no_specials pat) then
        rbind (lmemfind s ini (length s - ini) pat) (\<lambda>r.
        case r of
          None \<Rightarrow> ROk [VNil]
        | Some s2 \<Rightarrow> ROk [VNumber (cast_num (int s2 + 1)), VNumber (cast_num (int (s2 + length pat)))])
      else
        let (p, anchor) = skip_anchor pat in
        rbind (find_loop s pat p anchor ini ms) (\<lambda>r.
        case r of
          None \<Rightarrow> ROk [VNil]
        | Some (s1, e, ms') \<Rightarrow>
            if fnd then
              rbind (push_captures s ms' None 0) (\<lambda>cs.
              ROk (VNumber (cast_num (int s1 + 1)) # VNumber (cast_num (int e)) # cs))
            else push_captures s ms' (Some s1) e))"

definition str_find :: "MatchState \<Rightarrow> string \<Rightarrow> string \<Rightarrow> int \<Rightarrow> bool \<Rightarrow> TValue list res" where
  "str_find ms s pat i plain = str_find_aux ms True s pat i plain"

definition str_match :: "MatchState \<Rightarrow> string \<Rightarrow> string \<Rightarrow> int \<Rightarrow> TValue list res" where
  "str_match ms s pat i = str_find_aux ms False s pat i False"

text \<open>One call of the iterator: the results and the new start, or none at the end.\<close>

function gmatch_loop :: "string \<Rightarrow> string \<Rightarrow> nat \<Rightarrow> MatchState \<Rightarrow> (TValue list \<times> nat) option res" where
  "gmatch_loop s pat src ms =
     (if src \<le> length s then
        rbind (match s pat (ms\<lparr>level := 0\<rparr>) src 0) (\<lambda>rm.
        case fst rm of
          Some e \<Rightarrow>
            rbind (push_captures s (snd rm) (Some src) e) (\<lambda>cs.
            ROk (Some (cs, if e = src then e + 1 else e)))
        | None \<Rightarrow> gmatch_loop s pat (src + 1) (snd rm))
      else ROk None)"
  by pat_completeness auto
termination by (relation "measure (\<lambda>(s, pat, src, ms). Suc (length s) - src)") auto

declare gmatch_loop.simps [simp del]

definition gmatch_aux :: "MatchState \<Rightarrow> string \<Rightarrow> string \<Rightarrow> nat \<Rightarrow> (TValue list \<times> nat) option res" where
  "gmatch_aux ms s pat start = gmatch_loop s pat start ms"

section \<open>Substitution\<close>

text \<open>A \<open>%\<close> at the end of the replacement reads the terminating zero and copies it.\<close>

fun add_s :: "(TValue \<Rightarrow> string option) \<Rightarrow> string \<Rightarrow> MatchState \<Rightarrow> nat \<Rightarrow> nat \<Rightarrow> string \<Rightarrow> string res" where
  "add_s str src ms s e [] = ROk []"
| "add_s str src ms s e (c # cs) =
     (if c \<noteq> CHR ''%'' then rbind (add_s str src ms s e cs) (\<lambda>b. ROk (c # b))
      else
        case cs of
          [] \<Rightarrow> ROk [NUL]
        | d # ds \<Rightarrow>
            rbind
              (if \<not> isdigit (uchar d) then ROk [d]
               else if d = CHR ''0'' then sread src s (e - s)
               else
                 rbind (push_onecapture src ms (uchar d - uchar (CHR ''1'')) (Some s) e) (\<lambda>v.
                 case str v of None \<Rightarrow> RUndef | Some t \<Rightarrow> ROk t)) (\<lambda>t.
            rbind (add_s str src ms s e ds) (\<lambda>b. ROk (t @ b))))"

datatype 's replacement =
    RString string
  | RFunction "TValue list \<Rightarrow> 's \<Rightarrow> (TValue \<times> 's) res"
  | RTable "TValue \<Rightarrow> 's \<Rightarrow> (TValue \<times> 's) res"
  | RInvalid

definition add_value ::
  "(TValue \<Rightarrow> string option) \<Rightarrow> 's replacement \<Rightarrow> string \<Rightarrow> MatchState \<Rightarrow> nat \<Rightarrow> nat \<Rightarrow> 's \<Rightarrow> (string \<times> 's) res" where
  "add_value str rp src ms s e st =
     (let finish = (\<lambda>(v, st').
        if v = VNil \<or> v = VBoolean False then rbind (sread src s (e - s)) (\<lambda>t. ROk (t, st'))
        else case str v of None \<Rightarrow> perror ''invalid replacement value'' | Some t \<Rightarrow> ROk (t, st')) in
      case rp of
        RString news \<Rightarrow> rbind (add_s str src ms s e news) (\<lambda>t. ROk (t, st))
      | RFunction f \<Rightarrow> rbind (push_captures src ms (Some s) e) (\<lambda>cs. rbind (f cs st) finish)
      | RTable t \<Rightarrow> rbind (push_onecapture src ms 0 (Some s) e) (\<lambda>v. rbind (t v st) finish)
      | RInvalid \<Rightarrow> RUndef)"

text \<open>The rest of the subject after the loop.\<close>

definition gsub_finish :: "string \<Rightarrow> nat \<Rightarrow> int \<Rightarrow> string \<Rightarrow> 's \<Rightarrow> (string \<times> int \<times> 's) res" where
  "gsub_finish src s n b st = rbind (sread src s (length src - s)) (\<lambda>t. ROk (b @ t, n, st))"

text \<open>
  The end of the loop body: skip a match that is not empty, or copy one character, or stop; \<open>rest\<close> is the
  next round. Moving to a position past the end of the subject would be undefined.
\<close>

definition gsub_advance ::
  "(nat \<Rightarrow> int \<Rightarrow> string \<Rightarrow> 's \<Rightarrow> (string \<times> int \<times> 's) res) \<Rightarrow> string \<Rightarrow> bool \<Rightarrow> nat \<Rightarrow> nat \<Rightarrow>
   int \<Rightarrow> string \<Rightarrow> 's \<Rightarrow> (string \<times> int \<times> 's) res" where
  "gsub_advance rest src anchor s e n b st =
     (if e > s then
        if e \<le> length src then if anchor then gsub_finish src e n b st else rest e n b st
        else RUndef
      else if s < length src then
        rbind (sget src s) (\<lambda>c.
        if anchor then gsub_finish src (s + 1) n (b @ [c]) st else rest (s + 1) n (b @ [c]) st)
      else gsub_finish src s n b st)"

lemma gsub_advance_cong [fundef_cong]:
  assumes "src = src'" "anchor = anchor'" "s = s'" "e = e'" "n = n'" "b = b'" "st = st'"
    and "\<And>t n b st. s' < t \<Longrightarrow> t \<le> length src' \<Longrightarrow> rest t n b st = rest' t n b st"
  shows "gsub_advance rest src anchor s e n b st = gsub_advance rest' src' anchor' s' e' n' b' st'"
  using assms unfolding gsub_advance_def by simp

function gsub_loop ::
  "(TValue \<Rightarrow> string option) \<Rightarrow> 's replacement \<Rightarrow> string \<Rightarrow> string \<Rightarrow> nat \<Rightarrow> bool \<Rightarrow> int \<Rightarrow>
   nat \<Rightarrow> int \<Rightarrow> string \<Rightarrow> MatchState \<Rightarrow> 's \<Rightarrow> (string \<times> int \<times> 's) res" where
  "gsub_loop str rp src pat p anchor max_s s n b ms st =
     (if n < max_s then
        rbind (match src pat (ms\<lparr>level := 0\<rparr>) s p) (\<lambda>rm.
        rbind
          (case fst rm of
             None \<Rightarrow> ROk (n, b, st)
           | Some e \<Rightarrow> rbind (add_value str rp src (snd rm) s e st) (\<lambda>(t, st'). ROk (n + 1, b @ t, st'))) (\<lambda>(n', b', st').
        gsub_advance (\<lambda>s n b st. gsub_loop str rp src pat p anchor max_s s n b (snd rm) st) src anchor s
          (case fst rm of None \<Rightarrow> s | Some e \<Rightarrow> e) n' b' st'))
      else gsub_finish src s n b st)"
  by pat_completeness auto
termination
  by (relation "measure (\<lambda>(str, rp, src, pat, p, anchor, max_s, s, n, b, ms, st). length src - s)")
    (auto simp: diff_less_mono2)

declare gsub_loop.simps [simp del]

definition str_gsub ::
  "MatchState \<Rightarrow> (TValue \<Rightarrow> string option) \<Rightarrow> 's replacement \<Rightarrow> string \<Rightarrow> string \<Rightarrow> int option \<Rightarrow> 's \<Rightarrow> (string \<times> int \<times> 's) res" where
  "str_gsub ms str rp src pat max_arg st =
     (let max_s = (case max_arg of None \<Rightarrow> sint (word_of_int (int (length src) + 1) :: 32 word) | Some m \<Rightarrow> m);
          (p, anchor) = skip_anchor pat in
      if (case rp of RInvalid \<Rightarrow> True | _ \<Rightarrow> False) then perror ''string/function/table expected''
      else gsub_loop str rp src pat p anchor max_s 0 0 [] ms st)"

section \<open>Quoting\<close>

text \<open>The characters that \<open>addquoted\<close> writes for one character, and between the quotes.\<close>

definition quote_char :: "char \<Rightarrow> string" where
  "quote_char c =
     (if c = CHR 0x22 \<or> c = CHR 0x5C \<or> c = CHR 0x0A then [CHR 0x5C, c]
      else if c = CHR 0x0D then [CHR 0x5C, CHR ''r'']
      else if c = NUL then [CHR 0x5C, CHR ''0'', CHR ''0'', CHR ''0'']
      else [c])"

definition addquoted :: "string \<Rightarrow> string" where
  "addquoted s = [CHR 0x22] @ concat (map quote_char s) @ [CHR 0x22]"

end
