(* ===== verification/StrLibSpec.thy ===== *)
theory StrLibSpec
  imports StrLib
begin

text \<open>
  The properties of the string library: substrings against a description by positions, the conversion
  between strings and bytes, the search for plain strings, and searching and substituting on top of the
  contract of the matcher.
\<close>

section \<open>Substrings\<close>

lemma filter_upt_interval: "filter (\<lambda>k. a \<le> k \<and> k < b) [0..<n] = [a..<min b n]"
  by (induction n) (auto simp: min_def le_Suc_eq)

lemma sread_map: "off + n \<le> length s \<Longrightarrow> sread s off n = ROk (map ((!) s) [off..<off + n])"
  by (auto simp: sread_def list_eq_iff_nth_eq)

text \<open>
  C32: \<open>string.sub(s, i, j)\<close> is the characters of \<open>s\<close> whose position lies between \<open>i\<close> and \<open>j\<close>, where
  a negative bound counts back from the end; every pair of bounds is accepted.
\<close>

theorem str_sub_positions:
  "str_sub s i j =
     ROk (map ((!) s) (filter (\<lambda>k. (if i < 0 then i + int (length s) + 1 else i) \<le> int k + 1 \<and>
       int k + 1 \<le> (if j < 0 then j + int (length s) + 1 else j)) [0..<length s]))"
proof -
  define l where "l = int (length s)"
  define lo where "lo = (if i < 0 then i + l + 1 else i)"
  define hi where "hi = (if j < 0 then j + l + 1 else j)"
  define a where "a = nat (max lo 1 - 1)"
  define b where "b = nat (min hi l)"
  have eq: "(lo \<le> int k + 1 \<and> int k + 1 \<le> hi) \<longleftrightarrow> (a \<le> k \<and> k < b)" if "k < length s" for k
    using that unfolding a_def b_def l_def by linarith
  have "filter (\<lambda>k. lo \<le> int k + 1 \<and> int k + 1 \<le> hi) [0..<length s] = filter (\<lambda>k. a \<le> k \<and> k < b) [0..<length s]"
    using eq by (intro filter_cong) auto
  also have "\<dots> = [a..<b]" unfolding filter_upt_interval b_def l_def by (simp add: min_def)
  finally have f: "filter (\<lambda>k. lo \<le> int k + 1 \<and> int k + 1 \<le> hi) [0..<length s] = [a..<b]" .
  have st: "(if posrelat i (length s) < 1 then 1 else posrelat i (length s)) = max lo 1"
    unfolding posrelat_def lo_def l_def Let_def by simp
  have en: "(if posrelat j (length s) > int (length s) then int (length s) else posrelat j (length s)) = min (max hi 0) l"
    unfolding posrelat_def hi_def l_def Let_def by simp
  have "str_sub s i j = (if max lo 1 \<le> min (max hi 0) l then sread s a (nat (min (max hi 0) l - max lo 1 + 1)) else ROk [])"
    unfolding str_sub_def Let_def st en a_def l_def by (rule refl)
  also have "\<dots> = ROk (map ((!) s) [a..<b])"
  proof (cases "max lo 1 \<le> min hi l")
    case True
    then have "a + nat (min hi l - max lo 1 + 1) = b" "b \<le> length s" "0 \<le> hi"
      unfolding a_def b_def l_def by linarith+
    then show ?thesis using True sread_map [of a "nat (min hi l - max lo 1 + 1)" s] by simp
  next
    case False
    then have "b \<le> a" "\<not> max lo 1 \<le> min (max hi 0) l" unfolding a_def b_def l_def by linarith+
    then show ?thesis by (simp only: if_False upt_conv_Nil list.map)
  qed
  finally show ?thesis using f unfolding lo_def hi_def l_def by simp
qed

section \<open>Bytes\<close>

lemma str_char_bytes: "str_char (map (\<lambda>c. int (uchar c)) s) = ROk s"
proof (induction s)
  case (Cons c s)
  have "(of_char c :: nat) < 256" by simp
  then show ?case using Cons by (simp add: uchar_def)
qed simp

text \<open>
  \<open>string.char(string.byte(s, 1, -1))\<close> is \<open>s\<close>, for every string whose bytes fit on the stack.
\<close>

theorem char_byte_roundtrip:
  assumes "length s \<le> room" "room < 2 ^ 31"
  shows "rbind (str_byte room s 1 (Some (- 1))) str_char = ROk s"
proof (cases "s = []")
  case False
  have "sint (word_of_int (int (length s)) :: 32 word) = int (length s)"
    using assms by (subst sint_sbintrunc') (simp add: signed_take_bit_int_eq_self)
  then show ?thesis using assms False
    by (simp add: str_byte_def posrelat_def Let_def sread_def str_char_bytes)
qed (simp add: str_byte_def posrelat_def Let_def)

theorem char_byte_roundtrip_witness: "rbind (str_byte 7990 ''CraftOS'' 1 (Some (- 1))) str_char = ROk ''CraftOS''"
  by (rule char_byte_roundtrip) simp_all

section \<open>Plain search\<close>

definition occurs_at :: "string \<Rightarrow> string \<Rightarrow> nat \<Rightarrow> bool" where
  "occurs_at str s2 k \<longleftrightarrow> k + length s2 \<le> length str \<and> take (length s2) (drop k str) = s2"

definition first_from :: "(nat \<Rightarrow> bool) \<Rightarrow> nat \<Rightarrow> nat option \<Rightarrow> bool" where
  "first_from P i r \<longleftrightarrow> (case r of None \<Rightarrow> \<forall>k\<ge>i. \<not> P k | Some k \<Rightarrow> i \<le> k \<and> P k \<and> (\<forall>j. i \<le> j \<and> j < k \<longrightarrow> \<not> P j))"

lemma first_from_back:
  assumes "first_from P i' r" "i \<le> i'" "\<And>j. i \<le> j \<Longrightarrow> j < i' \<Longrightarrow> \<not> P j"
  shows "first_from P i r"
  using assms unfolding first_from_def by (cases r) (auto, (meson linorder_not_less)+)

lemma memchr_first:
  "s + l \<le> length str \<Longrightarrow> \<exists>r. memchr str c s l = ROk r \<and>
    (case r of None \<Rightarrow> \<forall>j. s \<le> j \<and> j < s + l \<longrightarrow> str ! j \<noteq> c
     | Some k \<Rightarrow> s \<le> k \<and> k < s + l \<and> str ! k = c \<and> (\<forall>j. s \<le> j \<and> j < k \<longrightarrow> str ! j \<noteq> c))"
proof (induction l arbitrary: s)
  case (Suc l)
  show ?case
  proof (cases "str ! s = c")
    case False
    obtain r where r: "memchr str c (s + 1) l = ROk r" "case r of None \<Rightarrow> \<forall>j. s + 1 \<le> j \<and> j < s + 1 + l \<longrightarrow> str ! j \<noteq> c
       | Some k \<Rightarrow> s + 1 \<le> k \<and> k < s + 1 + l \<and> str ! k = c \<and> (\<forall>j. s + 1 \<le> j \<and> j < k \<longrightarrow> str ! j \<noteq> c)"
      using Suc.IH [of "s + 1"] Suc.prems by auto
    have "str ! j \<noteq> c" if "s \<le> j" "s + 1 \<le> j \<longrightarrow> str ! j \<noteq> c" for j
      using that False by (cases "j = s") auto
    then show ?thesis using r Suc.prems False by (intro exI [of _ r]) (auto split: option.splits)
  qed (use Suc.prems in auto)
qed auto

lemma occurs_at_Cons:
  assumes "s2 \<noteq> []" "k + length s2 \<le> length str"
  shows "occurs_at str s2 k \<longleftrightarrow> str ! k = hd s2 \<and> take (length s2 - 1) (drop (k + 1) str) = tl s2"
proof -
  obtain c cs where s2: "s2 = c # cs" using assms(1) by (cases s2) auto
  then have "drop k str = str ! k # drop (k + 1) str" using assms(2) by (simp add: Cons_nth_drop_Suc)
  then show ?thesis using assms(2) s2 by (auto simp: occurs_at_def)
qed

lemma memfind_loop_first:
  assumes "s2 \<noteq> []" "s1 + l1 + (length s2 - 1) = length str"
  shows "\<exists>r. memfind_loop str s2 s1 l1 = ROk r \<and> first_from (occurs_at str s2) s1 r"
  using assms
proof (induction str s2 s1 l1 rule: memfind_loop.induct)
  case (1 str s2 s1 l1)
  have len: "0 < length s2" using "1.prems"(1) by simp
  have late: "\<not> occurs_at str s2 k" if "s1 + l1 \<le> k" for k
    using that "1.prems"(2) len by (simp add: occurs_at_def)
  obtain r where r: "memchr str (hd s2) s1 l1 = ROk r" "case r of None \<Rightarrow> \<forall>j. s1 \<le> j \<and> j < s1 + l1 \<longrightarrow> str ! j \<noteq> hd s2
     | Some k \<Rightarrow> s1 \<le> k \<and> k < s1 + l1 \<and> str ! k = hd s2 \<and> (\<forall>j. s1 \<le> j \<and> j < k \<longrightarrow> str ! j \<noteq> hd s2)"
    using memchr_first [of s1 l1 str] "1.prems"(2) by auto
  have no: "\<not> occurs_at str s2 j" if "str ! j \<noteq> hd s2" "j < s1 + l1" for j
    using that occurs_at_Cons [OF "1.prems"(1)] "1.prems"(2) len by auto
  have c: "sget s2 0 = ROk (hd s2)" using "1.prems"(1) by (simp add: hd_conv_nth)
  show ?case
  proof (cases "l1 = 0 \<or> r = None")
    case True
    then have "memfind_loop str s2 s1 l1 = ROk None" using r(1) c by (subst memfind_loop.simps) auto
    moreover have "\<not> occurs_at str s2 j" if "s1 \<le> j" for j
      using late [of j] no [of j] that True r(2) by (cases "s1 + l1 \<le> j") auto
    ultimately show ?thesis by (auto simp: first_from_def)
  next
    case False
    then obtain k where k: "r = Some k" "s1 \<le> k" "k < s1 + l1" "str ! k = hd s2"
        "\<forall>j. s1 \<le> j \<and> j < k \<longrightarrow> str ! j \<noteq> hd s2" using r(2) by auto
    have rd: "sread str (k + 1) (length s2 - 1) = ROk (take (length s2 - 1) (drop (k + 1) str))"
      using k(3) "1.prems"(2) by (simp add: sread_def)
    have occ: "occurs_at str s2 k \<longleftrightarrow> take (length s2 - 1) (drop (k + 1) str) = tl s2"
      using occurs_at_Cons [OF "1.prems"(1), of k] k(3,4) "1.prems"(2) len by auto
    have before: "\<not> occurs_at str s2 j" if "s1 \<le> j" "j < k" for j using no [of j] k(3,5) that by auto
    show ?thesis
    proof (cases "take (length s2 - 1) (drop (k + 1) str) = tl s2")
      case True
      then have "memfind_loop str s2 s1 l1 = ROk (Some k)"
        using False r(1) k(1) c rd by (subst memfind_loop.simps) (simp add: Let_def)
      then show ?thesis using occ True k(2) before by (auto simp: first_from_def)
    next
      case neq: False
      then have step: "memfind_loop str s2 s1 l1 = memfind_loop str s2 (k + 1) (l1 - (k + 1 - s1))"
        using False r(1) k(1) c rd by (subst memfind_loop.simps) (simp add: Let_def)
      obtain r' where r': "memfind_loop str s2 (k + 1) (l1 - (k + 1 - s1)) = ROk r'"
          "first_from (occurs_at str s2) (k + 1) r'"
        using "1.IH" [OF _ c r(1) k(1) refl rd neq "1.prems"(1)] False k(2,3) "1.prems"(2) by auto
      have "\<not> occurs_at str s2 j" if "s1 \<le> j" "j \<le> k" for j
        using that before [of j] occ neq by (cases "j = k") auto
      then have "first_from (occurs_at str s2) s1 r'"
        by (intro first_from_back [OF r'(2)]) (use k(2) in auto)
      then show ?thesis using step r'(1) by simp
    qed
  qed
qed

text \<open>
  \<open>lmemfind\<close> returns the first place at or after the start where the string occurs, and none if it
  occurs nowhere there; it stays within the subject.
\<close>

lemma lmemfind_correct:
  assumes "ini \<le> length str"
  shows "\<exists>r. lmemfind str ini (length str - ini) s2 = ROk r \<and> first_from (occurs_at str s2) ini r"
proof -
  have "\<not> occurs_at str s2 k" if "length str - ini < length s2" "ini \<le> k" for k
    using that by (auto simp: occurs_at_def)
  then show ?thesis
    using assms memfind_loop_first [of s2 ini "length str - ini - (length s2 - 1)" str]
    by (auto simp: lmemfind_def first_from_def occurs_at_def)
qed

section \<open>The plain search is the pattern search\<close>









section \<open>Searching stays in bounds\<close>

definition fresh :: "string \<Rightarrow> MatchState \<Rightarrow> bool" where
  "fresh src ms \<longleftrightarrow> length src < 2 ^ 63 \<and> length (capture ms) = LUA_MAXCAPTURES"

lemma fresh_ok: "fresh src ms \<Longrightarrow> ms_ok src (ms\<lparr>level := 0\<rparr>) s"
  by (simp add: fresh_def ms_ok_def)

text \<open>One attempt at a position: what it returns and what it leaves.\<close>

lemma match_attempt:
  assumes "fresh src ms" "s \<le> length src" "p \<le> length pat"
  shows "match src pat (ms\<lparr>level := 0\<rparr>) s p \<noteq> RUndef"
    and "match src pat (ms\<lparr>level := 0\<rparr>) s p = ROk (r, ms') \<Longrightarrow> fresh src ms' \<and>
      (\<forall>e. r = Some e \<longrightarrow> s \<le> e \<and> e \<le> length src \<and> ms_ok src ms' e)"
proof -
  have ok: "outcome_ok src (ms\<lparr>level := 0\<rparr>) s (match src pat (ms\<lparr>level := 0\<rparr>) s p)"
    using match_ok fresh_ok assms by blast
  then show "match src pat (ms\<lparr>level := 0\<rparr>) s p \<noteq> RUndef" by auto
  assume "match src pat (ms\<lparr>level := 0\<rparr>) s p = ROk (r, ms')"
  then show "fresh src ms' \<and> (\<forall>e. r = Some e \<longrightarrow> s \<le> e \<and> e \<le> length src \<and> ms_ok src ms' e)"
    using ok assms(1) by (cases r) (auto simp: fresh_def restored_def ms_ok_def)
qed

lemma push_onecapture_ok:
  assumes "ms_ok src ms e" "s \<le> e" "e \<le> length src"
  shows "push_onecapture src ms i (Some s) e \<noteq> RUndef" "i < level ms \<Longrightarrow> push_onecapture src ms i None 0 \<noteq> RUndef"
    "push_onecapture src ms i (Some s) e = ROk v \<Longrightarrow> (\<exists>x. v = VString x) \<or> (\<exists>x. v = VNumber x)"
proof -
  have "push_onecapture src ms i (Some s) e \<noteq> RUndef \<and> (i < level ms \<longrightarrow> push_onecapture src ms i None 0 \<noteq> RUndef) \<and>
    (push_onecapture src ms i (Some s) e = ROk v \<longrightarrow> (\<exists>x. v = VString x) \<or> (\<exists>x. v = VNumber x))"
  proof (cases "i < level ms")
    case True
    obtain ini l where c: "capture ms ! i = (ini, l)" by fastforce
    have "i < length (capture ms)" "l = CAP_UNFINISHED \<or> l = CAP_POSITION \<or> ini + nat l \<le> length src"
      using assms(1) True c by (auto simp: ms_ok_def cap_ok_def)
    then show ?thesis using True c by (auto simp: push_onecapture_def perror_def sread_def)
  next
    case False
    then show ?thesis using assms(2,3) by (auto simp: push_onecapture_def perror_def sread_def)
  qed
  then show "push_onecapture src ms i (Some s) e \<noteq> RUndef" "i < level ms \<Longrightarrow> push_onecapture src ms i None 0 \<noteq> RUndef"
    "push_onecapture src ms i (Some s) e = ROk v \<Longrightarrow> (\<exists>x. v = VString x) \<or> (\<exists>x. v = VNumber x)" by auto
qed

lemma push_captures_ok:
  assumes "ms_ok src ms e" "s \<le> e" "e \<le> length src"
  shows "push_captures src ms (Some s) e \<noteq> RUndef" "push_captures src ms None 0 \<noteq> RUndef"
proof -
  have "push_each src ms (Some s) e is \<noteq> RUndef" for "is"
    using push_onecapture_ok(1) [OF assms] by (induction "is") (auto simp: rbind_def split: res.splits)
  moreover have "list_all (\<lambda>i. i < level ms) is \<Longrightarrow> push_each src ms None 0 is \<noteq> RUndef" for "is"
    using push_onecapture_ok(2) [OF assms] by (induction "is") (auto simp: rbind_def split: res.splits)
  ultimately show "push_captures src ms (Some s) e \<noteq> RUndef" "push_captures src ms None 0 \<noteq> RUndef"
    by (simp_all add: push_captures_def Let_def list_all_iff)
qed

lemma find_loop_ok:
  assumes "fresh src ms" "s1 \<le> length src" "p \<le> length pat"
  shows "find_loop src pat p anchor s1 ms \<noteq> RUndef \<and> (\<forall>a e ms'. find_loop src pat p anchor s1 ms = ROk (Some (a, e, ms')) \<longrightarrow>
    s1 \<le> a \<and> a \<le> e \<and> e \<le> length src \<and> ms_ok src ms' e)"
  using assms
proof (induction "length src - s1" arbitrary: s1 ms rule: less_induct)
  case less
  note at = match_attempt [OF less.prems]
  show ?case
  proof (cases "match src pat (ms\<lparr>level := 0\<rparr>) s1 p")
    case (ROk rm)
    then obtain r ms' where rm: "rm = (r, ms')" by fastforce
    note ok = at(2) [OF ROk [unfolded rm]]
    show ?thesis
    proof (cases "r = None \<and> s1 < length src \<and> \<not> anchor")
      case True
      then have eq: "find_loop src pat p anchor s1 ms = find_loop src pat p anchor (s1 + 1) ms'"
        using ROk rm by (subst find_loop.simps) simp
      have "find_loop src pat p anchor (s1 + 1) ms' \<noteq> RUndef \<and>
          (\<forall>a e ms''. find_loop src pat p anchor (s1 + 1) ms' = ROk (Some (a, e, ms'')) \<longrightarrow>
             s1 + 1 \<le> a \<and> a \<le> e \<and> e \<le> length src \<and> ms_ok src ms'' e)"
        by (rule less.hyps) (use True ok less.prems(3) in \<open>auto intro: diff_less_mono2\<close>)
      then show ?thesis unfolding eq by (meson add_leD1)
    next
      case False
      then show ?thesis using ROk rm ok by (cases r) (simp_all add: find_loop.simps [of src pat p anchor s1 ms], blast)
    qed
  qed (use at(1) in \<open>simp_all add: find_loop.simps [of src pat p anchor s1 ms]\<close>)
qed

lemma skip_anchor_ok: "fst (skip_anchor pat) \<le> length pat"
  by (cases pat) (auto simp: skip_anchor_def)

text \<open>
  \<open>string.find\<close> and \<open>string.match\<close> stay within the subject, the pattern and the captures for all
  arguments, whatever the stack held before.
\<close>

theorem str_find_aux_safe:
  assumes "fresh s ms"
  shows "str_find_aux ms fnd s pat i plain \<noteq> RUndef"
proof -
  have ini: "find_init i (length s) \<le> length s" unfolding find_init_def Let_def by (auto simp: nat_le_iff)
  obtain r where r: "lmemfind s (find_init i (length s)) (length s - find_init i (length s)) pat = ROk r"
    using lmemfind_correct [OF ini] by blast
  obtain p anchor where pa: "skip_anchor pat = (p, anchor)" by fastforce
  note loop = find_loop_ok [OF assms ini, of p pat anchor]
  show ?thesis
  proof (cases "fnd \<and> (plain \<or> no_specials pat)")
    case True
    then show ?thesis using r by (auto simp: str_find_aux_def Let_def split: option.splits)
  next
    case False
    have ok: "rbind (push_captures s ms' None 0) (\<lambda>cs. ROk (f cs)) \<noteq> RUndef \<and> push_captures s ms' (Some a) e \<noteq> RUndef"
      if "ms_ok s ms' e" "a \<le> e" "e \<le> length s" for ms' a e and f :: "TValue list \<Rightarrow> TValue list"
      using push_captures_ok [OF that] by (cases "push_captures s ms' None 0") auto
    show ?thesis
    proof (cases "find_loop s pat p anchor (find_init i (length s)) ms")
      case (ROk x)
      then show ?thesis using False pa loop ok skip_anchor_ok [of pat]
        by (auto simp: str_find_aux_def Let_def split: option.splits)
    qed (use False pa loop skip_anchor_ok [of pat] in \<open>auto simp: str_find_aux_def Let_def\<close>)
  qed
qed

theorem str_find_aux_safe_witness:
  "str_find_aux \<lparr>level = 7, capture = replicate 32 (0, 5)\<rparr> False ''x = 1'' ''()%s*[=~'' 1 False \<noteq> RUndef"
  by (rule str_find_aux_safe) (simp add: fresh_def LUA_MAXCAPTURES_def)

text \<open>
  C22: Every call of the \<open>gmatch\<close> iterator stays in bounds, and each result moves the start forward, at
  most to one place past the end: the iteration ends after at most one call per position.
\<close>

theorem gmatch_progress:
  assumes "fresh s ms"
  shows "gmatch_aux ms s pat start \<noteq> RUndef \<and>
    (\<forall>cs new. gmatch_aux ms s pat start = ROk (Some (cs, new)) \<longrightarrow> start < new \<and> new \<le> length s + 1)"
  unfolding gmatch_aux_def using assms
proof (induction "Suc (length s) - start" arbitrary: start ms rule: less_induct)
  case less
  show ?case
  proof (cases "start \<le> length s")
    case True
    note at = match_attempt [OF less.prems True le0 [of "length pat"]]
    note unf = gmatch_loop.simps [of s pat start ms]
    show ?thesis
    proof (cases "match s pat (ms\<lparr>level := 0\<rparr>) start 0")
      case (ROk rm)
      then obtain r ms' where rm: "rm = (r, ms')" by fastforce
      note ok = at(2) [OF ROk [unfolded rm]]
      show ?thesis
      proof (cases r)
        case None
        then have eq: "gmatch_loop s pat start ms = gmatch_loop s pat (start + 1) ms'"
          using True ROk rm by (simp add: unf)
        have "gmatch_loop s pat (start + 1) ms' \<noteq> RUndef \<and>
          (\<forall>cs new. gmatch_loop s pat (start + 1) ms' = ROk (Some (cs, new)) \<longrightarrow> start + 1 < new \<and> new \<le> length s + 1)"
          by (rule less.hyps) (use True ok in auto)
        then show ?thesis unfolding eq by (metis add_lessD1)
      next
        case (Some e)
        then show ?thesis using True ROk rm ok push_captures_ok(1) [of s ms' e start]
          by (cases "push_captures s ms' (Some start) e") (simp_all add: unf)
      qed
    qed (use True at(1) in \<open>simp_all add: unf\<close>)
  qed (simp add: gmatch_loop.simps [of s pat start ms])
qed

lemma gmatch_example:
  "gmatch_aux \<lparr>level = 0, capture = replicate 32 (0, 0)\<rparr> ''a,b'' ''a'' 0 = ROk (Some ([VString ''a''], 1))"
  by (simp add: gmatch_aux_def gmatch_loop.simps match.simps match_eval push_captures_def push_onecapture_def sread_def
      cong: rbind_weak_cong)

theorem gmatch_progress_witness:
  "gmatch_aux \<lparr>level = 0, capture = replicate 32 (0, 0)\<rparr> ''a,b'' ''a'' 0 \<noteq> RUndef \<and>
   (0::nat) < 1 \<and> 1 \<le> length ''a,b'' + 1"
  using gmatch_progress [of "''a,b''" "\<lparr>level = 0, capture = replicate 32 (0, 0)\<rparr>" "''a''" 0] gmatch_example
  by (simp add: fresh_def LUA_MAXCAPTURES_def)

section \<open>Substitution\<close>

text \<open>
  A replacement that returns the whole match as the text to add. \<open>'%0'\<close> is one; a function or table that
  answers nil or false is another.
\<close>

definition keeps_match :: "(TValue \<Rightarrow> string option) \<Rightarrow> 's replacement \<Rightarrow> bool" where
  "keeps_match str rp \<longleftrightarrow> (\<forall>src ms s e st. s \<le> e \<longrightarrow> e \<le> length src \<longrightarrow> ms_ok src ms e \<longrightarrow>
     add_value str rp src ms s e st \<noteq> RUndef \<and>
     (\<forall>t st'. add_value str rp src ms s e st = ROk (t, st') \<longrightarrow> t = take (e - s) (drop s src)))"

lemma keeps_match_percent0: "keeps_match str (RString ''%0'')"
  by (auto simp: keeps_match_def add_value_def sread_def isdigit_def uchar_def)

lemma take_step: "s \<le> e \<Longrightarrow> e \<le> length src \<Longrightarrow> take s src @ take (e - s) (drop s src) = take e src"
  by (metis le_add_diff_inverse take_add)

lemma finish_take: "s \<le> length src \<Longrightarrow> gsub_finish src s n (take s src) st = ROk (src, n, st)"
  by (simp add: gsub_finish_def sread_def)

definition gsub_same :: "string \<Rightarrow> int \<Rightarrow> int \<Rightarrow> (string \<times> int \<times> 's) res \<Rightarrow> bool" where
  "gsub_same src n max_s r \<longleftrightarrow> (case r of RUndef \<Rightarrow> False | RErr _ \<Rightarrow> True
     | ROk (b, n', st) \<Rightarrow> b = src \<and> n \<le> n' \<and> n' \<le> max n max_s)"

lemma gsub_advance_same:
  assumes "\<And>s' n' st'. s < s' \<Longrightarrow> s' \<le> length src \<Longrightarrow> n \<le> n' \<Longrightarrow> n' \<le> max_s \<Longrightarrow> gsub_same src n max_s (rest s' n' (take s' src) st')"
    and "s \<le> e" "e \<le> length src" "n \<le> n'" "n' \<le> max_s"
  shows "gsub_same src n max_s (gsub_advance rest src anchor s e n' (take e src) st')"
proof -
  have fin: "gsub_same src n max_s (gsub_finish src s' n' (take s' src) st')" if "s' \<le> length src" for s'
    using that assms(4,5) unfolding finish_take [OF that] by (simp add: gsub_same_def)
  have "take e src @ [src ! e] = take (e + 1) src" if "e < length src"
    using that by (simp add: take_Suc_conv_app_nth)
  then show ?thesis
    using assms(1) [of e n' st'] assms(1) [of "e + 1" n' st'] assms(2-5) fin [of e] fin [of "e + 1"]
    unfolding gsub_advance_def by auto
qed

lemma gsub_loop_same:
  assumes "keeps_match str rp" "fresh src ms" "s \<le> length src" "p \<le> length pat"
  shows "gsub_same src n max_s (gsub_loop str rp src pat p anchor max_s s n (take s src) ms st)"
  using assms(2,3)
proof (induction "length src - s" arbitrary: s n ms st rule: less_induct)
  case less
  note at = match_attempt [OF less.prems assms(4)]
  note unf = gsub_loop.simps [of str rp src pat p anchor max_s s n "take s src" ms st, unfolded Let_def]
  show ?case
  proof (cases "n < max_s")
    case False
    then show ?thesis using less.prems(2) by (simp add: unf finish_take gsub_same_def)
  next
    case lt: True
    show ?thesis
    proof (cases "match src pat (ms\<lparr>level := 0\<rparr>) s p")
      case match: (ROk rm)
      then obtain r ms' where rm: "rm = (r, ms')" by fastforce
      note ok = at(2) [OF match [unfolded rm]]
      have go: "gsub_same src n max_s (gsub_loop str rp src pat p anchor max_s s' n' (take s' src) ms' st')"
        if "s < s'" "s' \<le> length src" "n \<le> n'" "n' \<le> max_s" for s' n' st'
      proof -
        have "gsub_same src n' max_s (gsub_loop str rp src pat p anchor max_s s' n' (take s' src) ms' st')"
          by (rule less.hyps) (use that ok in auto)
        then show ?thesis using that by (auto simp: gsub_same_def split: res.splits)
      qed
      show ?thesis
      proof (cases r)
        case None
        show ?thesis
          unfolding unf if_P [OF lt] match rm None rbind_simps fst_conv snd_conv option.case prod.case
          by (rule gsub_advance_same) (use go lt less.prems(2) in auto)
      next
        case (Some e)
        then have e: "s \<le> e" "e \<le> length src" "ms_ok src ms' e" using ok by auto
        show ?thesis
        proof (cases "add_value str rp src ms' s e st")
          case (ROk x)
          then obtain st' where x: "x = (take (e - s) (drop s src), st')"
            using assms(1) e unfolding keeps_match_def by (metis surj_pair)
          show ?thesis
            unfolding unf if_P [OF lt] match rm Some rbind_simps fst_conv snd_conv option.case prod.case ROk x take_step [OF e(1,2)]
            by (rule gsub_advance_same) (use go e lt in auto)
        qed (use lt match rm Some e assms(1) in \<open>simp_all add: unf gsub_same_def keeps_match_def\<close>)
      qed
    qed (use lt at(1) in \<open>simp_all add: unf gsub_same_def\<close>)
  qed
qed

text \<open>
  C18: Substituting every match by itself (the replacement \<open>'%0'\<close>) returns the subject, for every pattern
  and every limit, unless the pattern is malformed and raises an error; the loop ends, stays in
  bounds, and counts at most the limit.
\<close>

theorem gsub_identity:
  assumes "fresh src ms"
  shows "case str_gsub ms str (RString ''%0'') src pat (Some limit) st of
      RUndef \<Rightarrow> False | RErr _ \<Rightarrow> True | ROk (b, n, st') \<Rightarrow> b = src \<and> 0 \<le> n \<and> n \<le> max 0 limit"
proof -
  obtain p anchor where pa: "skip_anchor pat = (p, anchor)" by fastforce
  have "gsub_same src 0 limit (gsub_loop str (RString ''%0'') src pat p anchor limit 0 0 (take 0 src) ms st)"
    by (rule gsub_loop_same [OF keeps_match_percent0 assms]) (use skip_anchor_ok [of pat] pa in auto)
  then show ?thesis by (simp add: str_gsub_def pa gsub_same_def Let_def)
qed

theorem gsub_identity_witness:
  "case str_gsub \<lparr>level = 0, capture = replicate 32 (0, 0)\<rparr> (\<lambda>_. None) (RString ''%0'') ''a b'' ''%w'' (Some 5) () of
      RUndef \<Rightarrow> False | RErr _ \<Rightarrow> True | ROk (b, n, st') \<Rightarrow> b = ''a b'' \<and> 0 \<le> n \<and> n \<le> max 0 5"
  by (rule gsub_identity) (simp add: fresh_def LUA_MAXCAPTURES_def)

end
