(* ===== verification/Lexer.thy ===== *)
theory Lexer
  imports StrMatch LZio
begin

text \<open>
  The lexical analyser (\<open>src/lua/llex.c\<close>). The stream is the characters it will still deliver (\<open>LZio\<close>
  shows that the reader's blocks do not matter); \<open>current\<close> is \<open>None\<close> at its end. The token buffer is its
  contents and its allocated size. Errors carry the message without the position in front of it. The
  conversion functions \<open>strtod\<close> and \<open>strtoul\<close> and the decimal point of the locale are parameters.
\<close>

section \<open>Tokens and state\<close>

definition FIRST_RESERVED :: int where "FIRST_RESERVED = 257"

definition luaX_tokens :: "string list" where
  "luaX_tokens =
    [''and'', ''break'', ''do'', ''else'', ''elseif'', ''end'', ''false'', ''for'', ''function'', ''if'',
     ''in'', ''local'', ''nil'', ''not'', ''or'', ''repeat'', ''return'', ''then'', ''true'', ''until'', ''while'',
     ''..'', ''...'', ''=='', ''>='', ''<='', ''~='', ''<number>'', ''<name>'', ''<string>'', ''<eof>'']"

definition NUM_RESERVED :: nat where "NUM_RESERVED = 21"

definition TK_CONCAT :: int where "TK_CONCAT = FIRST_RESERVED + 21"
definition TK_DOTS :: int where "TK_DOTS = FIRST_RESERVED + 22"
definition TK_EQ :: int where "TK_EQ = FIRST_RESERVED + 23"
definition TK_GE :: int where "TK_GE = FIRST_RESERVED + 24"
definition TK_LE :: int where "TK_LE = FIRST_RESERVED + 25"
definition TK_NE :: int where "TK_NE = FIRST_RESERVED + 26"
definition TK_NUMBER :: int where "TK_NUMBER = FIRST_RESERVED + 27"
definition TK_NAME :: int where "TK_NAME = FIRST_RESERVED + 28"
definition TK_STRING :: int where "TK_STRING = FIRST_RESERVED + 29"
definition TK_EOS :: int where "TK_EOS = FIRST_RESERVED + 30"

datatype SemInfo = NoInfo | NumInfo lua_Number | StrInfo string

record Token =
  tk :: int
  seminfo :: SemInfo

record LexState =
  current :: "char option"
  z_rest :: string
  linenumber :: int
  lastline :: int
  t_token :: Token
  lookahead :: Token
  buff :: string
  bsize :: nat
  decpoint :: char
  anchored :: "string set"

abbreviation (input) max_sizet :: nat where "max_sizet \<equiv> 2 ^ 64 - 3"
abbreviation (input) max_int :: int where "max_int \<equiv> 2 ^ 31 - 3"

text \<open>The reserved words that \<open>luaX_init\<close> marks, with their token.\<close>

definition reserved :: "string \<Rightarrow> int option" where
  "reserved s = map_of (zip (take NUM_RESERVED luaX_tokens) [0..20]) s"

section \<open>The buffer and the stream\<close>

text \<open>\<open>zgetc\<close> into \<open>current\<close>.\<close>

definition lex_next :: "LexState \<Rightarrow> LexState" where
  "lex_next ls = (case z_rest ls of [] \<Rightarrow> ls\<lparr>current := None\<rparr> | c # cs \<Rightarrow> ls\<lparr>current := Some c, z_rest := cs\<rparr>)"

definition syntax_error :: "string \<Rightarrow> 'a res" where
  "syntax_error msg = RErr (LUA_ERRSYNTAX msg)"

definition save :: "LexState \<Rightarrow> char \<Rightarrow> LexState res" where
  "save ls c =
     rbind
       (if length (buff ls) + 1 > bsize ls then
          if bsize ls \<ge> max_sizet div 2 then syntax_error ''lexical element too long''
          else ROk (ls\<lparr>bsize := bsize ls * 2\<rparr>)
        else ROk ls) (\<lambda>ls'.
     if length (buff ls') < bsize ls' then ROk (ls'\<lparr>buff := buff ls' @ [c]\<rparr>) else RUndef)"

definition save_and_next :: "LexState \<Rightarrow> LexState res" where
  "save_and_next ls = rbind (save ls (case current ls of None \<Rightarrow> CHR 0xFF | Some c \<Rightarrow> c)) (\<lambda>ls'. ROk (lex_next ls'))"

text \<open>The \<open>%d\<close> of \<open>luaO_pushfstring\<close>.\<close>

fun decimal :: "nat \<Rightarrow> string" where
  "decimal n = (if n < 10 then [char_of (48 + n)] else decimal (n div 10) @ [char_of (48 + n mod 10)])"

declare decimal.simps [simp del]

definition luaX_token2str :: "int \<Rightarrow> string" where
  "luaX_token2str token =
     (if token < FIRST_RESERVED then if iscntrl (nat token) then ''char('' @ decimal (nat token) @ '')'' else [char_of (nat token)]
      else luaX_tokens ! nat (token - FIRST_RESERVED))"

definition txtToken :: "LexState \<Rightarrow> int \<Rightarrow> string res" where
  "txtToken ls token =
     (if token = TK_NAME \<or> token = TK_STRING \<or> token = TK_NUMBER then
        rbind (save ls NUL) (\<lambda>ls'. ROk (takeWhile (\<lambda>c. c \<noteq> NUL) (buff ls')))
      else ROk (luaX_token2str token))"

definition luaX_lexerror :: "LexState \<Rightarrow> string \<Rightarrow> int \<Rightarrow> 'a res" where
  "luaX_lexerror ls msg token =
     (if token \<noteq> 0 then rbind (txtToken ls token) (\<lambda>t. syntax_error (msg @ '' near '' @ t)) else syntax_error msg)"

definition luaX_syntaxerror :: "LexState \<Rightarrow> string \<Rightarrow> 'a res" where
  "luaX_syntaxerror ls msg = luaX_lexerror ls msg (tk (t_token ls))"

lemma lexerror_not_ok [simp]: "luaX_lexerror ls msg token \<noteq> ROk x" "luaX_syntaxerror ls msg \<noteq> ROk x"
proof -
  show "luaX_lexerror ls msg token \<noteq> ROk x" for token
    unfolding luaX_lexerror_def syntax_error_def by (cases "txtToken ls token") auto
  then show "luaX_syntaxerror ls msg \<noteq> ROk x" unfolding luaX_syntaxerror_def .
qed

text \<open>A string is kept alive as a key of the function's constant table.\<close>

definition luaX_newstring :: "LexState \<Rightarrow> string \<Rightarrow> string \<times> LexState" where
  "luaX_newstring ls str = (str, ls\<lparr>anchored := insert str (anchored ls)\<rparr>)"

definition currIsNewline :: "LexState \<Rightarrow> bool" where
  "currIsNewline ls \<longleftrightarrow> current ls = Some (CHR 0x0A) \<or> current ls = Some (CHR 0x0D)"

definition inclinenumber :: "LexState \<Rightarrow> LexState res" where
  "inclinenumber ls =
     (let old = current ls;
          ls1 = lex_next ls;
          ls2 = (if currIsNewline ls1 \<and> current ls1 \<noteq> old then lex_next ls1 else ls1);
          ls3 = ls2\<lparr>linenumber := linenumber ls2 + 1\<rparr> in
      if linenumber ls3 \<ge> max_int then luaX_syntaxerror ls3 ''chunk has too many lines'' else ROk ls3)"

definition luaX_setinput :: "LexState \<Rightarrow> string \<Rightarrow> LexState" where
  "luaX_setinput ls input =
     lex_next (ls\<lparr>decpoint := CHR ''.'', lookahead := (lookahead ls)\<lparr>tk := TK_EOS\<rparr>, z_rest := input,
       linenumber := 1, lastline := 1, bsize := 32\<rparr>)"

text \<open>What is left to read; every character consumed makes it smaller.\<close>

definition unread :: "LexState \<Rightarrow> nat" where
  "unread ls = length (z_rest ls) + (if current ls = None then 0 else 1)"

lemma unread_next: "current ls \<noteq> None \<Longrightarrow> unread (lex_next ls) < unread ls"
  by (auto simp: unread_def lex_next_def split: list.split)

lemma unread_next_le: "unread (lex_next ls) \<le> unread ls"
  by (auto simp: unread_def lex_next_def split: list.split)

lemma save_same: "save ls c = ROk ls' \<Longrightarrow> current ls' = current ls \<and> z_rest ls' = z_rest ls"
  by (auto simp: save_def syntax_error_def split: if_splits dest!: rbind_ROkD)

lemma unread_save: "save ls c = ROk ls' \<Longrightarrow> unread ls' = unread ls"
  using save_same by (auto simp: unread_def)

lemma unread_save_and_next: "save_and_next ls = ROk ls' \<Longrightarrow> current ls \<noteq> None \<Longrightarrow> unread ls' < unread ls"
  using unread_next save_same unfolding save_and_next_def
  by (fastforce dest!: rbind_ROkD simp: unread_save)

lemma unread_save_and_next_le: "save_and_next ls = ROk ls' \<Longrightarrow> unread ls' \<le> unread ls"
  unfolding save_and_next_def by (auto dest!: rbind_ROkD unread_save intro: order.trans [OF unread_next_le])

lemma unread_buff [simp]: "unread (ls\<lparr>buff := b\<rparr>) = unread ls"
  by (simp add: unread_def)

lemma unread_inclinenumber: "inclinenumber ls = ROk ls' \<Longrightarrow> current ls \<noteq> None \<Longrightarrow> unread ls' < unread ls"
  using unread_next [of ls] unread_next_le [of "lex_next ls"]
  by (auto simp: inclinenumber_def Let_def luaX_syntaxerror_def luaX_lexerror_def syntax_error_def unread_def
      split: if_splits dest!: rbind_ROkD)

lemma unread_inclinenumber_le: "inclinenumber ls = ROk ls' \<Longrightarrow> unread ls' \<le> unread ls"
  using order.trans [OF unread_next_le [of "lex_next ls"] unread_next_le [of ls]] unread_next_le [of ls]
  by (auto simp: inclinenumber_def Let_def luaX_syntaxerror_def luaX_lexerror_def syntax_error_def unread_def
      split: if_splits dest!: rbind_ROkD)

lemma unread_newline:
  "save ls c = ROk ls1 \<Longrightarrow> inclinenumber ls1 = ROk ls2 \<Longrightarrow> current ls \<noteq> None \<Longrightarrow> unread ls2 < unread ls"
  using save_same unread_save unread_inclinenumber by metis

section \<open>Numerals, strings and comments\<close>

definition check_class :: "(nat \<Rightarrow> bool) \<Rightarrow> LexState \<Rightarrow> bool" where
  "check_class P ls = (case current ls of None \<Rightarrow> False | Some c \<Rightarrow> P (uchar c))"

text \<open>\<open>strchr\<close> also finds the zero that ends the set.\<close>

definition check_next :: "LexState \<Rightarrow> char set \<Rightarrow> (bool \<times> LexState) res" where
  "check_next ls cs =
     (case current ls of
        None \<Rightarrow> ROk (False, ls)
      | Some c \<Rightarrow> if c \<in> cs \<union> {NUL} then rbind (save_and_next ls) (\<lambda>ls'. ROk (True, ls')) else ROk (False, ls))"

text \<open>The loops that save characters as long as they belong to a class.\<close>

function save_while :: "(char \<Rightarrow> bool) \<Rightarrow> LexState \<Rightarrow> LexState res" where
  "save_while P ls =
     (case current ls of
        None \<Rightarrow> ROk ls
      | Some c \<Rightarrow> if P c then rbind (save_and_next ls) (save_while P) else ROk ls)"
  by pat_completeness auto
termination by (relation "measure (\<lambda>(P, ls). unread ls)") (auto dest: unread_save_and_next)

declare save_while.simps [simp del]

definition buffreplace :: "LexState \<Rightarrow> char \<Rightarrow> char \<Rightarrow> LexState" where
  "buffreplace ls frm dst = ls\<lparr>buff := map (\<lambda>c. if c = frm then dst else c) (buff ls)\<rparr>"

text \<open>\<open>strtod\<close> gives a number and the number of characters read, \<open>strtoul\<close> (base 16) the same.\<close>

definition luaO_str2d :: "(string \<Rightarrow> lua_Number \<times> nat) \<Rightarrow> (string \<Rightarrow> nat \<times> nat) \<Rightarrow> string \<Rightarrow> lua_Number option" where
  "luaO_str2d strtod strtoul s =
     (let (r, k) = strtod s in
      if k = 0 then None
      else
        let (r', k') =
          (if k < length s \<and> (s ! k = CHR ''x'' \<or> s ! k = CHR ''X'') then
             (case strtoul s of (n, j) \<Rightarrow> (cast_num (int n), j)) else (r, k)) in
        if dropWhile (\<lambda>c. isspace (uchar c)) (drop k' s) = [] then Some r' else None)"

definition cstring :: "string \<Rightarrow> string" where
  "cstring s = takeWhile (\<lambda>c. c \<noteq> NUL) s"

definition trydecpoint :: "(string \<Rightarrow> lua_Number option) \<Rightarrow> char \<Rightarrow> LexState \<Rightarrow> (lua_Number \<times> LexState) res" where
  "trydecpoint str2d point ls =
     (let old = decpoint ls;
          ls1 = buffreplace (ls\<lparr>decpoint := point\<rparr>) old point in
      case str2d (cstring (buff ls1)) of
        Some r \<Rightarrow> ROk (r, ls1)
      | None \<Rightarrow> luaX_lexerror (buffreplace ls1 (decpoint ls1) (CHR ''.'')) ''malformed number'' TK_NUMBER)"

definition read_numeral :: "(string \<Rightarrow> lua_Number option) \<Rightarrow> char \<Rightarrow> LexState \<Rightarrow> (lua_Number \<times> LexState) res" where
  "read_numeral str2d point ls =
     rbind (save_and_next ls) (\<lambda>ls1.
     rbind (save_while (\<lambda>c. isdigit (uchar c) \<or> c = CHR ''.'') ls1) (\<lambda>ls2.
     rbind (check_next ls2 {CHR ''E'', CHR ''e''}) (\<lambda>(b, ls3).
     rbind (if b then rbind (check_next ls3 {CHR ''+'', CHR ''-''}) (\<lambda>x. ROk (snd x)) else ROk ls3) (\<lambda>ls4.
     rbind (save_while (\<lambda>c. isalnum (uchar c) \<or> c = CHR ''_'') ls4) (\<lambda>ls5.
     rbind (save ls5 NUL) (\<lambda>ls6.
     let ls7 = buffreplace ls6 (CHR ''.'') (decpoint ls6) in
     case str2d (cstring (buff ls7)) of
       Some r \<Rightarrow> ROk (r, ls7)
     | None \<Rightarrow> trydecpoint str2d point ls7))))))"

text \<open>The number of \<open>=\<close> between the brackets, or minus one more of them if the second bracket is missing.\<close>

definition skip_sep :: "LexState \<Rightarrow> (int \<times> LexState) res" where
  "skip_sep ls =
     rbind (save_and_next ls) (\<lambda>ls1.
     rbind (save_while (\<lambda>c. c = CHR ''='') ls1) (\<lambda>ls2.
     let count = int (length (buff ls2)) - int (length (buff ls1)) in
     ROk (if current ls2 = current ls then count else (- count) - 1, ls2)))"

lemma unread_save_while: "save_while P ls = ROk ls' \<Longrightarrow> unread ls' \<le> unread ls"
proof (induction P ls rule: save_while.induct)
  case (1 P ls)
  then show ?case
    by (subst (asm) (2) save_while.simps)
      (fastforce split: option.splits if_splits dest!: rbind_ROkD dest: unread_save_and_next)
qed

lemma unread_skip_sep: "skip_sep ls = ROk x \<Longrightarrow> current ls \<noteq> None \<Longrightarrow> unread (snd x) < unread ls"
  unfolding skip_sep_def Let_def by (fastforce dest!: rbind_ROkD dest: unread_save_and_next unread_save_while)

text \<open>
  The loop of \<open>read_long_string\<close>, with \<open>LUA_COMPAT_LSTR\<close> set to 1; \<open>is_string\<close> says that \<open>seminfo\<close> is not
  null, so that this is a string and not a comment.
\<close>

function long_loop :: "bool \<Rightarrow> int \<Rightarrow> LexState \<Rightarrow> LexState res" where
  "long_loop is_string sep ls =
     (case current ls of
        None \<Rightarrow> luaX_lexerror ls (if is_string then ''unfinished long string'' else ''unfinished long comment'') TK_EOS
      | Some c \<Rightarrow>
          if c = CHR ''['' then
            rbind (skip_sep ls) (\<lambda>x.
            if fst x = sep then
              rbind (save_and_next (snd x)) (\<lambda>ls2.
              if sep = 0 then luaX_lexerror ls2 ''nesting of [[...]] is deprecated'' 91
              else long_loop is_string sep ls2)
            else long_loop is_string sep (snd x))
          else if c = CHR '']'' then
            rbind (skip_sep ls) (\<lambda>x. if fst x = sep then save_and_next (snd x) else long_loop is_string sep (snd x))
          else if c = CHR 0x0A \<or> c = CHR 0x0D then
            rbind (save ls (CHR 0x0A)) (\<lambda>ls1.
            rbind (inclinenumber ls1) (\<lambda>ls2.
            long_loop is_string sep (if is_string then ls2 else ls2\<lparr>buff := []\<rparr>)))
          else if is_string then rbind (save_and_next ls) (long_loop is_string sep)
          else long_loop is_string sep (lex_next ls))"
  by pat_completeness auto
termination
  by (relation "measure (\<lambda>(is_string, sep, ls). unread ls)")
    (auto dest: unread_skip_sep unread_save_and_next unread_newline intro: unread_next
      order.strict_trans1 [OF unread_save_and_next_le unread_skip_sep])

declare long_loop.simps [simp del]

text \<open>\<open>sep\<close> counts the signs between the brackets; the text without both brackets is the string.\<close>

definition read_long_string :: "LexState \<Rightarrow> bool \<Rightarrow> int \<Rightarrow> (SemInfo \<times> LexState) res" where
  "read_long_string ls is_string sep =
     rbind (save_and_next ls) (\<lambda>ls1.
     rbind (if currIsNewline ls1 then inclinenumber ls1 else ROk ls1) (\<lambda>ls2.
     rbind (long_loop is_string sep ls2) (\<lambda>ls3.
     if is_string then
       let k = nat (2 + sep); len = length (buff ls3) - 2 * k in
       if 2 * k \<le> length (buff ls3) then
         let (s, ls4) = luaX_newstring ls3 (take len (drop k (buff ls3))) in ROk (StrInfo s, ls4)
       else RUndef
     else ROk (NoInfo, ls3))))"

text \<open>Up to three decimal digits; the sum and the position after them.\<close>

fun escape_digits :: "nat \<Rightarrow> nat \<Rightarrow> LexState \<Rightarrow> nat \<times> LexState" where
  "escape_digits 0 c ls = (c, ls)"
| "escape_digits (Suc i) c ls =
     (case current ls of
        None \<Rightarrow> (c, ls)
      | Some x \<Rightarrow>
          if isdigit (uchar x) then escape_digits i (10 * c + (uchar x - uchar (CHR ''0''))) (lex_next ls) else (c, ls))"

definition escape_char :: "char \<Rightarrow> char option" where
  "escape_char c =
     (if c = CHR ''a'' then Some (CHR 0x07) else if c = CHR ''b'' then Some (CHR 0x08)
      else if c = CHR ''f'' then Some (CHR 0x0C) else if c = CHR ''n'' then Some (CHR 0x0A)
      else if c = CHR ''r'' then Some (CHR 0x0D) else if c = CHR ''t'' then Some (CHR 0x09)
      else if c = CHR ''v'' then Some (CHR 0x0B) else None)"

text \<open>The case of a backslash, after which \<open>ls\<close> stands.\<close>

definition read_escape :: "LexState \<Rightarrow> LexState res" where
  "read_escape ls =
     (case current ls of
        None \<Rightarrow> ROk ls
      | Some c \<Rightarrow>
          (case escape_char c of
             Some x \<Rightarrow> rbind (save ls x) (\<lambda>ls1. ROk (lex_next ls1))
           | None \<Rightarrow>
               if c = CHR 0x0A \<or> c = CHR 0x0D then rbind (save ls (CHR 0x0A)) inclinenumber
               else if \<not> isdigit (uchar c) then save_and_next ls
               else
                 let (n, ls1) = escape_digits 3 0 ls in
                 if n > 255 then luaX_lexerror ls1 ''escape sequence too large'' TK_STRING
                 else save ls1 (char_of n)))"

lemma unread_escape_digits: "unread (snd (escape_digits i c ls)) \<le> unread ls"
  by (induction i c ls rule: escape_digits.induct)
    (auto split: option.split intro: order.trans [OF _ unread_next_le])

lemma unread_read_escape:
  assumes "read_escape ls = ROk ls'"
  shows "unread ls' \<le> unread ls"
proof (cases "current ls")
  case (Some c)
  have d: "n > 255 \<or> unread ls1 \<le> unread ls" if "escape_digits 3 0 ls = (n, ls1)" for n ls1
    using unread_escape_digits [of 3 0 ls] that by simp
  show ?thesis
  proof (cases "escape_char c")
    case None
    then show ?thesis using assms Some d
      by (auto simp: read_escape_def luaX_lexerror_def syntax_error_def split: if_splits prod.splits
          dest!: rbind_ROkD unread_save dest: unread_save_and_next_le unread_inclinenumber_le)
  next
    case (Some x)
    then show ?thesis using assms \<open>current ls = Some c\<close>
      by (auto simp: read_escape_def dest!: rbind_ROkD unread_save intro: order.trans [OF unread_next_le])
  qed
qed (use assms in \<open>simp add: read_escape_def\<close>)

function string_loop :: "char \<Rightarrow> LexState \<Rightarrow> LexState res" where
  "string_loop del ls =
     (if current ls = Some del then ROk ls
      else
        case current ls of
          None \<Rightarrow> luaX_lexerror ls ''unfinished string'' TK_EOS
        | Some c \<Rightarrow>
            if c = CHR 0x0A \<or> c = CHR 0x0D then luaX_lexerror ls ''unfinished string'' TK_STRING
            else if c = CHR 0x5C then rbind (read_escape (lex_next ls)) (string_loop del)
            else rbind (save_and_next ls) (string_loop del))"
  by pat_completeness auto
termination
  by (relation "measure (\<lambda>(del, ls). unread ls)")
    (auto dest: unread_save_and_next intro: order.strict_trans1 [OF unread_read_escape unread_next])

declare string_loop.simps [simp del]

definition read_string :: "LexState \<Rightarrow> char \<Rightarrow> (SemInfo \<times> LexState) res" where
  "read_string ls del =
     rbind (save_and_next ls) (\<lambda>ls1.
     rbind (string_loop del ls1) (\<lambda>ls2.
     rbind (save_and_next ls2) (\<lambda>ls3.
     if 2 \<le> length (buff ls3) then
       let (s, ls4) = luaX_newstring ls3 (take (length (buff ls3) - 2) (drop 1 (buff ls3))) in ROk (StrInfo s, ls4)
     else RUndef)))"

section \<open>The analyser\<close>

function skip_line :: "LexState \<Rightarrow> LexState" where
  "skip_line ls = (if \<not> currIsNewline ls \<and> current ls \<noteq> None then skip_line (lex_next ls) else ls)"
  by pat_completeness auto
termination by (relation "measure unread") (auto intro: unread_next)

declare skip_line.simps [simp del]

text \<open>A character that may be followed by \<open>=\<close>.\<close>

definition with_eq :: "LexState \<Rightarrow> char \<Rightarrow> int \<Rightarrow> (Token \<times> LexState) res" where
  "with_eq ls c two =
     (let ls1 = lex_next ls in
      if current ls1 \<noteq> Some (CHR ''='') then ROk (\<lparr>tk = int (uchar c), seminfo = NoInfo\<rparr>, ls1)
      else ROk (\<lparr>tk = two, seminfo = NoInfo\<rparr>, lex_next ls1))"

definition read_name :: "LexState \<Rightarrow> (Token \<times> LexState) res" where
  "read_name ls =
     rbind (save_and_next ls) (\<lambda>ls1.
     rbind (save_while (\<lambda>c. isalnum (uchar c) \<or> c = CHR ''_'') ls1) (\<lambda>ls2.
     let (s, ls3) = luaX_newstring ls2 (buff ls2) in
     ROk (case reserved s of
            Some i \<Rightarrow> (\<lparr>tk = i + FIRST_RESERVED, seminfo = NoInfo\<rparr>, ls3)
          | None \<Rightarrow> (\<lparr>tk = TK_NAME, seminfo = StrInfo s\<rparr>, ls3))))"

definition number_token :: "(string \<Rightarrow> lua_Number option) \<Rightarrow> char \<Rightarrow> LexState \<Rightarrow> (Token \<times> LexState) res" where
  "number_token str2d point ls =
     rbind (read_numeral str2d point ls) (\<lambda>(r, ls1). ROk (\<lparr>tk = TK_NUMBER, seminfo = NumInfo r\<rparr>, ls1))"

definition string_token :: "SemInfo \<times> LexState \<Rightarrow> (Token \<times> LexState) res" where
  "string_token x = ROk (\<lparr>tk = TK_STRING, seminfo = fst x\<rparr>, snd x)"

definition read_dots :: "(string \<Rightarrow> lua_Number option) \<Rightarrow> char \<Rightarrow> LexState \<Rightarrow> (Token \<times> LexState) res" where
  "read_dots str2d point ls =
     rbind (save_and_next ls) (\<lambda>ls1.
     rbind (check_next ls1 {CHR ''.''}) (\<lambda>(b, ls2).
     if b then
       rbind (check_next ls2 {CHR ''.''}) (\<lambda>(b2, ls3).
       ROk (\<lparr>tk = (if b2 then TK_DOTS else TK_CONCAT), seminfo = NoInfo\<rparr>, ls3))
     else if \<not> check_class isdigit ls2 then ROk (\<lparr>tk = int (uchar (CHR ''.'')), seminfo = NoInfo\<rparr>, ls2)
     else number_token str2d point ls2))"

text \<open>A comment, after its second dash.\<close>

definition read_comment :: "LexState \<Rightarrow> LexState res" where
  "read_comment ls =
     (if current ls = Some (CHR ''['') then
        rbind (skip_sep ls) (\<lambda>(sep, ls1).
        let ls2 = ls1\<lparr>buff := []\<rparr> in
        if sep \<ge> 0 then rbind (read_long_string ls2 False sep) (\<lambda>x. ROk ((snd x)\<lparr>buff := []\<rparr>))
        else ROk (skip_line ls2))
      else ROk (skip_line ls))"

lemma unread_skip_sep_le: "skip_sep ls = ROk x \<Longrightarrow> unread (snd x) \<le> unread ls"
  unfolding skip_sep_def Let_def
  by (fastforce dest!: rbind_ROkD dest: unread_save_and_next_le unread_save_while)

text \<open>A step that leaves at most \<open>n\<close> characters.\<close>

definition leaves :: "nat \<Rightarrow> LexState res \<Rightarrow> bool" where
  "leaves n r \<longleftrightarrow> (\<forall>ls. r = ROk ls \<longrightarrow> unread ls \<le> n)"

lemma leaves_bind: "(\<And>x. m = ROk x \<Longrightarrow> leaves n (f x)) \<Longrightarrow> leaves n (rbind m f)"
  by (cases m) (auto simp: leaves_def)

lemma leaves_mono: "leaves k r \<Longrightarrow> k \<le> n \<Longrightarrow> leaves n r"
  by (auto simp: leaves_def)

lemma leaves_simps [simp]: "leaves n (luaX_lexerror ls msg token)" "leaves n (ROk ls) \<longleftrightarrow> unread ls \<le> n"
  by (simp_all add: leaves_def)

lemma long_loop_leaves: "leaves (unread ls) (long_loop is_string sep ls)"
proof (induction is_string sep ls rule: long_loop.induct)
  case (1 is_string sep ls)
  show ?case
  proof (cases "current ls")
    case None
    then show ?thesis by (simp add: long_loop.simps [of is_string sep ls])
  next
    case (Some c)
    note IH = 1 [OF Some]
    have sep: "leaves (unread ls) (long_loop is_string sep ls2)"
      if "skip_sep ls = ROk (n, ls1)" "leaves (unread ls2) (long_loop is_string sep ls2)" "unread ls2 \<le> unread ls1" for n ls1 ls2
      using leaves_mono [OF that(2)] unread_skip_sep_le [OF that(1)] that(3) by simp
    have close: "leaves (unread ls) (save_and_next ls1)" if "skip_sep ls = ROk (n, ls1)" for n ls1
      using unread_skip_sep_le [OF that] by (auto simp: leaves_def dest: unread_save_and_next_le)
    have newline: "leaves (unread ls) (long_loop is_string sep ls3)"
      if "save ls x = ROk ls1" "inclinenumber ls1 = ROk ls2" "leaves (unread ls2) (long_loop is_string sep ls3)" for x ls1 ls2 ls3
      using leaves_mono [OF that(3)] unread_save [OF that(1)] unread_inclinenumber_le [OF that(2)] by simp
    note unf = long_loop.simps [of is_string sep ls, unfolded Some option.case]
    consider (op) "c = CHR ''[''" | (cl) "c = CHR '']''" | (nl) "c = CHR 0x0A \<or> c = CHR 0x0D"
      | (other) "c \<noteq> CHR ''[''" "c \<noteq> CHR '']''" "\<not> (c = CHR 0x0A \<or> c = CHR 0x0D)" by blast
    then show ?thesis
    proof cases
      case op
      then show ?thesis using IH(1,2) [OF op] sep
        by (fastforce simp: unf intro!: leaves_bind dest: unread_save_and_next_le)
    next
      case cl
      then show ?thesis using IH(3) [OF _ cl] sep close by (fastforce simp: unf intro!: leaves_bind)
    next
      case nl
      then show ?thesis using IH(4) [OF _ _ nl] newline by (fastforce simp: unf intro!: leaves_bind)
    next
      case other
      then show ?thesis using IH(5,6) [OF other]
        by (auto simp: unf intro!: leaves_bind intro: leaves_mono [OF _ unread_save_and_next_le] leaves_mono [OF _ unread_next_le])
    qed
  qed
qed

lemma unread_long_loop: "long_loop is_string sep ls = ROk ls' \<Longrightarrow> unread ls' \<le> unread ls"
  using long_loop_leaves by (auto simp: leaves_def)

lemma unread_skip_line: "unread (skip_line ls) \<le> unread ls"
proof (induction ls rule: skip_line.induct)
  case (1 ls)
  then show ?case by (subst skip_line.simps) (auto intro: order.trans [OF _ unread_next_le])
qed

lemma unread_newstring [simp]: "unread (snd (luaX_newstring ls s)) = unread ls"
  by (simp add: luaX_newstring_def unread_def)

lemma unread_read_long_string:
  assumes "read_long_string ls is_string sep = ROk x"
  shows "unread (snd x) \<le> unread ls"
proof -
  obtain ls1 ls2 ls3 where l: "save_and_next ls = ROk ls1"
      "(if currIsNewline ls1 then inclinenumber ls1 else ROk ls1) = ROk ls2" "long_loop is_string sep ls2 = ROk ls3"
    and x: "unread (snd x) = unread ls3"
    using assms unfolding read_long_string_def
    by (force dest!: rbind_ROkD simp: Let_def luaX_newstring_def unread_def split: if_splits)
  have "unread ls2 \<le> unread ls1" using l(2) unread_inclinenumber_le by (auto split: if_splits)
  then show ?thesis
    using unread_save_and_next_le [OF l(1)] unread_long_loop [OF l(3)] x by simp
qed

lemma unread_read_comment:
  assumes "read_comment ls = ROk ls'"
  shows "unread ls' \<le> unread ls"
proof (cases "current ls = Some (CHR ''['')")
  case True
  then obtain sep ls1 where s: "skip_sep ls = ROk (sep, ls1)"
    and r: "(if sep \<ge> 0 then rbind (read_long_string (ls1\<lparr>buff := []\<rparr>) False sep) (\<lambda>x. ROk ((snd x)\<lparr>buff := []\<rparr>))
        else ROk (skip_line (ls1\<lparr>buff := []\<rparr>))) = ROk ls'"
    using assms unfolding read_comment_def Let_def by (force dest!: rbind_ROkD)
  have "unread ls' \<le> unread ls1"
    using r unread_read_long_string [of "ls1\<lparr>buff := []\<rparr>" False sep] unread_skip_line [of "ls1\<lparr>buff := []\<rparr>"]
    by (auto split: if_splits dest!: rbind_ROkD)
  then show ?thesis using unread_skip_sep_le [OF s] by simp
next
  case False
  then show ?thesis using assms unread_skip_line by (auto simp: read_comment_def)
qed

function llex_loop :: "(string \<Rightarrow> lua_Number option) \<Rightarrow> char \<Rightarrow> LexState \<Rightarrow> (Token \<times> LexState) res" where
  "llex_loop str2d point ls =
     (case current ls of
        None \<Rightarrow> ROk (\<lparr>tk = TK_EOS, seminfo = NoInfo\<rparr>, ls)
      | Some c \<Rightarrow>
          if c = CHR 0x0A \<or> c = CHR 0x0D then rbind (inclinenumber ls) (llex_loop str2d point)
          else if c = CHR ''-'' then
            let ls1 = lex_next ls in
            if current ls1 \<noteq> Some (CHR ''-'') then ROk (\<lparr>tk = int (uchar c), seminfo = NoInfo\<rparr>, ls1)
            else rbind (read_comment (lex_next ls1)) (llex_loop str2d point)
          else if c = CHR ''['' then
            rbind (skip_sep ls) (\<lambda>(sep, ls1).
            if sep \<ge> 0 then rbind (read_long_string ls1 True sep) string_token
            else if sep = - 1 then ROk (\<lparr>tk = int (uchar c), seminfo = NoInfo\<rparr>, ls1)
            else luaX_lexerror ls1 ''invalid long string delimiter'' TK_STRING)
          else if c = CHR ''='' then with_eq ls c TK_EQ
          else if c = CHR ''<'' then with_eq ls c TK_LE
          else if c = CHR ''>'' then with_eq ls c TK_GE
          else if c = CHR ''~'' then with_eq ls c TK_NE
          else if c = CHR 0x22 \<or> c = CHR 0x27 then rbind (read_string ls c) string_token
          else if c = CHR ''.'' then read_dots str2d point ls
          else if isspace (uchar c) then llex_loop str2d point (lex_next ls)
          else if isdigit (uchar c) then number_token str2d point ls
          else if isalpha (uchar c) \<or> c = CHR ''_'' then read_name ls
          else ROk (\<lparr>tk = int (uchar c), seminfo = NoInfo\<rparr>, lex_next ls))"
  by pat_completeness auto
termination
  by (relation "measure (\<lambda>(str2d, point, ls). unread ls)")
    (auto dest: unread_inclinenumber intro: unread_next
      order.strict_trans1 [OF order.trans [OF unread_read_comment unread_next_le] unread_next])

declare llex_loop.simps [simp del]

definition llex :: "(string \<Rightarrow> lua_Number option) \<Rightarrow> char \<Rightarrow> LexState \<Rightarrow> (Token \<times> LexState) res" where
  "llex str2d point ls = llex_loop str2d point (ls\<lparr>buff := []\<rparr>)"

definition luaX_next :: "(string \<Rightarrow> lua_Number option) \<Rightarrow> char \<Rightarrow> LexState \<Rightarrow> LexState res" where
  "luaX_next str2d point ls0 =
     (let ls = ls0\<lparr>lastline := linenumber ls0\<rparr> in
      if tk (lookahead ls) \<noteq> TK_EOS then
        ROk (ls\<lparr>t_token := lookahead ls, lookahead := (lookahead ls)\<lparr>tk := TK_EOS\<rparr>\<rparr>)
      else rbind (llex str2d point ls) (\<lambda>(t, ls'). ROk (ls'\<lparr>t_token := t\<rparr>)))"

definition luaX_lookahead :: "(string \<Rightarrow> lua_Number option) \<Rightarrow> char \<Rightarrow> LexState \<Rightarrow> LexState res" where
  "luaX_lookahead str2d point ls = rbind (llex str2d point ls) (\<lambda>(t, ls'). ROk (ls'\<lparr>lookahead := t\<rparr>))"

end
