(* ===== verification/LexerSpec.thy ===== *)
theory LexerSpec
  imports Lexer StrLib
begin

text \<open>
  Properties of the lexical analyser: its buffer is never written out of bounds, every token consumes
  input, and a string quoted by \<open>string.format("%q")\<close> is read back as the same string.
\<close>

section \<open>The buffer\<close>

definition lex_inv :: "LexState \<Rightarrow> bool" where
  "lex_inv ls \<longleftrightarrow> 0 < bsize ls \<and> length (buff ls) \<le> bsize ls"

text \<open>A step that stays in bounds, consumes rather than gives back, and adds at least \<open>m\<close> characters to the buffer.\<close>

definition step_ok :: "nat \<Rightarrow> LexState \<Rightarrow> LexState res \<Rightarrow> bool" where
  "step_ok m ls r \<longleftrightarrow> r \<noteq> RUndef \<and> (\<forall>ls'. r = ROk ls' \<longrightarrow> lex_inv ls' \<and> length (buff ls) + m \<le> length (buff ls') \<and>
     linenumber ls \<le> linenumber ls' \<and> unread ls' \<le> unread ls)"

lemma rbind_assoc: "rbind (rbind m f) g = rbind m (\<lambda>x. rbind (f x) g)"
  by (cases m) auto

lemma step_okD:
  "step_ok m ls (ROk ls') \<Longrightarrow> lex_inv ls' \<and> length (buff ls) + m \<le> length (buff ls') \<and>
     linenumber ls \<le> linenumber ls' \<and> unread ls' \<le> unread ls"
  by (simp add: step_ok_def)

lemma step_ok_bind:
  assumes "step_ok m ls r" "\<And>ls'. r = ROk ls' \<Longrightarrow> lex_inv ls' \<Longrightarrow> step_ok k ls' (f ls')"
  shows "step_ok (m + k) ls (rbind r f)"
  using assms unfolding step_ok_def by (cases r) (simp_all, fastforce)

lemma step_ok_bind0:
  assumes "step_ok m ls r" "\<And>ls'. r = ROk ls' \<Longrightarrow> lex_inv ls' \<Longrightarrow> step_ok 0 ls' (f ls')"
  shows "step_ok 0 ls (rbind r f)"
  using assms unfolding step_ok_def by (cases r) (simp_all, fastforce)

lemma step_ok_refl [simp]: "step_ok 0 ls (ROk ls) \<longleftrightarrow> lex_inv ls"
  by (simp add: step_ok_def)

lemma lex_next_fields [simp]:
  "buff (lex_next ls) = buff ls" "bsize (lex_next ls) = bsize ls" "linenumber (lex_next ls) = linenumber ls"
  "lookahead (lex_next ls) = lookahead ls" "lex_inv (lex_next ls) = lex_inv ls"
  by (auto simp: lex_next_def lex_inv_def split: list.split)

lemma step_ok_next: "step_ok m (lex_next ls) r \<Longrightarrow> step_ok m ls r"
  using unread_next_le [of ls] unfolding step_ok_def by fastforce

lemma save_ok: "lex_inv ls \<Longrightarrow> step_ok 1 ls (save ls c)"
  by (auto simp: save_def step_ok_def lex_inv_def syntax_error_def unread_def)

lemma save_and_next_ok: "lex_inv ls \<Longrightarrow> step_ok 1 ls (save_and_next ls)"
  using step_ok_bind [OF save_ok, of ls _ 0 "\<lambda>ls'. ROk (lex_next ls')"] unread_next_le
  by (simp add: save_and_next_def step_ok_def)

lemma lexerror_ok: "lex_inv ls \<Longrightarrow> luaX_lexerror ls msg token \<noteq> RUndef"
  using save_ok [of ls NUL]
  by (auto simp: luaX_lexerror_def txtToken_def step_ok_def syntax_error_def rbind_def split: res.splits)

lemma step_ok_lexerror [simp]: "lex_inv ls' \<Longrightarrow> step_ok m ls (luaX_lexerror ls' msg token)"
  by (simp add: step_ok_def lexerror_ok)

lemma inclinenumber_ok: "lex_inv ls \<Longrightarrow> step_ok 0 ls (inclinenumber ls)"
  using order.trans [OF unread_next_le [of "lex_next ls"] unread_next_le [of ls]] unread_next_le [of ls]
  by (auto simp: inclinenumber_def Let_def luaX_syntaxerror_def step_ok_def lexerror_ok lex_inv_def unread_def)

lemma save_while_ok: "lex_inv ls \<Longrightarrow> step_ok 0 ls (save_while P ls)"
proof (induction P ls rule: save_while.induct)
  case (1 P ls)
  then show ?case
    by (subst save_while.simps) (auto split: option.split intro!: step_ok_bind0 [OF save_and_next_ok])
qed

lemma check_next_ok:
  "lex_inv ls \<Longrightarrow> check_next ls cs \<noteq> RUndef \<and> (\<forall>b ls'. check_next ls cs = ROk (b, ls') \<longrightarrow> step_ok 0 ls (ROk ls'))"
  using save_and_next_ok [of ls]
  by (auto simp: check_next_def step_ok_def rbind_def split: option.split res.splits)

lemma skip_sep_ok:
  assumes "lex_inv ls"
  shows "skip_sep ls \<noteq> RUndef" "skip_sep ls = ROk (n, ls') \<Longrightarrow> step_ok (if n \<ge> 0 then nat n + 1 else 0) ls (ROk ls')"
proof -
  have "skip_sep ls \<noteq> RUndef \<and> (skip_sep ls = ROk (n, ls') \<longrightarrow> step_ok (if n \<ge> 0 then nat n + 1 else 0) ls (ROk ls'))"
  proof (cases "save_and_next ls")
    case (ROk ls1)
    have s1: "step_ok 1 ls (ROk ls1)" using save_and_next_ok [OF assms] ROk by simp
    then have s2: "step_ok 0 ls1 (save_while (\<lambda>c. c = CHR ''='') ls1)" using save_while_ok step_okD by blast
    then show ?thesis using ROk s1 unfolding skip_sep_def
      by (cases "save_while (\<lambda>c. c = CHR ''='') ls1") (auto simp: step_ok_def Let_def split: if_splits)
  next
    case RUndef
    then show ?thesis using save_and_next_ok [OF assms] by (simp add: step_ok_def)
  qed (simp add: skip_sep_def)
  then show "skip_sep ls \<noteq> RUndef" "skip_sep ls = ROk (n, ls') \<Longrightarrow> step_ok (if n \<ge> 0 then nat n + 1 else 0) ls (ROk ls')"
    by auto
qed

section \<open>Strings and comments stay in bounds\<close>

definition long_ok :: "bool \<Rightarrow> int \<Rightarrow> LexState \<Rightarrow> LexState res \<Rightarrow> bool" where
  "long_ok is_string sep ls r \<longleftrightarrow> r \<noteq> RUndef \<and> (\<forall>ls'. r = ROk ls' \<longrightarrow> lex_inv ls' \<and> linenumber ls \<le> linenumber ls' \<and>
     (is_string \<longrightarrow> length (buff ls) + nat sep + 2 \<le> length (buff ls')))"

lemma long_ok_after:
  assumes "step_ok m ls r" "\<And>ls'. r = ROk ls' \<Longrightarrow> lex_inv ls' \<Longrightarrow> long_ok is_string sep ls' (f ls')"
  shows "long_ok is_string sep ls (rbind r f)"
  using assms unfolding step_ok_def long_ok_def by (cases r) (simp_all, fastforce)

lemma long_ok_sep:
  assumes "lex_inv ls" "\<And>n ls1. skip_sep ls = ROk (n, ls1) \<Longrightarrow> lex_inv ls1 \<Longrightarrow> step_ok (if n \<ge> 0 then nat n + 1 else 0) ls (ROk ls1) \<Longrightarrow>
      long_ok is_string sep ls (f (n, ls1))"
  shows "long_ok is_string sep ls (rbind (skip_sep ls) f)"
proof (cases "skip_sep ls")
  case (ROk x)
  then have "step_ok (if fst x \<ge> 0 then nat (fst x) + 1 else 0) ls (ROk (snd x))"
    using skip_sep_ok(2) [OF assms(1), of "fst x" "snd x"] by simp
  then show ?thesis using assms(2) [of "fst x" "snd x"] ROk step_okD by simp
qed (use skip_sep_ok(1) [OF assms(1)] in \<open>simp_all add: long_ok_def\<close>)

lemma long_ok_back: "long_ok is_string sep ls1 r \<Longrightarrow> step_ok m ls (ROk ls1) \<Longrightarrow> long_ok is_string sep ls r"
  unfolding long_ok_def step_ok_def by fastforce

lemma long_ok_lexerror: "lex_inv ls' \<Longrightarrow> long_ok is_string sep ls (luaX_lexerror ls' msg token)"
  by (simp add: long_ok_def lexerror_ok)

lemma long_loop_ok: "lex_inv ls \<Longrightarrow> 0 \<le> sep \<Longrightarrow> long_ok is_string sep ls (long_loop is_string sep ls)"
proof (induction is_string sep ls rule: long_loop.induct)
  case (1 is_string sep ls)
  note inv = "1.prems"(1)
  show ?case
  proof (cases "current ls")
    case None
    then show ?thesis by (simp add: long_loop.simps [of is_string sep ls] long_ok_lexerror inv)
  next
    case (Some c)
    note IH = "1.IH" [OF Some]
    note unf = long_loop.simps [of is_string sep ls, unfolded Some option.case]
    consider (op) "c = CHR ''[''" | (cl) "c = CHR '']''" | (nl) "c = CHR 0x0A \<or> c = CHR 0x0D"
      | (other) "c \<noteq> CHR ''[''" "c \<noteq> CHR '']''" "\<not> (c = CHR 0x0A \<or> c = CHR 0x0D)" by blast
    then show ?thesis
    proof cases
      case op
      have "long_ok is_string sep ls
            (if n = sep then
              rbind (save_and_next ls1) (\<lambda>ls2.
              if sep = 0 then luaX_lexerror ls2 ''nesting of [[...]] is deprecated'' 91 else long_loop is_string sep ls2)
            else long_loop is_string sep ls1)"
        if "skip_sep ls = ROk (n, ls1)" "lex_inv ls1" "step_ok m ls (ROk ls1)" for n ls1 m
        using IH(1,2) [OF op that(1)] that(2) "1.prems"(2)
        by (intro long_ok_back [OF _ that(3)]) (auto simp: long_ok_lexerror intro!: long_ok_after [OF save_and_next_ok])
      then show ?thesis using op by (auto simp: unf intro!: long_ok_sep [OF inv])
    next
      case cl
      have "long_ok is_string sep ls (save_and_next ls1)" if "lex_inv ls1" "step_ok (nat sep + 1) ls (ROk ls1)" for ls1
        using save_and_next_ok [OF that(1)] that(2) unfolding long_ok_def step_ok_def by fastforce
      moreover have "long_ok is_string sep ls (long_loop is_string sep ls1)"
        if "skip_sep ls = ROk (n, ls1)" "n \<noteq> sep" "lex_inv ls1" "step_ok m ls (ROk ls1)" for n ls1 m
        by (rule long_ok_back [OF _ that(4)]) (use IH(3) [OF _ cl that(1)] cl that "1.prems"(2) in simp)
      ultimately show ?thesis using cl "1.prems"(2)
        by (auto simp: unf intro!: long_ok_sep [OF inv])
    next
      case nl
      have "long_ok is_string sep ls2 (long_loop is_string sep (if is_string then ls2 else ls2\<lparr>buff := []\<rparr>))"
        if "save ls (CHR 0x0A) = ROk ls1" "inclinenumber ls1 = ROk ls2" "lex_inv ls2" for ls1 ls2
        using IH(4) [OF _ _ nl that(1,2)] nl that(3) "1.prems"(2) by (cases is_string) (auto simp: lex_inv_def long_ok_def)
      then show ?thesis using nl by (auto simp: unf intro!: long_ok_after [OF save_ok [OF inv]] long_ok_after [OF inclinenumber_ok])
    next
      case other
      then show ?thesis using IH(5,6) [OF other] "1.prems"
        by (auto simp: unf intro!: long_ok_after [OF save_and_next_ok] intro: long_ok_back [of _ _ "lex_next ls" _ 0] simp: step_ok_def unread_next_le)
    qed
  qed
qed

lemma escape_digits_fields:
  "buff (snd (escape_digits i c ls)) = buff ls \<and> bsize (snd (escape_digits i c ls)) = bsize ls \<and>
   linenumber (snd (escape_digits i c ls)) = linenumber ls"
  by (induction i c ls rule: escape_digits.induct) (auto split: option.split)

lemma read_escape_ok:
  assumes "lex_inv ls"
  shows "step_ok 0 ls (read_escape ls)"
proof (cases "current ls")
  case (Some c)
  obtain n ls1 where d: "escape_digits 3 0 ls = (n, ls1)" by fastforce
  have ls1: "lex_inv ls1" "step_ok 0 ls (ROk ls1)"
    using escape_digits_fields [of 3 0 ls] unread_escape_digits [of 3 0 ls] d assms by (auto simp: lex_inv_def step_ok_def)
  have "step_ok 0 ls (save ls1 x)" for x
    using save_ok [OF ls1(1), of x] ls1(2) unfolding step_ok_def by fastforce
  moreover have "step_ok 0 ls (save_and_next ls)" using save_and_next_ok [OF assms] unfolding step_ok_def by fastforce
  moreover have "step_ok 0 ls (rbind (save ls x) inclinenumber)" for x
    by (rule step_ok_bind0 [OF save_ok [OF assms]]) (simp add: inclinenumber_ok)
  moreover have "step_ok 0 ls (rbind (save ls x) (\<lambda>ls1. ROk (lex_next ls1)))" for x
    by (rule step_ok_bind0 [OF save_ok [OF assms]]) (simp add: step_ok_def unread_next_le)
  ultimately show ?thesis using Some d ls1 by (auto simp: read_escape_def split: option.split)
qed (use assms in \<open>simp add: read_escape_def\<close>)

lemma string_loop_ok: "lex_inv ls \<Longrightarrow> step_ok 0 ls (string_loop del ls)"
proof (induction del ls rule: string_loop.induct)
  case (1 del ls)
  have "step_ok 0 ls (rbind (read_escape (lex_next ls)) (string_loop del))"
    if "current ls = Some (CHR 0x5C)" "del \<noteq> CHR 0x5C"
    by (rule step_ok_next, rule step_ok_bind0 [OF read_escape_ok]) (use 1 that in auto)
  then show ?case using 1
    by (subst string_loop.simps) (auto split: option.split intro!: step_ok_bind0 [OF save_and_next_ok])
qed

section \<open>Every token consumes input\<close>

definition tok_ok :: "LexState \<Rightarrow> (Token \<times> LexState) res \<Rightarrow> bool" where
  "tok_ok ls r \<longleftrightarrow> r \<noteq> RUndef \<and> (\<forall>t ls'. r = ROk (t, ls') \<longrightarrow>
     lex_inv ls' \<and> linenumber ls \<le> linenumber ls' \<and> (tk t = TK_EOS \<or> unread ls' < unread ls))"

lemma tok_ok_back: "tok_ok ls1 r \<Longrightarrow> linenumber ls \<le> linenumber ls1 \<Longrightarrow> unread ls1 \<le> unread ls \<Longrightarrow> tok_ok ls r"
  unfolding tok_ok_def by fastforce

text \<open>After a first character has been consumed.\<close>

lemma tok_ok_first:
  assumes "lex_inv ls" "current ls \<noteq> None"
    and "\<And>ls1. lex_inv ls1 \<Longrightarrow> linenumber ls \<le> linenumber ls1 \<Longrightarrow> length (buff ls) + 1 \<le> length (buff ls1) \<Longrightarrow>
      unread ls1 < unread ls \<Longrightarrow> tok_ok ls (f ls1)"
  shows "tok_ok ls (rbind (save_and_next ls) f)"
proof (cases "save_and_next ls")
  case (ROk ls1)
  then show ?thesis using save_and_next_ok [OF assms(1)] unread_save_and_next [OF ROk assms(2)] assms(3) [of ls1]
    by (auto simp: step_ok_def)
qed (use save_and_next_ok [OF assms(1)] in \<open>auto simp: step_ok_def tok_ok_def\<close>)

lemma tok_ok_then:
  assumes "step_ok m ls1 r" "linenumber ls \<le> linenumber ls1" "unread ls1 < unread ls"
    and "\<And>ls2. r = ROk ls2 \<Longrightarrow> lex_inv ls2 \<Longrightarrow> linenumber ls \<le> linenumber ls2 \<Longrightarrow> length (buff ls1) + m \<le> length (buff ls2) \<Longrightarrow>
      unread ls2 < unread ls \<Longrightarrow> tok_ok ls (f ls2)"
  shows "tok_ok ls (rbind r f)"
  using assms unfolding step_ok_def by (cases r) (auto simp: tok_ok_def)

lemma newstring_fields [simp]:
  "lex_inv (snd (luaX_newstring ls s)) = lex_inv ls" "linenumber (snd (luaX_newstring ls s)) = linenumber ls"
  by (simp_all add: luaX_newstring_def lex_inv_def)

lemma read_name_ok: "lex_inv ls \<Longrightarrow> current ls \<noteq> None \<Longrightarrow> tok_ok ls (read_name ls)"
  unfolding read_name_def
  by (rule tok_ok_first, simp_all, rule tok_ok_then [OF save_while_ok])
    (auto simp: tok_ok_def case_prod_beta split: option.split)

lemma read_string_ok:
  assumes "lex_inv ls" "current ls \<noteq> None"
  shows "tok_ok ls (rbind (read_string ls del) string_token)"
proof -
  have "tok_ok ls (rbind (save_and_next ls) (\<lambda>ls1. rbind (string_loop del ls1) (\<lambda>ls2. rbind (save_and_next ls2) (\<lambda>ls3.
     rbind (if 2 \<le> length (buff ls3) then
       let (s, ls4) = luaX_newstring ls3 (take (length (buff ls3) - 2) (drop 1 (buff ls3))) in ROk (StrInfo s, ls4)
     else RUndef) string_token))))"
  proof (rule tok_ok_first [OF assms])
    fix ls1 assume 1: "lex_inv ls1" "linenumber ls \<le> linenumber ls1" "length (buff ls) + 1 \<le> length (buff ls1)" "unread ls1 < unread ls"
    show "tok_ok ls (rbind (string_loop del ls1) (\<lambda>ls2. rbind (save_and_next ls2) (\<lambda>ls3.
       rbind (if 2 \<le> length (buff ls3) then
         let (s, ls4) = luaX_newstring ls3 (take (length (buff ls3) - 2) (drop 1 (buff ls3))) in ROk (StrInfo s, ls4)
       else RUndef) string_token)))"
      by (rule tok_ok_then [OF string_loop_ok [OF 1(1)] 1(2,4)], rule tok_ok_then [OF save_and_next_ok])
        (use 1(3) in \<open>auto simp: tok_ok_def string_token_def case_prod_beta Let_def\<close>)
  qed
  then show ?thesis by (simp add: read_string_def rbind_assoc)
qed

lemma buffreplace_fields [simp]:
  "lex_inv (buffreplace ls a b) = lex_inv ls" "linenumber (buffreplace ls a b) = linenumber ls"
  "unread (buffreplace ls a b) = unread ls" "current (buffreplace ls a b) = current ls"
  by (simp_all add: buffreplace_def lex_inv_def unread_def)

lemma lexerror_tok [simp]: "lex_inv ls' \<Longrightarrow> tok_ok ls (luaX_lexerror ls' msg token)"
  by (simp add: tok_ok_def lexerror_ok)

lemma tok_ok_check_next:
  assumes "lex_inv ls1" "linenumber ls \<le> linenumber ls1" "unread ls1 < unread ls"
    and "\<And>b ls2. lex_inv ls2 \<Longrightarrow> linenumber ls \<le> linenumber ls2 \<Longrightarrow> unread ls2 < unread ls \<Longrightarrow> tok_ok ls (f (b, ls2))"
  shows "tok_ok ls (rbind (check_next ls1 cs) f)"
proof (cases "check_next ls1 cs")
  case (ROk x)
  have "step_ok 0 ls1 (ROk (snd x))" using check_next_ok [OF assms(1), of cs] ROk by (metis prod.collapse)
  then show ?thesis using assms(2,3) assms(4) [of "snd x" "fst x"] ROk by (auto simp: step_ok_def)
qed (use check_next_ok [OF assms(1), of cs] in \<open>simp_all add: tok_ok_def\<close>)

lemma trydecpoint_ok:
  assumes "lex_inv ls1" "linenumber ls \<le> linenumber ls1" "unread ls1 < unread ls"
  shows "tok_ok ls (rbind (trydecpoint str2d point ls1) (\<lambda>(r, ls2). ROk (\<lparr>tk = TK_NUMBER, seminfo = NumInfo r\<rparr>, ls2)))"
proof -
  define ls2 where "ls2 = buffreplace (ls1\<lparr>decpoint := point\<rparr>) (decpoint ls1) point"
  have ls2: "lex_inv ls2" "linenumber ls2 = linenumber ls1" "unread ls2 = unread ls1"
    using assms(1) by (simp_all add: ls2_def lex_inv_def unread_def buffreplace_def)
  show ?thesis
  proof (cases "str2d (cstring (buff ls2))")
    case None
    then show ?thesis
      using lexerror_ok [of "buffreplace ls2 (decpoint ls2) (CHR ''.'')" "''malformed number''" TK_NUMBER] ls2(1)
      by (auto simp: trydecpoint_def ls2_def [symmetric] Let_def tok_ok_def rbind_def split: res.splits)
  next
    case (Some r)
    then show ?thesis using assms(2,3) ls2 by (simp add: trydecpoint_def ls2_def [symmetric] Let_def tok_ok_def)
  qed
qed

lemma number_token_ok:
  assumes "lex_inv ls" "current ls \<noteq> None"
  shows "tok_ok ls (number_token str2d point ls)"
proof -
  define fin where "fin = (\<lambda>ls4. rbind (save_while (\<lambda>c. isalnum (uchar c) \<or> c = CHR ''_'') ls4) (\<lambda>ls5.
     rbind (save ls5 NUL) (\<lambda>ls6.
     rbind (let ls7 = buffreplace ls6 (CHR ''.'') (decpoint ls6) in
       case str2d (cstring (buff ls7)) of
         Some r \<Rightarrow> ROk (r, ls7)
       | None \<Rightarrow> trydecpoint str2d point ls7) (\<lambda>(r, ls1). ROk (\<lparr>tk = TK_NUMBER, seminfo = NumInfo r\<rparr>, ls1)))))"
  have fin: "tok_ok ls (fin ls4)" if "lex_inv ls4" "linenumber ls \<le> linenumber ls4" "unread ls4 < unread ls" for ls4
    unfolding fin_def
    by (rule tok_ok_then [OF save_while_ok [OF that(1)] that(2,3)], rule tok_ok_then [OF save_ok])
      (auto simp: Let_def tok_ok_def [of _ "ROk _"] intro: trydecpoint_ok split: option.split)
  have "number_token str2d point ls = rbind (save_and_next ls) (\<lambda>ls1.
     rbind (save_while (\<lambda>c. isdigit (uchar c) \<or> c = CHR ''.'') ls1) (\<lambda>ls2.
     rbind (check_next ls2 {CHR ''E'', CHR ''e''}) (\<lambda>x.
     if fst x then rbind (check_next (snd x) {CHR ''+'', CHR ''-''}) (\<lambda>y. fin (snd y)) else fin (snd x))))"
    unfolding number_token_def read_numeral_def fin_def rbind_assoc
    by (intro rbind_cong refl) (auto simp: rbind_assoc)
  then show ?thesis
    by (auto intro!: tok_ok_first [OF assms] tok_ok_then [OF save_while_ok] tok_ok_check_next fin)
qed

lemma read_dots_ok:
  assumes "lex_inv ls" "current ls \<noteq> None"
  shows "tok_ok ls (read_dots str2d point ls)"
proof -
  have "tok_ok ls (number_token str2d point ls2)"
    if "lex_inv ls2" "linenumber ls \<le> linenumber ls2" "unread ls2 < unread ls" "check_class isdigit ls2" for ls2
  proof -
    have "current ls2 \<noteq> None" using that(4) by (auto simp: check_class_def split: option.splits)
    then show ?thesis using tok_ok_back [OF number_token_ok [OF that(1)] that(2)] that(3) by simp
  qed
  note num = this
  have dots: "tok_ok ls (rbind (check_next ls2 cs) (\<lambda>(b2, ls3). ROk (\<lparr>tk = (if b2 then TK_DOTS else TK_CONCAT), seminfo = NoInfo\<rparr>, ls3)))"
    if "lex_inv ls2" "linenumber ls \<le> linenumber ls2" "unread ls2 < unread ls" for ls2 cs
    by (rule tok_ok_check_next [OF that]) (simp add: tok_ok_def)
  show ?thesis unfolding read_dots_def
  proof (rule tok_ok_first [OF assms], rule tok_ok_check_next, assumption+)
    fix b ls2 assume 2: "lex_inv ls2" "linenumber ls \<le> linenumber ls2" "unread ls2 < unread ls"
    show "tok_ok ls (case (b, ls2) of (b, ls2) \<Rightarrow>
       if b then
         rbind (check_next ls2 {CHR ''.''}) (\<lambda>(b2, ls3). ROk (\<lparr>tk = (if b2 then TK_DOTS else TK_CONCAT), seminfo = NoInfo\<rparr>, ls3))
       else if \<not> check_class isdigit ls2 then ROk (\<lparr>tk = int (uchar (CHR ''.'')), seminfo = NoInfo\<rparr>, ls2)
       else number_token str2d point ls2)"
      unfolding prod.case using dots [OF 2] num [OF 2] 2 by (simp add: tok_ok_def [of _ "ROk _"])
  qed
qed

lemma with_eq_ok:
  assumes "lex_inv ls" "current ls \<noteq> None"
  shows "tok_ok ls (with_eq ls c two)"
  using assms unread_next [OF assms(2)] unread_next_le [of "lex_next ls"]
  by (simp add: with_eq_def Let_def tok_ok_def)

lemma skip_line_fields: "lex_inv (skip_line ls) = lex_inv ls \<and> linenumber (skip_line ls) = linenumber ls"
proof (induction ls rule: skip_line.induct)
  case (1 ls)
  then show ?case by (subst (1 2) skip_line.simps) simp
qed

lemma read_long_string_ok:
  assumes "lex_inv ls" "0 \<le> sep" "is_string \<Longrightarrow> nat sep + 1 \<le> length (buff ls)"
  shows "read_long_string ls is_string sep \<noteq> RUndef \<and>
    (\<forall>x. read_long_string ls is_string sep = ROk x \<longrightarrow> lex_inv (snd x) \<and> linenumber ls \<le> linenumber (snd x))"
proof -
  have s1: "step_ok 1 ls (save_and_next ls)" using save_and_next_ok [OF assms(1)] .
  have s2: "step_ok 0 ls1 (if currIsNewline ls1 then inclinenumber ls1 else ROk ls1)" if "lex_inv ls1" for ls1
    using inclinenumber_ok that by simp
  have s3: "long_ok is_string sep ls2 (long_loop is_string sep ls2)" if "lex_inv ls2" for ls2
    using long_loop_ok that assms(2) by simp
  have "long_ok is_string sep ls1 (rbind (if currIsNewline ls1 then inclinenumber ls1 else ROk ls1) (long_loop is_string sep))"
    if "lex_inv ls1" for ls1 by (rule long_ok_after [OF s2 [OF that]]) (rule s3)
  moreover define r where "r = rbind (save_and_next ls) (\<lambda>ls1. rbind (if currIsNewline ls1 then inclinenumber ls1 else ROk ls1) (long_loop is_string sep))"
  ultimately have r: "r \<noteq> RUndef \<and> (\<forall>ls'. r = ROk ls' \<longrightarrow> lex_inv ls' \<and> linenumber ls \<le> linenumber ls' \<and>
     (is_string \<longrightarrow> length (buff ls) + 1 + nat sep + 2 \<le> length (buff ls')))"
    using s1 unfolding step_ok_def long_ok_def by (cases "save_and_next ls") (simp_all, fastforce)
  have "read_long_string ls is_string sep = rbind r (\<lambda>ls3.
     if is_string then
       let k = nat (2 + sep); len = length (buff ls3) - 2 * k in
       if 2 * k \<le> length (buff ls3) then
         let (s, ls4) = luaX_newstring ls3 (take len (drop k (buff ls3))) in ROk (StrInfo s, ls4)
       else RUndef
     else ROk (NoInfo, ls3))" by (simp add: read_long_string_def r_def rbind_assoc)
  then show ?thesis using r assms(2,3)
    by (cases r) (auto simp: Let_def luaX_newstring_def lex_inv_def nat_add_distrib)
qed

lemma read_comment_ok:
  assumes "lex_inv ls"
  shows "read_comment ls \<noteq> RUndef \<and> (\<forall>ls'. read_comment ls = ROk ls' \<longrightarrow> lex_inv ls' \<and> linenumber ls \<le> linenumber ls')"
proof (cases "current ls = Some (CHR ''['')")
  case True
  show ?thesis
  proof (cases "skip_sep ls")
    case (ROk x)
    then obtain sep ls1 where x: "x = (sep, ls1)" by fastforce
    have ls1: "lex_inv (ls1\<lparr>buff := []\<rparr>)" "linenumber ls \<le> linenumber ls1"
      using skip_sep_ok(2) [OF assms, of sep ls1] ROk x by (auto simp: step_ok_def lex_inv_def)
    show ?thesis using True ROk x ls1 read_long_string_ok [OF ls1(1), of sep False] skip_line_fields [of "ls1\<lparr>buff := []\<rparr>"]
      by (cases "read_long_string (ls1\<lparr>buff := []\<rparr>) False sep") (auto simp: read_comment_def lex_inv_def Let_def split: if_splits)
  qed (use True skip_sep_ok(1) [OF assms] in \<open>simp_all add: read_comment_def\<close>)
next
  case False
  then show ?thesis using assms skip_line_fields [of ls] by (simp add: read_comment_def)
qed

lemma bracket_token_ok:
  assumes "lex_inv ls" "current ls = Some c"
  shows "tok_ok ls (rbind (skip_sep ls) (\<lambda>(sep, ls1).
            if sep \<ge> 0 then rbind (read_long_string ls1 True sep) string_token
            else if sep = - 1 then ROk (\<lparr>tk = int (uchar c), seminfo = NoInfo\<rparr>, ls1)
            else luaX_lexerror ls1 ''invalid long string delimiter'' TK_STRING))"
proof (cases "skip_sep ls")
  case (ROk x)
  then obtain sep ls1 where x: "x = (sep, ls1)" by fastforce
  have s: "step_ok (if sep \<ge> 0 then nat sep + 1 else 0) ls (ROk ls1)"
    using skip_sep_ok(2) [OF assms(1), of sep ls1] ROk x by simp
  have u: "unread ls1 < unread ls" using unread_skip_sep [of ls x] ROk x assms(2) by simp
  have "tok_ok ls (rbind (read_long_string ls1 True sep) string_token)" if "0 \<le> sep"
  proof -
    have "nat sep + 1 \<le> length (buff ls1)" "lex_inv ls1" "linenumber ls \<le> linenumber ls1"
      using s that by (auto simp: step_ok_def)
    then show ?thesis
      using read_long_string_ok [of ls1 sep True] that u unread_read_long_string [of ls1 True sep]
      by (cases "read_long_string ls1 True sep") (fastforce simp: tok_ok_def string_token_def)+
  qed
  then show ?thesis using ROk x s u by (auto simp: step_ok_def tok_ok_def [of _ "ROk _"])
qed (use skip_sep_ok(1) [OF assms(1)] in \<open>simp_all add: tok_ok_def\<close>)

lemma tok_ok_loop:
  assumes "m \<noteq> RUndef" "\<And>ls1. m = ROk ls1 \<Longrightarrow> linenumber ls \<le> linenumber ls1 \<and> unread ls1 \<le> unread ls \<and> tok_ok ls1 (f ls1)"
  shows "tok_ok ls (rbind m f)"
  using assms by (cases m) (auto intro: tok_ok_back simp: tok_ok_def [of _ "RErr _"])

lemma llex_loop_ok: "lex_inv ls \<Longrightarrow> tok_ok ls (llex_loop str2d point ls)"
proof (induction str2d point ls rule: llex_loop.induct)
  case (1 str2d point ls)
  note inv = "1.prems"
  show ?case
  proof (cases "current ls")
    case None
    then show ?thesis using inv by (simp add: llex_loop.simps [of str2d point ls] tok_ok_def)
  next
    case (Some c)
    note unf = llex_loop.simps [of str2d point ls, unfolded Some option.case]
    note IH = "1.IH" [OF Some]
    have nn: "current ls \<noteq> None" using Some by simp
    have lt: "unread (lex_next ls) < unread ls" using unread_next [OF nn] .
    consider (nl) "c = CHR 0x0A \<or> c = CHR 0x0D" | (dash) "c = CHR ''-''"
      | (space) "isspace (uchar c)" "\<not> (c = CHR 0x0A \<or> c = CHR 0x0D)"
      | (other) "\<not> isspace (uchar c)" "\<not> (c = CHR 0x0A \<or> c = CHR 0x0D)" "c \<noteq> CHR ''-''" by blast
    then show ?thesis
    proof cases
      case nl
      have "tok_ok ls (rbind (inclinenumber ls) (llex_loop str2d point))"
        using inclinenumber_ok [OF inv] IH(1) [OF nl] by (intro tok_ok_loop) (auto simp: step_ok_def)
      then show ?thesis using nl by (simp add: unf)
    next
      case dash
      have "tok_ok ls (rbind (read_comment (lex_next (lex_next ls))) (llex_loop str2d point))"
        if "current (lex_next ls) = Some (CHR ''-'')"
      proof (rule tok_ok_loop)
        have rc: "read_comment (lex_next (lex_next ls)) \<noteq> RUndef \<and> (\<forall>ls'. read_comment (lex_next (lex_next ls)) = ROk ls' \<longrightarrow>
            lex_inv ls' \<and> linenumber ls \<le> linenumber ls')"
          using read_comment_ok [of "lex_next (lex_next ls)"] inv by simp
        then show "read_comment (lex_next (lex_next ls)) \<noteq> RUndef" by blast
        fix ls1 assume r: "read_comment (lex_next (lex_next ls)) = ROk ls1"
        show "linenumber ls \<le> linenumber ls1 \<and> unread ls1 \<le> unread ls \<and> tok_ok ls1 (llex_loop str2d point ls1)"
          using rc r IH(2) [OF _ dash refl _ r] dash that unread_read_comment [OF r] unread_next_le [of "lex_next ls"] lt by simp
      qed
      then show ?thesis using dash lt inv by (simp add: unf Let_def tok_ok_def [of _ "ROk _"])
    next
      case space
      have "c \<notin> {CHR ''['', CHR ''='', CHR ''<'', CHR ''>'', CHR ''~'', CHR 0x22, CHR 0x27, CHR ''.'', CHR ''-''}"
        using space(1) by (auto simp: isspace_def uchar_def)
      moreover have "tok_ok ls (llex_loop str2d point (lex_next ls))"
        by (rule tok_ok_back [of "lex_next ls"]) (use IH(3) space calculation inv lt in auto)
      ultimately show ?thesis using space by (simp add: unf)
    next
      case other
      show ?thesis unfolding unf
        using other inv nn lt bracket_token_ok [OF inv Some] with_eq_ok [OF inv nn] read_string_ok [OF inv nn]
          read_dots_ok [OF inv nn] number_token_ok [OF inv nn] read_name_ok [OF inv nn]
        by (simp add: tok_ok_def [of _ "ROk _"])
    qed
  qed
qed

text \<open>
  C19: From every state with an allocated buffer, reading a token ends without a write outside the buffer;
  the line number never decreases, and unless the token is the end of the input, at least one
  character has been consumed: the parser sees finitely many tokens of every input.
\<close>

theorem luaX_next_progress:
  assumes "lex_inv ls" "tk (lookahead ls) = TK_EOS"
  shows "luaX_next str2d point ls \<noteq> RUndef \<and>
    (\<forall>ls'. luaX_next str2d point ls = ROk ls' \<longrightarrow> lex_inv ls' \<and> linenumber ls \<le> linenumber ls' \<and>
       (tk (t_token ls') = TK_EOS \<or> unread ls' < unread ls))"
proof -
  define ls1 where "ls1 = ls\<lparr>lastline := linenumber ls, buff := []\<rparr>"
  have ls1: "lex_inv ls1" "linenumber ls1 = linenumber ls" "unread ls1 = unread ls"
    using assms(1) by (simp_all add: ls1_def lex_inv_def unread_def)
  have eq: "luaX_next str2d point ls = rbind (llex_loop str2d point ls1) (\<lambda>(t, ls'). ROk (ls'\<lparr>t_token := t\<rparr>))"
    using assms(2) by (simp add: luaX_next_def llex_def ls1_def Let_def)
  show ?thesis using llex_loop_ok [OF ls1(1), of str2d point] ls1(2,3) unfolding eq tok_ok_def
    by (cases "llex_loop str2d point ls1") (auto simp: lex_inv_def unread_def)
qed

text \<open>A lexer at the start of an input.\<close>

definition lex_start :: "string \<Rightarrow> LexState" where
  "lex_start input = luaX_setinput
     \<lparr>current = None, z_rest = [], linenumber = 0, lastline = 0, t_token = \<lparr>tk = 0, seminfo = NoInfo\<rparr>,
      lookahead = \<lparr>tk = 0, seminfo = NoInfo\<rparr>, buff = [], bsize = 0, decpoint = CHR ''.'', anchored = {}\<rparr> input"

lemma lex_start_inv: "lex_inv (lex_start input)" "tk (lookahead (lex_start input)) = TK_EOS"
  by (simp_all add: lex_start_def luaX_setinput_def lex_inv_def)

lemma luaX_next_example:
  "\<exists>ls'. luaX_next str2d point (lex_start ''=='') = ROk ls' \<and> tk (t_token ls') = TK_EQ"
  by (simp add: luaX_next_def lex_start_def luaX_setinput_def llex_def llex_loop.simps lex_next_def with_eq_def)

theorem luaX_next_progress_witness:
  "\<exists>ls'. luaX_next (\<lambda>_. None) (CHR ''.'') (lex_start ''=='') = ROk ls' \<and> lex_inv ls' \<and> unread ls' < unread (lex_start ''=='')"
  using luaX_next_example [of "\<lambda>_. None" "CHR ''.''"]
    luaX_next_progress [OF lex_start_inv, of "\<lambda>_. None" "CHR ''.''" "''==''"]
  by (auto simp: TK_EQ_def TK_EOS_def)

section \<open>Quoted strings are read back\<close>

definition stream :: "LexState \<Rightarrow> string" where
  "stream ls = (case current ls of None \<Rightarrow> [] | Some c \<Rightarrow> c # z_rest ls)"

lemma stream_update [simp]:
  "stream (ls\<lparr>buff := b\<rparr>) = stream ls" "stream (ls\<lparr>bsize := k\<rparr>) = stream ls"
  "stream (ls\<lparr>linenumber := n\<rparr>) = stream ls" "stream (ls\<lparr>lastline := n\<rparr>) = stream ls" "stream (ls\<lparr>anchored := a\<rparr>) = stream ls"
  by (auto simp: stream_def split: option.split)

lemma stream_next: "stream ls = c # cs \<Longrightarrow> current ls = Some c \<and> stream (lex_next ls) = cs"
  by (auto simp: stream_def lex_next_def split: option.splits list.splits)

lemma save_eq:
  assumes "lex_inv ls" "length (buff ls) < 2 ^ 62"
  shows "\<exists>ls'. save ls c = ROk ls' \<and> lex_inv ls' \<and> stream ls' = stream ls \<and> current ls' = current ls \<and>
    buff ls' = buff ls @ [c] \<and> linenumber ls' = linenumber ls"
proof (cases "length (buff ls) < bsize ls")
  case True
  then show ?thesis using assms by (auto simp: save_def lex_inv_def)
next
  case False
  then have "bsize ls = length (buff ls)" using assms(1) by (simp add: lex_inv_def)
  then show ?thesis using assms by (auto simp: save_def lex_inv_def Suc_le_eq)
qed

lemma save_and_next_eq:
  assumes "lex_inv ls" "length (buff ls) < 2 ^ 62" "stream ls = c # cs"
  shows "\<exists>ls'. save_and_next ls = ROk ls' \<and> lex_inv ls' \<and> stream ls' = cs \<and>
    buff ls' = buff ls @ [c] \<and> linenumber ls' = linenumber ls"
proof -
  have c: "current ls = Some c" using stream_next [OF assms(3)] by simp
  obtain ls' where l: "save ls c = ROk ls'" "lex_inv ls'" "stream ls' = stream ls" "current ls' = current ls"
      "buff ls' = buff ls @ [c]" "linenumber ls' = linenumber ls" using save_eq [OF assms(1,2)] by blast
  then have "stream (lex_next ls') = cs" using stream_next [of ls' c cs] assms(3) by simp
  then show ?thesis using l c by (simp add: save_and_next_def)
qed

text \<open>What one quoted character does to the state.\<close>

definition reads_char :: "LexState \<Rightarrow> char \<Rightarrow> string \<Rightarrow> LexState \<Rightarrow> bool" where
  "reads_char ls c cs ls' \<longleftrightarrow> lex_inv ls' \<and> stream ls' = cs \<and> buff ls' = buff ls @ [c] \<and>
     linenumber ls' = linenumber ls + (if c = CHR 0x0A then 1 else 0)"

lemma read_escape_newline:
  assumes "lex_inv ls" "length (buff ls) < 2 ^ 62" "stream ls = CHR 0x0A # cs" "linenumber ls + 1 < max_int"
    and "cs = [] \<or> hd cs \<notin> {CHR 0x0A, CHR 0x0D}"
  shows "\<exists>ls'. read_escape ls = ROk ls' \<and> reads_char ls (CHR 0x0A) cs ls'"
proof -
  have c: "current ls = Some (CHR 0x0A)" using stream_next [OF assms(3)] by simp
  obtain ls1 where l: "save ls (CHR 0x0A) = ROk ls1" "lex_inv ls1" "stream ls1 = stream ls" "current ls1 = current ls"
      "buff ls1 = buff ls @ [CHR 0x0A]" "linenumber ls1 = linenumber ls" using save_eq [OF assms(1,2)] by blast
  have nx: "stream (lex_next ls1) = cs" using stream_next [of ls1] l(3) assms(3) by simp
  have "\<not> currIsNewline (lex_next ls1)"
    using nx assms(5) by (auto simp: currIsNewline_def stream_def split: option.splits)
  then show ?thesis using l nx c assms(4)
    by (auto simp: read_escape_def escape_char_def inclinenumber_def Let_def reads_char_def lex_inv_def)
qed

text \<open>A quoted character and the loop that reads it.\<close>

lemma string_loop_char:
  assumes "lex_inv ls" "length (buff ls) < 2 ^ 62" "stream ls = quote_char c @ cs" "linenumber ls + 1 < max_int"
    and "cs = [] \<or> hd cs \<notin> {CHR 0x0A, CHR 0x0D}"
  shows "\<exists>ls'. string_loop (CHR 0x22) ls = string_loop (CHR 0x22) ls' \<and> reads_char ls c cs ls'"
proof -
  have esc: "string_loop (CHR 0x22) ls = rbind (read_escape (lex_next ls)) (string_loop (CHR 0x22))"
      "stream (lex_next ls) = xs" if "stream ls = CHR 0x5C # xs" for xs
    using stream_next [OF that] by (simp_all add: string_loop.simps [of _ ls])
  have inv: "lex_inv (lex_next ls)" "length (buff (lex_next ls)) < 2 ^ 62" using assms(1,2) by simp_all
  consider (quoted) "c = CHR 0x22 \<or> c = CHR 0x5C" | (nl) "c = CHR 0x0A" | (cr) "c = CHR 0x0D" | (zero) "c = NUL"
    | (plain) "c \<noteq> CHR 0x22" "c \<noteq> CHR 0x5C" "c \<noteq> CHR 0x0A" "c \<noteq> CHR 0x0D" "c \<noteq> NUL" by blast
  then show ?thesis
  proof cases
    case quoted
    then have s: "stream ls = CHR 0x5C # c # cs" using assms(3) by (auto simp: quote_char_def)
    have "escape_char c = None" "\<not> isdigit (uchar c)" "c \<noteq> CHR 0x0A" "c \<noteq> CHR 0x0D"
      using quoted by (auto simp: escape_char_def isdigit_def uchar_def)
    then have "read_escape (lex_next ls) = save_and_next (lex_next ls)"
      using stream_next [OF esc(2) [OF s]] by (simp add: read_escape_def)
    moreover obtain ls' where "save_and_next (lex_next ls) = ROk ls'" "reads_char ls c cs ls'"
      using save_and_next_eq [OF inv esc(2) [OF s]] \<open>c \<noteq> CHR 0x0A\<close> by (auto simp: reads_char_def)
    ultimately show ?thesis using esc(1) [OF s] by auto
  next
    case nl
    then have s: "stream ls = CHR 0x5C # CHR 0x0A # cs" using assms(3) by (simp add: quote_char_def)
    obtain ls' where "read_escape (lex_next ls) = ROk ls'" "reads_char (lex_next ls) (CHR 0x0A) cs ls'"
      using read_escape_newline [OF inv esc(2) [OF s] _ assms(5)] assms(4) by auto
    then show ?thesis using esc(1) [OF s] nl by (auto simp: reads_char_def)
  next
    case cr
    then have s: "stream ls = CHR 0x5C # CHR ''r'' # cs" using assms(3) by (simp add: quote_char_def)
    obtain ls' where l: "save (lex_next ls) (CHR 0x0D) = ROk ls'" "lex_inv ls'" "stream ls' = stream (lex_next ls)"
        "buff ls' = buff ls @ [CHR 0x0D]" "linenumber ls' = linenumber ls"
      using save_eq [OF inv, of "CHR 0x0D"] by auto
    have "read_escape (lex_next ls) = ROk (lex_next ls')"
      using l(1) stream_next [OF esc(2) [OF s]] by (simp add: read_escape_def escape_char_def)
    moreover have "reads_char ls c cs (lex_next ls')"
      using l stream_next [of ls' "CHR ''r''" cs] esc(2) [OF s] cr by (simp add: reads_char_def)
    ultimately show ?thesis using esc(1) [OF s] by auto
  next
    case zero
    then have s: "stream ls = CHR 0x5C # CHR ''0'' # CHR ''0'' # CHR ''0'' # cs" using assms(3) by (simp add: quote_char_def)
    define ls3 where "ls3 = lex_next (lex_next (lex_next (lex_next ls)))"
    note n1 = stream_next [OF esc(2) [OF s]]
    note n2 = stream_next [OF conjunct2 [OF n1]]
    note n3 = stream_next [OF conjunct2 [OF n2]]
    have dg: "uchar (CHR ''0'') = 48" "isdigit 48" by (simp_all add: isdigit_def uchar_def)
    have "escape_digits 3 0 (lex_next ls) = (0, ls3)"
      using n1 n2 n3 by (simp add: numeral_3_eq_3 ls3_def dg)
    moreover obtain ls' where l: "save ls3 NUL = ROk ls'" "reads_char ls NUL cs ls'"
      using save_eq [of ls3 NUL] assms(1,2) n3 by (auto simp: ls3_def reads_char_def)
    ultimately have "read_escape (lex_next ls) = ROk ls'"
      using n1 dg by (simp add: read_escape_def escape_char_def char_of_def)
    then show ?thesis using esc(1) [OF s] l(2) zero by auto
  next
    case plain
    then have s: "stream ls = c # cs" using assms(3) by (simp add: quote_char_def)
    have "string_loop (CHR 0x22) ls = rbind (save_and_next ls) (string_loop (CHR 0x22))"
      using plain stream_next [OF s] by (simp add: string_loop.simps [of _ ls])
    then show ?thesis using save_and_next_eq [OF assms(1,2) s] plain(3) by (auto simp: reads_char_def)
  qed
qed

lemma quoted_head: "hd (concat (map quote_char s) @ CHR 0x22 # rest) \<notin> {CHR 0x0A, CHR 0x0D}"
  by (cases s) (auto simp: quote_char_def)

lemma string_loop_quoted:
  assumes "lex_inv ls" "length (buff ls) + length s < 2 ^ 62" "stream ls = concat (map quote_char s) @ CHR 0x22 # rest"
    and "linenumber ls + int (length s) < max_int"
  shows "\<exists>ls'. string_loop (CHR 0x22) ls = ROk ls' \<and> lex_inv ls' \<and> stream ls' = CHR 0x22 # rest \<and>
    buff ls' = buff ls @ s \<and> linenumber ls' = linenumber ls + int (count_list s (CHR 0x0A))"
  using assms
proof (induction s arbitrary: ls)
  case Nil
  then show ?case using stream_next [of ls "CHR 0x22" rest] by (simp add: string_loop.simps [of _ ls])
next
  case (Cons c s)
  define cs where "cs = concat (map quote_char s) @ CHR 0x22 # rest"
  obtain ls1 where l1: "string_loop (CHR 0x22) ls = string_loop (CHR 0x22) ls1" "reads_char ls c cs ls1"
    using string_loop_char [of ls c cs] Cons.prems quoted_head [of s rest] by (auto simp: cs_def)
  have "linenumber ls1 + int (length s) < max_int" "length (buff ls1) + length s < 2 ^ 62" "lex_inv ls1" "stream ls1 = cs"
    using l1(2) Cons.prems by (auto simp: reads_char_def split: if_splits)
  then show ?case using Cons.IH [of ls1] l1 by (auto simp: cs_def reads_char_def)
qed

text \<open>
  C8: A string written by \<open>string.format("%q")\<close> is one string token for the lexer, with the same
  characters, zero bytes, quotes, backslashes and line ends included; what follows it is left
  unread, and the line counter advances by the line ends in the string.
\<close>

theorem quoted_string_token:
  assumes "lex_inv ls" "length s + 2 < 2 ^ 62" "stream ls = addquoted s @ rest" "linenumber ls + int (length s) < max_int"
  shows "\<exists>ls'. llex str2d point ls = ROk (\<lparr>tk = TK_STRING, seminfo = StrInfo s\<rparr>, ls') \<and>
    stream ls' = rest \<and> linenumber ls' = linenumber ls + int (count_list s (CHR 0x0A))"
proof -
  define ls0 where "ls0 = ls\<lparr>buff := []\<rparr>"
  have ls0: "lex_inv ls0" "stream ls0 = CHR 0x22 # concat (map quote_char s) @ CHR 0x22 # rest" "linenumber ls0 = linenumber ls"
    "buff ls0 = []" using assms(1,3) by (simp_all add: ls0_def lex_inv_def addquoted_def)
  have cur: "current ls0 = Some (CHR 0x22)" using stream_next [OF ls0(2)] by simp
  obtain ls1 where l1: "save_and_next ls0 = ROk ls1" "lex_inv ls1" "stream ls1 = concat (map quote_char s) @ CHR 0x22 # rest"
      "buff ls1 = [CHR 0x22]" "linenumber ls1 = linenumber ls"
    using save_and_next_eq [OF ls0(1) _ ls0(2)] ls0(3,4) by auto
  obtain ls2 where l2: "string_loop (CHR 0x22) ls1 = ROk ls2" "lex_inv ls2" "stream ls2 = CHR 0x22 # rest"
      "buff ls2 = [CHR 0x22] @ s" "linenumber ls2 = linenumber ls + int (count_list s (CHR 0x0A))"
    using string_loop_quoted [OF l1(2) _ l1(3)] assms(2,4) l1(4,5) by auto
  obtain ls3 where l3: "save_and_next ls2 = ROk ls3" "stream ls3 = rest" "buff ls3 = [CHR 0x22] @ s @ [CHR 0x22]"
      "linenumber ls3 = linenumber ls2"
    using save_and_next_eq [OF l2(2) _ l2(3)] l2(4) assms(2) by auto
  have "read_string ls0 (CHR 0x22) = ROk (StrInfo s, ls3\<lparr>anchored := insert s (anchored ls3)\<rparr>)"
    using l1(1) l2(1) l3(1,3) by (simp add: read_string_def luaX_newstring_def)
  then show ?thesis using cur l3(2,4) l2(5)
    by (simp add: llex_def ls0_def [symmetric] llex_loop.simps [of _ _ ls0] string_token_def)
qed

theorem quoted_string_token_witness:
  "\<exists>ls'. llex (\<lambda>_. None) (CHR ''.'') (lex_start (addquoted [CHR ''a'', CHR 0x5C, CHR 0x0A, NUL] @ '' end'')) =
      ROk (\<lparr>tk = TK_STRING, seminfo = StrInfo [CHR ''a'', CHR 0x5C, CHR 0x0A, NUL]\<rparr>, ls') \<and>
    stream ls' = '' end'' \<and> linenumber ls' = linenumber (lex_start (addquoted [CHR ''a'', CHR 0x5C, CHR 0x0A, NUL] @ '' end'')) + int (count_list [CHR ''a'', CHR 0x5C, CHR 0x0A, NUL] (CHR 0x0A))"
  by (rule quoted_string_token [OF lex_start_inv(1)])
    (simp_all add: lex_start_def luaX_setinput_def lex_next_def stream_def addquoted_def)

section \<open>Zero bytes\<close>

lemma check_next_zero:
  assumes "lex_inv ls" "length (buff ls) < 2 ^ 62" "stream ls = NUL # cs"
  shows "\<exists>ls'. check_next ls st = ROk (True, ls') \<and> lex_inv ls' \<and> stream ls' = cs \<and> length (buff ls') = length (buff ls) + 1"
  using save_and_next_eq [OF assms] stream_next [OF assms(3)] by (auto simp: check_next_def)

text \<open>
  C40: A zero byte after a dot is taken for a second dot: \<open>strchr\<close> in \<open>check_next\<close> finds the zero that ends
  the set, so the two characters are read as the concatenation operator.
\<close>

theorem zero_after_dot_is_concat:
  assumes "lex_inv ls" "stream ls = CHR ''.'' # NUL # c # rest" "c \<noteq> CHR ''.''" "c \<noteq> NUL"
  shows "\<exists>ls'. llex str2d point ls = ROk (\<lparr>tk = TK_CONCAT, seminfo = NoInfo\<rparr>, ls') \<and> stream ls' = c # rest"
proof -
  define ls0 where "ls0 = ls\<lparr>buff := []\<rparr>"
  have ls0: "lex_inv ls0" "length (buff ls0) < 2 ^ 62" "stream ls0 = CHR ''.'' # NUL # c # rest" "buff ls0 = []"
    using assms(1,2) by (simp_all add: ls0_def lex_inv_def)
  obtain ls1 where l1: "save_and_next ls0 = ROk ls1" "lex_inv ls1" "stream ls1 = NUL # c # rest" "buff ls1 = [CHR ''.'']"
    using save_and_next_eq [OF ls0(1,2,3)] ls0(4) by auto
  obtain ls2 where l2: "check_next ls1 {CHR ''.''} = ROk (True, ls2)" "stream ls2 = c # rest"
    using check_next_zero [OF l1(2) _ l1(3)] l1(4) by auto
  have "check_next ls2 {CHR ''.''} = ROk (False, ls2)" using stream_next [OF l2(2)] assms(3,4) by (simp add: check_next_def)
  then show ?thesis using l1(1) l2 stream_next [OF ls0(3)]
    by (simp add: llex_def ls0_def [symmetric] llex_loop.simps [of _ _ ls0] read_dots_def)
qed

theorem zero_after_dot_is_concat_witness:
  "\<exists>ls'. llex (\<lambda>_. None) (CHR ''.'') (lex_start (CHR ''.'' # NUL # CHR ''x'' # [])) =
      ROk (\<lparr>tk = TK_CONCAT, seminfo = NoInfo\<rparr>, ls') \<and> stream ls' = CHR ''x'' # []"
  by (rule zero_after_dot_is_concat [OF lex_start_inv(1)])
    (simp_all add: lex_start_def luaX_setinput_def lex_next_def stream_def)

end
