(* ===== verification/LGc.thy ===== *)
theory LGc
  imports LString
begin

text \<open>
  The garbage collector (\<open>src/lua/lgc.c\<close>, \<open>lgc.h\<close>), with the closures and upvalues of
  \<open>src/lua/lfunc.c\<close> and the tag-method lookup of \<open>ltm.c\<close> it uses. Here every collectable object has an
  address in a heap, and a value refers to it by that address.

  The lists that the C code threads through the objects (\<open>next\<close> from \<open>rootgc\<close>, \<open>gclist\<close> from \<open>gray\<close>,
  \<open>grayagain\<close> and \<open>weak\<close>, \<open>next\<close> of an open upvalue from its thread, the doubly linked list of all open
  upvalues from \<open>uvhead\<close>, the circular \<open>tmudata\<close>) are lists of addresses, first element first. A position
  in the \<open>rootgc\<close> list (\<open>sweepgc\<close>, a pointer to a link) is the number of elements before it. A pointer into
  the stack of a thread is the index of the slot. Following a pointer to no object changes nothing; the
  invariant of \<open>LGcMark\<close> excludes it.
\<close>

section \<open>Objects\<close>

type_synonym gaddr = nat

text \<open>A value as the collector sees it: nil, another value without an object, a reference, or a key
  whose entry was removed.\<close>

datatype gvalue = GNil | GPlain u64 | GObj gaddr | GDeadKey gaddr

fun gc_value :: "gvalue \<Rightarrow> gaddr option" where
  "gc_value (GObj a) = Some a"
| "gc_value (GDeadKey a) = Some a"
| "gc_value _ = None"

record gtable =
  h_flags :: byte
  h_metatable :: "gaddr option"
  h_array :: "gvalue list"
  h_node :: "(gvalue \<times> gvalue) list"

text \<open>A thread: \<open>th_ci_tops\<close> has the tops of the calls from \<open>base_ci\<close> to \<open>ci\<close>.\<close>

record gthread =
  th_gt :: gvalue
  th_stack :: "gvalue list"
  th_top :: nat
  th_ci_tops :: "nat list"
  th_size_ci :: nat
  th_openupval :: "gaddr list"

record gproto =
  pr_source :: "gaddr option"
  pr_k :: "gvalue list"
  pr_upvalues :: "gaddr option list"
  pr_p :: "gaddr option list"
  pr_locvars :: "gaddr option list"
  pr_sizecode :: nat
  pr_sizelineinfo :: nat

text \<open>An upvalue is open, living in a stack slot of a thread, or closed, with a value of its own.\<close>

datatype UpVal = Closed gvalue | Open gaddr nat

datatype gcbody =
    GString string
  | GUdata "gaddr option" gaddr nat
  | GUpval UpVal
  | GCClosure gaddr "gvalue list"
  | GLClosure gaddr gaddr "gaddr option list"
  | GTable gtable
  | GThread gthread
  | GProto gproto

record gcobj =
  gc_marked :: byte
  gc_body :: gcbody

datatype gcphase = GCSpause | GCSpropagate | GCSsweepstring | GCSsweep | GCSfinalize

record global_State =
  heap :: "gcobj option list"
  strt :: "gaddr list list"
  strt_nuse :: u32
  currentwhite :: byte
  gcstate :: gcphase
  sweepstrgc :: nat
  rootgc :: "gaddr list"
  sweepgc :: nat
  gray :: "gaddr list"
  grayagain :: "gaddr list"
  weak :: "gaddr list"
  tmudata :: "gaddr list"
  buffsize :: nat
  GCthreshold :: u64
  totalbytes :: u64
  estimate :: u64
  gcdept :: u64
  gcpause :: u64
  gcstepmul :: u64
  registry :: gvalue
  mainthread :: gaddr
  uvhead :: "gaddr list"
  basic_mt :: "gaddr option list"
  tmname :: "gaddr list"

text \<open>Reading and writing the heap.\<close>

definition gobj :: "global_State \<Rightarrow> gaddr \<Rightarrow> gcobj option" where
  "gobj g a = (if a < length (heap g) then heap g ! a else None)"

definition gbody :: "global_State \<Rightarrow> gaddr \<Rightarrow> gcbody option" where
  "gbody g a = map_option gc_body (gobj g a)"

definition gput :: "gaddr \<Rightarrow> gcobj option \<Rightarrow> global_State \<Rightarrow> global_State" where
  "gput a x g = g\<lparr>heap := (heap g)[a := x]\<rparr>"

definition set_marked :: "(byte \<Rightarrow> byte) \<Rightarrow> gaddr \<Rightarrow> global_State \<Rightarrow> global_State" where
  "set_marked f a g = gput a (map_option (gc_marked_update f) (gobj g a)) g"

definition set_body :: "gcbody \<Rightarrow> gaddr \<Rightarrow> global_State \<Rightarrow> global_State" where
  "set_body b a g = gput a (map_option (gc_body_update (\<lambda>_. b)) (gobj g a)) g"

definition at_marked :: "global_State \<Rightarrow> (byte \<Rightarrow> bool) \<Rightarrow> gaddr \<Rightarrow> bool" where
  "at_marked g P a = (case gobj g a of None \<Rightarrow> False | Some x \<Rightarrow> P (gc_marked x))"

section \<open>Colours\<close>

abbreviation (input) BLACKBIT :: nat where "BLACKBIT \<equiv> 2"
abbreviation (input) FINALIZEDBIT :: nat where "FINALIZEDBIT \<equiv> 3"
abbreviation (input) KEYWEAKBIT :: nat where "KEYWEAKBIT \<equiv> 3"
abbreviation (input) VALUEWEAKBIT :: nat where "VALUEWEAKBIT \<equiv> 4"
abbreviation (input) FIXEDBIT :: nat where "FIXEDBIT \<equiv> 5"
abbreviation (input) SFIXEDBIT :: nat where "SFIXEDBIT \<equiv> 6"

definition iswhite :: "byte \<Rightarrow> bool" where "iswhite m \<longleftrightarrow> m AND WHITEBITS \<noteq> 0"
definition isblack :: "byte \<Rightarrow> bool" where "isblack m \<longleftrightarrow> bit m BLACKBIT"
definition isgray :: "byte \<Rightarrow> bool" where "isgray m \<longleftrightarrow> \<not> isblack m \<and> \<not> iswhite m"

definition white2gray :: "byte \<Rightarrow> byte" where "white2gray m = m AND NOT WHITEBITS"
definition gray2black :: "byte \<Rightarrow> byte" where "gray2black m = set_bit BLACKBIT m"
definition black2gray :: "byte \<Rightarrow> byte" where "black2gray m = unset_bit BLACKBIT m"
definition isfinalized :: "byte \<Rightarrow> bool" where "isfinalized m \<longleftrightarrow> bit m FINALIZEDBIT"
definition markfinalized :: "byte \<Rightarrow> byte" where "markfinalized m = set_bit FINALIZEDBIT m"

definition otherwhite :: "global_State \<Rightarrow> byte" where
  "otherwhite g = currentwhite g XOR WHITEBITS"

definition luaC_white :: "global_State \<Rightarrow> byte" where
  "luaC_white g = currentwhite g AND WHITEBITS"

definition makewhite :: "global_State \<Rightarrow> byte \<Rightarrow> byte" where
  "makewhite g m = (m AND NOT (4 OR WHITEBITS)) OR luaC_white g"

definition gc_isdead :: "global_State \<Rightarrow> gaddr \<Rightarrow> bool" where
  "gc_isdead g a = at_marked g (isdead (currentwhite g)) a"

section \<open>Marking\<close>

text \<open>The value an upvalue stands for, \<open>*uv->v\<close>.\<close>

fun upval_value :: "global_State \<Rightarrow> UpVal \<Rightarrow> gvalue" where
  "upval_value g (Closed v) = v"
| "upval_value g (Open th i) =
     (case gbody g th of
        Some (GThread t) \<Rightarrow> (if i < length (th_stack t) then th_stack t ! i else GNil)
      | _ \<Rightarrow> GNil)"

fun is_open :: "UpVal \<Rightarrow> bool" where
  "is_open (Open _ _) = True"
| "is_open (Closed _) = False"

text \<open>\<open>reallymarkobject\<close>. The first argument bounds the nesting of the C calls. An upvalue marks its value,
  a userdata its metatable and environment, and every other object is only linked, so three levels are
  enough.\<close>

primrec reallymark :: "nat \<Rightarrow> gaddr \<Rightarrow> global_State \<Rightarrow> global_State" where
  "reallymark 0 o' g = g"
| "reallymark (Suc n) o' g =
     (let markobject = (\<lambda>t g. if at_marked g iswhite t then reallymark n t g else g);
          g1 = set_marked white2gray o' g
      in case gbody g1 o' of
           None \<Rightarrow> g1
         | Some (GString _) \<Rightarrow> g1
         | Some (GUdata mt env _) \<Rightarrow>
             (let g2 = set_marked gray2black o' g1;
                  g3 = (case mt of None \<Rightarrow> g2 | Some m \<Rightarrow> markobject m g2)
              in markobject env g3)
         | Some (GUpval uv) \<Rightarrow>
             (let g2 = (case gc_value (upval_value g1 uv) of None \<Rightarrow> g1 | Some v \<Rightarrow> markobject v g1)
              in if is_open uv then g2 else set_marked gray2black o' g2)
         | Some _ \<Rightarrow> g1\<lparr>gray := o' # gray g1\<rparr>)"

abbreviation (input) mark_depth :: nat where "mark_depth \<equiv> 3"

definition reallymarkobject :: "gaddr \<Rightarrow> global_State \<Rightarrow> global_State" where
  "reallymarkobject = reallymark mark_depth"

definition markobject :: "gaddr \<Rightarrow> global_State \<Rightarrow> global_State" where
  "markobject t g = (if at_marked g iswhite t then reallymarkobject t g else g)"

definition markvalue :: "gvalue \<Rightarrow> global_State \<Rightarrow> global_State" where
  "markvalue v g = (case gc_value v of None \<Rightarrow> g | Some a \<Rightarrow> markobject a g)"

definition mark_opt :: "gaddr option \<Rightarrow> global_State \<Rightarrow> global_State" where
  "mark_opt t g = (case t of None \<Rightarrow> g | Some a \<Rightarrow> markobject a g)"

definition stringmark :: "gaddr option \<Rightarrow> global_State \<Rightarrow> global_State" where
  "stringmark s g = (case s of None \<Rightarrow> g | Some a \<Rightarrow> set_marked white2gray a g)"

section \<open>Tag methods\<close>

abbreviation (input) TM_GC :: nat where "TM_GC \<equiv> 2"
abbreviation (input) TM_MODE :: nat where "TM_MODE \<equiv> 3"

text \<open>The value of a string key in the hash part (the search itself is in \<open>LTable\<close>).\<close>

definition getstr :: "gtable \<Rightarrow> gaddr \<Rightarrow> gvalue" where
  "getstr h name = (case find (\<lambda>(k, v). k = GObj name) (h_node h) of None \<Rightarrow> GNil | Some (k, v) \<Rightarrow> v)"

definition luaT_gettm ::
  "gaddr \<Rightarrow> nat \<Rightarrow> gaddr \<Rightarrow> global_State \<Rightarrow> gvalue option \<times> global_State" where
  "luaT_gettm events event ename g =
     (case gbody g events of
        Some (GTable h) \<Rightarrow>
          (let tm = getstr h ename in
           if tm = GNil
           then (None, set_body (GTable (h\<lparr>h_flags := set_bit event (h_flags h)\<rparr>)) events g)
           else (Some tm, g))
      | _ \<Rightarrow> (None, g))"

definition gfasttm :: "gaddr option \<Rightarrow> nat \<Rightarrow> global_State \<Rightarrow> gvalue option \<times> global_State" where
  "gfasttm et e g =
     (case et of
        None \<Rightarrow> (None, g)
      | Some a \<Rightarrow>
          (case gbody g a of
             Some (GTable h) \<Rightarrow>
               (if bit (h_flags h) e then (None, g) else luaT_gettm a e (tmname g ! e) g)
           | _ \<Rightarrow> (None, g)))"

section \<open>Traversing objects\<close>

definition removeentry :: "gvalue \<times> gvalue \<Rightarrow> gvalue \<times> gvalue" where
  "removeentry n = (case gc_value (fst n) of None \<Rightarrow> n | Some a \<Rightarrow> (GDeadKey a, snd n))"

text \<open>The weak mode of a table, read from its metatable: weak keys and weak values.\<close>

definition weak_mode :: "gvalue option \<Rightarrow> global_State \<Rightarrow> bool \<times> bool" where
  "weak_mode mode g =
     (case mode of
        Some (GObj s) \<Rightarrow>
          (case gbody g s of
             Some (GString str) \<Rightarrow> (CHR ''k'' \<in> set str, CHR ''v'' \<in> set str)
           | _ \<Rightarrow> (False, False))
      | _ \<Rightarrow> (False, False))"

definition set_weak_bits :: "bool \<Rightarrow> bool \<Rightarrow> byte \<Rightarrow> byte" where
  "set_weak_bits wk wv m =
     unset_bit KEYWEAKBIT (unset_bit VALUEWEAKBIT m)
       OR push_bit KEYWEAKBIT (of_bool wk) OR push_bit VALUEWEAKBIT (of_bool wv)"

text \<open>One node of a table that is not empty.\<close>

definition mark_node :: "bool \<Rightarrow> bool \<Rightarrow> gvalue \<times> gvalue \<Rightarrow> global_State \<Rightarrow> global_State" where
  "mark_node wk wv n g =
     (if snd n = GNil then g
      else let g1 = (if wk then g else markvalue (fst n) g)
           in if wv then g1 else markvalue (snd n) g1)"

definition clean_nodes :: "gaddr \<Rightarrow> global_State \<Rightarrow> global_State" where
  "clean_nodes a g =
     (case gbody g a of
        Some (GTable h) \<Rightarrow>
          set_body (GTable (h\<lparr>h_node := map (\<lambda>n. if snd n = GNil then removeentry n else n) (h_node h)\<rparr>)) a g
      | _ \<Rightarrow> g)"

text \<open>\<open>traversetable\<close>: arrays and nodes are visited from the last to the first. Marking writes no node and
  removing an empty entry no mark, so the nodes are cleaned in one go.\<close>

definition traversetable :: "gaddr \<Rightarrow> global_State \<Rightarrow> bool \<times> global_State" where
  "traversetable a g =
     (case gbody g a of
        Some (GTable h) \<Rightarrow>
          (let g1 = mark_opt (h_metatable h) g;
               (mode, g2) = gfasttm (h_metatable h) TM_MODE g1;
               (wk, wv) = weak_mode mode g2;
               g3 = (if wk \<or> wv
                     then (set_marked (set_weak_bits wk wv) a g2)\<lparr>weak := a # weak g2\<rparr>
                     else g2)
           in if wk \<and> wv then (True, g3)
              else
                let g4 = (if wv then g3 else fold markvalue (rev (h_array h)) g3);
                    g5 = fold (mark_node wk wv) (rev (h_node h)) g4
                in (wk \<or> wv, clean_nodes a g5))
      | _ \<Rightarrow> (False, g))"

definition traverseproto :: "gproto \<Rightarrow> global_State \<Rightarrow> global_State" where
  "traverseproto f g =
     (let g1 = stringmark (pr_source f) g;
          g2 = fold markvalue (pr_k f) g1;
          g3 = fold stringmark (pr_upvalues f) g2;
          g4 = fold mark_opt (pr_p f) g3
      in fold stringmark (pr_locvars f) g4)"

definition traverseCclosure :: "gaddr \<Rightarrow> gvalue list \<Rightarrow> global_State \<Rightarrow> global_State" where
  "traverseCclosure env upvals g = fold markvalue upvals (markobject env g)"

definition traverseLclosure :: "gaddr \<Rightarrow> gaddr \<Rightarrow> gaddr option list \<Rightarrow> global_State \<Rightarrow> global_State" where
  "traverseLclosure env p upvals g = fold mark_opt upvals (markobject p (markobject env g))"

abbreviation (input) LUAI_MAXCALLS :: nat where "LUAI_MAXCALLS \<equiv> 20000"
abbreviation (input) BASIC_CI_SIZE :: nat where "BASIC_CI_SIZE \<equiv> 8"
abbreviation (input) BASIC_STACK_SIZE :: nat where "BASIC_STACK_SIZE \<equiv> 40"
abbreviation (input) EXTRA_STACK :: nat where "EXTRA_STACK \<equiv> 5"

text \<open>Sizes of the C structures on the target.\<close>

abbreviation (input) sizeof_TValue :: nat where "sizeof_TValue \<equiv> 16"
abbreviation (input) sizeof_Node :: nat where "sizeof_Node \<equiv> 40"
abbreviation (input) sizeof_Table :: nat where "sizeof_Table \<equiv> 64"
abbreviation (input) sizeof_Proto :: nat where "sizeof_Proto \<equiv> 120"
abbreviation (input) sizeof_UpVal :: nat where "sizeof_UpVal \<equiv> 40"
abbreviation (input) sizeof_Udata :: nat where "sizeof_Udata \<equiv> 40"
abbreviation (input) sizeof_lua_State :: nat where "sizeof_lua_State \<equiv> 184"
abbreviation (input) sizeof_CallInfo :: nat where "sizeof_CallInfo \<equiv> 40"
abbreviation (input) sizeof_LocVar :: nat where "sizeof_LocVar \<equiv> 16"
abbreviation (input) sizeof_pointer :: nat where "sizeof_pointer \<equiv> 8"

definition sizeCclosure :: "nat \<Rightarrow> u64" where "sizeCclosure n = 56 + 16 * (of_nat n - 1)"
definition sizeLclosure :: "nat \<Rightarrow> u64" where "sizeLclosure n = 48 + 8 * (of_nat n - 1)"

definition set_thread :: "gaddr \<Rightarrow> gthread \<Rightarrow> global_State \<Rightarrow> global_State" where
  "set_thread a t g = set_body (GThread t) a g"

text \<open>\<open>luaM_reallocvector\<close> on the elements: the common prefix is kept.\<close>

definition resize_list :: "nat \<Rightarrow> 'a \<Rightarrow> 'a list \<Rightarrow> 'a list" where
  "resize_list n d xs = take n xs @ replicate (n - length xs) d"

definition luaD_reallocCI :: "gaddr \<Rightarrow> gthread \<Rightarrow> nat \<Rightarrow> global_State \<Rightarrow> gthread \<times> global_State" where
  "luaD_reallocCI a t newsize g =
     (let t' = t\<lparr>th_size_ci := newsize\<rparr>
      in (t', set_thread a t' (g\<lparr>totalbytes :=
             totalbytes g - of_nat (th_size_ci t * sizeof_CallInfo) + of_nat (newsize * sizeof_CallInfo)\<rparr>)))"

definition luaD_reallocstack :: "gaddr \<Rightarrow> gthread \<Rightarrow> nat \<Rightarrow> global_State \<Rightarrow> gthread \<times> global_State" where
  "luaD_reallocstack a t newsize g =
     (let realsize = newsize + 1 + EXTRA_STACK;
          t' = t\<lparr>th_stack := resize_list realsize GNil (th_stack t)\<rparr>
      in (t', set_thread a t' (g\<lparr>totalbytes :=
             totalbytes g - of_nat (length (th_stack t) * sizeof_TValue) + of_nat (realsize * sizeof_TValue)\<rparr>)))"

definition checkstacksizes :: "gaddr \<Rightarrow> gthread \<Rightarrow> nat \<Rightarrow> global_State \<Rightarrow> global_State" where
  "checkstacksizes a t s_used g =
     (let ci_used = length (th_ci_tops t) - 1 in
      if th_size_ci t > LUAI_MAXCALLS then g
      else
        let (t1, g1) = (if 4 * ci_used < th_size_ci t \<and> 2 * BASIC_CI_SIZE < th_size_ci t
                        then luaD_reallocCI a t (th_size_ci t div 2) g else (t, g))
        in if 4 * s_used < length (th_stack t1) \<and> 2 * (BASIC_STACK_SIZE + EXTRA_STACK) < length (th_stack t1)
           then snd (luaD_reallocstack a t1 (length (th_stack t1) div 2) g1) else g1)"

definition set_nil_slots :: "nat \<Rightarrow> nat \<Rightarrow> gvalue list \<Rightarrow> gvalue list" where
  "set_nil_slots lo hi st = fold (\<lambda>i st. st[i := GNil]) [lo..<hi + 1] st"

definition traversestack :: "gaddr \<Rightarrow> gthread \<Rightarrow> global_State \<Rightarrow> global_State" where
  "traversestack a t g =
     (let g1 = markvalue (th_gt t) g;
          lim = fold max (th_ci_tops t) (th_top t);
          g2 = fold markvalue (take (th_top t) (th_stack t)) g1;
          t' = t\<lparr>th_stack := set_nil_slots (th_top t) lim (th_stack t)\<rparr>
      in checkstacksizes a t' lim (set_thread a t' g2))"

text \<open>An empty hash part is one shared dummy node.\<close>

definition sizenode_of :: "gtable \<Rightarrow> nat" where
  "sizenode_of h = max 1 (length (h_node h))"

text \<open>\<open>propagatemark\<close> returns the size of the object it traversed.\<close>

definition proto_size :: "gproto \<Rightarrow> nat" where
  "proto_size p = sizeof_Proto + 4 * pr_sizecode p + sizeof_pointer * length (pr_p p)
     + sizeof_TValue * length (pr_k p) + 4 * pr_sizelineinfo p
     + sizeof_LocVar * length (pr_locvars p) + sizeof_pointer * length (pr_upvalues p)"

definition propagatemark :: "global_State \<Rightarrow> u64 \<times> global_State" where
  "propagatemark g =
     (case gray g of
        [] \<Rightarrow> (0, g)
      | o' # rest \<Rightarrow>
          (let g1 = set_marked gray2black o' g in
           case gbody g1 o' of
             Some (GTable h) \<Rightarrow>
               (let (isweak, g2) = traversetable o' (g1\<lparr>gray := rest\<rparr>)
                in (of_nat (sizeof_Table + sizeof_TValue * length (h_array h) + sizeof_Node * sizenode_of h),
                    if isweak then set_marked black2gray o' g2 else g2))
           | Some (GCClosure env upvals) \<Rightarrow>
               (sizeCclosure (length upvals), traverseCclosure env upvals (g1\<lparr>gray := rest\<rparr>))
           | Some (GLClosure env p upvals) \<Rightarrow>
               (sizeLclosure (length upvals), traverseLclosure env p upvals (g1\<lparr>gray := rest\<rparr>))
           | Some (GThread t) \<Rightarrow>
               (let g2 = set_marked black2gray o' (g1\<lparr>gray := rest, grayagain := o' # grayagain g1\<rparr>);
                    g3 = traversestack o' t g2
                in ((case gbody g3 o' of
                       Some (GThread t') \<Rightarrow>
                         of_nat (sizeof_lua_State + sizeof_TValue * length (th_stack t')
                                   + sizeof_CallInfo * th_size_ci t')
                     | _ \<Rightarrow> 0), g3))
           | Some (GProto p) \<Rightarrow> (of_nat (proto_size p), traverseproto p (g1\<lparr>gray := rest\<rparr>))
           | _ \<Rightarrow> (0, g1)))"

text \<open>The loop ends when the list of gray objects is empty; on an ill-formed list it does not.\<close>

partial_function (option) propagateall :: "u64 \<Rightarrow> global_State \<Rightarrow> (u64 \<times> global_State) option" where
  "propagateall m g =
     (if gray g = [] then Some (m, g)
      else (let (n, g') = propagatemark g in propagateall (m + n) g'))"

declare propagateall.simps [code]

section \<open>Allocation, closures and upvalues\<close>

definition galloc :: "gaddr \<Rightarrow> gcobj \<Rightarrow> global_State \<Rightarrow> global_State" where
  "galloc a x g =
     g\<lparr>heap := (if a < length (heap g) then (heap g)[a := Some x]
               else heap g @ replicate (a - length (heap g)) None @ [Some x])\<rparr>"

text \<open>Linking an object at the front of \<open>rootgc\<close>: a sweep that has not started yet stays at the front.\<close>

definition link_root :: "gaddr \<Rightarrow> global_State \<Rightarrow> global_State" where
  "link_root a g = g\<lparr>rootgc := a # rootgc g, sweepgc := (if sweepgc g = 0 then 0 else sweepgc g + 1)\<rparr>"

text \<open>\<open>luaC_link\<close> of a new object at address \<open>a\<close>, which the allocator returned.\<close>

definition luaC_link :: "gaddr \<Rightarrow> gcbody \<Rightarrow> global_State \<Rightarrow> global_State" where
  "luaC_link a b g = link_root a (galloc a \<lparr>gc_marked = luaC_white g, gc_body = b\<rparr> g)"

definition obj_size :: "gcbody \<Rightarrow> u64" where
  "obj_size b =
     (case b of
        GString s \<Rightarrow> of_nat (sizeof_TString + length s + 1)
      | GUdata _ _ len \<Rightarrow> of_nat (sizeof_Udata + len)
      | GUpval _ \<Rightarrow> of_nat sizeof_UpVal
      | GCClosure _ us \<Rightarrow> sizeCclosure (length us)
      | GLClosure _ _ us \<Rightarrow> sizeLclosure (length us)
      | GTable h \<Rightarrow> of_nat (sizeof_Table + sizeof_TValue * length (h_array h) + sizeof_Node * length (h_node h))
      | GThread t \<Rightarrow> of_nat (sizeof_lua_State + sizeof_TValue * length (th_stack t)
                                + sizeof_CallInfo * th_size_ci t)
      | GProto p \<Rightarrow> of_nat (proto_size p))"

definition luaM_new :: "u64 \<Rightarrow> global_State \<Rightarrow> global_State" where
  "luaM_new n g = g\<lparr>totalbytes := totalbytes g + n\<rparr>"

definition luaF_newCclosure :: "gaddr \<Rightarrow> nat \<Rightarrow> gaddr \<Rightarrow> global_State \<Rightarrow> global_State" where
  "luaF_newCclosure a nelems e g =
     (let b = GCClosure e (replicate nelems GNil) in luaC_link a b (luaM_new (sizeCclosure nelems) g))"

definition luaF_newLclosure :: "gaddr \<Rightarrow> nat \<Rightarrow> gaddr \<Rightarrow> gaddr \<Rightarrow> global_State \<Rightarrow> global_State" where
  "luaF_newLclosure a nelems e p g =
     luaC_link a (GLClosure e p (replicate nelems None)) (luaM_new (sizeLclosure nelems) g)"

definition luaF_newupval :: "gaddr \<Rightarrow> global_State \<Rightarrow> global_State" where
  "luaF_newupval a g = luaC_link a (GUpval (Closed GNil)) (luaM_new (of_nat sizeof_UpVal) g)"

definition luaF_newproto :: "gaddr \<Rightarrow> global_State \<Rightarrow> global_State" where
  "luaF_newproto a g =
     luaC_link a (GProto \<lparr>pr_source = None, pr_k = [], pr_upvalues = [], pr_p = [], pr_locvars = [],
                          pr_sizecode = 0, pr_sizelineinfo = 0\<rparr>) (luaM_new (of_nat sizeof_Proto) g)"

text \<open>The stack slot of an open upvalue, and the threads' lists of open upvalues, by decreasing slot.\<close>

definition upval_slot :: "global_State \<Rightarrow> gaddr \<Rightarrow> nat" where
  "upval_slot g a = (case gbody g a of Some (GUpval (Open th i)) \<Rightarrow> i | _ \<Rightarrow> 0)"

definition openupvals :: "global_State \<Rightarrow> gaddr \<Rightarrow> gaddr list" where
  "openupvals g th = (case gbody g th of Some (GThread t) \<Rightarrow> th_openupval t | _ \<Rightarrow> [])"

definition set_openupvals :: "gaddr list \<Rightarrow> gaddr \<Rightarrow> global_State \<Rightarrow> global_State" where
  "set_openupvals us th g =
     (case gbody g th of Some (GThread t) \<Rightarrow> set_thread th (t\<lparr>th_openupval := us\<rparr>) g | _ \<Rightarrow> g)"

text \<open>The loop of \<open>luaF_findupval\<close>: the upvalue found, or the list with the new one in its place.\<close>

fun upval_search :: "(gaddr \<Rightarrow> nat) \<Rightarrow> nat \<Rightarrow> gaddr \<Rightarrow> gaddr list \<Rightarrow> gaddr option \<times> gaddr list" where
  "upval_search slot level new [] = (None, [new])"
| "upval_search slot level new (p # ps) =
     (if level \<le> slot p then
        if slot p = level then (Some p, p # ps)
        else (let (r, ps') = upval_search slot level new ps in (r, p # ps'))
      else (None, new # p # ps))"

definition luaF_findupval :: "gaddr \<Rightarrow> nat \<Rightarrow> gaddr \<Rightarrow> global_State \<Rightarrow> gaddr \<times> global_State" where
  "luaF_findupval L level new g =
     (case upval_search (upval_slot g) level new (openupvals g L) of
        (Some p, _) \<Rightarrow> (p, if gc_isdead g p then set_marked changewhite p g else g)
      | (None, us) \<Rightarrow>
          (new, set_openupvals us L
                  (galloc new \<lparr>gc_marked = luaC_white g, gc_body = GUpval (Open L level)\<rparr>
                    ((luaM_new (of_nat sizeof_UpVal) g)\<lparr>uvhead := new # uvhead g\<rparr>))))"

definition unlinkupval :: "gaddr \<Rightarrow> global_State \<Rightarrow> global_State" where
  "unlinkupval uv g = g\<lparr>uvhead := remove1 uv (uvhead g)\<rparr>"

definition free_mem :: "gaddr \<Rightarrow> global_State \<Rightarrow> global_State" where
  "free_mem a g =
     (case gbody g a of
        None \<Rightarrow> g
      | Some b \<Rightarrow> gput a None (g\<lparr>totalbytes := totalbytes g - obj_size b\<rparr>))"

definition luaF_freeupval :: "gaddr \<Rightarrow> global_State \<Rightarrow> global_State" where
  "luaF_freeupval uv g =
     (case gbody g uv of
        Some (GUpval u) \<Rightarrow> free_mem uv (if is_open u then unlinkupval uv g else g)
      | _ \<Rightarrow> g)"

section \<open>Write barriers\<close>

definition luaC_barrierf :: "gaddr \<Rightarrow> gaddr \<Rightarrow> global_State \<Rightarrow> global_State" where
  "luaC_barrierf o' v g =
     (if gcstate g = GCSpropagate then reallymarkobject v g else set_marked (makewhite g) o' g)"

definition luaC_barrierback :: "gaddr \<Rightarrow> global_State \<Rightarrow> global_State" where
  "luaC_barrierback t g = (set_marked black2gray t g)\<lparr>grayagain := t # grayagain g\<rparr>"

definition luaC_objbarrier :: "gaddr \<Rightarrow> gaddr \<Rightarrow> global_State \<Rightarrow> global_State" where
  "luaC_objbarrier p o' g =
     (if at_marked g iswhite o' \<and> at_marked g isblack p then luaC_barrierf p o' g else g)"

definition luaC_objbarriert :: "gaddr \<Rightarrow> gaddr \<Rightarrow> global_State \<Rightarrow> global_State" where
  "luaC_objbarriert t o' g =
     (if at_marked g iswhite o' \<and> at_marked g isblack t then luaC_barrierback t g else g)"

definition luaC_barrier :: "gaddr \<Rightarrow> gvalue \<Rightarrow> global_State \<Rightarrow> global_State" where
  "luaC_barrier p v g = (case gc_value v of None \<Rightarrow> g | Some a \<Rightarrow> luaC_objbarrier p a g)"

definition luaC_barriert :: "gaddr \<Rightarrow> gvalue \<Rightarrow> global_State \<Rightarrow> global_State" where
  "luaC_barriert t v g = (case gc_value v of None \<Rightarrow> g | Some a \<Rightarrow> luaC_objbarriert t a g)"

definition luaC_linkupval :: "gaddr \<Rightarrow> global_State \<Rightarrow> global_State" where
  "luaC_linkupval uv g =
     (let g1 = link_root uv g in
      if at_marked g1 isgray uv then
        if gcstate g1 = GCSpropagate then
          (let g2 = set_marked gray2black uv g1 in
           case gbody g2 uv of
             Some (GUpval u) \<Rightarrow> luaC_barrier uv (upval_value g2 u) g2
           | _ \<Rightarrow> g2)
        else set_marked (makewhite g1) uv g1
      else g1)"

text \<open>One round of \<open>luaF_close\<close> on the first open upvalue, and the loop down to \<open>level\<close>.\<close>

definition close_upval :: "gaddr \<Rightarrow> gaddr \<Rightarrow> gaddr list \<Rightarrow> global_State \<Rightarrow> global_State" where
  "close_upval L uv rest g =
     (let g1 = set_openupvals rest L g in
      if gc_isdead g1 uv then luaF_freeupval uv g1
      else
        case gbody g1 uv of
          Some (GUpval u) \<Rightarrow>
            luaC_linkupval uv (set_body (GUpval (Closed (upval_value g1 u))) uv (unlinkupval uv g1))
        | _ \<Rightarrow> g1)"

fun close_upvals :: "gaddr \<Rightarrow> nat \<Rightarrow> gaddr list \<Rightarrow> global_State \<Rightarrow> global_State" where
  "close_upvals L level [] g = g"
| "close_upvals L level (uv # rest) g =
     (if level \<le> upval_slot g uv then close_upvals L level rest (close_upval L uv rest g) else g)"

definition luaF_close :: "gaddr \<Rightarrow> nat \<Rightarrow> global_State \<Rightarrow> global_State" where
  "luaF_close L level g = close_upvals L level (openupvals g L) g"

fun getlocalname :: "LocVar list \<Rightarrow> int \<Rightarrow> int \<Rightarrow> string option" where
  "getlocalname [] local_number pc = None"
| "getlocalname (v # vs) local_number pc =
     (if startpc v \<le> pc then
        if pc < endpc v then
          if local_number - 1 = 0 then varname v else getlocalname vs (local_number - 1) pc
        else getlocalname vs local_number pc
      else None)"

definition luaF_getlocalname :: "Proto \<Rightarrow> int \<Rightarrow> int \<Rightarrow> string option" where
  "luaF_getlocalname f = getlocalname (proto_locvars f)"

end
