(* ===== verification/LGcMark.thy ===== *)
theory LGcMark
  imports LGc
begin

text \<open>
  Marking. The references of an object, the typing of the heap, and the invariant of the collector: an
  object that is not white is in one of the collector's lists or refers to no white object. Marking an
  object and traversing one keep it.
\<close>

section \<open>The heap after a write\<close>

lemma gobj_gput [heap_simps]:
  "gobj (gput a x g) b = (if b = a \<and> a < length (heap g) then x else gobj g b)"
  by (simp add: gobj_def gput_def)

lemma gobj_set_marked [heap_simps]:
  "gobj (set_marked f a g) b = (if b = a then map_option (gc_marked_update f) (gobj g a) else gobj g b)"
  by (auto simp: set_marked_def gobj_gput) (simp_all add: gobj_def)

lemma gbody_set_marked [simp]: "gbody (set_marked f a g) b = gbody g b"
  by (simp add: gbody_def gobj_set_marked option.map_comp comp_def)

lemma gobj_set_body [heap_simps]:
  "gobj (set_body x a g) b = (if b = a then map_option (gc_body_update (\<lambda>_. x)) (gobj g a) else gobj g b)"
  by (auto simp: set_body_def gobj_gput) (simp_all add: gobj_def)

lemma gbody_set_body [heap_simps]:
  "gbody (set_body x a g) b = (if b = a then map_option (\<lambda>_. x) (gbody g a) else gbody g b)"
  by (simp add: gbody_def gobj_set_body option.map_comp comp_def)

lemma at_marked_set_marked [heap_simps]:
  "at_marked (set_marked f a g) P b = at_marked g (if b = a then \<lambda>m. P (f m) else P) b"
  by (simp add: at_marked_def gobj_set_marked split: option.splits)

lemma at_marked_set_body [simp]: "at_marked (set_body x a g) P b = at_marked g P b"
  by (simp add: at_marked_def gobj_set_body split: option.splits)

lemma gobj_fields [simp]:
  "gobj (g\<lparr>gray := l\<rparr>) = gobj g" "gobj (g\<lparr>grayagain := l\<rparr>) = gobj g" "gobj (g\<lparr>weak := l\<rparr>) = gobj g"
  "gobj (g\<lparr>tmudata := l\<rparr>) = gobj g" "gobj (g\<lparr>rootgc := l\<rparr>) = gobj g" "gobj (g\<lparr>uvhead := l\<rparr>) = gobj g"
  "gobj (g\<lparr>totalbytes := n\<rparr>) = gobj g" "gobj (g\<lparr>sweepgc := i\<rparr>) = gobj g" "gobj (g\<lparr>gcstate := s\<rparr>) = gobj g"
  by (simp_all add: gobj_def fun_eq_iff)

lemma gbody_fields [simp]:
  "gbody (g\<lparr>gray := l\<rparr>) = gbody g" "gbody (g\<lparr>grayagain := l\<rparr>) = gbody g" "gbody (g\<lparr>weak := l\<rparr>) = gbody g"
  "gbody (g\<lparr>tmudata := l\<rparr>) = gbody g" "gbody (g\<lparr>rootgc := l\<rparr>) = gbody g" "gbody (g\<lparr>uvhead := l\<rparr>) = gbody g"
  "gbody (g\<lparr>totalbytes := n\<rparr>) = gbody g" "gbody (g\<lparr>sweepgc := i\<rparr>) = gbody g" "gbody (g\<lparr>gcstate := s\<rparr>) = gbody g"
  by (simp_all add: gbody_def fun_eq_iff)

lemma at_marked_fields [simp]:
  "at_marked (g\<lparr>gray := l\<rparr>) = at_marked g" "at_marked (g\<lparr>grayagain := l\<rparr>) = at_marked g"
  "at_marked (g\<lparr>weak := l\<rparr>) = at_marked g" "at_marked (g\<lparr>tmudata := l\<rparr>) = at_marked g"
  "at_marked (g\<lparr>rootgc := l\<rparr>) = at_marked g" "at_marked (g\<lparr>uvhead := l\<rparr>) = at_marked g"
  "at_marked (g\<lparr>totalbytes := n\<rparr>) = at_marked g" "at_marked (g\<lparr>sweepgc := i\<rparr>) = at_marked g"
  "at_marked (g\<lparr>gcstate := s\<rparr>) = at_marked g"
  by (simp_all add: at_marked_def fun_eq_iff)

lemma gput_fields [simp]:
  "gray (gput a x g) = gray g" "grayagain (gput a x g) = grayagain g" "weak (gput a x g) = weak g"
  "tmudata (gput a x g) = tmudata g" "rootgc (gput a x g) = rootgc g" "uvhead (gput a x g) = uvhead g"
  "mainthread (gput a x g) = mainthread g" "registry (gput a x g) = registry g"
  "basic_mt (gput a x g) = basic_mt g" "tmname (gput a x g) = tmname g"
  "currentwhite (gput a x g) = currentwhite g" "gcstate (gput a x g) = gcstate g"
  "length (heap (gput a x g)) = length (heap g)" "strt (gput a x g) = strt g" "sweepgc (gput a x g) = sweepgc g"
  by (simp_all add: gput_def)

lemma set_marked_fields [simp]:
  "gray (set_marked f a g) = gray g" "grayagain (set_marked f a g) = grayagain g"
  "weak (set_marked f a g) = weak g" "tmudata (set_marked f a g) = tmudata g"
  "rootgc (set_marked f a g) = rootgc g" "uvhead (set_marked f a g) = uvhead g"
  "mainthread (set_marked f a g) = mainthread g" "registry (set_marked f a g) = registry g"
  "basic_mt (set_marked f a g) = basic_mt g" "tmname (set_marked f a g) = tmname g"
  "currentwhite (set_marked f a g) = currentwhite g" "gcstate (set_marked f a g) = gcstate g"
  "length (heap (set_marked f a g)) = length (heap g)" "strt (set_marked f a g) = strt g"
  "sweepgc (set_marked f a g) = sweepgc g"
  by (simp_all add: set_marked_def)

lemma set_body_fields [simp]:
  "gray (set_body b a g) = gray g" "grayagain (set_body b a g) = grayagain g"
  "weak (set_body b a g) = weak g" "tmudata (set_body b a g) = tmudata g"
  "rootgc (set_body b a g) = rootgc g" "uvhead (set_body b a g) = uvhead g"
  "mainthread (set_body b a g) = mainthread g" "registry (set_body b a g) = registry g"
  "basic_mt (set_body b a g) = basic_mt g" "tmname (set_body b a g) = tmname g"
  "currentwhite (set_body b a g) = currentwhite g" "gcstate (set_body b a g) = gcstate g"
  "length (heap (set_body b a g)) = length (heap g)" "strt (set_body b a g) = strt g"
  "sweepgc (set_body b a g) = sweepgc g"
  by (simp_all add: set_body_def)

section \<open>Colours as bits\<close>

lemma iswhite_bits: "iswhite m \<longleftrightarrow> bit m 0 \<or> bit m 1"
proof -
  have "iswhite m \<longleftrightarrow> (\<exists>n. bit (m AND 3) n)"
    unfolding iswhite_def by (metis bit_0_eq bot_apply bit_word_eqI bot_bool_def)
  also have "\<dots> \<longleftrightarrow> bit m 0 \<or> bit m 1"
  proof -
    have "bit (3::byte) n \<longleftrightarrow> n = 0 \<or> n = 1" for n
      by (cases n; cases "n - 1") (auto simp: bit_numeral_simps numeral_3_eq_3 bit_Suc)
    then show ?thesis by (auto simp: bit_and_iff)
  qed
  finally show ?thesis .
qed

lemma bit_WHITEBITS: "bit (3::byte) n \<longleftrightarrow> n = 0 \<or> n = 1"
  by (cases n; cases "n - 1") (auto simp: bit_numeral_simps numeral_3_eq_3 bit_Suc)

lemma bit_white2gray: "bit (white2gray m) n = (bit m n \<and> n \<noteq> 0 \<and> n \<noteq> 1)"
  unfolding white2gray_def bit_and_iff bit_not_iff bit_WHITEBITS by (auto dest: bit_imp_possible_bit)

lemma colour_simps [simp]:
  "\<not> iswhite (white2gray m)" "isblack (white2gray m) = isblack m"
  "iswhite (gray2black m) = iswhite m" "isblack (gray2black m)"
  "iswhite (black2gray m) = iswhite m" "\<not> isblack (black2gray m)"
  "iswhite (markfinalized m) = iswhite m" "isblack (markfinalized m) = isblack m"
  by (auto simp: iswhite_bits isblack_def white2gray_def gray2black_def black2gray_def markfinalized_def
      bit_and_iff bit_not_iff bit_or_iff bit_WHITEBITS bit_set_bit_iff bit_unset_bit_iff
      intro: bit_imp_possible_bit dest: bit_imp_possible_bit)

lemma bit_set_weak_bits:
  "bit (set_weak_bits wk wv m) n = (if n = KEYWEAKBIT then wk else if n = VALUEWEAKBIT then wv else bit m n)"
proof (cases "n < 8")
  case True
  then show ?thesis
    by (auto simp: set_weak_bits_def bit_or_iff bit_unset_bit_iff bit_push_bit_iff possible_bit_def bit_1_iff)
next
  case False
  then have "\<not> bit x n" for x :: byte
    using bit_imp_le_length [of x n] by auto
  moreover have "n \<noteq> KEYWEAKBIT" and "n \<noteq> VALUEWEAKBIT"
    using False by auto
  ultimately show ?thesis by simp
qed

lemma weak_bits_simps [simp]:
  "bit (white2gray m) KEYWEAKBIT = bit m KEYWEAKBIT" "bit (white2gray m) VALUEWEAKBIT = bit m VALUEWEAKBIT"
  "bit (gray2black m) KEYWEAKBIT = bit m KEYWEAKBIT" "bit (gray2black m) VALUEWEAKBIT = bit m VALUEWEAKBIT"
  "bit (black2gray m) KEYWEAKBIT = bit m KEYWEAKBIT" "bit (black2gray m) VALUEWEAKBIT = bit m VALUEWEAKBIT"
  "iswhite (set_weak_bits wk wv m) = iswhite m" "isblack (set_weak_bits wk wv m) = isblack m"
  "bit (set_weak_bits wk wv m) KEYWEAKBIT = wk" "bit (set_weak_bits wk wv m) VALUEWEAKBIT = wv"
  by (auto simp: iswhite_bits isblack_def white2gray_def gray2black_def black2gray_def bit_set_weak_bits
      bit_and_iff bit_not_iff bit_WHITEBITS bit_set_bit_iff bit_unset_bit_iff possible_bit_def
      simp del: bit_0)

abbreviation white :: "global_State \<Rightarrow> gaddr \<Rightarrow> bool" where
  "white g \<equiv> at_marked g iswhite"

abbreviation nonwhite :: "global_State \<Rightarrow> gaddr \<Rightarrow> bool" where
  "nonwhite g \<equiv> at_marked g (\<lambda>m. \<not> iswhite m)"

abbreviation black :: "global_State \<Rightarrow> gaddr \<Rightarrow> bool" where
  "black g \<equiv> at_marked g isblack"

lemma not_white_and_nonwhite: "white g a \<Longrightarrow> nonwhite g a \<Longrightarrow> False"
  by (auto simp: at_marked_def split: option.splits)

lemma exists_white_or_nonwhite: "gbody g a = Some b \<Longrightarrow> white g a \<or> nonwhite g a"
  by (auto simp: at_marked_def gbody_def)

lemma at_marked_exists: "at_marked g P a \<Longrightarrow> \<exists>b. gbody g a = Some b"
  by (auto simp: at_marked_def gbody_def split: option.splits)

section \<open>References\<close>

definition vrefs :: "gvalue \<Rightarrow> gaddr set" where
  "vrefs v = set_option (gc_value v)"

lemma vrefs_simps [simp]:
  "vrefs GNil = {}" "vrefs (GPlain n) = {}" "vrefs (GObj a) = {a}" "vrefs (GDeadKey a) = {a}"
  by (simp_all add: vrefs_def)

definition live_nodes :: "gtable \<Rightarrow> (gvalue \<times> gvalue) list" where
  "live_nodes h = filter (\<lambda>n. snd n \<noteq> GNil) (h_node h)"

definition table_refs :: "gtable \<Rightarrow> gaddr set" where
  "table_refs h = set_option (h_metatable h) \<union> \<Union> (vrefs ` set (h_array h))
     \<union> (\<Union>n\<in>set (live_nodes h). vrefs (fst n) \<union> vrefs (snd n))"

definition thread_refs :: "gthread \<Rightarrow> gaddr set" where
  "thread_refs t = vrefs (th_gt t) \<union> \<Union> (vrefs ` set (take (th_top t) (th_stack t)))"

definition proto_refs :: "gproto \<Rightarrow> gaddr set" where
  "proto_refs p = set_option (pr_source p) \<union> \<Union> (vrefs ` set (pr_k p)) \<union> \<Union> (set_option ` set (pr_upvalues p))
     \<union> \<Union> (set_option ` set (pr_p p)) \<union> \<Union> (set_option ` set (pr_locvars p))"

text \<open>All the objects that an object refers to. Keys of empty entries and stack slots above the top are
  not followed by the program.\<close>

fun body_refs :: "global_State \<Rightarrow> gcbody \<Rightarrow> gaddr set" where
  "body_refs g (GString _) = {}"
| "body_refs g (GUdata mt env _) = insert env (set_option mt)"
| "body_refs g (GUpval uv) = vrefs (upval_value g uv)"
| "body_refs g (GCClosure env vs) = insert env (\<Union> (vrefs ` set vs))"
| "body_refs g (GLClosure env p us) = insert env (insert p (\<Union> (set_option ` set us)))"
| "body_refs g (GTable h) = table_refs h"
| "body_refs g (GThread t) = thread_refs t"
| "body_refs g (GProto p) = proto_refs p"

definition refs :: "global_State \<Rightarrow> gaddr \<Rightarrow> gaddr set" where
  "refs g a = (case gbody g a of None \<Rightarrow> {} | Some b \<Rightarrow> body_refs g b)"

section \<open>Typing of the heap\<close>

datatype gkind = KString | KUdata | KUpval | KFunction | KTable | KThread | KProto

fun kind_of :: "gcbody \<Rightarrow> gkind" where
  "kind_of (GString _) = KString"
| "kind_of (GUdata _ _ _) = KUdata"
| "kind_of (GUpval _) = KUpval"
| "kind_of (GCClosure _ _) = KFunction"
| "kind_of (GLClosure _ _ _) = KFunction"
| "kind_of (GTable _) = KTable"
| "kind_of (GThread _) = KThread"
| "kind_of (GProto _) = KProto"

lemma kind_ofE:
  "kind_of b = KUdata \<Longrightarrow> (\<And>mt env n. b = GUdata mt env n \<Longrightarrow> P) \<Longrightarrow> P"
  "kind_of b = KUpval \<Longrightarrow> (\<And>uv. b = GUpval uv \<Longrightarrow> P) \<Longrightarrow> P"
  "kind_of b = KTable \<Longrightarrow> (\<And>h. b = GTable h \<Longrightarrow> P) \<Longrightarrow> P"
  "kind_of b = KThread \<Longrightarrow> (\<And>t. b = GThread t \<Longrightarrow> P) \<Longrightarrow> P"
  "kind_of b = KString \<Longrightarrow> (\<And>s. b = GString s \<Longrightarrow> P) \<Longrightarrow> P"
  "kind_of b = KProto \<Longrightarrow> (\<And>p. b = GProto p \<Longrightarrow> P) \<Longrightarrow> P"
  by (cases b; simp)+

definition has_kind :: "global_State \<Rightarrow> gkind set \<Rightarrow> gaddr \<Rightarrow> bool" where
  "has_kind g K a \<longleftrightarrow> (case gbody g a of None \<Rightarrow> False | Some b \<Rightarrow> kind_of b \<in> K)"

abbreviation (input) value_kinds :: "gkind set" where
  "value_kinds \<equiv> {KString, KUdata, KFunction, KTable, KThread}"

abbreviation (input) list_kinds :: "gkind set" where
  "list_kinds \<equiv> {KFunction, KTable, KThread, KProto}"

definition value_ok :: "global_State \<Rightarrow> gvalue \<Rightarrow> bool" where
  "value_ok g v \<longleftrightarrow> (case v of GObj a \<Rightarrow> has_kind g value_kinds a | GDeadKey _ \<Rightarrow> False | _ \<Rightarrow> True)"

definition keys_unique :: "gtable \<Rightarrow> bool" where
  "keys_unique h \<longleftrightarrow> distinct (filter (\<lambda>k. \<exists>a. k = GObj a) (map fst (h_node h)))"

fun body_ok :: "global_State \<Rightarrow> gcbody \<Rightarrow> bool" where
  "body_ok g (GString _) = True"
| "body_ok g (GUdata mt env _) = (pred_option (has_kind g {KTable}) mt \<and> has_kind g {KTable} env)"
| "body_ok g (GUpval (Closed v)) = value_ok g v"
| "body_ok g (GUpval (Open th i)) =
     (case gbody g th of Some (GThread t) \<Rightarrow> i < th_top t | _ \<Rightarrow> False)"
| "body_ok g (GCClosure env vs) = (has_kind g {KTable} env \<and> list_all (value_ok g) vs)"
| "body_ok g (GLClosure env p us) =
     (has_kind g {KTable} env \<and> has_kind g {KProto} p
      \<and> list_all (\<lambda>u. case u of None \<Rightarrow> False | Some a \<Rightarrow> has_kind g {KUpval} a) us)"
| "body_ok g (GTable h) =
     (pred_option (has_kind g {KTable}) (h_metatable h) \<and> list_all (value_ok g) (h_array h)
      \<and> list_all (\<lambda>n. value_ok g (fst n) \<and> value_ok g (snd n)) (live_nodes h) \<and> keys_unique h)"
| "body_ok g (GThread t) =
     (th_top t \<le> length (th_stack t) \<and> value_ok g (th_gt t)
      \<and> list_all (value_ok g) (take (th_top t) (th_stack t)))"
| "body_ok g (GProto p) =
     (pred_option (has_kind g {KString}) (pr_source p) \<and> list_all (value_ok g) (pr_k p)
      \<and> list_all (pred_option (has_kind g {KString})) (pr_upvalues p)
      \<and> list_all (pred_option (has_kind g {KProto})) (pr_p p)
      \<and> list_all (pred_option (has_kind g {KString})) (pr_locvars p))"

definition typed :: "global_State \<Rightarrow> bool" where
  "typed g \<longleftrightarrow> (\<forall>a b. gbody g a = Some b \<longrightarrow> body_ok g b)"

lemma has_kindE:
  assumes "has_kind g K a"
  obtains b where "gbody g a = Some b" and "kind_of b \<in> K"
  using assms by (auto simp: has_kind_def split: option.splits)

lemma has_kind_mono: "has_kind g K a \<Longrightarrow> K \<subseteq> K' \<Longrightarrow> has_kind g K' a"
  by (auto simp: has_kind_def split: option.splits)

lemma value_ok_refs: "value_ok g v \<Longrightarrow> a \<in> vrefs v \<Longrightarrow> has_kind g value_kinds a"
  by (cases v) (auto simp: value_ok_def)

lemma upval_value_ok:
  assumes "typed g" and "body_ok g (GUpval uv)"
  shows "value_ok g (upval_value g uv)"
proof (cases uv)
  case (Closed v)
  then show ?thesis using assms(2) by simp
next
  case (Open th i)
  with assms(2) obtain t where t: "gbody g th = Some (GThread t)" and i: "i < th_top t"
    by (auto split: option.splits gcbody.splits)
  then have ok: "body_ok g (GThread t)"
    using assms(1) unfolding typed_def by blast
  then have "th_stack t ! i \<in> set (take (th_top t) (th_stack t))"
    using i by (auto simp: in_set_conv_nth intro!: exI [of _ i])
  moreover have "i < length (th_stack t)"
    using i ok by simp
  ultimately show ?thesis
    using Open t ok by (auto simp: list_all_iff)
qed

lemma refs_existing:
  "value_ok g v \<Longrightarrow> x \<in> vrefs v \<Longrightarrow> has_kind g UNIV x"
  "list_all (value_ok g) vs \<Longrightarrow> x \<in> \<Union> (vrefs ` set vs) \<Longrightarrow> has_kind g UNIV x"
  "pred_option (has_kind g K) y \<Longrightarrow> x \<in> set_option y \<Longrightarrow> has_kind g UNIV x"
  "list_all (pred_option (has_kind g K)) ys \<Longrightarrow> x \<in> \<Union> (set_option ` set ys) \<Longrightarrow> has_kind g UNIV x"
  "list_all (\<lambda>u. case u of None \<Rightarrow> False | Some a \<Rightarrow> has_kind g K a) ys \<Longrightarrow> x \<in> \<Union> (set_option ` set ys)
     \<Longrightarrow> has_kind g UNIV x"
  "has_kind g K x \<Longrightarrow> has_kind g UNIV x"
  by (auto simp: list_all_iff option.pred_set dest: value_ok_refs intro: has_kind_mono)
    (fastforce intro: has_kind_mono)

lemma refs_exist:
  assumes "typed g" and "r \<in> refs g a"
  shows "has_kind g UNIV r"
proof -
  from assms(2) obtain b where b: "gbody g a = Some b" and r: "r \<in> body_refs g b"
    by (auto simp: refs_def split: option.splits)
  then have ok: "body_ok g b" using assms(1) by (simp add: typed_def)
  show ?thesis
  proof (cases b)
    case (GUpval uv)
    then show ?thesis using r ok assms(1) upval_value_ok refs_existing(1) by fastforce
  next
    case (GUdata mt env n)
    then have "r = env \<or> r \<in> set_option mt" using r by simp
    then show ?thesis using ok GUdata refs_existing(3,6) by auto
  next
    case (GCClosure env vs)
    then have "r = env \<or> r \<in> \<Union> (vrefs ` set vs)" using r by simp
    then show ?thesis using ok GCClosure refs_existing(2,6) by (metis body_ok.simps(5))
  next
    case (GLClosure env p us)
    then have "r = env \<or> r = p \<or> r \<in> \<Union> (set_option ` set us)" using r by simp
    then show ?thesis using ok GLClosure refs_existing(5,6) by (metis body_ok.simps(6))
  next
    case (GTable h)
    then consider "r \<in> set_option (h_metatable h)" | "r \<in> \<Union> (vrefs ` set (h_array h))"
      | n where "n \<in> set (live_nodes h)" "r \<in> vrefs (fst n) \<union> vrefs (snd n)"
      using r by (auto simp: table_refs_def)
    then show ?thesis
      using ok GTable refs_existing(1-3) by cases (auto simp: list_all_iff)
  next
    case (GThread t)
    then have "r \<in> vrefs (th_gt t) \<or> r \<in> \<Union> (vrefs ` set (take (th_top t) (th_stack t)))"
      using r by (simp add: thread_refs_def)
    then show ?thesis using ok GThread refs_existing(1,2) by (metis body_ok.simps(8))
  next
    case (GProto p)
    then consider "r \<in> set_option (pr_source p)" | "r \<in> \<Union> (vrefs ` set (pr_k p))"
      | "r \<in> \<Union> (set_option ` set (pr_upvalues p))" | "r \<in> \<Union> (set_option ` set (pr_p p))"
      | "r \<in> \<Union> (set_option ` set (pr_locvars p))"
      using r by (auto simp: proto_refs_def)
    then show ?thesis
      using ok GProto by cases (metis body_ok.simps(9) refs_existing(2-4))+
  qed (use r in simp)
qed

section \<open>Marking one object\<close>

text \<open>How an object looks just after it was marked: in the list of gray objects, or with everything it
  refers to marked too.\<close>

definition newly_ok :: "global_State \<Rightarrow> gaddr \<Rightarrow> bool" where
  "newly_ok g a \<longleftrightarrow>
     (if has_kind g list_kinds a then a \<in> set (gray g) \<and> \<not> black g a
      else (\<forall>r\<in>refs g a. nonwhite g r)
        \<and> (case gbody g a of
             Some (GUdata _ _ _) \<Rightarrow> black g a
           | Some (GUpval uv) \<Rightarrow> black g a = (\<not> is_open uv)
           | _ \<Rightarrow> \<not> black g a))"

text \<open>\<open>marksE E g g'\<close>: the second state has more objects marked, each of them as above; the objects of \<open>E\<close>
  are still being worked on.\<close>

definition marksE :: "gaddr set \<Rightarrow> global_State \<Rightarrow> global_State \<Rightarrow> bool" where
  "marksE E g g' \<longleftrightarrow>
     g' = g\<lparr>heap := heap g', gray := gray g'\<rparr> \<and> length (heap g') = length (heap g)
     \<and> (\<forall>a. gbody g' a = gbody g a)
     \<and> (\<forall>a. nonwhite g a \<longrightarrow> nonwhite g' a)
     \<and> (\<forall>a. a \<notin> E \<and> (nonwhite g a \<or> white g' a) \<longrightarrow> gobj g' a = gobj g a)
     \<and> (\<exists>new. gray g' = new @ gray g \<and> distinct new
          \<and> (\<forall>a\<in>set new. white g a \<and> nonwhite g' a \<and> has_kind g list_kinds a))
     \<and> (\<forall>a. a \<notin> E \<and> white g a \<and> nonwhite g' a \<longrightarrow> newly_ok g' a)"

abbreviation marks :: "global_State \<Rightarrow> global_State \<Rightarrow> bool" where
  "marks \<equiv> marksE {}"

lemma same_bodies:
  assumes "\<And>a. gbody g' a = gbody g a"
  shows "has_kind g' K a = has_kind g K a" and "upval_value g' uv = upval_value g uv"
    and "body_refs g' b = body_refs g b" and "refs g' a = refs g a"
    and "value_ok g' v = value_ok g v" and "body_ok g' b = body_ok g b" and "typed g' = typed g"
proof -
  have eq: "gbody g' = gbody g" using assms by auto
  show k: "has_kind g' K a = has_kind g K a" for K a by (simp add: has_kind_def eq)
  show u: "upval_value g' uv = upval_value g uv" for uv by (cases uv) (simp_all add: eq)
  show b: "body_refs g' b = body_refs g b" for b by (cases b) (simp_all add: u)
  show "refs g' a = refs g a" by (simp add: refs_def eq b split: option.splits)
  show v: "value_ok g' v = value_ok g v" for v by (simp add: value_ok_def k cong: gvalue.case_cong)
  have kk: "has_kind g' = has_kind g" and vv: "value_ok g' = value_ok g"
    by (simp_all add: fun_eq_iff k v)
  show o: "body_ok g' b = body_ok g b" for b
    by (cases "(g, b)" rule: body_ok.cases) (simp_all add: kk vv eq)
  show "typed g' = typed g" by (simp add: typed_def eq o)
qed

lemma marksE_refl [simp]: "marksE E g g"
  unfolding marksE_def using not_white_and_nonwhite by auto

lemma marksE_bodies: "marksE E g g' \<Longrightarrow> gbody g' a = gbody g a"
  unfolding marksE_def by blast

lemma marksE_nonwhite: "marksE E g g' \<Longrightarrow> nonwhite g a \<Longrightarrow> nonwhite g' a"
  unfolding marksE_def by blast

lemma marksE_typed: "marksE E g g' \<Longrightarrow> typed g' = typed g"
  using same_bodies(7) marksE_bodies by metis

lemma marksE_kind: "marksE E g g' \<Longrightarrow> has_kind g' K a = has_kind g K a"
  using same_bodies(1) marksE_bodies by metis

lemma marksE_refs: "marksE E g g' \<Longrightarrow> refs g' a = refs g a"
  using same_bodies(4) marksE_bodies by metis

lemma marksE_same: "marksE E g g' \<Longrightarrow> a \<notin> E \<Longrightarrow> nonwhite g a \<or> white g' a \<Longrightarrow> gobj g' a = gobj g a"
  unfolding marksE_def by blast

lemma marksE_gray:
  assumes "marksE E g g'"
  obtains new where "gray g' = new @ gray g" and "distinct new"
    and "\<And>a. a \<in> set new \<Longrightarrow> white g a \<and> nonwhite g' a \<and> has_kind g list_kinds a"
  using assms unfolding marksE_def by blast

lemma marksE_fresh: "marksE E g g' \<Longrightarrow> a \<notin> E \<Longrightarrow> white g a \<Longrightarrow> nonwhite g' a \<Longrightarrow> newly_ok g' a"
  unfolding marksE_def by blast

lemma marksE_white: "marksE E g g' \<Longrightarrow> white g' a \<Longrightarrow> white g a"
  by (metis at_marked_exists exists_white_or_nonwhite marksE_bodies marksE_nonwhite not_white_and_nonwhite)

lemma same_obj_at_marked: "gobj g' a = gobj g a \<Longrightarrow> at_marked g' P a = at_marked g P a"
  by (simp add: at_marked_def)

lemma marksE_at: "marksE E g g' \<Longrightarrow> nonwhite g a \<Longrightarrow> a \<notin> E \<Longrightarrow> at_marked g' P a = at_marked g P a"
  using marksE_same same_obj_at_marked by blast

text \<open>An object that was marked properly stays so.\<close>

lemma newly_ok_marksE:
  assumes "marksE E g g'" and "newly_ok g a" and "nonwhite g a" and "a \<notin> E"
  shows "newly_ok g' a"
proof -
  have "at_marked g' P a = at_marked g P a" for P
    using marksE_same [OF assms(1,4)] assms(3) same_obj_at_marked by blast
  moreover have "set (gray g) \<subseteq> set (gray g')"
    using assms(1) by (rule marksE_gray) auto
  moreover note marksE_kind [OF assms(1)] marksE_refs [OF assms(1)] marksE_bodies [OF assms(1)]
    marksE_nonwhite [OF assms(1)]
  ultimately show ?thesis
    using assms(2) unfolding newly_ok_def by (auto split: if_splits option.splits gcbody.splits)
qed

lemma marksE_trans:
  assumes 1: "marksE E g g1" and 2: "marksE E g1 g2"
  shows "marksE E g g2"
proof -
  obtain n1 where n1: "gray g1 = n1 @ gray g" "distinct n1"
    "\<And>a. a \<in> set n1 \<Longrightarrow> white g a \<and> nonwhite g1 a \<and> has_kind g list_kinds a"
    by (rule marksE_gray [OF 1]) (rule that)
  obtain n2 where n2: "gray g2 = n2 @ gray g1" "distinct n2"
    "\<And>a. a \<in> set n2 \<Longrightarrow> white g1 a \<and> nonwhite g2 a \<and> has_kind g1 list_kinds a"
    by (rule marksE_gray [OF 2]) (rule that)
  have state: "g2 = g\<lparr>heap := heap g2, gray := gray g2\<rparr>"
  proof -
    have g1: "g1 = g\<lparr>heap := heap g1, gray := gray g1\<rparr>" and g2: "g2 = g1\<lparr>heap := heap g2, gray := gray g2\<rparr>"
      using 1 2 unfolding marksE_def by blast+
    have "g2 = g\<lparr>heap := heap g1, gray := gray g1\<rparr>\<lparr>heap := heap g2, gray := gray g2\<rparr>"
      using g2 unfolding g1 [symmetric] .
    then show ?thesis by simp
  qed
  have len: "length (heap g2) = length (heap g)"
    using 1 2 unfolding marksE_def by simp
  have disj: "set n2 \<inter> set n1 = {}"
    using n1(3) n2(3) not_white_and_nonwhite [of g1] by blast
  have new: "gray g2 = (n2 @ n1) @ gray g \<and> distinct (n2 @ n1)
      \<and> (\<forall>a\<in>set (n2 @ n1). white g a \<and> nonwhite g2 a \<and> has_kind g list_kinds a)"
    using n1 n2 disj marksE_white [OF 1] marksE_nonwhite [OF 2] marksE_kind [OF 1] by auto
  have same: "gobj g2 a = gobj g a" if "a \<notin> E" "nonwhite g a \<or> white g2 a" for a
    using that marksE_same [OF 1] marksE_same [OF 2] marksE_nonwhite [OF 1] marksE_white [OF 2] by metis
  have fresh: "newly_ok g2 a" if "a \<notin> E" "white g a" "nonwhite g2 a" for a
  proof (cases "nonwhite g1 a")
    case True
    then show ?thesis using marksE_fresh [OF 1] newly_ok_marksE [OF 2] that by blast
  next
    case False
    then have "white g1 a"
      using that(2) marksE_bodies [OF 1] exists_white_or_nonwhite at_marked_exists by metis
    then show ?thesis using marksE_fresh [OF 2] that by blast
  qed
  show ?thesis
    unfolding marksE_def
  proof (intro conjI allI impI)
    show "gbody g2 a = gbody g a" for a
      using marksE_bodies [OF 1] marksE_bodies [OF 2] by simp
    show "nonwhite g2 a" if "nonwhite g a" for a
      using that marksE_nonwhite [OF 1] marksE_nonwhite [OF 2] by blast
    show "\<exists>new. gray g2 = new @ gray g \<and> distinct new
        \<and> (\<forall>a\<in>set new. white g a \<and> nonwhite g2 a \<and> has_kind g list_kinds a)"
      using new by blast
  qed (use state len same fresh in blast)+
qed

lemma marksE_weaken: "marksE E g g' \<Longrightarrow> E \<subseteq> F \<Longrightarrow> marksE F g g'"
  unfolding marksE_def by blast

lemma marksE_finish:
  assumes "marksE {a} g g'" and "white g a" and "nonwhite g' a" and "newly_ok g' a"
  shows "marks g g'"
  using assms not_white_and_nonwhite [of g a] not_white_and_nonwhite [of g' a]
  unfolding marksE_def by (metis empty_iff singletonD)

lemma marksE_set_marked:
  assumes "a \<in> E" and f: "\<And>m. iswhite (f m) \<Longrightarrow> iswhite m"
  shows "marksE E g (set_marked f a g)"
  unfolding marksE_def
proof (intro conjI allI impI)
  show "set_marked f a g = g\<lparr>heap := heap (set_marked f a g), gray := gray (set_marked f a g)\<rparr>"
    by (simp add: set_marked_def gput_def)
  show "nonwhite (set_marked f a g) b" if "nonwhite g b" for b
    using that f by (auto simp: at_marked_def gobj_set_marked split: option.splits)
  show "\<exists>new. gray (set_marked f a g) = new @ gray g \<and> distinct new \<and>
      (\<forall>b\<in>set new. white g b \<and> nonwhite (set_marked f a g) b \<and> has_kind g list_kinds b)"
    by simp
  show "gobj (set_marked f a g) b = gobj g b"
    if "b \<notin> E \<and> (nonwhite g b \<or> white (set_marked f a g) b)" for b
    using that assms(1) by (auto simp: gobj_set_marked)
  show "newly_ok (set_marked f a g) b" if "b \<notin> E \<and> white g b \<and> nonwhite (set_marked f a g) b" for b
    using that assms(1) not_white_and_nonwhite [of g b] by (auto simp: heap_simps split: if_splits)
qed simp_all

text \<open>White objects carry no black bit.\<close>

definition clean_whites :: "global_State \<Rightarrow> bool" where
  "clean_whites g \<longleftrightarrow> (\<forall>a. white g a \<longrightarrow> \<not> black g a)"

lemma marksE_clean_whites:
  assumes "marksE E g g'" and "clean_whites g" and "\<And>a. a \<in> E \<Longrightarrow> nonwhite g' a"
  shows "clean_whites g'"
  unfolding clean_whites_def
proof (intro allI impI)
  fix a
  assume w: "white g' a"
  then have "a \<notin> E" using assms(3) not_white_and_nonwhite by blast
  then have "gobj g' a = gobj g a" using marksE_same [OF assms(1)] w by blast
  then show "\<not> black g' a"
    using w assms(2) same_obj_at_marked unfolding clean_whites_def by metis
qed

lemma marks_clean_whites: "marks g g' \<Longrightarrow> clean_whites g \<Longrightarrow> clean_whites g'"
  by (rule marksE_clean_whites) auto

definition mark_spec :: "(gaddr \<Rightarrow> global_State \<Rightarrow> global_State) \<Rightarrow> gkind set \<Rightarrow> bool" where
  "mark_spec f K \<longleftrightarrow>
     (\<forall>g a. typed g \<and> clean_whites g \<and> white g a \<and> has_kind g K a \<longrightarrow> marks g (f a g) \<and> nonwhite (f a g) a)"

lemma mark_specD:
  assumes "mark_spec f K" and "typed g" and "clean_whites g" and "has_kind g K a"
  shows "marks g (if white g a then f a g else g)" and "nonwhite (if white g a then f a g else g) a"
  using assms exists_white_or_nonwhite [of g a] unfolding mark_spec_def by (auto elim!: has_kindE)

lemma white2gray_begin:
  assumes "white g a"
  shows "marksE {a} g (set_marked white2gray a g)" and "nonwhite (set_marked white2gray a g) a"
proof -
  show "marksE {a} g (set_marked white2gray a g)"
    by (rule marksE_set_marked) simp_all
  show "nonwhite (set_marked white2gray a g) a"
    using at_marked_exists [OF assms] by (auto simp: heap_simps at_marked_def gbody_def split: option.splits)
qed

lemma mark_list_object:
  assumes "white g a" and "clean_whites g" and k: "has_kind g list_kinds a"
  defines "g' \<equiv> (set_marked white2gray a g)\<lparr>gray := a # gray g\<rparr>"
  shows "marks g g' \<and> nonwhite g' a"
proof -
  let ?g1 = "set_marked white2gray a g"
  have 1: "marksE {a} g ?g1" and nw: "nonwhite ?g1 a"
    using white2gray_begin [OF assms(1)] .
  have nb: "\<not> black ?g1 a"
    using assms(1,2) by (auto simp: heap_simps clean_whites_def)
  have "marksE {a} g g'"
    unfolding marksE_def
  proof (intro conjI allI impI)
    show "g' = g\<lparr>heap := heap g', gray := gray g'\<rparr>"
      by (simp add: g'_def set_marked_def gput_def)
    show "\<exists>new. gray g' = new @ gray g \<and> distinct new
        \<and> (\<forall>b\<in>set new. white g b \<and> nonwhite g' b \<and> has_kind g list_kinds b)"
      using assms(1) k nw by (intro exI [of _ "[a]"]) (simp add: g'_def)
    show "newly_ok g' b" if "b \<notin> {a} \<and> white g b \<and> nonwhite g' b" for b
      using that not_white_and_nonwhite [of g b] by (auto simp: g'_def heap_simps)
  qed (use 1 in \<open>auto simp: g'_def marksE_def\<close>)
  moreover have "newly_ok g' a"
    using k nb by (simp add: newly_ok_def g'_def has_kind_def)
  ultimately show ?thesis
    using marksE_finish assms(1) nw by (simp add: g'_def)
qed

lemma mark_leaf: "mark_spec (reallymark (Suc n)) (insert KString list_kinds)"
  unfolding mark_spec_def
proof (intro allI impI)
  fix g a
  assume "typed g \<and> clean_whites g \<and> white g a \<and> has_kind g (insert KString list_kinds) a"
  then have w: "white g a" and c: "clean_whites g" and k: "has_kind g (insert KString list_kinds) a"
    by auto
  from k obtain b where b: "gbody g a = Some b" and kb: "kind_of b \<in> insert KString list_kinds"
    by (rule has_kindE)
  show "marks g (reallymark (Suc n) a g) \<and> nonwhite (reallymark (Suc n) a g) a"
  proof (cases "kind_of b = KString")
    case True
    then obtain s where s: "b = GString s" by (cases b) auto
    have "newly_ok (set_marked white2gray a g) a"
      using b s w c by (auto simp: newly_ok_def has_kind_def refs_def clean_whites_def heap_simps)
    then show ?thesis
      using marksE_finish white2gray_begin [OF w] w b s by simp
  next
    case False
    then have "has_kind g list_kinds a" using b kb by (simp add: has_kind_def)
    moreover have "reallymark (Suc n) a g = (set_marked white2gray a g)\<lparr>gray := a # gray g\<rparr>"
      using b kb False by (cases b) auto
    ultimately show ?thesis
      using mark_list_object [OF w c] by simp
  qed
qed

lemma mark_udata:
  assumes "mark_spec (reallymark n) {KTable}"
  shows "mark_spec (reallymark (Suc n)) {KUdata}"
  unfolding mark_spec_def
proof (intro allI impI)
  fix g a
  assume "typed g \<and> clean_whites g \<and> white g a \<and> has_kind g {KUdata} a"
  then have t: "typed g" and c: "clean_whites g" and w: "white g a" and k: "has_kind g {KUdata} a"
    by auto
  from k obtain mt env len where b: "gbody g a = Some (GUdata mt env len)"
    by (rule has_kindE) (auto elim!: kind_ofE)
  then have ok: "pred_option (has_kind g {KTable}) mt" "has_kind g {KTable} env"
    using t b unfolding typed_def by fastforce+
  let ?mark = "\<lambda>t g. if white g t then reallymark n t g else g"
  define g2 where "g2 = set_marked gray2black a (set_marked white2gray a g)"
  define g3 where "g3 = (case mt of None \<Rightarrow> g2 | Some m \<Rightarrow> ?mark m g2)"
  define g4 where "g4 = ?mark env g3"
  have 1: "marksE {a} g (set_marked white2gray a g)" "nonwhite (set_marked white2gray a g) a"
    using white2gray_begin [OF w] .
  have 2: "marksE {a} g g2"
    unfolding g2_def by (rule marksE_trans [OF 1(1)], rule marksE_set_marked) simp_all
  have nw: "nonwhite g2 a" and bl: "black g2 a"
    unfolding g2_def using 1(2) by (auto simp: heap_simps at_marked_def split: option.splits)
  have step: "marks h (?mark m h)" "nonwhite (?mark m h) m"
    if h: "marksE {a} g h" "nonwhite h a" and m: "has_kind g {KTable} m" for h m
  proof -
    have "typed h" using marksE_typed [OF h(1)] t by simp
    moreover have "clean_whites h" using marksE_clean_whites [OF h(1) c] h(2) by simp
    moreover have "has_kind h {KTable} m" using marksE_kind [OF h(1)] m by simp
    ultimately show "marks h (?mark m h)" "nonwhite (?mark m h) m"
      using mark_specD [OF assms] by blast+
  qed
  have 3: "marks g2 g3" and n3: "\<forall>m\<in>set_option mt. nonwhite g3 m"
  proof (atomize (full), cases mt)
    case (Some m)
    then show "marks g2 g3 \<and> (\<forall>m\<in>set_option mt. nonwhite g3 m)"
      unfolding g3_def using step [OF 2 nw, of m] ok(1) by (simp del: if_split)
  qed (simp add: g3_def)
  have 23: "marksE {a} g g3"
    using marksE_trans [OF 2] marksE_weaken [OF 3] by simp
  have nw3: "nonwhite g3 a" and bl3: "black g3 a"
    using nw bl by (simp_all add: marksE_at [OF 3])
  have 4: "marks g3 g4" and n4: "nonwhite g4 env"
    unfolding g4_def using step [OF 23 nw3 ok(2)] by auto
  have bl4: "black g4 a"
    using nw3 bl3 by (simp add: marksE_at [OF 4])
  have "reallymark (Suc n) a g = g4"
    using b unfolding g4_def g3_def g2_def by (simp add: Let_def del: if_split)
  moreover have 24: "marksE {a} g g4" and nw4: "nonwhite g4 a"
    using marksE_trans [OF 23 marksE_weaken [OF 4]] marksE_nonwhite [OF 4 nw3] by auto
  moreover have "newly_ok g4 a"
  proof -
    have "\<forall>r\<in>refs g4 a. nonwhite g4 r"
      using b n3 n4 marksE_nonwhite [OF 4] marksE_bodies [OF 24] by (auto simp: refs_def)
    then show ?thesis
      using b bl4 marksE_bodies [OF 24] by (simp add: newly_ok_def has_kind_def)
  qed
  ultimately show "marks g (reallymark (Suc n) a g) \<and> nonwhite (reallymark (Suc n) a g) a"
    using marksE_finish [OF 24 w] by simp
qed

lemma mark_upval:
  assumes "mark_spec (reallymark n) value_kinds"
  shows "mark_spec (reallymark (Suc n)) {KUpval}"
  unfolding mark_spec_def
proof (intro allI impI)
  fix g a
  assume "typed g \<and> clean_whites g \<and> white g a \<and> has_kind g {KUpval} a"
  then have t: "typed g" and c: "clean_whites g" and w: "white g a" and k: "has_kind g {KUpval} a"
    by auto
  from k obtain uv where b: "gbody g a = Some (GUpval uv)"
    by (rule has_kindE) (auto elim!: kind_ofE)
  have ok: "value_ok g (upval_value g uv)"
    using upval_value_ok [OF t] t b unfolding typed_def by blast
  let ?mark = "\<lambda>t g. if white g t then reallymark n t g else g"
  let ?g1 = "set_marked white2gray a g"
  define g2 where "g2 = (case gc_value (upval_value ?g1 uv) of None \<Rightarrow> ?g1 | Some v \<Rightarrow> ?mark v ?g1)"
  define g3 where "g3 = (if is_open uv then g2 else set_marked gray2black a g2)"
  have 1: "marksE {a} g ?g1" and nw: "nonwhite ?g1 a"
    using white2gray_begin [OF w] .
  have val: "upval_value ?g1 uv = upval_value g uv"
    by (rule same_bodies(2)) simp
  have 2: "marks ?g1 g2 \<and> (\<forall>r\<in>vrefs (upval_value g uv). nonwhite g2 r)"
  proof (cases "gc_value (upval_value g uv)")
    case (Some v)
    then have "has_kind ?g1 value_kinds v"
      using value_ok_refs [OF ok] by (simp add: vrefs_def has_kind_def)
    moreover have "typed ?g1" using marksE_typed [OF 1] t by simp
    moreover have "clean_whites ?g1" using marksE_clean_whites [OF 1 c] nw by simp
    ultimately show ?thesis
      using mark_specD [OF assms] Some unfolding g2_def val by (simp add: vrefs_def del: if_split)
  qed (simp add: g2_def val vrefs_def)
  then have 2: "marks ?g1 g2" and n2: "\<forall>r\<in>vrefs (upval_value g uv). nonwhite g2 r" by auto
  have 12: "marksE {a} g g2"
    using marksE_trans [OF 1] marksE_weaken [OF 2] by simp
  have 23: "marksE {a} g2 g3"
    unfolding g3_def by (auto intro: marksE_set_marked)
  have same: "gobj g2 a = gobj ?g1 a"
    using marksE_same [OF 2, of a] nw by simp
  have nb: "\<not> black ?g1 a"
    using w c by (auto simp: heap_simps clean_whites_def)
  have 13: "marksE {a} g g3"
    using marksE_trans [OF 12 23] .
  have nw3: "nonwhite g3 a" and bl3: "black g3 a = (\<not> is_open uv)"
    unfolding g3_def using nw nb
    by (auto simp: heap_simps marksE_at [OF 2])
  have "\<forall>r\<in>refs g3 a. nonwhite g3 r"
    using b n2 marksE_nonwhite [OF 23] marksE_refs [OF 13] by (simp add: refs_def)
  then have "newly_ok g3 a"
    using b bl3 marksE_bodies [OF 13] by (simp add: newly_ok_def has_kind_def)
  moreover have "reallymark (Suc n) a g = g3"
    using b unfolding g3_def g2_def by (simp add: Let_def)
  ultimately show "marks g (reallymark (Suc n) a g) \<and> nonwhite (reallymark (Suc n) a g) a"
    using marksE_finish [OF 13 w nw3] nw3 by simp
qed

lemma mark_spec_Un: "mark_spec f K \<Longrightarrow> mark_spec f L \<Longrightarrow> mark_spec f (K \<union> L)"
  unfolding mark_spec_def has_kind_def by (auto split: option.splits)

lemma mark_spec_mono: "mark_spec f K \<Longrightarrow> L \<subseteq> K \<Longrightarrow> mark_spec f L"
  unfolding mark_spec_def using has_kind_mono by blast

text \<open>Three levels are enough for every object.\<close>

lemma reallymarkobject_spec: "mark_spec reallymarkobject UNIV"
proof -
  have leaf: "mark_spec (reallymark (Suc n)) (insert KString list_kinds)" for n
    by (rule mark_leaf)
  have udata: "mark_spec (reallymark (Suc (Suc n))) {KUdata}" for n
    by (rule mark_udata, rule mark_spec_mono, rule leaf) simp
  have val: "mark_spec (reallymark (Suc (Suc n))) value_kinds" for n
    by (rule mark_spec_mono, rule mark_spec_Un, rule leaf, rule udata) auto
  have all: "insert KString list_kinds \<union> {KUdata} \<union> {KUpval} = UNIV"
    by (auto intro: gkind.exhaust)
  have "mark_spec (reallymark 3) (insert KString list_kinds \<union> {KUdata} \<union> {KUpval})"
    unfolding numeral_3_eq_3 by (intro mark_spec_Un leaf udata mark_upval val)
  then show ?thesis unfolding all reallymarkobject_def .
qed

lemma markobject_marks:
  assumes "typed g" and "clean_whites g" and "has_kind g K a"
  shows "marks g (markobject a g)" and "nonwhite (markobject a g) a"
  using mark_specD [OF reallymarkobject_spec assms(1,2) has_kind_mono [OF assms(3)]]
  unfolding markobject_def by blast+

lemma markvalue_marks:
  assumes "typed g" and "clean_whites g" and "value_ok g v"
  shows "marks g (markvalue v g)" and "\<forall>r\<in>vrefs v. nonwhite (markvalue v g) r"
  using markobject_marks [OF assms(1,2) value_ok_refs [OF assms(3)]]
  by (auto simp: markvalue_def vrefs_def split: option.splits)

lemma mark_opt_marks:
  assumes "typed g" and "clean_whites g" and "pred_option (has_kind g K) t"
  shows "marks g (mark_opt t g)" and "\<forall>r\<in>set_option t. nonwhite (mark_opt t g) r"
  using markobject_marks [OF assms(1,2)] assms(3) by (auto simp: mark_opt_def split: option.splits)

lemma white2gray_id: "\<not> iswhite m \<Longrightarrow> white2gray m = m"
proof (rule bit_word_eqI)
  fix n
  assume "\<not> iswhite m"
  then have "n = 0 \<or> n = 1 \<longrightarrow> \<not> bit m n" unfolding iswhite_bits by auto
  then show "bit (white2gray m) n = bit m n" unfolding bit_white2gray by argo
qed

lemma set_marked_id: "gobj g a = Some x \<Longrightarrow> f (gc_marked x) = gc_marked x \<Longrightarrow> set_marked f a g = g"
  by (auto simp: set_marked_def gput_def gobj_def list_update_same_conv split: if_splits)

lemma stringmark_one:
  assumes "typed g" and "clean_whites g" and k: "has_kind g {KString} a"
  shows "marks g (set_marked white2gray a g) \<and> nonwhite (set_marked white2gray a g) a"
proof (cases "white g a")
  case True
  have "set_marked white2gray a g = reallymark (Suc 0) a g"
    using k by (auto elim!: has_kindE kind_ofE)
  then show ?thesis
    using mark_specD [OF mark_leaf assms(1,2), of a 0] True has_kind_mono [OF k] by simp
next
  case False
  then have nw: "nonwhite g a"
    using k exists_white_or_nonwhite [of g a] by (auto elim!: has_kindE)
  then obtain x where "gobj g a = Some x" and "\<not> iswhite (gc_marked x)"
    by (auto simp: at_marked_def split: option.splits)
  then show ?thesis using nw by (simp add: set_marked_id white2gray_id)
qed

lemma stringmark_marks:
  assumes "typed g" and "clean_whites g" and "pred_option (has_kind g {KString}) t"
  shows "marks g (stringmark t g)" and "\<forall>r\<in>set_option t. nonwhite (stringmark t g) r"
  using stringmark_one [OF assms(1,2)] assms(3) by (auto simp: stringmark_def split: option.splits)

lemma fold_marks:
  assumes "\<And>x h. x \<in> set xs \<Longrightarrow> marks g h \<Longrightarrow> marks h (f x h) \<and> (\<forall>r\<in>R x. nonwhite (f x h) r)"
  shows "marks g (fold f xs g) \<and> (\<forall>x\<in>set xs. \<forall>r\<in>R x. nonwhite (fold f xs g) r)"
  using assms
proof (induction xs arbitrary: g)
  case Nil
  then show ?case by simp
next
  case (Cons x xs)
  have x: "marks g (f x g)" "\<forall>r\<in>R x. nonwhite (f x g) r"
    using Cons.prems [of x g] by auto
  have IH: "marks (f x g) (fold f xs (f x g)) \<and> (\<forall>y\<in>set xs. \<forall>r\<in>R y. nonwhite (fold f xs (f x g)) r)"
    using Cons.prems marksE_trans [OF x(1)] by (intro Cons.IH) auto
  then show ?case
    using x marksE_trans [OF x(1)] marksE_nonwhite [of "{}" "f x g" "fold f xs (f x g)"] by auto
qed

lemma fold_spec:
  assumes "typed g" and "clean_whites g" and "list_all (P g) xs"
    and step: "\<And>x h. typed h \<Longrightarrow> clean_whites h \<Longrightarrow> P h x \<Longrightarrow> marks h (f x h) \<and> (\<forall>r\<in>R x. nonwhite (f x h) r)"
    and stable: "\<And>x h. marks g h \<Longrightarrow> P g x \<Longrightarrow> P h x"
  shows "marks g (fold f xs g) \<and> (\<forall>r\<in>\<Union> (R ` set xs). nonwhite (fold f xs g) r)"
proof -
  have "marks g (fold f xs g) \<and> (\<forall>x\<in>set xs. \<forall>r\<in>R x. nonwhite (fold f xs g) r)"
  proof (rule fold_marks)
    fix x h
    assume "x \<in> set xs" and h: "marks g h"
    then have "P h x" using assms(3) stable by (simp add: list_all_iff)
    then show "marks h (f x h) \<and> (\<forall>r\<in>R x. nonwhite (f x h) r)"
      using step marksE_typed [OF h] marks_clean_whites [OF h] assms(1,2) by blast
  qed
  then show ?thesis by blast
qed

lemma marks_value_ok: "marks g h \<Longrightarrow> value_ok h v = value_ok g v"
  using same_bodies(5) marksE_bodies by metis

lemma marks_pred_option: "marks g h \<Longrightarrow> pred_option (has_kind h K) u = pred_option (has_kind g K) u"
  using marksE_kind by (metis option.pred_cong)

lemma fold_markvalue:
  assumes "typed g" and "clean_whites g" and "list_all (value_ok g) vs"
  shows "marks g (fold markvalue vs g) \<and> (\<forall>r\<in>\<Union> (vrefs ` set vs). nonwhite (fold markvalue vs g) r)"
  using assms by (rule fold_spec) (use markvalue_marks marks_value_ok in blast)+

lemma fold_mark_opt:
  assumes "typed g" and "clean_whites g" and "list_all (pred_option (has_kind g K)) us"
  shows "marks g (fold mark_opt us g) \<and> (\<forall>r\<in>\<Union> (set_option ` set us). nonwhite (fold mark_opt us g) r)"
  using assms by (rule fold_spec) (use mark_opt_marks marks_pred_option in blast)+

lemma fold_stringmark:
  assumes "typed g" and "clean_whites g" and "list_all (pred_option (has_kind g {KString})) us"
  shows "marks g (fold stringmark us g) \<and> (\<forall>r\<in>\<Union> (set_option ` set us). nonwhite (fold stringmark us g) r)"
  using assms by (rule fold_spec) (use stringmark_marks marks_pred_option in blast)+

end
