(* ===== verification/LGcTrav.thy ===== *)
theory LGcTrav
  imports LGcMark
begin

text \<open>
  Traversing objects. The traversals of \<open>lgc.c\<close> change more than marks: they cache missing tag methods,
  kill the keys of empty entries, clear the stack above its top and shrink it. None of this changes what
  the program can reach. The invariant of the collector is stated here, and one step of propagation is
  shown to keep it and to make progress.
\<close>

section \<open>Objects that look the same to the program\<close>

definition tm_absent :: "gaddr list \<Rightarrow> gtable \<Rightarrow> nat \<Rightarrow> bool" where
  "tm_absent tm h e \<longleftrightarrow> bit (h_flags h) e \<or> getstr h (tm ! e) = GNil"

definition table_eqv :: "gaddr list \<Rightarrow> gtable \<Rightarrow> gtable \<Rightarrow> bool" where
  "table_eqv tm h h' \<longleftrightarrow> h_metatable h' = h_metatable h \<and> h_array h' = h_array h
     \<and> live_nodes h' = live_nodes h \<and> (\<forall>e. tm_absent tm h' e = tm_absent tm h e)
     \<and> (keys_unique h \<longrightarrow> keys_unique h' \<and> getstr h' = getstr h)"

definition thread_eqv :: "gthread \<Rightarrow> gthread \<Rightarrow> bool" where
  "thread_eqv t t' \<longleftrightarrow> th_gt t' = th_gt t \<and> th_top t' = th_top t \<and> th_openupval t' = th_openupval t
     \<and> (th_top t \<le> length (th_stack t) \<longrightarrow>
          th_top t \<le> length (th_stack t') \<and> take (th_top t) (th_stack t') = take (th_top t) (th_stack t))"

fun body_eqv :: "gaddr list \<Rightarrow> gcbody \<Rightarrow> gcbody \<Rightarrow> bool" where
  "body_eqv tm (GTable h) (GTable h') = table_eqv tm h h'"
| "body_eqv tm (GThread t) (GThread t') = thread_eqv t t'"
| "body_eqv tm b b' = (b' = b)"

text \<open>\<open>similar g g'\<close>: the collector changed the heap of \<open>g\<close> only in this way. Besides, it may have changed
  its lists and the count of bytes.\<close>

definition similar :: "global_State \<Rightarrow> global_State \<Rightarrow> bool" where
  "similar g g' \<longleftrightarrow>
     g' = g\<lparr>heap := heap g', gray := gray g', grayagain := grayagain g', weak := weak g',
            totalbytes := totalbytes g'\<rparr>
     \<and> length (heap g') = length (heap g)
     \<and> (\<forall>a. rel_option (body_eqv (tmname g)) (gbody g a) (gbody g' a))"

lemma table_eqv_refl [simp]: "table_eqv tm h h"
  by (simp add: table_eqv_def)

lemma thread_eqv_refl [simp]: "thread_eqv t t"
  by (simp add: thread_eqv_def)

lemma body_eqv_refl [simp]: "body_eqv tm b b"
  by (cases b) simp_all

lemma body_eqv_trans: "body_eqv tm b c \<Longrightarrow> body_eqv tm c d \<Longrightarrow> body_eqv tm b d"
  by (cases b; cases c; cases d) (auto simp: table_eqv_def thread_eqv_def)

lemma similar_refl [simp]: "similar g g"
  by (simp add: similar_def option.rel_refl)

lemma similarD:
  assumes "similar g g'"
  shows "tmname g' = tmname g" "mainthread g' = mainthread g" "registry g' = registry g"
    "basic_mt g' = basic_mt g" "uvhead g' = uvhead g" "rootgc g' = rootgc g" "tmudata g' = tmudata g"
    "strt g' = strt g" "currentwhite g' = currentwhite g" "gcstate g' = gcstate g"
    "length (heap g') = length (heap g)" "strt_nuse g' = strt_nuse g" "sweepgc g' = sweepgc g"
    "sweepstrgc g' = sweepstrgc g"
proof -
  have eq: "g' = g\<lparr>heap := heap g', gray := gray g', grayagain := grayagain g', weak := weak g',
      totalbytes := totalbytes g'\<rparr>"
    using assms by (simp add: similar_def)
  show "tmname g' = tmname g" "mainthread g' = mainthread g" "registry g' = registry g"
    "basic_mt g' = basic_mt g" "uvhead g' = uvhead g" "rootgc g' = rootgc g" "tmudata g' = tmudata g"
    "strt g' = strt g" "currentwhite g' = currentwhite g" "gcstate g' = gcstate g"
    "strt_nuse g' = strt_nuse g" "sweepgc g' = sweepgc g" "sweepstrgc g' = sweepstrgc g"
    by (subst eq, simp)+
  show "length (heap g') = length (heap g)"
    using assms by (simp add: similar_def)
qed

lemma similar_trans:
  assumes "similar g g1" and "similar g1 g2"
  shows "similar g g2"
proof -
  let ?upd = "\<lambda>g g'. g\<lparr>heap := heap g', gray := gray g', grayagain := grayagain g', weak := weak g',
      totalbytes := totalbytes g'\<rparr>"
  have 1: "g1 = ?upd g g1" and 2: "g2 = ?upd g1 g2"
    using assms unfolding similar_def by blast+
  have "g2 = ?upd (?upd g g1) g2"
    using 2 unfolding 1 [symmetric] .
  then have "g2 = ?upd g g2" by simp
  moreover have "rel_option (body_eqv (tmname g)) (gbody g a) (gbody g2 a)" for a
  proof -
    have "rel_option (body_eqv (tmname g)) (gbody g a) (gbody g1 a)"
      and "rel_option (body_eqv (tmname g)) (gbody g1 a) (gbody g2 a)"
      using assms similarD(1) [OF assms(1)] unfolding similar_def by auto
    then show ?thesis
      by (cases "gbody g a"; cases "gbody g1 a"; cases "gbody g2 a") (auto intro: body_eqv_trans)
  qed
  ultimately show ?thesis
    using assms unfolding similar_def by simp
qed

lemma marks_similar:
  assumes "marksE E g g'"
  shows "similar g g'"
proof -
  have eq: "g' = g\<lparr>heap := heap g', gray := gray g'\<rparr>" and len: "length (heap g') = length (heap g)"
    using assms unfolding marksE_def by blast+
  have "grayagain g' = grayagain g" "weak g' = weak g" "totalbytes g' = totalbytes g"
    by (subst eq, simp)+
  then have "g' = g\<lparr>heap := heap g', gray := gray g', grayagain := grayagain g', weak := weak g',
      totalbytes := totalbytes g'\<rparr>"
    using eq by simp
  then show ?thesis
    using len marksE_bodies [OF assms] unfolding similar_def by (simp add: option.rel_refl)
qed

lemma similar_body:
  assumes "similar g g'"
  shows "rel_option (body_eqv (tmname g)) (gbody g a) (gbody g' a)"
  using assms by (simp add: similar_def)

lemma body_eqv_kind: "body_eqv tm b b' \<Longrightarrow> kind_of b' = kind_of b"
  by (cases b; cases b') simp_all

lemma similar_kind: "similar g g' \<Longrightarrow> has_kind g' K a = has_kind g K a"
  using similar_body [of g g' a] by (auto simp: has_kind_def body_eqv_kind split: option.splits)

lemma similar_value_ok: "similar g g' \<Longrightarrow> value_ok g' v = value_ok g v"
  by (simp add: value_ok_def similar_kind cong: gvalue.case_cong)

lemma similar_cases:
  assumes "similar g g'" and "gbody g a = Some b"
  obtains b' where "gbody g' a = Some b'" and "body_eqv (tmname g) b b'"
  using similar_body [OF assms(1), of a] assms(2) by (auto simp: option_rel_Some1)

lemma similar_upval_value:
  assumes "similar g g'" and "typed g" and "body_ok g (GUpval uv)"
  shows "upval_value g' uv = upval_value g uv"
proof (cases uv)
  case (Open th i)
  with assms(3) obtain t where t: "gbody g th = Some (GThread t)" and i: "i < th_top t"
    by (auto split: option.splits gcbody.splits)
  have len: "th_top t \<le> length (th_stack t)"
    using assms(2) t unfolding typed_def by fastforce
  from similar_cases [OF assms(1) t] obtain b' where b': "gbody g' th = Some b'"
    and eqv: "body_eqv (tmname g) (GThread t) b'" .
  from eqv obtain t' where t': "b' = GThread t'" and e: "thread_eqv t t'"
    by (cases b') auto
  have "th_stack t' ! i = th_stack t ! i" and "i < length (th_stack t')" and "i < length (th_stack t)"
    using e len i unfolding thread_eqv_def by (auto, metis nth_take)
  then show ?thesis using Open t b' t' by simp
qed simp

lemma body_ok_eqv:
  assumes "similar g g'" and "typed g" and "body_ok g b" and "body_eqv (tmname g) b b'"
  shows "body_ok g' b'"
proof -
  note k = similar_kind [OF assms(1)] and v = similar_value_ok [OF assms(1)]
  have kk: "has_kind g' = has_kind g" and vv: "value_ok g' = value_ok g"
    by (simp_all add: fun_eq_iff k v)
  show ?thesis
  proof (cases "(g, b)" rule: body_ok.cases)
    case (4 ga th i)
    then have b': "b' = GUpval (Open th i)" using assms(4) by (cases b') simp_all
    obtain t where t: "gbody g th = Some (GThread t)" and i: "i < th_top t"
      using 4 assms(3) by (auto split: option.splits gcbody.splits)
    from similar_cases [OF assms(1) t] obtain c where "gbody g' th = Some c"
      and "body_eqv (tmname g) (GThread t) c" .
    then show ?thesis using b' i by (cases c) (auto simp: thread_eqv_def)
  next
    case (7 ga h)
    then show ?thesis using assms(3,4) by (cases b') (auto simp: kk vv table_eqv_def)
  next
    case (8 ga t)
    then show ?thesis using assms(3,4) by (cases b') (auto simp: kk vv thread_eqv_def)
  qed (use assms(3,4) in \<open>cases b'; auto simp: kk vv\<close>)+
qed

lemma similar_typed:
  assumes "similar g g'" and "typed g"
  shows "typed g'"
  unfolding typed_def
proof (intro allI impI)
  fix a b'
  assume b': "gbody g' a = Some b'"
  then obtain b where b: "gbody g a = Some b" and e: "body_eqv (tmname g) b b'"
    using similar_body [OF assms(1), of a] by (auto simp: option_rel_Some2)
  then show "body_ok g' b'"
    using body_ok_eqv [OF assms] assms(2) unfolding typed_def by blast
qed

lemma similar_refs:
  assumes "similar g g'" and "typed g"
  shows "refs g' a = refs g a"
proof (cases "gbody g a")
  case None
  then show ?thesis using similar_body [OF assms(1), of a] by (simp add: refs_def)
next
  case (Some b)
  with similar_cases [OF assms(1)] obtain b' where b': "gbody g' a = Some b'"
    and e: "body_eqv (tmname g) b b'" by blast
  have ok: "body_ok g b" using assms(2) Some by (simp add: typed_def)
  have "body_refs g' b' = body_refs g b"
  proof (cases b)
    case (GUpval uv)
    then show ?thesis using e ok similar_upval_value [OF assms, of uv] by (cases b') simp_all
  next
    case (GTable h)
    then show ?thesis using e by (cases b') (simp_all add: table_eqv_def table_refs_def)
  next
    case (GThread t)
    then show ?thesis using e ok by (cases b') (simp_all add: thread_eqv_def thread_refs_def)
  qed (use e in \<open>cases b'; simp\<close>)+
  then show ?thesis using Some b' by (simp add: refs_def)
qed

section \<open>Weak tables\<close>

lemma fst_gfasttm:
  "fst (gfasttm et e g) =
     (case et of
        None \<Rightarrow> None
      | Some a \<Rightarrow>
          (case gbody g a of
             Some (GTable h) \<Rightarrow> if tm_absent (tmname g) h e then None else Some (getstr h (tmname g ! e))
           | _ \<Rightarrow> None))"
  by (auto simp: gfasttm_def luaT_gettm_def tm_absent_def Let_def split: option.splits gcbody.splits)

definition table_mode :: "global_State \<Rightarrow> gtable \<Rightarrow> bool \<times> bool" where
  "table_mode g h = weak_mode (fst (gfasttm (h_metatable h) TM_MODE g)) g"

lemma similar_weak_mode:
  assumes "similar g g'"
  shows "weak_mode m g' = weak_mode m g"
proof -
  have "(case gbody g' s of Some (GString str) \<Rightarrow> f str | _ \<Rightarrow> d) = (case gbody g s of Some (GString str) \<Rightarrow> f str | _ \<Rightarrow> d)"
    for s f and d :: "bool \<times> bool"
    using similar_body [OF assms, of s]
    by (cases "gbody g s"; cases "gbody g' s") (auto split: gcbody.splits)
  then show ?thesis by (simp add: weak_mode_def split: option.splits gvalue.splits)
qed

lemma similar_gfasttm:
  assumes "similar g g'" and "typed g"
  shows "fst (gfasttm et e g') = fst (gfasttm et e g)"
proof (cases et)
  case (Some a)
  show ?thesis
  proof (cases "gbody g a")
    case None
    then show ?thesis using Some similar_body [OF assms(1), of a] by (simp add: fst_gfasttm)
  next
    case (Some b)
    note b = Some
    from similar_cases [OF assms(1) b] obtain b' where b': "gbody g' a = Some b'"
      and e: "body_eqv (tmname g) b b'" .
    show ?thesis
    proof (cases b)
      case (GTable h)
      then obtain h' where h': "b' = GTable h'" and eqv: "table_eqv (tmname g) h h'"
        using e by (cases b') auto
      moreover have "keys_unique h" using assms(2) b GTable unfolding typed_def by fastforce
      ultimately show ?thesis
        using \<open>et = Some a\<close> b b' GTable similarD(1) [OF assms(1)]
        by (simp add: fst_gfasttm table_eqv_def)
    qed (use e b b' \<open>et = Some a\<close> in \<open>cases b'; simp add: fst_gfasttm\<close>)+
  qed
qed (simp add: fst_gfasttm)

lemma similar_table_mode:
  assumes "similar g g'" and "typed g"
  shows "table_mode g' h = table_mode g h"
  unfolding table_mode_def similar_gfasttm [OF assms] similar_weak_mode [OF assms(1)] ..

text \<open>The references a table holds on to.\<close>

definition strong_table_refs :: "bool \<times> bool \<Rightarrow> gtable \<Rightarrow> gaddr set" where
  "strong_table_refs m h = set_option (h_metatable h)
     \<union> (if snd m then {} else \<Union> (vrefs ` set (h_array h)))
     \<union> (\<Union>n\<in>set (live_nodes h). (if fst m then {} else vrefs (fst n)) \<union> (if snd m then {} else vrefs (snd n)))"

text \<open>A weak table after its traversal: the bits of its mark give its mode.\<close>

definition weak_ok :: "global_State \<Rightarrow> gaddr \<Rightarrow> bool" where
  "weak_ok g a \<longleftrightarrow>
     (case gbody g a of
        Some (GTable h) \<Rightarrow>
          (let m = table_mode g h
           in (fst m \<or> snd m) \<and> at_marked g (\<lambda>b. bit b KEYWEAKBIT = fst m \<and> bit b VALUEWEAKBIT = snd m) a
              \<and> (\<forall>r\<in>strong_table_refs m h. nonwhite g r))
      | _ \<Rightarrow> False)"

section \<open>The invariant\<close>

definition settled :: "global_State \<Rightarrow> gaddr \<Rightarrow> bool" where
  "settled g a \<longleftrightarrow> (\<forall>r\<in>refs g a. nonwhite g r) \<or> a \<in> set (weak g) \<and> weak_ok g a"

definition covered :: "gaddr set \<Rightarrow> global_State \<Rightarrow> bool" where
  "covered X g \<longleftrightarrow> (\<forall>a. nonwhite g a \<longrightarrow> a \<in> X \<or> a \<in> set (gray g) \<or> settled g a)"

text \<open>The colour of a marked object says what its state is.\<close>

definition colour_ok :: "global_State \<Rightarrow> gaddr \<Rightarrow> bool" where
  "colour_ok g a \<longleftrightarrow>
     (case gbody g a of
        None \<Rightarrow> True
      | Some (GString _) \<Rightarrow> \<not> black g a
      | Some (GUdata _ _ _) \<Rightarrow> black g a
      | Some (GUpval uv) \<Rightarrow> black g a = (\<not> is_open uv)
      | Some (GThread _) \<Rightarrow> a \<in> set (gray g) \<union> set (grayagain g)
      | Some _ \<Rightarrow> black g a \<or> a \<in> set (gray g) \<union> set (grayagain g) \<union> set (weak g))"

definition lists_ok :: "gaddr set \<Rightarrow> global_State \<Rightarrow> bool" where
  "lists_ok B g \<longleftrightarrow>
     distinct (gray g @ grayagain g @ weak g)
     \<and> (\<forall>a\<in>set (gray g). has_kind g list_kinds a) \<and> (\<forall>a\<in>set (grayagain g). has_kind g {KTable, KThread} a)
     \<and> (\<forall>a\<in>set (weak g). has_kind g {KTable} a)
     \<and> (\<forall>a\<in>set (gray g) \<union> set (grayagain g) \<union> set (weak g). nonwhite g a \<and> (a \<in> B \<or> \<not> black g a))
     \<and> (\<forall>a. nonwhite g a \<longrightarrow> colour_ok g a)"

text \<open>The invariant of the collector while it marks: the objects of \<open>X\<close> may refer to white ones, the
  objects of \<open>B\<close> are being traversed.\<close>

definition ginv :: "gaddr set \<Rightarrow> gaddr set \<Rightarrow> global_State \<Rightarrow> bool" where
  "ginv X B g \<longleftrightarrow> typed g \<and> clean_whites g \<and> covered (X \<union> B) g \<and> lists_ok B g"

lemma marks_lists [simp]:
  assumes "marksE E g g'"
  shows "grayagain g' = grayagain g" and "weak g' = weak g"
proof -
  have eq: "g' = g\<lparr>heap := heap g', gray := gray g'\<rparr>" using assms unfolding marksE_def by blast
  show "grayagain g' = grayagain g" and "weak g' = weak g" by (subst eq, simp)+
qed

lemma weak_ok_mono:
  assumes "similar g g'" and "typed g" and mono: "\<And>r. nonwhite g r \<Longrightarrow> nonwhite g' r"
    and bits: "\<And>P. at_marked g' P a = at_marked g P a" and "weak_ok g a"
  shows "weak_ok g' a"
proof -
  from assms(5) obtain h where h: "gbody g a = Some (GTable h)"
    by (auto simp: weak_ok_def split: option.splits gcbody.splits)
  from similar_cases [OF assms(1) h] obtain b' where b': "gbody g' a = Some b'"
    and e: "body_eqv (tmname g) (GTable h) b'" .
  then obtain h' where h': "b' = GTable h'" and eqv: "table_eqv (tmname g) h h'" by (cases b') auto
  have mode: "table_mode g' h' = table_mode g h"
    using similar_table_mode [OF assms(1,2), of h] eqv by (simp add: table_mode_def table_eqv_def)
  have "strong_table_refs m h' = strong_table_refs m h" for m
    using eqv by (simp add: strong_table_refs_def table_eqv_def)
  then show ?thesis
    using assms(5) h b' h' mode mono bits by (simp add: weak_ok_def Let_def)
qed

lemma settled_mono:
  assumes "similar g g'" and "typed g" and "\<And>r. nonwhite g r \<Longrightarrow> nonwhite g' r"
    and "\<And>P. at_marked g' P a = at_marked g P a" and "set (weak g) \<subseteq> set (weak g')" and "settled g a"
  shows "settled g' a"
  using assms(6) weak_ok_mono [OF assms(1-4)] assms(3,5) unfolding settled_def similar_refs [OF assms(1,2)]
  by blast

text \<open>Marking keeps the invariant.\<close>

lemma fresh_colour_ok:
  assumes "newly_ok g a" shows "colour_ok g a"
  using assms unfolding newly_ok_def colour_ok_def has_kind_def
  by (auto split: option.splits gcbody.splits if_splits)

lemma colour_ok_marks:
  assumes "marks g g'" and "nonwhite g a" and "colour_ok g a"
  shows "colour_ok g' a"
proof -
  have "set (gray g) \<subseteq> set (gray g')"
    using assms(1) by (rule marksE_gray) auto
  then show ?thesis
    using assms(3) marks_lists [OF assms(1)] marksE_at [OF assms(1,2)] marksE_bodies [OF assms(1), of a]
    unfolding colour_ok_def by (auto split: option.splits gcbody.splits)
qed

lemma marks_nonwhite_cases:
  assumes "marks g g'" and "nonwhite g' a"
  obtains "nonwhite g a" | "white g a" "newly_ok g' a"
  using assms marksE_fresh [OF assms(1)] marksE_bodies [OF assms(1)] exists_white_or_nonwhite at_marked_exists
  by (metis empty_iff)

lemma lists_ok_marks:
  assumes m: "marks g g'" and "lists_ok B g"
  shows "lists_ok B g'"
proof -
  obtain new where gray: "gray g' = new @ gray g" and "distinct new"
    and new: "\<And>a. a \<in> set new \<Longrightarrow> white g a \<and> nonwhite g' a \<and> has_kind g list_kinds a"
    by (rule marksE_gray [OF m]) (rule that)
  let ?L = "set (gray g) \<union> set (grayagain g) \<union> set (weak g)"
  have old: "nonwhite g a \<and> (a \<in> B \<or> \<not> black g a)" if "a \<in> ?L" for a
    using assms(2) that unfolding lists_ok_def by blast
  have disj: "set new \<inter> ?L = {}"
    using new old not_white_and_nonwhite [of g] by blast
  have nb: "\<not> black g' a" if "a \<in> set new" for a
    using marksE_fresh [OF m, of a] new [OF that] marksE_kind [OF m] unfolding newly_ok_def by auto
  have "colour_ok g' a" if "nonwhite g' a" for a
    using m that
  proof (cases rule: marks_nonwhite_cases)
    case 1
    then show ?thesis using colour_ok_marks [OF m] assms(2) unfolding lists_ok_def by blast
  next
    case 2
    then show ?thesis by (simp add: fresh_colour_ok)
  qed
  moreover have "nonwhite g' a \<and> (a \<in> B \<or> \<not> black g' a)" if "a \<in> set new \<union> ?L" for a
    using that old [of a] new [of a] nb [of a] marksE_at [OF m, of a] by auto
  moreover have "distinct (gray g' @ grayagain g' @ weak g')"
    using assms(2) disj \<open>distinct new\<close> unfolding lists_ok_def gray marks_lists [OF m] by auto
  moreover have "\<forall>a\<in>set (gray g'). has_kind g' list_kinds a"
    using assms(2) new unfolding lists_ok_def gray marksE_kind [OF m] by auto
  ultimately show ?thesis
    using assms(2) unfolding lists_ok_def gray marks_lists [OF m] marksE_kind [OF m] by auto
qed

lemma covered_marks:
  assumes m: "marks g g'" and "typed g" and "covered X g"
  shows "covered X g'"
  unfolding covered_def
proof (intro allI impI)
  fix a
  assume nw: "nonwhite g' a"
  have gray: "set (gray g) \<subseteq> set (gray g')"
    using m by (rule marksE_gray) auto
  from m nw show "a \<in> X \<or> a \<in> set (gray g') \<or> settled g' a"
  proof (cases rule: marks_nonwhite_cases)
    case 1
    then consider "a \<in> X" | "a \<in> set (gray g)" | "settled g a"
      using assms(3) unfolding covered_def by blast
    then show ?thesis
    proof cases
      case 3
      then have "settled g' a"
        by (intro settled_mono [OF marks_similar [OF m] assms(2)])
          (use marksE_nonwhite [OF m] marksE_at [OF m 1] marks_lists [OF m] in auto)
      then show ?thesis by blast
    qed (use gray in auto)
  next
    case 2
    then show ?thesis by (auto simp: newly_ok_def settled_def split: if_splits)
  qed
qed

lemma ginv_marks: "marks g g' \<Longrightarrow> ginv X B g \<Longrightarrow> ginv X B g'"
  unfolding ginv_def using covered_marks lists_ok_marks marks_clean_whites marksE_typed by metis

text \<open>So does a change of the bodies that the program does not see.\<close>

definition same_marks :: "global_State \<Rightarrow> global_State \<Rightarrow> bool" where
  "same_marks g g' \<longleftrightarrow> (\<forall>a P. at_marked g' P a = at_marked g P a)
     \<and> gray g' = gray g \<and> grayagain g' = grayagain g \<and> weak g' = weak g"

lemma same_marks_refl [simp]: "same_marks g g"
  by (simp add: same_marks_def)

lemma same_marks_trans: "same_marks g g1 \<Longrightarrow> same_marks g1 g2 \<Longrightarrow> same_marks g g2"
  by (simp add: same_marks_def)

lemma ginv_similar:
  assumes s: "similar g g'" and m: "same_marks g g'" and "ginv X B g"
  shows "ginv X B g'"
proof -
  have at: "at_marked g' P a = at_marked g P a" for P a
    using m by (simp add: same_marks_def)
  have lists: "gray g' = gray g" "grayagain g' = grayagain g" "weak g' = weak g"
    using m by (simp_all add: same_marks_def)
  have t: "typed g" using assms(3) by (simp add: ginv_def)
  have colour: "colour_ok g' a = colour_ok g a" for a
  proof (cases "gbody g a")
    case None
    then show ?thesis using similar_body [OF s, of a] by (simp add: colour_ok_def)
  next
    case (Some b)
    from similar_cases [OF s Some] obtain b' where "gbody g' a = Some b'" and "body_eqv (tmname g) b b'" .
    then show ?thesis using Some by (cases b; cases b') (simp_all add: colour_ok_def at lists)
  qed
  have "settled g' a" if "settled g a" for a
    by (rule settled_mono [OF s t]) (use that at lists in simp_all)
  then have "covered (X \<union> B) g'"
    using assms(3) unfolding ginv_def covered_def at lists by blast
  moreover have "lists_ok B g'"
    using assms(3) unfolding ginv_def lists_ok_def lists at similar_kind [OF s] colour by simp
  moreover have "clean_whites g'"
    using assms(3) unfolding ginv_def clean_whites_def at by simp
  ultimately show ?thesis
    using similar_typed [OF s t] by (simp add: ginv_def)
qed

lemma similar_set_body:
  assumes "gbody g a = Some b" and "body_eqv (tmname g) b b'"
  shows "similar g (set_body b' a g)" and "same_marks g (set_body b' a g)"
proof -
  have "set_body b' a g = g\<lparr>heap := heap (set_body b' a g)\<rparr>"
    by (simp add: set_body_def gput_def)
  then show "similar g (set_body b' a g)"
    using assms by (simp add: similar_def gbody_set_body option.rel_refl)
  show "same_marks g (set_body b' a g)"
    by (simp add: same_marks_def)
qed

lemma gfasttm_similar:
  "similar g (snd (gfasttm et e g)) \<and> same_marks g (snd (gfasttm et e g))"
proof -
  have "table_eqv (tmname g) h (h\<lparr>h_flags := set_bit e (h_flags h)\<rparr>)" if "getstr h (tmname g ! e) = GNil" for h
  proof -
    have str: "getstr (h\<lparr>h_flags := f\<rparr>) = getstr h" for f by (simp add: getstr_def fun_eq_iff)
    then have "tm_absent (tmname g) (h\<lparr>h_flags := set_bit e (h_flags h)\<rparr>) e' = tm_absent (tmname g) h e'" for e'
      using that by (auto simp: tm_absent_def bit_set_bit_iff)
    then show ?thesis by (simp add: table_eqv_def str live_nodes_def keys_unique_def)
  qed
  then show ?thesis
    by (auto simp: gfasttm_def luaT_gettm_def Let_def intro!: similar_set_body split: option.splits gcbody.splits)
qed

lemma find_clean:
  assumes "distinct (filter (\<lambda>k. \<exists>a. k = GObj a) (map fst ns))"
  shows "(case find (\<lambda>(k, v). k = GObj name) (map (\<lambda>n. if snd n = GNil then removeentry n else n) ns) of
            None \<Rightarrow> GNil | Some (k, v) \<Rightarrow> v)
       = (case find (\<lambda>(k, v). k = GObj name) ns of None \<Rightarrow> GNil | Some (k, v) \<Rightarrow> v)"
  using assms
proof (induction ns)
  case Nil
  then show ?case by simp
next
  case (Cons n ns)
  obtain k v where n: "n = (k, v)" by (cases n)
  have IH: "distinct (filter (\<lambda>k. \<exists>a. k = GObj a) (map fst ns))"
    using Cons.prems by (auto split: if_splits)
  show ?case
  proof (cases "k = GObj name \<and> v = GNil")
    case True
    then have "\<forall>m\<in>set ns. fst m \<noteq> GObj name" using Cons.prems n by force
    then have "find (\<lambda>(k, v). k = GObj name) (map (\<lambda>n. if snd n = GNil then removeentry n else n) ns) = None"
      by (auto simp: find_None_iff removeentry_def split: option.splits)
    then show ?thesis using True n by (simp add: removeentry_def)
  next
    case False
    then show ?thesis
      using Cons.IH [OF IH] n by (cases k) (auto simp: removeentry_def)
  qed
qed

lemma clean_nodes_similar:
  assumes "typed g"
  shows "similar g (clean_nodes a g) \<and> same_marks g (clean_nodes a g)"
proof -
  have "table_eqv tm h (h\<lparr>h_node := map (\<lambda>n. if snd n = GNil then removeentry n else n) (h_node h)\<rparr>)"
    (is "table_eqv tm h ?h") if u: "keys_unique h" for tm h
  proof -
    have str: "getstr ?h = getstr h"
      using find_clean u by (simp add: getstr_def keys_unique_def fun_eq_iff)
    then have abs: "tm_absent tm ?h e = tm_absent tm h e" for e
      by (simp add: tm_absent_def)
    have "filter (\<lambda>n. snd n \<noteq> GNil) (map (\<lambda>n. if snd n = GNil then removeentry n else n) ns)
        = filter (\<lambda>n. snd n \<noteq> GNil) ns" for ns
      by (induction ns) (auto simp: removeentry_def split: option.splits)
    then have live: "live_nodes ?h = live_nodes h"
      by (simp add: live_nodes_def)
    have "filter (\<lambda>k. \<exists>a. k = GObj a) (map fst (map (\<lambda>n. if snd n = GNil then removeentry n else n) ns))
        = filter (\<lambda>k. \<exists>a. k = GObj a) (map fst (filter (\<lambda>n. snd n \<noteq> GNil) ns))" for ns
    proof (induction ns)
      case (Cons n ns)
      then show ?case by (cases "fst n") (auto simp: removeentry_def)
    qed simp
    moreover have "distinct (filter (\<lambda>k. \<exists>a. k = GObj a) (map fst (filter P ns)))"
      if "distinct (filter (\<lambda>k. \<exists>a. k = GObj a) (map fst ns))" for P ns
      using that by (induction ns) (auto split: if_splits)
    ultimately have "keys_unique ?h"
      using u by (simp add: keys_unique_def)
    then show ?thesis
      using str abs live by (simp add: table_eqv_def)
  qed
  then show ?thesis
    using assms unfolding typed_def clean_nodes_def
    by (auto intro!: similar_set_body split: option.splits gcbody.splits) fastforce+
qed

section \<open>Changing the stack of a thread\<close>

lemma set_nil_slots_prefix:
  "length (set_nil_slots lo hi st) = length st" "take lo (set_nil_slots lo hi st) = take lo st"
proof -
  have "length (fold (\<lambda>i st. st[i := GNil]) is st) = length st" for "is"
    by (induction "is" arbitrary: st) simp_all
  moreover have "take lo (fold (\<lambda>i st. st[i := GNil]) is st) = take lo st" if "\<forall>i\<in>set is. lo \<le> i" for "is"
    using that by (induction "is" arbitrary: st) simp_all
  ultimately show "length (set_nil_slots lo hi st) = length st" "take lo (set_nil_slots lo hi st) = take lo st"
    by (simp_all add: set_nil_slots_def)
qed

lemma fold_max_ge: "x \<le> fold max xs (x :: nat)"
  by (induction xs arbitrary: x) (auto intro: order_trans max.cobounded2)

lemma similar_totalbytes [simp]: "similar g (g\<lparr>totalbytes := n\<rparr>)" "same_marks g (g\<lparr>totalbytes := n\<rparr>)"
  by (simp_all add: similar_def same_marks_def option.rel_refl)

lemma set_thread_similar:
  assumes "gbody g a = Some (GThread t)" and "thread_eqv t t'"
  shows "similar g (set_thread a t' g) \<and> same_marks g (set_thread a t' g)
     \<and> gbody (set_thread a t' g) a = Some (GThread t')"
  using similar_set_body [OF assms(1), of "GThread t'"] assms by (simp add: set_thread_def gbody_set_body)

lemma set_thread_bytes_similar:
  assumes "gbody g a = Some (GThread t)" and "thread_eqv t t'"
  shows "similar g (set_thread a t' (g\<lparr>totalbytes := n\<rparr>)) \<and> same_marks g (set_thread a t' (g\<lparr>totalbytes := n\<rparr>))
     \<and> gbody (set_thread a t' (g\<lparr>totalbytes := n\<rparr>)) a = Some (GThread t')"
  using set_thread_similar [of "g\<lparr>totalbytes := n\<rparr>" a t t'] assms
    similar_trans [OF similar_totalbytes(1)] same_marks_trans [OF similar_totalbytes(2)] by auto

lemma checkstacksizes_similar:
  assumes "gbody g a = Some (GThread t)" and lim: "th_top t \<le> lim"
  shows "similar g (checkstacksizes a t lim g) \<and> same_marks g (checkstacksizes a t lim g)"
proof -
  define c where "c \<longleftrightarrow> 4 * (length (th_ci_tops t) - 1) < th_size_ci t \<and> 2 * BASIC_CI_SIZE < th_size_ci t"
  obtain t1 g1 where 1: "(t1, g1) = (if c then luaD_reallocCI a t (th_size_ci t div 2) g else (t, g))"
    by (cases "if c then luaD_reallocCI a t (th_size_ci t div 2) g else (t, g)") auto
  have t1: "th_top t1 = th_top t" "th_stack t1 = th_stack t"
    using 1 by (auto simp: luaD_reallocCI_def Let_def split: if_splits)
  have s1: "similar g g1 \<and> same_marks g g1 \<and> gbody g1 a = Some (GThread t1)"
    using 1 set_thread_bytes_similar [OF assms(1)] assms(1)
    by (auto simp: luaD_reallocCI_def Let_def thread_eqv_def split: if_splits)
  have s2: "similar g1 (snd (luaD_reallocstack a t1 (length (th_stack t1) div 2) g1))
      \<and> same_marks g1 (snd (luaD_reallocstack a t1 (length (th_stack t1) div 2) g1))"
    if "4 * lim < length (th_stack t1)"
  proof -
    let ?n = "length (th_stack t1) div 2 + 1 + EXTRA_STACK"
    have "th_top t1 \<le> ?n" using that lim t1 by simp
    then have "thread_eqv t1 (t1\<lparr>th_stack := resize_list ?n GNil (th_stack t1)\<rparr>)"
      by (simp add: thread_eqv_def resize_list_def min_def)
    then show ?thesis
      using set_thread_bytes_similar s1 by (simp add: luaD_reallocstack_def Let_def)
  qed
  have eq: "checkstacksizes a t lim g =
      (if th_size_ci t > LUAI_MAXCALLS then g
       else if 4 * lim < length (th_stack t1) \<and> 2 * (BASIC_STACK_SIZE + EXTRA_STACK) < length (th_stack t1)
       then snd (luaD_reallocstack a t1 (length (th_stack t1) div 2) g1) else g1)"
    unfolding checkstacksizes_def Let_def c_def [symmetric] 1 [symmetric] by simp
  show ?thesis
    unfolding eq using s1 s2 similar_trans same_marks_trans by auto
qed

section \<open>One step of propagation\<close>

text \<open>Progress: nothing becomes white again, the lists for the atomic phase only grow, and a measure
  decreases.\<close>

definition work :: "global_State \<Rightarrow> nat" where
  "work g = card {a. white g a} + length (gray g)"

definition grows :: "global_State \<Rightarrow> global_State \<Rightarrow> bool" where
  "grows g g' \<longleftrightarrow> similar g g' \<and> (\<forall>a. nonwhite g a \<longrightarrow> nonwhite g' a)
     \<and> set (grayagain g) \<subseteq> set (grayagain g') \<and> set (weak g) \<subseteq> set (weak g') \<and> work g' \<le> work g"

lemma finite_white: "finite {a. white g a}"
proof (rule finite_subset)
  show "{a. white g a} \<subseteq> {..<length (heap g)}"
    by (auto simp: at_marked_def gobj_def split: if_splits option.splits)
qed simp

lemma grows_refl [simp]: "grows g g"
  by (simp add: grows_def)

lemma grows_trans: "grows g g1 \<Longrightarrow> grows g1 g2 \<Longrightarrow> grows g g2"
  unfolding grows_def using similar_trans by fastforce

lemma marks_grows:
  assumes "marks g g'"
  shows "grows g g'"
proof -
  obtain new where gray: "gray g' = new @ gray g" and d: "distinct new"
    and new: "\<And>a. a \<in> set new \<Longrightarrow> white g a \<and> nonwhite g' a \<and> has_kind g list_kinds a"
    by (rule marksE_gray [OF assms]) (rule that)
  have "{a. white g' a} \<union> set new \<subseteq> {a. white g a}"
    using new marksE_white [OF assms] by blast
  moreover have "{a. white g' a} \<inter> set new = {}"
    using new not_white_and_nonwhite [of g'] by blast
  ultimately have "card {a. white g' a} + card (set new) \<le> card {a. white g a}"
    by (metis card_Un_disjoint card_mono finite_set finite_white)
  then have "work g' \<le> work g"
    using gray distinct_card [OF d] by (simp add: work_def)
  then show ?thesis
    using marks_similar [OF assms] marksE_nonwhite [OF assms] marks_lists [OF assms] by (simp add: grows_def)
qed

lemma same_marks_grows: "similar g g' \<Longrightarrow> same_marks g g' \<Longrightarrow> grows g g'"
  by (simp add: grows_def same_marks_def work_def)

lemma colour_ok_relist:
  assumes s: "similar g p" and at: "\<And>P. at_marked p P a = at_marked g P a" and "colour_ok g a"
    and "a \<in> set (gray g) \<union> set (grayagain g) \<Longrightarrow> a \<in> set (gray p) \<union> set (grayagain p)"
    and "a \<in> set (weak g) \<Longrightarrow> a \<in> set (gray p) \<union> set (grayagain p) \<union> set (weak p)"
  shows "colour_ok p a"
proof (cases "gbody g a")
  case None
  then show ?thesis using similar_body [OF s, of a] by (simp add: colour_ok_def)
next
  case (Some b)
  from similar_cases [OF s Some] obtain b' where "gbody p a = Some b'" and "body_eqv (tmname g) b b'" .
  then show ?thesis using Some assms(3-5) by (cases b; cases b') (auto simp: colour_ok_def at)
qed

text \<open>Taking the object \<open>a\<close> out of the list of gray objects, to traverse it.\<close>

lemma ginv_begin:
  assumes inv: "ginv X {} g" and gray: "gray g = a # rest" and s: "similar g p"
    and other: "\<And>b P. b \<noteq> a \<Longrightarrow> at_marked p P b = at_marked g P b" and self: "nonwhite p a"
    and gray': "gray p = rest" and weak: "weak p = weak g" and colour: "colour_ok p a"
    and again: "grayagain p = grayagain g \<or> grayagain p = a # grayagain g \<and> has_kind g {KThread} a"
  shows "ginv X {a} p" and "work p < work g"
proof -
  have t: "typed g" and c: "clean_whites g" and cov: "covered X g" and l: "lists_ok {} g"
    using inv by (simp_all add: ginv_def)
  have nw: "nonwhite g a" using l gray by (simp add: lists_ok_def)
  have mono: "nonwhite p r" if "nonwhite g r" for r
    using that other [of r] self by (cases "r = a") auto
  have "covered (insert a X) p"
    unfolding covered_def
  proof (intro allI impI)
    fix b
    assume b: "nonwhite p b"
    show "b \<in> insert a X \<or> b \<in> set (gray p) \<or> settled p b"
    proof (cases "b = a")
      case False
      then have "b \<in> X \<or> b \<in> set (gray g) \<or> settled g b"
        using b other cov unfolding covered_def by blast
      moreover have "settled p b" if "settled g b"
        by (rule settled_mono [OF s t]) (use that mono False other weak in simp_all)
      ultimately show ?thesis using gray gray' False by auto
    qed simp
  qed
  moreover have "clean_whites p"
    using c other self not_white_and_nonwhite unfolding clean_whites_def by metis
  moreover have "lists_ok {a} p"
  proof -
    have "colour_ok p b" if "nonwhite p b" for b
    proof (cases "b = a")
      case False
      have "nonwhite g b" using that other [OF False] by simp
      then show ?thesis
        using l False gray gray' weak again other [OF False] unfolding lists_ok_def
        by (intro colour_ok_relist [OF s]) auto
    qed (use colour in simp)
    moreover have "has_kind p K b = has_kind g K b" for K b
      by (rule similar_kind [OF s])
    moreover have "nonwhite p b \<and> (b \<in> {a} \<or> \<not> black p b)"
      if "b \<in> set (gray p) \<union> set (grayagain p) \<union> set (weak p)" for b
      using that l gray gray' weak again self other [of b] unfolding lists_ok_def by (cases "b = a") auto
    moreover have "distinct (gray p @ grayagain p @ weak p)"
      using l gray again unfolding lists_ok_def gray' weak by auto
    ultimately show ?thesis
      using l gray again has_kind_mono [of g "{KThread}" a "{KTable, KThread}"] unfolding lists_ok_def gray' weak
      by auto
  qed
  ultimately show "ginv X {a} p"
    using similar_typed [OF s t] by (simp add: ginv_def)
  have "white p b = white g b" for b
    using other [of b] self nw not_white_and_nonwhite by (cases "b = a") blast+
  then show "work p < work g"
    by (simp add: work_def gray gray')
qed

lemma ginv_end:
  assumes "ginv X {a} g" and "settled g a" and "a \<in> set (gray g) \<union> set (grayagain g) \<union> set (weak g) \<Longrightarrow> \<not> black g a"
  shows "ginv X {} g"
proof -
  have "covered X g"
    using assms(1,2) unfolding ginv_def covered_def by auto
  moreover have "lists_ok {} g"
  proof -
    have l: "lists_ok {a} g" using assms(1) by (simp add: ginv_def)
    have "\<forall>b\<in>set (gray g) \<union> set (grayagain g) \<union> set (weak g). b \<in> {a} \<or> \<not> black g b"
      using l unfolding lists_ok_def by simp
    then have "\<forall>b\<in>set (gray g) \<union> set (grayagain g) \<union> set (weak g). \<not> black g b"
      using assms(3) by (metis singletonD)
    then show ?thesis using l unfolding lists_ok_def by simp
  qed
  ultimately show ?thesis using assms(1) by (simp add: ginv_def)
qed

lemma settled_refs: "\<forall>r\<in>refs g a. nonwhite g r \<Longrightarrow> settled g a"
  by (simp add: settled_def)

lemma marks_inv:
  assumes "ginv X B g" and "marks g g'"
  shows "ginv X B g'" and "typed g'" and "clean_whites g'"
  using ginv_marks [OF assms(2,1)] by (simp_all add: ginv_def)

text \<open>Closures and prototypes: everything they refer to is marked.\<close>

lemma traverseCclosure_marks:
  assumes "typed g" and "clean_whites g" and "body_ok g (GCClosure env vs)"
  shows "marks g (traverseCclosure env vs g)
    \<and> (\<forall>r\<in>body_refs g (GCClosure env vs). nonwhite (traverseCclosure env vs g) r)"
proof -
  let ?g1 = "markobject env g"
  have ok: "has_kind g {KTable} env" "list_all (value_ok g) vs" using assms(3) by simp_all
  have 1: "marks g ?g1" "nonwhite ?g1 env" using markobject_marks [OF assms(1,2) ok(1)] .
  have "typed ?g1" "clean_whites ?g1" "list_all (value_ok ?g1) vs"
    using marksE_typed [OF 1(1)] marks_clean_whites [OF 1(1)] assms(1,2) ok(2)
    by (simp_all add: list_all_iff marks_value_ok [OF 1(1)])
  from fold_markvalue [OF this]
  have 2: "marks ?g1 (traverseCclosure env vs g)"
    "\<forall>r\<in>\<Union> (vrefs ` set vs). nonwhite (traverseCclosure env vs g) r"
    by (simp_all add: traverseCclosure_def)
  show ?thesis
    using marksE_trans [OF 1(1) 2(1)] 2(2) marksE_nonwhite [OF 2(1) 1(2)] by auto
qed

lemma traverseLclosure_marks:
  assumes "typed g" and "clean_whites g" and "body_ok g (GLClosure env p us)"
  shows "marks g (traverseLclosure env p us g)
    \<and> (\<forall>r\<in>body_refs g (GLClosure env p us). nonwhite (traverseLclosure env p us g) r)"
proof -
  let ?g1 = "markobject env g"
  let ?g2 = "markobject p ?g1"
  have ok: "has_kind g {KTable} env" "has_kind g {KProto} p" "list_all (pred_option (has_kind g {KUpval})) us"
    using assms(3) by (auto simp: list_all_iff split: option.splits)
  have 1: "marks g ?g1" "nonwhite ?g1 env" using markobject_marks [OF assms(1,2) ok(1)] .
  have t1: "typed ?g1" "clean_whites ?g1" "has_kind ?g1 {KProto} p"
    using marksE_typed [OF 1(1)] marks_clean_whites [OF 1(1)] assms(1,2) ok(2)
    by (simp_all add: marksE_kind [OF 1(1)])
  have 2: "marks ?g1 ?g2" "nonwhite ?g2 p" using markobject_marks [OF t1] .
  have 12: "marks g ?g2" using marksE_trans [OF 1(1) 2(1)] .
  have "typed ?g2" "clean_whites ?g2" "list_all (pred_option (has_kind ?g2 {KUpval})) us"
    using marksE_typed [OF 12] marks_clean_whites [OF 12] assms(1,2) ok(3)
    by (simp_all add: list_all_iff marks_pred_option [OF 12])
  from fold_mark_opt [OF this]
  have 3: "marks ?g2 (traverseLclosure env p us g)"
    "\<forall>r\<in>\<Union> (set_option ` set us). nonwhite (traverseLclosure env p us g) r"
    by (simp_all add: traverseLclosure_def)
  show ?thesis
    using marksE_trans [OF 12 3(1)] 3(2) marksE_nonwhite [OF 3(1)] marksE_nonwhite [OF 2(1)] 1(2) 2(2) by auto
qed

lemma traverseproto_marks:
  assumes t: "typed g" and c: "clean_whites g" and "body_ok g (GProto p)"
  shows "marks g (traverseproto p g) \<and> (\<forall>r\<in>body_refs g (GProto p). nonwhite (traverseproto p g) r)"
proof -
  define g1 where "g1 = stringmark (pr_source p) g"
  define g2 where "g2 = fold markvalue (pr_k p) g1"
  define g3 where "g3 = fold stringmark (pr_upvalues p) g2"
  define g4 where "g4 = fold mark_opt (pr_p p) g3"
  define g5 where "g5 = fold stringmark (pr_locvars p) g4"
  have pre: "typed h" "clean_whites h" "list_all (value_ok h) vs = list_all (value_ok g) vs"
    "list_all (pred_option (has_kind h K)) us = list_all (pred_option (has_kind g K)) us" if "marks g h" for h vs us K
    using marksE_typed [OF that] marks_clean_whites [OF that] t c
    by (simp_all add: list_all_iff marks_value_ok [OF that] marks_pred_option [OF that])
  have ok: "pred_option (has_kind g {KString}) (pr_source p)" "list_all (value_ok g) (pr_k p)"
    "list_all (pred_option (has_kind g {KString})) (pr_upvalues p)"
    "list_all (pred_option (has_kind g {KProto})) (pr_p p)"
    "list_all (pred_option (has_kind g {KString})) (pr_locvars p)"
    using assms(3) by simp_all
  have 1: "marks g g1" and n1: "\<forall>r\<in>set_option (pr_source p). nonwhite g1 r"
    unfolding g1_def using stringmark_marks [OF t c ok(1)] .
  have m2: "marks g1 g2" and n2: "\<forall>r\<in>\<Union> (vrefs ` set (pr_k p)). nonwhite g2 r"
    unfolding g2_def using fold_markvalue [OF pre(1) [OF 1] pre(2) [OF 1], of "pr_k p"] pre(3) [OF 1] ok(2) by blast+
  have 2: "marks g g2" using marksE_trans [OF 1 m2] .
  have m3: "marks g2 g3" and n3: "\<forall>r\<in>\<Union> (set_option ` set (pr_upvalues p)). nonwhite g3 r"
    unfolding g3_def using fold_stringmark [OF pre(1) [OF 2] pre(2) [OF 2], of "pr_upvalues p"] pre(4) [OF 2] ok(3) by blast+
  have 3: "marks g g3" using marksE_trans [OF 2 m3] .
  have m4: "marks g3 g4" and n4: "\<forall>r\<in>\<Union> (set_option ` set (pr_p p)). nonwhite g4 r"
    unfolding g4_def using fold_mark_opt [OF pre(1) [OF 3] pre(2) [OF 3], of "{KProto}" "pr_p p"] pre(4) [OF 3] ok(4) by blast+
  have 4: "marks g g4" using marksE_trans [OF 3 m4] .
  have m5: "marks g4 g5" and n5: "\<forall>r\<in>\<Union> (set_option ` set (pr_locvars p)). nonwhite g5 r"
    unfolding g5_def using fold_stringmark [OF pre(1) [OF 4] pre(2) [OF 4], of "pr_locvars p"] pre(4) [OF 4] ok(5) by blast+
  have up: "nonwhite g1 r \<Longrightarrow> nonwhite g5 r" "nonwhite g2 r \<Longrightarrow> nonwhite g5 r" "nonwhite g3 r \<Longrightarrow> nonwhite g5 r"
    "nonwhite g4 r \<Longrightarrow> nonwhite g5 r" for r
    using marksE_nonwhite [OF m5] marksE_nonwhite [OF m4] marksE_nonwhite [OF m3] marksE_nonwhite [OF m2]
    by blast+
  have "traverseproto p g = g5"
    by (simp add: traverseproto_def g1_def g2_def g3_def g4_def g5_def)
  moreover have "nonwhite g5 r" if "r \<in> proto_refs p" for r
    using that unfolding proto_refs_def
    by (elim UnE) (rule up(1), erule bspec [OF n1] | rule up(2), erule bspec [OF n2]
        | rule up(3), erule bspec [OF n3] | rule up(4), erule bspec [OF n4] | erule bspec [OF n5])+
  ultimately show ?thesis
    using marksE_trans [OF 4 m5] by simp
qed

end
