(* ===== verification/LGcStep.thy ===== *)
theory LGcStep
  imports LGcTrav
begin

text \<open>
  Propagation: a traversal leaves the object settled, \<open>propagatemark\<close> keeps the invariant and makes
  progress, and \<open>propagateall\<close> ends with no gray object left.
\<close>

section \<open>Tables\<close>

definition node_refs :: "bool \<Rightarrow> bool \<Rightarrow> gvalue \<times> gvalue \<Rightarrow> gaddr set" where
  "node_refs wk wv n =
     (if snd n = GNil then {} else (if wk then {} else vrefs (fst n)) \<union> (if wv then {} else vrefs (snd n)))"

definition node_ok :: "global_State \<Rightarrow> gvalue \<times> gvalue \<Rightarrow> bool" where
  "node_ok g n \<longleftrightarrow> (snd n \<noteq> GNil \<longrightarrow> value_ok g (fst n) \<and> value_ok g (snd n))"

lemma mark_node_marks:
  assumes "typed g" and "clean_whites g" and "node_ok g n"
  shows "marks g (mark_node wk wv n g) \<and> (\<forall>r\<in>node_refs wk wv n. nonwhite (mark_node wk wv n g) r)"
proof (cases "snd n = GNil")
  case True
  then show ?thesis by (simp add: mark_node_def node_refs_def)
next
  case False
  define g1 where "g1 = (if wk then g else markvalue (fst n) g)"
  define g2 where "g2 = (if wv then g1 else markvalue (snd n) g1)"
  have ok: "value_ok g (fst n)" "value_ok g (snd n)" using assms(3) False by (simp_all add: node_ok_def)
  have 1: "marks g g1" and n1: "wk \<or> (\<forall>r\<in>vrefs (fst n). nonwhite g1 r)"
    unfolding g1_def using markvalue_marks [OF assms(1,2) ok(1)] by auto
  have "typed g1" "clean_whites g1" "value_ok g1 (snd n)"
    using marksE_typed [OF 1] marks_clean_whites [OF 1] marks_value_ok [OF 1] assms(1,2) ok(2) by auto
  then have 2: "marks g1 g2" and n2: "wv \<or> (\<forall>r\<in>vrefs (snd n). nonwhite g2 r)"
    unfolding g2_def using markvalue_marks by auto
  have "mark_node wk wv n g = g2"
    using False by (simp add: mark_node_def g1_def g2_def Let_def)
  then show ?thesis
    using marksE_trans [OF 1 2] n1 n2 marksE_nonwhite [OF 2] by (auto simp: node_refs_def)
qed

lemma fold_mark_node:
  assumes "typed g" and "clean_whites g" and "list_all (node_ok g) ns"
  shows "marks g (fold (mark_node wk wv) ns g)
    \<and> (\<forall>r\<in>\<Union> (node_refs wk wv ` set ns). nonwhite (fold (mark_node wk wv) ns g) r)"
  using assms
proof (rule fold_spec)
  show "marks h (mark_node wk wv n h) \<and> (\<forall>r\<in>node_refs wk wv n. nonwhite (mark_node wk wv n h) r)"
    if "typed h" "clean_whites h" "node_ok h n" for n h
    using that by (rule mark_node_marks)
  show "node_ok h n" if "marks g h" "node_ok g n" for n h
    using that by (simp add: node_ok_def marks_value_ok)
qed

lemma live_node_refs:
  "(\<Union>n\<in>set (live_nodes h). (if wk then {} else vrefs (fst n)) \<union> (if wv then {} else vrefs (snd n)))
     = \<Union> (node_refs wk wv ` set (h_node h))"
  by (auto simp: live_nodes_def node_refs_def split: if_splits)

lemma strong_table_refs_alt:
  "strong_table_refs (wk, wv) h = set_option (h_metatable h) \<union> (if wv then {} else \<Union> (vrefs ` set (h_array h)))
     \<union> \<Union> (node_refs wk wv ` set (h_node h))"
  by (simp add: strong_table_refs_def live_node_refs)

lemma table_refs_strong: "table_refs h = strong_table_refs (False, False) h"
  by (simp add: table_refs_def strong_table_refs_def)

text \<open>Linking a table into the list of weak tables.\<close>

lemma link_weak:
  fixes wk wv :: bool
  assumes inv: "ginv X {a} g" and h: "gbody g a = Some (GTable h)" and nw: "nonwhite g a"
    and out: "a \<notin> set (gray g) \<union> set (grayagain g) \<union> set (weak g)"
  defines "g' \<equiv> (set_marked (set_weak_bits wk wv) a g)\<lparr>weak := a # weak g\<rparr>"
  shows "ginv X {a} g'" and "grows g g'" and "nonwhite g' a" and "similar g g'"
    and "at_marked g' (\<lambda>b. bit b KEYWEAKBIT = wk \<and> bit b VALUEWEAKBIT = wv) a"
proof -
  have t: "typed g" and c: "clean_whites g" and cov: "covered (insert a X) g" and l: "lists_ok {a} g"
    using inv by (simp_all add: ginv_def)
  have "similar g (set_marked (set_weak_bits wk wv) a g)"
    by (rule marks_similar [OF marksE_set_marked [of a "{a}"]]) simp_all
  moreover have "similar x (x\<lparr>weak := w\<rparr>)" for x w
    by (simp add: similar_def option.rel_refl)
  ultimately show s: "similar g g'"
    unfolding g'_def by (rule similar_trans)
  have other: "at_marked g' P b = at_marked g P b" if "b \<noteq> a" for b P
    using that by (simp add: g'_def heap_simps)
  have white: "white g' b = white g b" "nonwhite g' b = nonwhite g b" "black g' b = black g b" for b
    by (auto simp: g'_def heap_simps)
  show "nonwhite g' a" using nw white by simp
  show "at_marked g' (\<lambda>b. bit b KEYWEAKBIT = wk \<and> bit b VALUEWEAKBIT = wv) a"
    using nw by (simp add: g'_def heap_simps) (auto simp: at_marked_def split: option.splits)
  have lists: "gray g' = gray g" "grayagain g' = grayagain g" "weak g' = a # weak g"
    by (simp_all add: g'_def)
  have "covered (insert a X) g'"
    unfolding covered_def
  proof (intro allI impI)
    fix b
    assume b: "nonwhite g' b"
    show "b \<in> insert a X \<or> b \<in> set (gray g') \<or> settled g' b"
    proof (cases "b = a")
      case False
      have "settled g' b" if "settled g b"
        by (rule settled_mono [OF s t]) (use that white False other lists in auto)
      moreover have "b \<in> insert a X \<or> b \<in> set (gray g) \<or> settled g b"
        using cov b white(2) [of b] by (simp add: covered_def)
      ultimately show ?thesis using lists(1) by auto
    qed simp
  qed
  moreover have "clean_whites g'"
    using c white by (simp add: clean_whites_def)
  moreover have "lists_ok {a} g'"
  proof -
    have "colour_ok g' b" if "nonwhite g' b" for b
    proof (cases "b = a")
      case True
      then show ?thesis using h lists by (simp add: colour_ok_def g'_def)
    next
      case False
      then show ?thesis
        using that l other [OF False] lists white unfolding lists_ok_def
        by (intro colour_ok_relist [OF s]) auto
    qed
    moreover have "distinct (gray g' @ grayagain g' @ weak g')"
      using l out unfolding lists_ok_def lists by auto
    moreover have "has_kind g {KTable} a" using h by (simp add: has_kind_def)
    ultimately show ?thesis
      using l nw unfolding lists_ok_def lists similar_kind [OF s] white by auto
  qed
  ultimately show "ginv X {a} g'"
    using similar_typed [OF s t] by (simp add: ginv_def)
  show "grows g g'"
    using s white lists by (auto simp: grows_def work_def)
qed

lemma marks_not_gray:
  assumes "marks g g'" and "nonwhite g a" and "a \<notin> set (gray g)"
  shows "a \<notin> set (gray g')"
  by (rule marksE_gray [OF assms(1)]) (use assms(2,3) not_white_and_nonwhite in auto)

lemma unblack_weak:
  assumes inv: "ginv X {a} g" and a: "a \<in> set (weak g)"
  defines "g' \<equiv> set_marked black2gray a g"
  shows "ginv X {a} g'" and "grows g g'" and "similar g g'" and "\<not> black g' a"
    and "weak_ok g a \<Longrightarrow> weak_ok g' a"
proof -
  have t: "typed g" and c: "clean_whites g" and cov: "covered (insert a X) g" and l: "lists_ok {a} g"
    using inv by (simp_all add: ginv_def)
  show s: "similar g g'"
    unfolding g'_def by (rule marks_similar [OF marksE_set_marked [of a "{a}"]]) simp_all
  have other: "at_marked g' P b = at_marked g P b" if "b \<noteq> a" for b P
    using that by (simp add: g'_def heap_simps)
  have white: "white g' b = white g b" "nonwhite g' b = nonwhite g b" for b
    by (auto simp: g'_def heap_simps)
  show nb: "\<not> black g' a"
    by (auto simp: g'_def heap_simps at_marked_def split: option.splits)
  have lists: "gray g' = gray g" "grayagain g' = grayagain g" "weak g' = weak g"
    by (simp_all add: g'_def)
  have "covered (insert a X) g'"
    unfolding covered_def
  proof (intro allI impI)
    fix b
    assume b: "nonwhite g' b"
    show "b \<in> insert a X \<or> b \<in> set (gray g') \<or> settled g' b"
    proof (cases "b = a")
      case False
      have "settled g' b" if "settled g b"
        by (rule settled_mono [OF s t]) (use that white False other lists in auto)
      moreover have "b \<in> insert a X \<or> b \<in> set (gray g) \<or> settled g b"
        using cov b white(2) [of b] by (simp add: covered_def)
      ultimately show ?thesis using lists(1) by auto
    qed simp
  qed
  moreover have "clean_whites g'"
    using c white other nb by (metis clean_whites_def)
  moreover have "lists_ok {a} g'"
  proof -
    have "colour_ok g' b" if b: "nonwhite g' b" for b
    proof (cases "b = a")
      case True
      then show ?thesis
        using l a lists by (auto simp: lists_ok_def colour_ok_def has_kind_def g'_def split: option.splits gcbody.splits)
    next
      case False
      have "colour_ok g b" using l b white(2) [of b] by (simp add: lists_ok_def)
      then show ?thesis
        by (rule colour_ok_relist [OF s other [OF False]]) (use lists in auto)
    qed
    moreover have "b \<in> {a} \<or> \<not> black g' b" if "b \<in> set (gray g) \<union> set (grayagain g) \<union> set (weak g)" for b
      using l that other [of b isblack] unfolding lists_ok_def by (cases "b = a") auto
    ultimately show ?thesis
      using l unfolding lists_ok_def lists similar_kind [OF s] white by simp
  qed
  ultimately show "ginv X {a} g'"
    using similar_typed [OF s t] by (simp add: ginv_def)
  show "grows g g'"
    using s white lists by (auto simp: grows_def work_def)
  show "weak_ok g' a" if "weak_ok g a"
  proof -
    have "table_mode g' h = table_mode g h" for h
      by (rule similar_table_mode [OF s t])
    then show ?thesis
      using that white by (auto simp: weak_ok_def Let_def g'_def heap_simps split: option.splits gcbody.splits)
  qed
qed

definition out_of_lists :: "global_State \<Rightarrow> gaddr \<Rightarrow> bool" where
  "out_of_lists g a \<longleftrightarrow> nonwhite g a \<and> a \<notin> set (gray g) \<union> set (grayagain g)"

lemma out_of_lists_marks: "marks g g' \<Longrightarrow> out_of_lists g a \<Longrightarrow> out_of_lists g' a"
  using marks_not_gray marks_lists marksE_nonwhite unfolding out_of_lists_def by (metis Un_iff)

lemma out_of_lists_same: "same_marks g g' \<Longrightarrow> out_of_lists g' a = out_of_lists g a"
  by (simp add: same_marks_def out_of_lists_def)

text \<open>The second half of \<open>traversetable\<close>: the strong part of a table is marked.\<close>

definition mark_parts :: "bool \<Rightarrow> bool \<Rightarrow> gtable \<Rightarrow> global_State \<Rightarrow> global_State" where
  "mark_parts wk wv h g =
     fold (mark_node wk wv) (rev (h_node h)) (if wv then g else fold markvalue (rev (h_array h)) g)"

lemma mark_parts_marks:
  assumes t: "typed g" and c: "clean_whites g" and ok: "body_ok g (GTable h)"
  shows "marks g (mark_parts wk wv h g)"
    and "\<forall>r\<in>(if wv then {} else \<Union> (vrefs ` set (h_array h))) \<union> \<Union> (node_refs wk wv ` set (h_node h)).
           nonwhite (mark_parts wk wv h g) r"
proof -
  define g1 where "g1 = (if wv then g else fold markvalue (rev (h_array h)) g)"
  define g2 where "g2 = fold (mark_node wk wv) (rev (h_node h)) g1"
  have arr: "list_all (value_ok g) (rev (h_array h))" using ok by (simp add: list_all_iff)
  have 1: "marks g g1" and n1: "\<forall>r\<in>(if wv then {} else \<Union> (vrefs ` set (h_array h))). nonwhite g1 r"
    unfolding g1_def using fold_markvalue [OF t c arr] by simp_all
  have "list_all (node_ok g) (h_node h)"
    using ok by (auto simp: list_all_iff live_nodes_def node_ok_def)
  then have "list_all (node_ok g1) (rev (h_node h))"
    by (simp add: list_all_iff node_ok_def marks_value_ok [OF 1])
  moreover have "typed g1" "clean_whites g1"
    using marksE_typed [OF 1] marks_clean_whites [OF 1] t c by auto
  ultimately have 2: "marks g1 g2" and n2: "\<forall>r\<in>\<Union> (node_refs wk wv ` set (h_node h)). nonwhite g2 r"
    unfolding g2_def using fold_mark_node [of g1 "rev (h_node h)" wk wv] by simp_all
  have eq: "mark_parts wk wv h g = g2"
    by (simp add: mark_parts_def g1_def g2_def)
  show "marks g (mark_parts wk wv h g)"
    unfolding eq using marksE_trans [OF 1 2] .
  show "\<forall>r\<in>(if wv then {} else \<Union> (vrefs ` set (h_array h))) \<union> \<Union> (node_refs wk wv ` set (h_node h)).
      nonwhite (mark_parts wk wv h g) r"
    unfolding eq using n1 n2 marksE_nonwhite [OF 2] by (intro ballI, elim UnE) (metis bspec)+
qed

lemma weak_okI:
  assumes s: "similar g g'" and t: "typed g" and h: "gbody g a = Some (GTable h)"
    and mode: "table_mode g h = (wk, wv)" and "wk \<or> wv"
    and bits: "at_marked g' (\<lambda>b. bit b KEYWEAKBIT = wk \<and> bit b VALUEWEAKBIT = wv) a"
    and strong: "\<forall>r\<in>strong_table_refs (wk, wv) h. nonwhite g' r"
  shows "weak_ok g' a"
proof -
  from similar_cases [OF s h] obtain b' where b': "gbody g' a = Some b'"
    and e: "body_eqv (tmname g) (GTable h) b'" .
  then obtain h' where h': "b' = GTable h'" and eqv: "table_eqv (tmname g) h h'" by (cases b') auto
  have "table_mode g' h' = (wk, wv)"
    using similar_table_mode [OF s t, of h] eqv mode by (simp add: table_mode_def table_eqv_def)
  moreover have "strong_table_refs m h' = strong_table_refs m h" for m
    using eqv by (simp add: strong_table_refs_def table_eqv_def)
  ultimately show ?thesis
    using assms(5) b' h' bits strong by (simp add: weak_ok_def)
qed

lemma marks_step:
  assumes "ginv X B g" and "marks g g'"
  shows "ginv X B g' \<and> grows g g' \<and> similar g g'"
  using ginv_marks [OF assms(2,1)] marks_grows [OF assms(2)] marks_similar [OF assms(2)] by simp

lemma similar_step:
  assumes "ginv X B g" and "similar g g'" and "same_marks g g'"
  shows "ginv X B g' \<and> grows g g' \<and> similar g g'"
  using ginv_similar [OF assms(2,3,1)] same_marks_grows [OF assms(2,3)] assms(2) by simp

lemma traversetable_eq:
  assumes "gbody g a = Some (GTable h)"
  defines "g1 \<equiv> mark_opt (h_metatable h) g"
  defines "g2 \<equiv> snd (gfasttm (h_metatable h) TM_MODE g1)"
  assumes mode: "table_mode g h = (wk, wv)" and t: "typed g" and m: "marks g g1"
  defines "g3 \<equiv> (if wk \<or> wv then (set_marked (set_weak_bits wk wv) a g2)\<lparr>weak := a # weak g2\<rparr> else g2)"
  shows "traversetable a g =
    (wk \<or> wv, if wk \<and> wv then g3 else clean_nodes a (mark_parts wk wv h g3))"
proof -
  obtain md where gf: "gfasttm (h_metatable h) TM_MODE (mark_opt (h_metatable h) g) = (md, g2)"
    by (metis g1_def g2_def prod.collapse)
  have "weak_mode md g2 = weak_mode (fst (gfasttm (h_metatable h) TM_MODE g1)) g2"
    using gf by (simp add: g1_def)
  also have "\<dots> = (wk, wv)"
    using mode similar_gfasttm [OF marks_similar [OF m] t] similar_weak_mode [OF marks_similar [OF m]]
      similar_weak_mode [of g1 g2] gfasttm_similar
    unfolding g2_def table_mode_def by metis
  finally have "weak_mode md g2 = (wk, wv)" .
  then show ?thesis
    using assms(1) gf by (simp add: traversetable_def Let_def g3_def mark_parts_def)
qed

text \<open>The first half of \<open>traversetable\<close>: the metatable is marked, and a weak table linked.\<close>

lemma traversetable_head:
  assumes inv: "ginv X {a} g" and h: "gbody g a = Some (GTable h)" and out: "out_of_lists g a"
    and notweak: "a \<notin> set (weak g)" and mode: "table_mode g h = (wk, wv)"
  defines "g1 \<equiv> mark_opt (h_metatable h) g"
  defines "g2 \<equiv> snd (gfasttm (h_metatable h) TM_MODE g1)"
  defines "g3 \<equiv> (if wk \<or> wv then (set_marked (set_weak_bits wk wv) a g2)\<lparr>weak := a # weak g2\<rparr> else g2)"
  shows "marks g g1" and "ginv X {a} g3" and "grows g g3" and "out_of_lists g3 a"
    and "(wk \<or> wv) = (a \<in> set (weak g3))"
    and "wk \<or> wv \<Longrightarrow> at_marked g3 (\<lambda>b. bit b KEYWEAKBIT = wk \<and> bit b VALUEWEAKBIT = wv) a"
    and "\<forall>r\<in>set_option (h_metatable h). nonwhite g3 r"
proof -
  have t: "typed g" and c: "clean_whites g" using inv by (simp_all add: ginv_def)
  have "body_ok g (GTable h)" using t h unfolding typed_def by blast
  then have mt: "pred_option (has_kind g {KTable}) (h_metatable h)" by simp
  show m1: "marks g g1"
    unfolding g1_def using mark_opt_marks(1) [OF t c mt] .
  have n1: "\<forall>r\<in>set_option (h_metatable h). nonwhite g1 r"
    unfolding g1_def using mark_opt_marks(2) [OF t c mt] .
  have i1: "ginv X {a} g1" "grows g g1" "similar g g1" using marks_step [OF inv m1] by simp_all
  have sm: "similar g1 g2" "same_marks g1 g2"
    unfolding g2_def using gfasttm_similar [of g1 "h_metatable h" TM_MODE] by simp_all
  have i2: "ginv X {a} g2" "grows g1 g2" using similar_step [OF i1(1) sm] by simp_all
  have o2: "out_of_lists g2 a"
    using out_of_lists_marks [OF m1 out] out_of_lists_same [OF sm(2)] by simp
  have w2: "a \<notin> set (weak g2)"
    using notweak marks_lists(2) [OF m1] sm(2) by (simp add: same_marks_def)
  obtain b2 where b2: "gbody g2 a = Some b2" "body_eqv (tmname g) (GTable h) b2"
    by (rule similar_cases [OF similar_trans [OF i1(3) sm(1)] h])
  then obtain h2 where h2: "gbody g2 a = Some (GTable h2)" by (cases b2) auto
  have "a \<notin> set (gray g2) \<union> set (grayagain g2) \<union> set (weak g2)" and nw2: "nonwhite g2 a"
    using o2 w2 by (auto simp: out_of_lists_def)
  note lw = link_weak [OF i2(1) h2 this(2,1), where wk = wk and wv = wv]
  show "ginv X {a} g3" using lw i2 by (simp add: g3_def)
  have g23: "grows g2 g3" using lw by (simp add: g3_def)
  show "grows g g3" using grows_trans [OF grows_trans [OF i1(2) i2(2)] g23] .
  show "out_of_lists g3 a" using o2 lw(3) by (auto simp: g3_def out_of_lists_def)
  show "(wk \<or> wv) = (a \<in> set (weak g3))" using w2 by (simp add: g3_def)
  show "at_marked g3 (\<lambda>b. bit b KEYWEAKBIT = wk \<and> bit b VALUEWEAKBIT = wv) a" if "wk \<or> wv"
    using lw(5) that by (simp add: g3_def)
  have "nonwhite g3 r" if "nonwhite g1 r" for r
    using that grows_trans [OF i2(2) g23] by (simp add: grows_def)
  then show "\<forall>r\<in>set_option (h_metatable h). nonwhite g3 r" using n1 by simp
qed

lemma traversetable_tail:
  fixes wk wv :: bool
  assumes inv: "ginv X {a} g" and h: "body_ok g (GTable h)" and out: "out_of_lists g a"
  defines "g' \<equiv> clean_nodes a (mark_parts wk wv h g)"
  shows "ginv X {a} g'" and "grows g g'" and "out_of_lists g' a" and "weak g' = weak g"
    and "at_marked g' P a = at_marked g P a"
    and "\<forall>r\<in>(if wv then {} else \<Union> (vrefs ` set (h_array h))) \<union> \<Union> (node_refs wk wv ` set (h_node h)). nonwhite g' r"
proof -
  have t: "typed g" and c: "clean_whites g" using inv by (simp_all add: ginv_def)
  let ?g1 = "mark_parts wk wv h g"
  note mp = mark_parts_marks [OF t c h, where wk = wk and wv = wv]
  have i1: "ginv X {a} ?g1" "grows g ?g1" using marks_step [OF inv mp(1)] by simp_all
  then have "typed ?g1" by (simp add: ginv_def)
  then have sm: "similar ?g1 g'" "same_marks ?g1 g'"
    unfolding g'_def using clean_nodes_similar by simp_all
  have i2: "ginv X {a} g'" "grows ?g1 g'" using similar_step [OF i1(1) sm] by simp_all
  show "ginv X {a} g'" by (rule i2(1))
  show "grows g g'" using grows_trans [OF i1(2) i2(2)] .
  show "out_of_lists g' a"
    using out_of_lists_marks [OF mp(1) out] out_of_lists_same [OF sm(2)] by simp
  show "weak g' = weak g" using marks_lists(2) [OF mp(1)] sm(2) by (simp add: same_marks_def)
  show "at_marked g' P a = at_marked g P a"
    using marksE_at [OF mp(1)] out sm(2) by (simp add: same_marks_def out_of_lists_def)
  show "\<forall>r\<in>(if wv then {} else \<Union> (vrefs ` set (h_array h))) \<union> \<Union> (node_refs wk wv ` set (h_node h)). nonwhite g' r"
    using mp(2) sm(2) unfolding same_marks_def by metis
qed

lemma traversetable_step:
  assumes inv: "ginv X {a} g" and h: "gbody g a = Some (GTable h)" and out: "out_of_lists g a"
    and notweak: "a \<notin> set (weak g)" and res: "traversetable a g = (w, g')"
  shows "ginv X {a} g'" and "grows g g'" and "settled g' a" and "out_of_lists g' a"
    and "w \<longleftrightarrow> a \<in> set (weak g')" and "w \<longrightarrow> weak_ok g' a"
proof -
  have t: "typed g" using inv by (simp add: ginv_def)
  have ok: "body_ok g (GTable h)" using t h unfolding typed_def by blast
  obtain wk wv where mode: "table_mode g h = (wk, wv)" by (cases "table_mode g h")
  note head = traversetable_head [OF inv h out notweak mode]
  define g3 where "g3 = (let g2 = snd (gfasttm (h_metatable h) TM_MODE (mark_opt (h_metatable h) g))
     in if wk \<or> wv then (set_marked (set_weak_bits wk wv) a g2)\<lparr>weak := a # weak g2\<rparr> else g2)"
  note hd = head(2-) [folded g3_def [unfolded Let_def]]
  have eq: "(w, g') = (wk \<or> wv, if wk \<and> wv then g3 else clean_nodes a (mark_parts wk wv h g3))"
    using traversetable_eq [OF h mode t head(1)] unfolding res g3_def Let_def .
  have s3: "similar g g3" using hd(2) by (simp add: grows_def)
  have "body_ok g3 (GTable h)" by (rule body_ok_eqv [OF s3 t ok]) simp
  note tl = traversetable_tail [OF hd(1) this hd(3), where wk = wk and wv = wv]
  show i: "ginv X {a} g'" and grow: "grows g g'" and "out_of_lists g' a"
    using eq hd tl grows_trans [OF hd(2) tl(2)] by simp_all
  show wk: "w \<longleftrightarrow> a \<in> set (weak g')" using eq hd(4) tl(4) by simp
  have s': "similar g g'" using grow by (simp add: grows_def)
  have strong: "nonwhite g' r" if r: "r \<in> strong_table_refs (wk, wv) h" for r
  proof (cases "wk \<and> wv")
    case True
    then show ?thesis using r eq hd(6) by (auto simp: strong_table_refs_def)
  next
    case False
    have "nonwhite g' x" if "nonwhite g3 x" for x using that eq tl(2) False by (simp add: grows_def)
    then show ?thesis using r eq hd(6) tl(6) False unfolding strong_table_refs_alt by auto
  qed
  show wok: "w \<longrightarrow> weak_ok g' a"
  proof
    assume "w"
    then have "wk \<or> wv" using eq by simp
    moreover have "at_marked g' (\<lambda>b. bit b KEYWEAKBIT = wk \<and> bit b VALUEWEAKBIT = wv) a"
      using hd(5) [OF \<open>wk \<or> wv\<close>] eq tl(5) by (cases "wk \<and> wv") simp_all
    ultimately show "weak_ok g' a" using weak_okI [OF s' t h mode] strong by blast
  qed
  show "settled g' a"
  proof (cases "w")
    case False
    then have "\<not> wk" "\<not> wv" using eq by simp_all
    then have "\<forall>r\<in>refs g' a. nonwhite g' r"
      using strong h unfolding similar_refs [OF s' t] by (simp add: refs_def table_refs_strong)
    then show ?thesis by (rule settled_refs)
  qed (use wok wk in \<open>simp add: settled_def\<close>)
qed

section \<open>Threads\<close>

lemma traversestack_step:
  assumes inv: "ginv X {a} g" and b: "gbody g a = Some (GThread t)" and nw: "nonwhite g a"
  defines "g' \<equiv> traversestack a t g"
  shows "ginv X {a} g'" and "grows g g'" and "settled g' a" and "at_marked g' P a = at_marked g P a"
proof -
  have ty: "typed g" and c: "clean_whites g" using inv by (simp_all add: ginv_def)
  have ok: "body_ok g (GThread t)" using ty b unfolding typed_def by blast
  define g1 where "g1 = markvalue (th_gt t) g"
  define g2 where "g2 = fold markvalue (take (th_top t) (th_stack t)) g1"
  define lim where "lim = fold max (th_ci_tops t) (th_top t)"
  define t' where "t' = t\<lparr>th_stack := set_nil_slots (th_top t) lim (th_stack t)\<rparr>"
  define g3 where "g3 = set_thread a t' g2"
  have ok': "value_ok g (th_gt t)" "list_all (value_ok g) (take (th_top t) (th_stack t))"
    using ok by simp_all
  have 1: "marks g g1" and n1: "\<forall>r\<in>vrefs (th_gt t). nonwhite g1 r"
    unfolding g1_def using markvalue_marks [OF ty c ok'(1)] .
  have "typed g1" "clean_whites g1" "list_all (value_ok g1) (take (th_top t) (th_stack t))"
    using marksE_typed [OF 1] marks_clean_whites [OF 1] ty c ok'(2)
    by (simp_all add: list_all_iff marks_value_ok [OF 1])
  from fold_markvalue [OF this]
  have 2: "marks g1 g2" and n2: "\<forall>r\<in>\<Union> (vrefs ` set (take (th_top t) (th_stack t))). nonwhite g2 r"
    unfolding g2_def by blast+
  have 12: "marks g g2" using marksE_trans [OF 1 2] .
  have b2: "gbody g2 a = Some (GThread t)" using b marksE_bodies [OF 12] by simp
  have "thread_eqv t t'" by (simp add: thread_eqv_def t'_def set_nil_slots_prefix)
  then have 3: "similar g2 g3" "same_marks g2 g3" and b3: "gbody g3 a = Some (GThread t')"
    unfolding g3_def using set_thread_similar [OF b2] by simp_all
  have "th_top t' \<le> lim" unfolding t'_def lim_def using fold_max_ge by simp
  moreover have "g' = checkstacksizes a t' lim g3"
    unfolding g'_def traversestack_def Let_def g3_def t'_def lim_def g2_def g1_def ..
  ultimately have 4: "similar g3 g'" "same_marks g3 g'"
    using checkstacksizes_similar [OF b3] by simp_all
  have 24: "similar g2 g'" "same_marks g2 g'"
    using similar_trans [OF 3(1) 4(1)] same_marks_trans [OF 3(2) 4(2)] .
  have i2: "ginv X {a} g2" "grows g g2" using marks_step [OF inv 12] by simp_all
  have i4: "ginv X {a} g'" "grows g2 g'" using similar_step [OF i2(1) 24] by simp_all
  show "ginv X {a} g'" by (rule i4(1))
  show grow: "grows g g'" using grows_trans [OF i2(2) i4(2)] .
  show "at_marked g' P a = at_marked g P a"
    using marksE_at [OF 12 nw] 24(2) by (simp add: same_marks_def)
  have same: "nonwhite g' r = nonwhite g2 r" for r using 24(2) by (simp add: same_marks_def)
  have "refs g' a = thread_refs t"
    using similar_refs [of g g' a] grow ty b by (simp add: grows_def refs_def)
  moreover have "nonwhite g2 r" if "r \<in> thread_refs t" for r
    using that n1 n2 marksE_nonwhite [OF 2] unfolding thread_refs_def by (elim UnE) (simp, metis)
  ultimately show "settled g' a" by (intro settled_refs) (simp add: same)
qed

section \<open>Propagation\<close>

lemma gray2black_pop:
  assumes inv: "ginv X {} g" and gray: "gray g = a # rest" and k: "has_kind g {KFunction, KTable, KProto} a"
  defines "p \<equiv> (set_marked gray2black a g)\<lparr>gray := rest\<rparr>"
  shows "ginv X {a} p" and "work p < work g" and "similar g p" and "black p a" and "out_of_lists p a"
    and "a \<notin> set (weak p)" and "nonwhite p b = nonwhite g b"
proof -
  have l: "lists_ok {} g" using inv by (simp add: ginv_def)
  have nw: "nonwhite g a" using l gray by (simp add: lists_ok_def)
  have "similar g (set_marked gray2black a g)"
    by (rule marks_similar [OF marksE_set_marked [of a "{a}"]]) simp_all
  moreover have "similar x (x\<lparr>gray := w\<rparr>)" for x w
    by (simp add: similar_def option.rel_refl)
  ultimately show s: "similar g p"
    unfolding p_def by (rule similar_trans)
  have other: "at_marked p P c = at_marked g P c" if "c \<noteq> a" for P c
    using that by (simp add: p_def heap_simps)
  show same: "nonwhite p b = nonwhite g b" for b
    by (auto simp: p_def heap_simps)
  show bl: "black p a"
    using nw by (auto simp: p_def heap_simps at_marked_def split: option.splits)
  have col: "colour_ok p a"
    using bl k by (auto simp: colour_ok_def has_kind_def p_def split: option.splits gcbody.splits)
  have lists: "grayagain p = grayagain g" "weak p = weak g" "gray p = rest"
    by (simp_all add: p_def)
  note beg = ginv_begin [OF inv gray s other _ lists(3,2) col]
  show "ginv X {a} p" and "work p < work g"
    using beg same nw lists(1) by simp_all
  show "out_of_lists p a" and "a \<notin> set (weak p)"
    using l gray nw same lists by (auto simp: out_of_lists_def lists_ok_def)
qed

text \<open>What a call of \<open>propagatemark\<close> does when there is a gray object.\<close>

definition prop_step :: "gaddr set \<Rightarrow> global_State \<Rightarrow> global_State \<Rightarrow> bool" where
  "prop_step X g g' \<longleftrightarrow> ginv X {} g' \<and> similar g g' \<and> (\<forall>a. nonwhite g a \<longrightarrow> nonwhite g' a)
     \<and> set (grayagain g) \<subseteq> set (grayagain g') \<and> set (weak g) \<subseteq> set (weak g') \<and> work g' < work g"

lemma prop_stepI:
  assumes "similar g p" and "\<And>a. nonwhite g a \<Longrightarrow> nonwhite p a" and "set (grayagain g) \<subseteq> set (grayagain p)"
    and "set (weak g) \<subseteq> set (weak p)" and "work p < work g" and "grows p g'" and "ginv X {} g'"
  shows "prop_step X g g'"
  using assms similar_trans [OF assms(1)] unfolding prop_step_def grows_def by auto

lemma propagate_marks:
  assumes inv: "ginv X {} g" and gray: "gray g = a # rest" and k: "has_kind g {KFunction, KTable, KProto} a"
    and m: "marks ((set_marked gray2black a g)\<lparr>gray := rest\<rparr>) g'"
    and n: "\<forall>r\<in>refs g a. nonwhite g' r"
  shows "prop_step X g g'"
proof (rule prop_stepI)
  let ?p = "(set_marked gray2black a g)\<lparr>gray := rest\<rparr>"
  note pop = gray2black_pop [OF inv gray k]
  have ty: "typed g" using inv by (simp add: ginv_def)
  show "similar g ?p" "work ?p < work g" by (rule pop)+
  show "nonwhite ?p b" if "nonwhite g b" for b using that pop(7) by simp
  show "grows ?p g'" by (rule marks_grows [OF m])
  have i: "ginv X {a} g'" using ginv_marks [OF m pop(1)] .
  have "out_of_lists g' a" "a \<notin> set (weak g')"
    using out_of_lists_marks [OF m pop(5)] pop(6) marks_lists(2) [OF m] by simp_all
  moreover have "settled g' a"
    using n similar_refs [OF similar_trans [OF pop(3) marks_similar [OF m]] ty] by (intro settled_refs) simp
  ultimately show "ginv X {} g'"
    using ginv_end [OF i] by (simp add: out_of_lists_def)
qed simp_all

lemma propagatemark_table:
  assumes inv: "ginv X {} g" and gray: "gray g = a # rest" and b: "gbody g a = Some (GTable h)"
  shows "prop_step X g (snd (propagatemark g))"
proof -
  let ?p = "(set_marked gray2black a g)\<lparr>gray := rest\<rparr>"
  have k: "has_kind g {KFunction, KTable, KProto} a" using b by (simp add: has_kind_def)
  note pop = gray2black_pop [OF inv gray k]
  obtain w g2 where res: "traversetable a ?p = (w, g2)" by (cases "traversetable a ?p")
  have bp: "gbody ?p a = Some (GTable h)" using b by simp
  note tt = traversetable_step [OF pop(1) bp pop(5,6) res]
  define g' where "g' = (if w then set_marked black2gray a g2 else g2)"
  have eq: "snd (propagatemark g) = g'"
    using gray b res by (simp add: propagatemark_def g'_def)
  have fin: "ginv X {} g' \<and> grows g2 g'"
  proof (cases w)
    case True
    then have aw: "a \<in> set (weak g2)" using tt(5) by simp
    note ub = unblack_weak [OF tt(1) aw]
    have "settled g' a"
      using True ub(5) tt(6) aw by (simp add: g'_def settled_def)
    then show ?thesis
      using True ginv_end [OF ub(1)] ub(2,4) by (simp add: g'_def)
  next
    case False
    then show ?thesis
      using ginv_end [OF tt(1,3)] tt(4,5) by (simp add: g'_def out_of_lists_def)
  qed
  show ?thesis
    unfolding eq
    by (rule prop_stepI [OF pop(3) _ _ _ pop(2)]) (use pop(7) fin grows_trans [OF tt(2)] in simp_all)
qed

lemma propagatemark_thread:
  assumes inv: "ginv X {} g" and gray: "gray g = a # rest" and b: "gbody g a = Some (GThread t)"
  shows "prop_step X g (snd (propagatemark g))"
proof -
  have l: "lists_ok {} g" using inv by (simp add: ginv_def)
  have nw: "nonwhite g a" using l gray by (simp add: lists_ok_def)
  define p where "p = set_marked black2gray a
      ((set_marked gray2black a g)\<lparr>gray := rest, grayagain := a # grayagain g\<rparr>)"
  have sim: "similar x (set_marked f a x)" if "\<And>m. iswhite (f m) = iswhite m" for x f
    by (rule marks_similar [OF marksE_set_marked [of a "{a}"]]) (use that in simp_all)
  have "similar (set_marked gray2black a g)
      ((set_marked gray2black a g)\<lparr>gray := rest, grayagain := a # grayagain g\<rparr>)"
    by (simp add: similar_def option.rel_refl)
  then have s: "similar g p"
    unfolding p_def using sim [of gray2black] sim [of black2gray] similar_trans by (metis colour_simps(3,5))
  have other: "at_marked p P c = at_marked g P c" if "c \<noteq> a" for P c
    using that by (simp add: p_def heap_simps)
  have same: "nonwhite p c = nonwhite g c" for c
    by (auto simp: p_def heap_simps)
  have nb: "\<not> black p a"
    by (auto simp: p_def heap_simps at_marked_def split: option.splits)
  have lists: "grayagain p = a # grayagain g" "weak p = weak g" "gray p = rest"
    by (simp_all add: p_def)
  have bp: "gbody p a = Some (GThread t)" using b by (simp add: p_def)
  have col: "colour_ok p a" using bp lists by (simp add: colour_ok_def)
  have k: "has_kind g {KThread} a" using b by (simp add: has_kind_def)
  have nwp: "nonwhite p a" using same nw by simp
  note beg = ginv_begin [OF inv gray s other nwp lists(3,2) col disjI2 [OF conjI [OF lists(1) k]]]
  note ts = traversestack_step [OF beg(1) bp nwp]
  have "ginv X {} (traversestack a t p)"
    using ginv_end [OF ts(1,3)] ts(4) nb by simp
  moreover have "snd (propagatemark g) = traversestack a t p"
    using gray b by (simp add: propagatemark_def p_def Let_def)
  ultimately show ?thesis
    by (intro prop_stepI [OF s _ _ _ beg(2)]) (use same lists(1,2) ts(2) in auto)
qed

lemma propagatemark_step:
  assumes inv: "ginv X {} g" and gray: "gray g \<noteq> []"
  shows "prop_step X g (snd (propagatemark g))"
proof -
  obtain a rest where g: "gray g = a # rest" using gray by (cases "gray g") auto
  have ty: "typed g" and l: "lists_ok {} g" using inv by (simp_all add: ginv_def)
  obtain b where b: "gbody g a = Some b" and k: "kind_of b \<in> list_kinds"
    using l g by (auto simp: lists_ok_def elim!: has_kindE)
  have ok: "body_ok g b" using ty b unfolding typed_def by blast
  let ?p = "(set_marked gray2black a g)\<lparr>gray := rest\<rparr>"
  have same: "gbody ?p c = gbody g c" for c by simp
  have pop: "typed ?p \<and> clean_whites ?p" if "kind_of b \<noteq> KThread"
    using gray2black_pop(1) [OF inv g] that b k by (auto simp: ginv_def has_kind_def)
  have okp: "body_ok ?p b" using ok same_bodies(6) [OF same] by simp
  have refs: "refs g a = body_refs ?p b" using b same_bodies(3) [OF same] by (simp add: refs_def)
  have step: "prop_step X g g'"
    if "kind_of b \<noteq> KThread" "marks ?p g' \<and> (\<forall>r\<in>body_refs ?p b. nonwhite g' r)" for g'
    by (rule propagate_marks [OF inv g]) (use that b k refs in \<open>auto simp: has_kind_def\<close>)
  show ?thesis
  proof (cases b)
    case (GCClosure env vs)
    then have "prop_step X g (traverseCclosure env vs ?p)"
      using step [OF _ traverseCclosure_marks [of ?p env vs, folded GCClosure]] pop okp by simp
    then show ?thesis using g b GCClosure by (simp add: propagatemark_def Let_def)
  next
    case (GLClosure env p us)
    then have "prop_step X g (traverseLclosure env p us ?p)"
      using step [OF _ traverseLclosure_marks [of ?p env p us, folded GLClosure]] pop okp by simp
    then show ?thesis using g b GLClosure by (simp add: propagatemark_def Let_def)
  next
    case (GProto p)
    then have "prop_step X g (traverseproto p ?p)"
      using step [OF _ traverseproto_marks [of ?p p, folded GProto]] pop okp by simp
    then show ?thesis using g b GProto by (simp add: propagatemark_def Let_def)
  next
    case (GTable h)
    then show ?thesis using propagatemark_table [OF inv g] b by simp
  next
    case (GThread t)
    then show ?thesis using propagatemark_thread [OF inv g] b by simp
  qed (use k in simp_all)
qed

text \<open>\<open>propagateall\<close> returns, with no gray object left.\<close>

definition prop_all :: "gaddr set \<Rightarrow> global_State \<Rightarrow> global_State \<Rightarrow> bool" where
  "prop_all X g g' \<longleftrightarrow> ginv X {} g' \<and> similar g g' \<and> (\<forall>a. nonwhite g a \<longrightarrow> nonwhite g' a)
     \<and> set (grayagain g) \<subseteq> set (grayagain g') \<and> set (weak g) \<subseteq> set (weak g') \<and> gray g' = []"

lemma propagateall_ends:
  assumes "ginv X {} g"
  shows "\<exists>m' g'. propagateall m g = Some (m', g') \<and> prop_all X g g'"
  using assms
proof (induction "work g" arbitrary: g m rule: less_induct)
  case less
  show ?case
  proof (cases "gray g = []")
    case True
    then have "propagateall m g = Some (m, g)" by (subst propagateall.simps) simp
    then show ?thesis using True less.prems by (simp add: prop_all_def)
  next
    case False
    obtain n g1 where p: "propagatemark g = (n, g1)" by (cases "propagatemark g")
    then have s: "prop_step X g g1" using propagatemark_step [OF less.prems False] by simp
    then obtain m' g' where r: "propagateall (m + n) g1 = Some (m', g')" and a: "prop_all X g1 g'"
      using less.hyps [of g1 "m + n"] by (auto simp: prop_step_def)
    have "propagateall m g = Some (m', g')"
      using False p r by (subst propagateall.simps) simp
    moreover have "prop_all X g g'"
      using s a similar_trans [of g g1 g'] unfolding prop_step_def prop_all_def by blast
    ultimately show ?thesis by blast
  qed
qed

end
