(* ===== verification/LGcCycle.thy ===== *)
theory LGcCycle
  imports LGc
begin

text \<open>
  The cycle of the collector (\<open>src/lua/lgc.c\<close>): the atomic end of the mark phase, sweeping, finalizers,
  and the steps that drive it. A finalizer runs a function of the program; what it does to the state is
  the argument \<open>call\<close>.
\<close>

section \<open>The atomic phase\<close>

definition marktmu :: "global_State \<Rightarrow> global_State" where
  "marktmu g = fold (\<lambda>u g. reallymarkobject u (set_marked (makewhite g) u g)) (tmudata g) g"

text \<open>\<open>luaC_separateudata\<close> walks the userdata, which follow the main thread in \<open>rootgc\<close>.\<close>

fun separate :: "bool \<Rightarrow> gaddr list \<Rightarrow> global_State \<Rightarrow> gaddr list \<times> u64 \<times> global_State" where
  "separate everything [] g = ([], 0, g)"
| "separate everything (cur # rest) g =
     (if \<not> (at_marked g iswhite cur \<or> everything) \<or> at_marked g isfinalized cur
      then (let (kept, n, g') = separate everything rest g in (cur # kept, n, g'))
      else
        case gbody g cur of
          Some (GUdata mt env len) \<Rightarrow>
            (let (tm, g1) = gfasttm mt TM_GC g;
                 g2 = set_marked markfinalized cur g1
             in case tm of
                  None \<Rightarrow> (let (kept, n, g') = separate everything rest g2 in (cur # kept, n, g'))
                | Some _ \<Rightarrow>
                    (let (kept, n, g') = separate everything rest (g2\<lparr>tmudata := tmudata g2 @ [cur]\<rparr>)
                     in (kept, of_nat (sizeof_Udata + len) + n, g')))
        | _ \<Rightarrow> (let (kept, n, g') = separate everything rest g in (cur # kept, n, g')))"

definition luaC_separateudata :: "bool \<Rightarrow> global_State \<Rightarrow> u64 \<times> global_State" where
  "luaC_separateudata everything g =
     (let pre = takeWhile (\<lambda>a. a \<noteq> mainthread g) (rootgc g) @ [mainthread g];
          (kept, deadmem, g') = separate everything (drop (length pre) (rootgc g)) g
      in (deadmem, g'\<lparr>rootgc := pre @ kept\<rparr>))"

definition iscleared :: "gvalue \<Rightarrow> bool \<Rightarrow> global_State \<Rightarrow> bool \<times> global_State" where
  "iscleared v iskey g =
     (case gc_value v of
        None \<Rightarrow> (False, g)
      | Some a \<Rightarrow>
          (case gbody g a of
             Some (GString _) \<Rightarrow> (False, set_marked white2gray a g)
           | Some (GUdata _ _ _) \<Rightarrow> (at_marked g iswhite a \<or> (\<not> iskey \<and> at_marked g isfinalized a), g)
           | _ \<Rightarrow> (at_marked g iswhite a, g)))"

text \<open>The two loops of \<open>cleartable\<close>, each from the last element to the first.\<close>

fun clear_values :: "gvalue list \<Rightarrow> global_State \<Rightarrow> gvalue list \<times> global_State" where
  "clear_values [] g = ([], g)"
| "clear_values (v # vs) g =
     (let (vs', g1) = clear_values vs g;
          (c, g2) = iscleared v False g1
      in ((if c then GNil else v) # vs', g2))"

definition node_cleared :: "gvalue \<times> gvalue \<Rightarrow> global_State \<Rightarrow> bool \<times> global_State" where
  "node_cleared n g =
     (let (c1, g1) = iscleared (fst n) True g
      in if c1 then (True, g1) else iscleared (snd n) False g1)"

fun clear_nodes :: "(gvalue \<times> gvalue) list \<Rightarrow> global_State \<Rightarrow> (gvalue \<times> gvalue) list \<times> global_State" where
  "clear_nodes [] g = ([], g)"
| "clear_nodes (n # ns) g =
     (let (ns', g1) = clear_nodes ns g in
      if snd n = GNil then (n # ns', g1)
      else
        let (c, g2) = node_cleared n g1
        in ((if c then removeentry (fst n, GNil) else n) # ns', g2))"

definition clear_one :: "gaddr \<Rightarrow> global_State \<Rightarrow> global_State" where
  "clear_one a g =
     (case gbody g a of
        Some (GTable h) \<Rightarrow>
          (let (arr, g1) = (if at_marked g (\<lambda>m. bit m VALUEWEAKBIT) a then clear_values (h_array h) g
                            else (h_array h, g));
               (ns, g2) = clear_nodes (h_node h) g1
           in set_body (GTable (h\<lparr>h_array := arr, h_node := ns\<rparr>)) a g2)
      | _ \<Rightarrow> g)"

definition cleartable :: "gaddr list \<Rightarrow> global_State \<Rightarrow> global_State" where
  "cleartable l g = fold clear_one l g"

definition markmt :: "global_State \<Rightarrow> global_State" where
  "markmt g = fold mark_opt (basic_mt g) g"

definition markroot :: "global_State \<Rightarrow> global_State" where
  "markroot g =
     (let g1 = markobject (mainthread g) (g\<lparr>gray := [], grayagain := [], weak := []\<rparr>);
          gt = (case gbody g1 (mainthread g1) of Some (GThread t) \<Rightarrow> th_gt t | _ \<Rightarrow> GNil);
          g2 = markvalue (registry g1) (markvalue gt g1)
      in (markmt g2)\<lparr>gcstate := GCSpropagate\<rparr>)"

definition remarkupval :: "gaddr \<Rightarrow> global_State \<Rightarrow> global_State" where
  "remarkupval uv g =
     (case gbody g uv of
        Some (GUpval u) \<Rightarrow> if at_marked g isgray uv then markvalue (upval_value g u) g else g
      | _ \<Rightarrow> g)"

definition remarkupvals :: "global_State \<Rightarrow> global_State" where
  "remarkupvals g = fold remarkupval (uvhead g) g"

text \<open>\<open>atomic\<close>, up to the point where the dead userdata are separated, and the rest.\<close>

definition atomic_mark :: "gaddr \<Rightarrow> global_State \<Rightarrow> global_State option" where
  "atomic_mark L g =
     do {
       (_, g1) \<leftarrow> propagateall 0 (remarkupvals g);
       let g2 = g1\<lparr>gray := weak g1, weak := []\<rparr>;
       (_, g3) \<leftarrow> propagateall 0 (markmt (markobject L g2));
       (_, g4) \<leftarrow> propagateall 0 (g3\<lparr>gray := grayagain g3, grayagain := []\<rparr>);
       Some g4
     }"

definition atomic :: "gaddr \<Rightarrow> global_State \<Rightarrow> global_State option" where
  "atomic L g =
     do {
       g4 \<leftarrow> atomic_mark L g;
       let (udsize, g5) = luaC_separateudata False g4;
       (m, g6) \<leftarrow> propagateall 0 (marktmu g5);
       let g7 = cleartable (weak g6) g6;
       Some (g7\<lparr>currentwhite := otherwhite g7, sweepstrgc := 0, sweepgc := 0, gcstate := GCSsweepstring,
                estimate := totalbytes g7 - (udsize + m)\<rparr>)
     }"

section \<open>Sweeping\<close>

definition luaE_freethread :: "gaddr \<Rightarrow> global_State \<Rightarrow> global_State" where
  "luaE_freethread L1 g = free_mem L1 (luaF_close L1 0 g)"

definition freeobj :: "gaddr \<Rightarrow> global_State \<Rightarrow> global_State" where
  "freeobj a g =
     (case gbody g a of
        Some (GUpval _) \<Rightarrow> luaF_freeupval a g
      | Some (GThread _) \<Rightarrow> luaE_freethread a g
      | Some (GString _) \<Rightarrow> free_mem a (g\<lparr>strt_nuse := strt_nuse g - 1\<rparr>)
      | _ \<Rightarrow> free_mem a g)"

definition sweep_keeps :: "global_State \<Rightarrow> gaddr \<Rightarrow> bool" where
  "sweep_keeps g a = at_marked g (\<lambda>m. (m XOR WHITEBITS) AND otherwhite g \<noteq> 0) a"

text \<open>\<open>sweeplist\<close> on a whole chain of strings or of open upvalues: it has no threads, its first element
  is not that of \<open>rootgc\<close>, and it is shorter than \<open>MAX_LUMEM\<close>.\<close>

fun sweep_chain :: "gaddr list \<Rightarrow> global_State \<Rightarrow> gaddr list \<times> global_State" where
  "sweep_chain [] g = ([], g)"
| "sweep_chain (cur # rest) g =
     (if sweep_keeps g cur
      then (let (kept, g') = sweep_chain rest (set_marked (makewhite g) cur g) in (cur # kept, g'))
      else sweep_chain rest (freeobj cur g))"

definition sweep_openupvals :: "gaddr \<Rightarrow> global_State \<Rightarrow> global_State" where
  "sweep_openupvals th g =
     (let (us, g') = sweep_chain (openupvals g th) g in set_openupvals us th g')"

text \<open>\<open>sweeplist\<close> on \<open>rootgc\<close>, from a position, for at most \<open>cnt\<close> objects. Freeing a thread may link
  upvalues at the front; the position moves with them unless it is at the front itself.\<close>

function sweeplist :: "nat \<Rightarrow> global_State \<Rightarrow> nat \<Rightarrow> global_State \<times> nat" where
  "sweeplist cnt g p =
     (if p < length (rootgc g) \<and> 0 < cnt then
        let cur = rootgc g ! p;
            g1 = sweep_openupvals cur g
        in if sweep_keeps g1 cur
           then sweeplist (cnt - 1) (set_marked (makewhite g1) cur g1) (p + 1)
           else
             let g2 = g1\<lparr>rootgc := take p (rootgc g1) @ drop (p + 1) (rootgc g1)\<rparr>;
                 g3 = freeobj cur g2
             in sweeplist (cnt - 1) g3 (if p = 0 then 0 else p + (length (rootgc g3) - length (rootgc g2)))
      else (g, p))"
  by pat_completeness auto
termination
  by (relation "measure (\<lambda>(cnt, g, p). cnt)") auto

declare sweeplist.simps [simp del]

abbreviation (input) MAX_LUMEM :: nat where "MAX_LUMEM \<equiv> 2 ^ 64 - 3"

definition sweep_strings :: "nat \<Rightarrow> global_State \<Rightarrow> global_State" where
  "sweep_strings i g = (let (c, g') = sweep_chain (strt g ! i) g in g'\<lparr>strt := (strt g')[i := c]\<rparr>)"

definition luaC_freeall :: "global_State \<Rightarrow> global_State" where
  "luaC_freeall g =
     (let g1 = g\<lparr>currentwhite := set_bit SFIXEDBIT WHITEBITS\<rparr>;
          g2 = fst (sweeplist MAX_LUMEM g1 0)
      in fold sweep_strings [0..<length (strt g2)] g2)"

text \<open>\<open>luaS_resize\<close> on the addresses of the strings.\<close>

definition string_hash :: "global_State \<Rightarrow> gaddr \<Rightarrow> u32" where
  "string_hash g a = (case gbody g a of Some (GString s) \<Rightarrow> luaS_hash s | _ \<Rightarrow> 0)"

definition strt_resize :: "nat \<Rightarrow> global_State \<Rightarrow> global_State" where
  "strt_resize newsize g =
     (let chain = (\<lambda>a tb. let h = lmod (string_hash g a) newsize in tb[h := a # tb ! h])
      in g\<lparr>strt := fold chain (concat (strt g)) (replicate newsize []),
           totalbytes := totalbytes g + of_nat (8 * newsize) - of_nat (8 * length (strt g))\<rparr>)"

abbreviation (input) MINSTRTABSIZE :: nat where "MINSTRTABSIZE \<equiv> 32"
abbreviation (input) GC_MINBUFFER :: nat where "GC_MINBUFFER \<equiv> 32"

definition checkSizes :: "global_State \<Rightarrow> global_State" where
  "checkSizes g =
     (let g1 = (if unat (strt_nuse g) < length (strt g) div 4 \<and> length (strt g) > MINSTRTABSIZE * 2
                then strt_resize (length (strt g) div 2) g else g)
      in if buffsize g1 > GC_MINBUFFER * 2
         then g1\<lparr>buffsize := buffsize g1 div 2,
                 totalbytes := totalbytes g1 - of_nat (buffsize g1) + of_nat (buffsize g1 div 2)\<rparr>
         else g1)"

section \<open>Finalizers and steps\<close>

text \<open>\<open>luaD_call\<close> of a tag method on a userdata; hooks are off and the threshold raised during the call.\<close>

type_synonym gccall = "gvalue \<Rightarrow> gaddr \<Rightarrow> global_State \<Rightarrow> global_State"

definition udata_metatable :: "global_State \<Rightarrow> gaddr \<Rightarrow> gaddr option" where
  "udata_metatable g a = (case gbody g a of Some (GUdata mt _ _) \<Rightarrow> mt | _ \<Rightarrow> None)"

definition insert_after_main :: "gaddr \<Rightarrow> global_State \<Rightarrow> global_State" where
  "insert_after_main a g =
     (let pre = takeWhile (\<lambda>x. x \<noteq> mainthread g) (rootgc g) @ [mainthread g]
      in g\<lparr>rootgc := pre @ a # drop (length pre) (rootgc g),
           sweepgc := (if sweepgc g > length pre then sweepgc g + 1 else sweepgc g)\<rparr>)"

definition GCTM :: "gccall \<Rightarrow> global_State \<Rightarrow> global_State" where
  "GCTM call g =
     (case tmudata g of
        [] \<Rightarrow> g
      | o' # rest \<Rightarrow>
          (let g1 = insert_after_main o' (g\<lparr>tmudata := rest\<rparr>);
               g2 = set_marked (makewhite g1) o' g1;
               (tm, g3) = gfasttm (udata_metatable g2 o') TM_GC g2
           in case tm of
                None \<Rightarrow> g3
              | Some f \<Rightarrow>
                  (call f o' (g3\<lparr>GCthreshold := 2 * totalbytes g3\<rparr>))\<lparr>GCthreshold := GCthreshold g3\<rparr>))"

partial_function (option) luaC_callGCTM :: "gccall \<Rightarrow> global_State \<Rightarrow> global_State option" where
  "luaC_callGCTM call g =
     (if tmudata g = [] then Some g else luaC_callGCTM call (GCTM call g))"

definition luaS_newudata :: "gaddr \<Rightarrow> nat \<Rightarrow> gaddr \<Rightarrow> global_State \<Rightarrow> global_State" where
  "luaS_newudata a s e g =
     insert_after_main a
       (galloc a \<lparr>gc_marked = luaC_white g, gc_body = GUdata None e s\<rparr> (luaM_new (of_nat (sizeof_Udata + s)) g))"

abbreviation (input) GCSTEPSIZE :: u64 where "GCSTEPSIZE \<equiv> 1024"
abbreviation (input) GCSWEEPMAX :: nat where "GCSWEEPMAX \<equiv> 40"
abbreviation (input) GCSWEEPCOST :: u64 where "GCSWEEPCOST \<equiv> 10"
abbreviation (input) GCFINALIZECOST :: u64 where "GCFINALIZECOST \<equiv> 100"

definition setthreshold :: "global_State \<Rightarrow> global_State" where
  "setthreshold g = g\<lparr>GCthreshold := (estimate g div 100) * gcpause g\<rparr>"

definition singlestep :: "gccall \<Rightarrow> gaddr \<Rightarrow> global_State \<Rightarrow> (u64 \<times> global_State) option" where
  "singlestep call L g =
     (case gcstate g of
        GCSpause \<Rightarrow> Some (0, markroot g)
      | GCSpropagate \<Rightarrow>
          (if gray g \<noteq> [] then Some (propagatemark g)
           else map_option (\<lambda>g'. (0, g')) (atomic L g))
      | GCSsweepstring \<Rightarrow>
          (let old = totalbytes g;
               g1 = (sweep_strings (sweepstrgc g) g)\<lparr>sweepstrgc := sweepstrgc g + 1\<rparr>;
               g2 = (if sweepstrgc g1 \<ge> length (strt g1) then g1\<lparr>gcstate := GCSsweep\<rparr> else g1)
           in Some (GCSWEEPCOST, g2\<lparr>estimate := estimate g2 - (old - totalbytes g2)\<rparr>))
      | GCSsweep \<Rightarrow>
          (let old = totalbytes g;
               (g1, p) = sweeplist GCSWEEPMAX g (sweepgc g);
               g2 = g1\<lparr>sweepgc := p\<rparr>;
               g3 = (if p \<ge> length (rootgc g2) then (checkSizes g2)\<lparr>gcstate := GCSfinalize\<rparr> else g2)
           in Some (of_nat GCSWEEPMAX * GCSWEEPCOST, g3\<lparr>estimate := estimate g3 - (old - totalbytes g3)\<rparr>))
      | GCSfinalize \<Rightarrow>
          (if tmudata g \<noteq> [] then
             (let g1 = GCTM call g
              in Some (GCFINALIZECOST,
                   if estimate g1 > GCFINALIZECOST then g1\<lparr>estimate := estimate g1 - GCFINALIZECOST\<rparr> else g1))
           else Some (0, g\<lparr>gcstate := GCSpause, gcdept := 0\<rparr>)))"

partial_function (option) step_loop ::
  "gccall \<Rightarrow> gaddr \<Rightarrow> int \<Rightarrow> global_State \<Rightarrow> global_State option" where
  "step_loop call L lim g =
     do {
       (n, g1) \<leftarrow> singlestep call L g;
       let lim1 = wrap64 (lim - sint n);
       if gcstate g1 = GCSpause \<or> lim1 \<le> 0 then Some g1 else step_loop call L lim1 g1
     }"

definition luaC_step :: "gccall \<Rightarrow> gaddr \<Rightarrow> global_State \<Rightarrow> global_State option" where
  "luaC_step call L g =
     do {
       let lim0 = sint ((GCSTEPSIZE div 100) * gcstepmul g);
       let lim = (if lim0 = 0 then (int MAX_LUMEM - 1) div 2 else lim0);
       g1 \<leftarrow> step_loop call L lim (g\<lparr>gcdept := gcdept g + (totalbytes g - GCthreshold g)\<rparr>);
       Some (if gcstate g1 \<noteq> GCSpause then
               if gcdept g1 < GCSTEPSIZE then g1\<lparr>GCthreshold := totalbytes g1 + GCSTEPSIZE\<rparr>
               else g1\<lparr>gcdept := gcdept g1 - GCSTEPSIZE, GCthreshold := totalbytes g1\<rparr>
             else setthreshold g1)
     }"

partial_function (option) run_until ::
  "gcphase \<Rightarrow> gccall \<Rightarrow> gaddr \<Rightarrow> global_State \<Rightarrow> global_State option" where
  "run_until ph call L g =
     (if gcstate g = ph then Some g
      else do { (n, g1) \<leftarrow> singlestep call L g; run_until ph call L g1 })"

definition luaC_fullgc :: "gccall \<Rightarrow> gaddr \<Rightarrow> global_State \<Rightarrow> global_State option" where
  "luaC_fullgc call L g =
     do {
       let g1 = (if gcstate g = GCSpause \<or> gcstate g = GCSpropagate
                 then g\<lparr>sweepstrgc := 0, sweepgc := 0, gray := [], grayagain := [], weak := [],
                        gcstate := GCSsweepstring\<rparr>
                 else g);
       g2 \<leftarrow> run_until GCSfinalize call L g1;
       g3 \<leftarrow> run_until GCSpause call L (markroot g2);
       Some (setthreshold g3)
     }"

end
