(* ===== verification/LGcAtomic.thy ===== *)
theory LGcAtomic
  imports LGcStep LGcCycle
begin

text \<open>
  The end of the mark phase. From any state that the collector and the program reach together while
  marking, \<open>atomic\<close> returns, and then no marked object refers to a white one: what is swept next is not
  in use.
\<close>

section \<open>Moving the lists\<close>

lemma ginv_weaken:
  assumes "ginv X {} g" and "\<And>a. a \<in> X \<Longrightarrow> nonwhite g a \<Longrightarrow> a \<in> Y \<or> a \<in> set (gray g) \<or> settled g a"
  shows "ginv Y {} g"
  using assms unfolding ginv_def covered_def by auto

lemma similar_lists [simp]:
  "similar g (g\<lparr>gray := l, weak := m\<rparr>)" "similar g (g\<lparr>gray := l, grayagain := m\<rparr>)"
  by (simp_all add: similar_def option.rel_refl)

text \<open>The weak tables are traversed again.\<close>

lemma requeue_weak:
  assumes inv: "ginv X {} g" and gray: "gray g = []"
  shows "ginv (X - set (weak g)) {} (g\<lparr>gray := weak g, weak := []\<rparr>)" (is "ginv _ _ ?p")
proof -
  have t: "typed g" and c: "clean_whites g" and cov: "covered X g" and l: "lists_ok {} g"
    using inv by (simp_all add: ginv_def)
  have s: "similar g ?p" by simp
  have "covered (X - set (weak g)) ?p"
    unfolding covered_def
  proof (intro allI impI)
    fix a
    assume "nonwhite ?p a"
    then have "a \<in> X \<or> settled g a" using cov gray by (simp add: covered_def)
    moreover have "settled ?p a" if "settled g a" "a \<notin> set (weak g)"
      using that similar_refs [OF s t, of a] by (simp add: settled_def)
    ultimately show "a \<in> X - set (weak g) \<or> a \<in> set (gray ?p) \<or> settled ?p a"
      by auto
  qed
  moreover have "lists_ok {} ?p"
  proof -
    have "colour_ok ?p a" if "nonwhite ?p a" for a
      using that l gray by (intro colour_ok_relist [OF s]) (auto simp: lists_ok_def)
    moreover have "has_kind ?p K a = has_kind g K a" for K a
      by (rule similar_kind [OF s])
    moreover have "has_kind g list_kinds a" if "a \<in> set (weak g)" for a
      using l that has_kind_mono [of g "{KTable}" a list_kinds] by (simp add: lists_ok_def)
    ultimately show ?thesis
      using l gray unfolding lists_ok_def by auto
  qed
  moreover have "clean_whites ?p" using c by (simp add: clean_whites_def)
  ultimately show ?thesis
    using similar_typed [OF s t] by (simp add: ginv_def)
qed

lemma requeue_grayagain:
  assumes inv: "ginv X {} g" and gray: "gray g = []"
  shows "ginv (X - set (grayagain g)) {} (g\<lparr>gray := grayagain g, grayagain := []\<rparr>)" (is "ginv _ _ ?p")
proof -
  have t: "typed g" and c: "clean_whites g" and cov: "covered X g" and l: "lists_ok {} g"
    using inv by (simp_all add: ginv_def)
  have s: "similar g ?p" by simp
  have "covered (X - set (grayagain g)) ?p"
    unfolding covered_def
  proof (intro allI impI)
    fix a
    assume a: "nonwhite ?p a"
    then have "a \<in> X \<or> settled g a" using cov gray by (simp add: covered_def)
    moreover have "settled ?p a" if "settled g a"
      by (rule settled_mono [OF s t]) (use that in simp_all)
    ultimately show "a \<in> X - set (grayagain g) \<or> a \<in> set (gray ?p) \<or> settled ?p a"
      by auto
  qed
  moreover have "lists_ok {} ?p"
  proof -
    have "colour_ok ?p a" if "nonwhite ?p a" for a
      using that l gray by (intro colour_ok_relist [OF s]) (auto simp: lists_ok_def)
    moreover have "has_kind ?p K a = has_kind g K a" for K a
      by (rule similar_kind [OF s])
    moreover have "has_kind g list_kinds a" if "a \<in> set (grayagain g)" for a
      using l that has_kind_mono [of g "{KTable, KThread}" a list_kinds] by (simp add: lists_ok_def)
    ultimately show ?thesis
      using l gray unfolding lists_ok_def by auto
  qed
  moreover have "clean_whites ?p" using c by (simp add: clean_whites_def)
  ultimately show ?thesis
    using similar_typed [OF s t] by (simp add: ginv_def)
qed

section \<open>Open upvalues\<close>

definition open_upval :: "global_State \<Rightarrow> gaddr \<Rightarrow> bool" where
  "open_upval g a \<longleftrightarrow> (case gbody g a of Some (GUpval uv) \<Rightarrow> is_open uv | _ \<Rightarrow> False)"

lemma remarkupvals_marks:
  assumes inv: "ginv X {} g" and all: "\<And>a. open_upval g a \<Longrightarrow> a \<in> set (uvhead g)"
  shows "marks g (remarkupvals g)"
    and "\<And>a. open_upval g a \<Longrightarrow> nonwhite g a \<Longrightarrow> \<forall>r\<in>refs g a. nonwhite (remarkupvals g) r"
proof -
  have t: "typed g" and c: "clean_whites g" and l: "lists_ok {} g"
    using inv by (simp_all add: ginv_def)
  let ?R = "\<lambda>a. if open_upval g a \<and> nonwhite g a then refs g a else {}"
  have "marks g (fold remarkupval (uvhead g) g)
      \<and> (\<forall>a\<in>set (uvhead g). \<forall>r\<in>?R a. nonwhite (fold remarkupval (uvhead g) g) r)"
  proof (rule fold_marks)
    fix a h
    assume h: "marks g h"
    have th: "typed h" and ch: "clean_whites h" using marksE_typed [OF h] marks_clean_whites [OF h] t c by auto
    show "marks h (remarkupval a h) \<and> (\<forall>r\<in>?R a. nonwhite (remarkupval a h) r)"
    proof (cases "\<exists>u. gbody h a = Some (GUpval u)")
      case False
      then have "remarkupval a h = h" and "\<not> open_upval g a"
        using marksE_bodies [OF h] by (auto simp: remarkupval_def open_upval_def split: option.splits gcbody.splits)
      then show ?thesis by simp
    next
      case True
      then obtain u where u: "gbody h a = Some (GUpval u)" by blast
      have "body_ok h (GUpval u)" using th u unfolding typed_def by blast
      then have v: "value_ok h (upval_value h u)" using upval_value_ok [OF th] by blast
      note mv = markvalue_marks [OF th ch v]
      have "at_marked h isgray a" if "open_upval g a" "nonwhite g a"
      proof -
        have ug: "gbody g a = Some (GUpval u)" using u marksE_bodies [OF h] by simp
        have "colour_ok g a" using l that(2) by (simp add: lists_ok_def)
        then have "\<not> black g a" using that(1) ug by (simp add: colour_ok_def open_upval_def)
        then have "at_marked g isgray a"
          using that(2) by (auto simp: at_marked_def isgray_def split: option.splits)
        then show ?thesis using marksE_at [OF h that(2)] by simp
      qed
      moreover have "refs g a = vrefs (upval_value h u)"
        using u marksE_refs [OF h, of a] by (simp add: refs_def)
      ultimately show ?thesis using u mv by (auto simp: remarkupval_def)
    qed
  qed
  then show "marks g (remarkupvals g)"
    and "\<And>a. open_upval g a \<Longrightarrow> nonwhite g a \<Longrightarrow> \<forall>r\<in>refs g a. nonwhite (remarkupvals g) r"
    using all unfolding remarkupvals_def by (blast, metis)
qed

section \<open>The first three propagations\<close>

text \<open>The roots of the program: the two threads, the registry and the metatables of the basic types.\<close>

definition gc_roots :: "gaddr \<Rightarrow> global_State \<Rightarrow> gaddr set" where
  "gc_roots L g = {mainthread g, L} \<union> vrefs (registry g) \<union> \<Union> (set_option ` set (basic_mt g))"

definition udata_part :: "global_State \<Rightarrow> gaddr list" where
  "udata_part g = drop (length (takeWhile (\<lambda>a. a \<noteq> mainthread g) (rootgc g)) + 1) (rootgc g)"

text \<open>The state while the collector marks: tables in \<open>grayagain\<close> or \<open>weak\<close> and open upvalues may refer to
  white objects; the roots that \<open>atomic\<close> does not mark again are marked.\<close>

definition marking :: "gaddr \<Rightarrow> global_State \<Rightarrow> bool" where
  "marking L g \<longleftrightarrow>
     ginv (set (grayagain g) \<union> set (weak g) \<union> {a. open_upval g a}) {} g
     \<and> (\<forall>a. open_upval g a \<longrightarrow> a \<in> set (uvhead g))
     \<and> nonwhite g (mainthread g) \<and> (\<forall>r\<in>vrefs (registry g). nonwhite g r)
     \<and> has_kind g {KThread} L \<and> list_all (pred_option (has_kind g {KTable})) (basic_mt g)
     \<and> list_all (has_kind g {KUdata}) (tmudata g) \<and> list_all (has_kind g {KUdata}) (udata_part g)
     \<and> luaC_white g \<noteq> 0"

lemma similar_open: "similar g g' \<Longrightarrow> open_upval g' a = open_upval g a"
proof -
  assume s: "similar g g'"
  show ?thesis
  proof (cases "gbody g a")
    case None
    then show ?thesis using similar_body [OF s, of a] by (simp add: open_upval_def)
  next
    case (Some b)
    from similar_cases [OF s Some] obtain b' where "gbody g' a = Some b'" and "body_eqv (tmname g) b b'" .
    then show ?thesis using Some by (cases b; cases b') (auto simp: open_upval_def)
  qed
qed

text \<open>After the open upvalues are remarked, they are settled too.\<close>

lemma remarkupvals_inv:
  assumes inv: "ginv (X \<union> {a. open_upval g a}) {} g" and up: "\<And>a. open_upval g a \<Longrightarrow> a \<in> set (uvhead g)"
  shows "ginv X {} (remarkupvals g)" and "marks g (remarkupvals g)"
proof -
  define g0 where "g0 = remarkupvals g"
  have m: "marks g g0"
    unfolding g0_def by (rule remarkupvals_marks(1) [OF inv up])
  have n: "\<forall>r\<in>refs g a. nonwhite g0 r" if "open_upval g a" "nonwhite g a" for a
    unfolding g0_def by (rule remarkupvals_marks(2) [OF inv up that])
  have "ginv X {} g0"
  proof (rule ginv_weaken [OF ginv_marks [OF m inv]])
    fix a
    assume a: "a \<in> X \<union> {a. open_upval g a}" and nw: "nonwhite g0 a"
    have "settled g0 a \<or> a \<in> set (gray g0)" if o: "open_upval g a"
      using m nw
    proof (cases rule: marks_nonwhite_cases)
      case 1
      then have "settled g0 a"
        using n [OF o 1] marksE_refs [OF m, of a] by (intro settled_refs) simp
      then show ?thesis by simp
    qed (auto simp: newly_ok_def settled_def split: if_splits)
    then show "a \<in> X \<or> a \<in> set (gray g0) \<or> settled g0 a" using a by blast
  qed
  then show "ginv X {} (remarkupvals g)" and "marks g (remarkupvals g)"
    using m by (simp_all add: g0_def)
qed

lemma markmt_marks:
  assumes "typed g" and "clean_whites g" and "list_all (pred_option (has_kind g {KTable})) (basic_mt g)"
  shows "marks g (markmt g)" and "\<forall>r\<in>\<Union> (set_option ` set (basic_mt g)). nonwhite (markmt g) r"
  using fold_mark_opt [OF assms] by (simp_all add: markmt_def)

text \<open>Marking the running thread and the metatables.\<close>

lemma mark_L_mt:
  assumes "typed g" and "clean_whites g" and "has_kind g {KThread} L"
    and mt: "list_all (pred_option (has_kind g {KTable})) (basic_mt g)"
  shows "marks g (markmt (markobject L g))" and "nonwhite (markmt (markobject L g)) L"
    and "\<forall>r\<in>\<Union> (set_option ` set (basic_mt g)). nonwhite (markmt (markobject L g)) r"
proof -
  let ?g1 = "markobject L g"
  have 1: "marks g ?g1" "nonwhite ?g1 L" using markobject_marks [OF assms(1-3)] .
  have eq: "basic_mt ?g1 = basic_mt g" using similarD(4) [OF marks_similar [OF 1(1)]] .
  have "list_all (pred_option (has_kind ?g1 {KTable})) (basic_mt ?g1)"
    using mt marks_pred_option [OF 1(1)] by (simp add: eq list_all_iff)
  note 2 = markmt_marks [OF _ _ this, unfolded eq]
  have tc: "typed ?g1" "clean_whites ?g1"
    using marksE_typed [OF 1(1)] marks_clean_whites [OF 1(1)] assms(1,2) by auto
  show "marks g (markmt ?g1)" using marksE_trans [OF 1(1) 2(1) [OF tc]] .
  show "nonwhite (markmt ?g1) L" using marksE_nonwhite [OF 2(1) [OF tc] 1(2)] .
  show "\<forall>r\<in>\<Union> (set_option ` set (basic_mt g)). nonwhite (markmt ?g1) r" using 2(2) [OF tc] .
qed

lemma atomic_mark_ok:
  assumes m: "marking L g"
  obtains g4 where "atomic_mark L g = Some g4" and "ginv {} {} g4" and "gray g4 = []" and "similar g g4"
    and "\<And>a. nonwhite g a \<Longrightarrow> nonwhite g4 a" and "\<forall>r\<in>gc_roots L g. nonwhite g4 r"
proof -
  let ?A = "set (grayagain g)" and ?W = "set (weak g)"
  define g0 where "g0 = remarkupvals g"
  have "ginv (?A \<union> ?W \<union> {a. open_upval g a}) {} g" and "open_upval g a \<Longrightarrow> a \<in> set (uvhead g)" for a
    using m by (simp_all add: marking_def)
  from remarkupvals_inv [OF this] have i0: "ginv (?A \<union> ?W) {} g0" and m0: "marks g g0"
    by (simp_all add: g0_def)
  obtain n1 g1 where p1: "propagateall 0 g0 = Some (n1, g1)" and a1: "prop_all (?A \<union> ?W) g0 g1"
    using propagateall_ends [OF i0, of 0] by blast
  define g2 where "g2 = g1\<lparr>gray := weak g1, weak := []\<rparr>"
  have w1: "?W \<subseteq> set (weak g1)" and ga1: "?A \<subseteq> set (grayagain g1)"
    and i1: "ginv (?A \<union> ?W) {} g1" "gray g1 = []" and s1: "similar g0 g1"
    using a1 marks_lists [OF m0] by (simp_all add: prop_all_def)
  have i2: "ginv ?A {} g2"
    by (rule ginv_weaken [OF requeue_weak [OF i1, folded g2_def]]) (use w1 in auto)
  have s2: "similar g g2"
    unfolding g2_def by (rule similar_trans [OF similar_trans [OF marks_similar [OF m0] s1]]) simp
  define g2b where "g2b = markmt (markobject L g2)"
  have "typed g2" "clean_whites g2" using i2 by (simp_all add: ginv_def)
  moreover have "has_kind g2 {KThread} L" "list_all (pred_option (has_kind g2 {KTable})) (basic_mt g2)"
    using m similar_kind [OF s2] similarD(4) [OF s2] by (auto simp: marking_def list_all_iff option.pred_set)
  ultimately have mb: "marks g2 g2b" and nL: "nonwhite g2b L"
    and nmt: "\<forall>r\<in>\<Union> (set_option ` set (basic_mt g)). nonwhite g2b r"
    using mark_L_mt [of g2 L] similarD(4) [OF s2] by (simp_all add: g2b_def)
  obtain n3 g3 where p3: "propagateall 0 g2b = Some (n3, g3)" and a3: "prop_all ?A g2b g3"
    using propagateall_ends [OF ginv_marks [OF mb i2], of 0] by blast
  have ga3: "?A \<subseteq> set (grayagain g3)" and i3: "ginv ?A {} g3" "gray g3 = []" and s3: "similar g2b g3"
    using a3 ga1 marks_lists [OF mb] by (auto simp: prop_all_def g2_def)
  define g3a where "g3a = g3\<lparr>gray := grayagain g3, grayagain := []\<rparr>"
  have i3a: "ginv {} {} g3a"
    by (rule ginv_weaken [OF requeue_grayagain [OF i3, folded g3a_def]]) (use ga3 in auto)
  obtain n4 g4 where p4: "propagateall 0 g3a = Some (n4, g4)" and a4: "prop_all {} g3a g4"
    using propagateall_ends [OF i3a, of 0] by blast
  have up3: "nonwhite g4 a" if "nonwhite g2b a" for a
    using that a3 a4 by (simp add: prop_all_def g3a_def)
  have up: "nonwhite g4 a" if "nonwhite g a" for a
    using up3 marksE_nonwhite [OF mb] a1 marksE_nonwhite [OF m0 that] by (simp add: prop_all_def g2_def)
  have s3a: "similar g g3a"
    unfolding g3a_def
    by (rule similar_trans [OF similar_trans [OF s2 similar_trans [OF marks_similar [OF mb] s3]]]) simp
  have "atomic_mark L g = Some g4"
    using p1 p3 p4 unfolding g0_def g2b_def g2_def g3a_def by (simp add: atomic_mark_def)
  moreover have "similar g g4" using similar_trans [OF s3a] a4 by (simp add: prop_all_def)
  moreover have "\<forall>r\<in>gc_roots L g. nonwhite g4 r"
    using m up up3 nmt nL unfolding gc_roots_def marking_def by auto
  ultimately show ?thesis
    using that a4 up by (simp add: prop_all_def)
qed

section \<open>What the invariant depends on\<close>

lemma similar_set_marked: "similar g (set_marked f a g)"
  by (simp add: similar_def option.rel_refl) (simp add: set_marked_def gput_def)

lemma ginv_heap:
  assumes h: "heap g' = heap g" and tm: "tmname g' = tmname g"
    and lists: "gray g' = gray g" "grayagain g' = grayagain g" "weak g' = weak g"
  shows "ginv X B g' = ginv X B g"
proof -
  have obj: "gobj g' = gobj g" by (simp add: gobj_def h fun_eq_iff)
  have body: "gbody g' = gbody g" and at: "at_marked g' = at_marked g"
    by (simp_all add: gbody_def at_marked_def obj fun_eq_iff)
  have b: "gbody g' a = gbody g a" for a by (simp add: body)
  note sb = same_bodies [OF b]
  have mode: "table_mode g' = table_mode g"
    by (rule ext) (simp only: table_mode_def fst_gfasttm weak_mode_def body tm)
  have k: "has_kind g' = has_kind g" and r: "refs g' = refs g" using sb by (auto simp: fun_eq_iff)
  show ?thesis
    unfolding ginv_def covered_def settled_def weak_ok_def lists_ok_def colour_ok_def clean_whites_def
      sb(7) k r lists body at mode by (rule refl)
qed

text \<open>Changing the mark of a userdata without changing its colour.\<close>

lemma ginv_touch_udata:
  assumes inv: "ginv X B g" and k: "has_kind g {KUdata} u"
    and f: "at_marked g (\<lambda>m. iswhite (f m) = iswhite m \<and> isblack (f m) = isblack m) u"
  defines "g' \<equiv> set_marked f u g"
  shows "ginv X B g'" and "nonwhite g' a = nonwhite g a" and "similar g g'"
proof -
  have t: "typed g" and c: "clean_whites g" and cov: "covered (X \<union> B) g" and l: "lists_ok B g"
    using inv by (simp_all add: ginv_def)
  show s: "similar g g'" unfolding g'_def by (rule similar_set_marked)
  have other: "at_marked g' P b = at_marked g P b" if "b \<noteq> u" for b P
    using that by (simp add: g'_def heap_simps)
  have same: "white g' b = white g b" "nonwhite g' b = nonwhite g b" "black g' b = black g b" for b
    using f by (auto simp: g'_def heap_simps at_marked_def split: option.splits)
  show "nonwhite g' a = nonwhite g a" by (rule same)
  have lists: "gray g' = gray g" "grayagain g' = grayagain g" "weak g' = weak g"
    by (simp_all add: g'_def)
  have notweak: "u \<notin> set (weak g)"
    using l k by (auto simp: lists_ok_def has_kind_def split: option.splits)
  have "settled g' b" if "settled g b" for b
  proof (cases "b = u")
    case True
    then show ?thesis using that notweak similar_refs [OF s t] same by (simp add: settled_def)
  next
    case False
    show ?thesis by (rule settled_mono [OF s t]) (use that same lists other [OF False] in simp_all)
  qed
  then have "covered (X \<union> B) g'"
    using cov same(2) unfolding covered_def lists by blast
  moreover have "colour_ok g' b = colour_ok g b" for b
    unfolding colour_ok_def lists same by (simp add: g'_def)
  then have "lists_ok B g'"
    using l unfolding lists_ok_def lists same similar_kind [OF s] by simp
  moreover have "clean_whites g'" using c same by (simp add: clean_whites_def)
  ultimately show "ginv X B g'"
    using similar_typed [OF s t] by (simp add: ginv_def)
qed

section \<open>Userdata to be finalized\<close>

lemma udata_kept:
  assumes "similar g g'" shows "list_all (has_kind g' K) us = list_all (has_kind g K) us"
  using similar_kind [OF assms] by (simp add: list_all_iff)

lemma heap_eq_facts:
  assumes "heap g' = heap g"
  shows "gobj g' = gobj g" and "gbody g' = gbody g" and "at_marked g' = at_marked g" and "has_kind g' = has_kind g"
proof -
  show obj: "gobj g' = gobj g" by (simp add: gobj_def assms fun_eq_iff)
  show body: "gbody g' = gbody g" and "at_marked g' = at_marked g"
    by (simp_all add: gbody_def at_marked_def obj fun_eq_iff)
  show "has_kind g' = has_kind g" by (simp add: has_kind_def body fun_eq_iff)
qed

text \<open>\<open>luaC_separateudata\<close> changes no colour.\<close>

definition separated :: "gaddr set \<Rightarrow> global_State \<Rightarrow> global_State \<Rightarrow> bool" where
  "separated X g g' \<longleftrightarrow> ginv X {} g' \<and> (\<forall>a. nonwhite g' a = nonwhite g a) \<and> (\<forall>K a. has_kind g' K a = has_kind g K a)
     \<and> list_all (has_kind g' {KUdata}) (tmudata g') \<and> gray g' = gray g \<and> weak g' = weak g
     \<and> currentwhite g' = currentwhite g
     \<and> mainthread g' = mainthread g \<and> registry g' = registry g \<and> basic_mt g' = basic_mt g"

lemma separated_trans: "separated X g g1 \<Longrightarrow> separated X g1 g2 \<Longrightarrow> separated X g g2"
  unfolding separated_def by simp

lemma separatedD:
  assumes "separated X g g'"
  shows "ginv X {} g'" and "list_all (has_kind g' {KUdata}) (tmudata g')"
    and "list_all (has_kind g K) us \<Longrightarrow> list_all (has_kind g' K) us"
  using assms unfolding separated_def by (blast, blast, simp add: list_all_iff)

lemma separated_similar:
  assumes "ginv X {} g'" and "similar g g'" and "\<And>a. nonwhite g' a = nonwhite g a"
    and "gray g' = gray g" and "weak g' = weak g" and "list_all (has_kind g {KUdata}) (tmudata g)"
  shows "separated X g g'"
  using assms similarD [OF assms(2)] udata_kept [OF assms(2)] similar_kind [OF assms(2)]
  by (simp add: separated_def)

lemma separated_step:
  assumes inv: "ginv X {} g" and k: "has_kind g {KUdata} u" and tmu: "list_all (has_kind g {KUdata}) (tmudata g)"
  shows "separated X g (set_marked markfinalized u (snd (gfasttm mt TM_GC g)))"
    and "separated X g ((set_marked markfinalized u (snd (gfasttm mt TM_GC g)))\<lparr>tmudata :=
           tmudata (set_marked markfinalized u (snd (gfasttm mt TM_GC g))) @ [u]\<rparr>)"
proof -
  let ?g2 = "set_marked markfinalized u (snd (gfasttm mt TM_GC g))"
  let ?g1 = "snd (gfasttm mt TM_GC g)"
  have sm: "similar g ?g1" "same_marks g ?g1" using gfasttm_similar by blast+
  have i1: "ginv X {} ?g1" using ginv_similar [OF sm inv] .
  have k1: "has_kind ?g1 {KUdata} u" using k similar_kind [OF sm(1)] by simp
  have col: "at_marked ?g1 (\<lambda>m. iswhite (markfinalized m) = iswhite m \<and> isblack (markfinalized m) = isblack m) u"
    using k1 by (auto simp: has_kind_def at_marked_def gbody_def split: option.splits)
  note tu = ginv_touch_udata [OF i1 k1 col]
  show 1: "separated X g ?g2"
    by (rule separated_similar [OF tu(1) similar_trans [OF sm(1) tu(3)]])
      (use tu(2) sm(2) tmu in \<open>simp_all add: same_marks_def\<close>)
  let ?g3 = "?g2\<lparr>tmudata := tmudata ?g2 @ [u]\<rparr>"
  have h: "heap ?g3 = heap ?g2" by simp
  have k2: "has_kind ?g2 {KUdata} u" using 1 k by (simp add: separated_def)
  have "ginv X {} ?g3 = ginv X {} ?g2" by (rule ginv_heap) simp_all
  then show "separated X g ?g3"
    using 1 k2 unfolding separated_def heap_eq_facts(3,4) [OF h] by simp
qed

lemma separate_ok:
  assumes "ginv X {} g" and "list_all (has_kind g {KUdata}) us" and "list_all (has_kind g {KUdata}) (tmudata g)"
    and "separate everything us g = (kept, n, g')"
  shows "separated X g g'"
  using assms
proof (induction us arbitrary: g kept n g')
  case Nil
  then show ?case by (simp add: separated_def)
next
  case (Cons u us)
  note P = Cons.prems(1-3) and R = Cons.prems(4)
  have ku: "has_kind g {KUdata} u" and kus: "list_all (has_kind g {KUdata}) us" using P(2) by simp_all
  from ku obtain mt env len where b: "gbody g u = Some (GUdata mt env len)"
    by (rule has_kindE) (auto elim!: kind_ofE)
  show ?case
  proof (cases "\<not> (at_marked g iswhite u \<or> everything) \<or> at_marked g isfinalized u")
    case True
    then show ?thesis
      using R Cons.IH [OF P(1) kus P(3)] by (auto split: prod.splits)
  next
    case False
    obtain tm g1 where gf: "gfasttm mt TM_GC g = (tm, g1)" by (cases "gfasttm mt TM_GC g")
    let ?g2 = "set_marked markfinalized u g1"
    note st = separated_step [OF P(1) ku P(3), of mt, unfolded gf snd_conv]
    show ?thesis
    proof (cases tm)
      case None
      obtain k' n' h where s: "separate everything us ?g2 = (k', n', h)" by (cases "separate everything us ?g2") auto
      have "separated X ?g2 h"
        by (rule Cons.IH [OF separatedD(1) [OF st(1)] separatedD(3) [OF st(1) kus] separatedD(2) [OF st(1)] s])
      moreover have "separate everything (u # us) g = (u # k', n', h)"
        unfolding separate.simps(2) if_not_P [OF False] using b gf None s by (simp add: Let_def)
      ultimately show ?thesis
        using R separated_trans [OF st(1)] by (metis prod.inject)
    next
      case (Some f)
      let ?g3 = "?g2\<lparr>tmudata := tmudata ?g2 @ [u]\<rparr>"
      obtain k' n' h where s: "separate everything us ?g3 = (k', n', h)" by (cases "separate everything us ?g3") auto
      have "separated X ?g3 h"
        by (rule Cons.IH [OF separatedD(1) [OF st(2)] separatedD(3) [OF st(2) kus] separatedD(2) [OF st(2)] s])
      moreover have "separate everything (u # us) g = (k', of_nat (sizeof_Udata + len) + n', h)"
        unfolding separate.simps(2) if_not_P [OF False] using b gf Some s by (simp add: Let_def)
      ultimately show ?thesis
        using R separated_trans [OF st(2)] by (metis prod.inject)
    qed
  qed
qed

lemma luaC_separateudata_ok:
  assumes "ginv X {} g" and "list_all (has_kind g {KUdata}) (udata_part g)"
    and "list_all (has_kind g {KUdata}) (tmudata g)" and res: "luaC_separateudata everything g = (n, g')"
  shows "separated X g g'"
proof -
  obtain kept m h where s: "separate everything (udata_part g) g = (kept, m, h)"
    by (cases "separate everything (udata_part g) g") auto
  have sep: "separated X g h" using separate_ok [OF assms(1,2,3) s] .
  have g': "g' = h\<lparr>rootgc := takeWhile (\<lambda>a. a \<noteq> mainthread g) (rootgc g) @ [mainthread g] @ kept\<rparr>"
    using res s by (simp add: luaC_separateudata_def udata_part_def Let_def)
  then have hp: "heap g' = heap h" by simp
  have "ginv X {} g' = ginv X {} h" by (rule ginv_heap) (simp_all add: g')
  then show ?thesis
    using sep unfolding separated_def heap_eq_facts(3,4) [OF hp] by (simp add: g')
qed

section \<open>Marking the userdata to be finalized\<close>

lemma bit_makewhite: "bit (makewhite g m) n = (bit m n \<and> 3 \<le> n \<or> bit (luaC_white g) n)"
proof -
  have seven: "bit (7::byte) n \<longleftrightarrow> n < 3"
  proof -
    have eq: "(7::byte) = mask 3" by (simp add: mask_eq_exp_minus_1)
    show ?thesis unfolding eq bit_mask_iff by (auto simp: possible_bit_def)
  qed
  have or: "(4 OR 3 :: byte) = 7" by simp
  show ?thesis
    unfolding makewhite_def or bit_or_iff [of "m AND NOT 7"] bit_and_iff bit_not_iff seven
    using bit_imp_possible_bit [of m n] by auto
qed

lemma makewhite_colour:
  shows "iswhite (makewhite g m) \<longleftrightarrow> luaC_white g \<noteq> 0" and "\<not> isblack (makewhite g m)"
proof -
  have lw: "bit (luaC_white g) n \<longleftrightarrow> bit (currentwhite g) n \<and> (n = 0 \<or> n = 1)" for n
    unfolding luaC_white_def bit_and_iff bit_WHITEBITS ..
  have "iswhite (makewhite g m) \<longleftrightarrow> iswhite (currentwhite g)"
    unfolding iswhite_bits bit_makewhite lw by auto
  then show "iswhite (makewhite g m) \<longleftrightarrow> luaC_white g \<noteq> 0"
    by (simp add: iswhite_def luaC_white_def)
  show "\<not> isblack (makewhite g m)"
    unfolding isblack_def bit_makewhite lw by simp
qed

definition tmu_step :: "gaddr \<Rightarrow> global_State \<Rightarrow> global_State" where
  "tmu_step u g = reallymarkobject u (set_marked (makewhite g) u g)"

lemma marktmu_step:
  assumes inv: "ginv {} {} g" and k: "has_kind g {KUdata} u" and w: "luaC_white g \<noteq> 0"
  shows "ginv {} {} (tmu_step u g)" and "\<And>a. nonwhite g a \<Longrightarrow> nonwhite (tmu_step u g) a"
    and "similar g (tmu_step u g)" and "nonwhite (tmu_step u g) u"
proof -
  let ?h = "set_marked (makewhite g) u g"
  have t: "typed g" and c: "clean_whites g" and l: "lists_ok {} g" and cov: "covered {} g"
    using inv by (simp_all add: ginv_def)
  obtain mt env len where b: "gbody g u = Some (GUdata mt env len)"
    using k by (rule has_kindE) (auto elim!: kind_ofE)
  have "ginv {} {} (tmu_step u g) \<and> (\<forall>a. nonwhite g a \<longrightarrow> nonwhite (tmu_step u g) a)
      \<and> similar g (tmu_step u g) \<and> nonwhite (tmu_step u g) u"
  proof (cases "white g u")
    case True
    have "\<not> black g u" using c True by (simp add: clean_whites_def)
    then have "at_marked g (\<lambda>m. iswhite (makewhite g m) = iswhite m \<and> isblack (makewhite g m) = isblack m) u"
      using True w by (auto simp: at_marked_def makewhite_colour split: option.splits)
    note tu = ginv_touch_udata [OF inv k this]
    have "white ?h u" using True w by (auto simp: heap_simps makewhite_colour at_marked_def split: option.splits)
    moreover have "has_kind ?h UNIV u" using b by (simp add: has_kind_def)
    ultimately have "marks ?h (tmu_step u g) \<and> nonwhite (tmu_step u g) u"
      using reallymarkobject_spec tu(1) unfolding tmu_step_def mark_spec_def ginv_def by blast
    then show ?thesis
      using ginv_marks [OF _ tu(1)] marksE_nonwhite [of "{}" ?h "tmu_step u g"] tu(2)
        similar_trans [OF tu(3)] marks_similar by blast
  next
    case False
    then have nw: "nonwhite g u" using exists_white_or_nonwhite [OF b] by simp
    let ?f = "\<lambda>m. gray2black (white2gray (makewhite g m))"
    have bl: "black g u"
    proof -
      have "colour_ok g u" using l nw by (simp add: lists_ok_def)
      then show ?thesis using b by (simp add: colour_ok_def)
    qed
    have "u \<notin> set (gray g)" "u \<notin> set (weak g)"
      using l b by (auto simp: lists_ok_def has_kind_def)
    then have "\<forall>r\<in>refs g u. nonwhite g r"
      using cov nw by (auto simp: covered_def settled_def)
    then have n: "nonwhite g env" "\<forall>m\<in>set_option mt. nonwhite g m" using b by (auto simp: refs_def)
    have "body_ok g (GUdata mt env len)" using t b unfolding typed_def by blast
    then have ne: "env \<noteq> u" "\<forall>m\<in>set_option mt. m \<noteq> u"
      using b by (auto simp: has_kind_def option.pred_set)
    have no: "\<not> white (set_marked gray2black u (set_marked white2gray u ?h)) a" if "nonwhite g a" "a \<noteq> u" for a
      using that not_white_and_nonwhite [of g a] by (auto simp: heap_simps)
    have "tmu_step u g = set_marked gray2black u (set_marked white2gray u ?h)"
      using b n ne no unfolding tmu_step_def reallymarkobject_def numeral_3_eq_3
      by (cases mt) (simp_all add: Let_def)
    also have "\<dots> = set_marked ?f u g"
      using b by (cases "gobj g u") (auto simp: set_marked_def gput_def gobj_def gbody_def comp_def split: if_splits)
    finally have eq: "tmu_step u g = set_marked ?f u g" .
    have "at_marked g (\<lambda>m. iswhite (?f m) = iswhite m \<and> isblack (?f m) = isblack m) u"
      using nw bl by (auto simp: at_marked_def split: option.splits)
    note tu = ginv_touch_udata [OF inv k this]
    then show ?thesis using nw unfolding eq by simp
  qed
  then show "ginv {} {} (tmu_step u g)" "\<And>a. nonwhite g a \<Longrightarrow> nonwhite (tmu_step u g) a"
    "similar g (tmu_step u g)" "nonwhite (tmu_step u g) u" by blast+
qed

lemma marktmu_ok:
  assumes "ginv {} {} g" and "list_all (has_kind g {KUdata}) (tmudata g)" and "luaC_white g \<noteq> 0"
  shows "ginv {} {} (marktmu g) \<and> (\<forall>a. nonwhite g a \<longrightarrow> nonwhite (marktmu g) a) \<and> similar g (marktmu g)"
proof -
  have "ginv {} {} (fold tmu_step us g) \<and> (\<forall>a. nonwhite g a \<longrightarrow> nonwhite (fold tmu_step us g) a)
      \<and> similar g (fold tmu_step us g)"
    if "ginv {} {} g" "list_all (has_kind g {KUdata}) us" "luaC_white g \<noteq> 0" for us g
    using that
  proof (induction us arbitrary: g)
    case Nil
    then show ?case by simp
  next
    case (Cons u us)
    note st = marktmu_step [of g u]
    have ku: "has_kind g {KUdata} u" using Cons.prems(2) by simp
    have s: "similar g (tmu_step u g)" using st(3) Cons.prems ku by blast
    have "ginv {} {} (fold tmu_step us (tmu_step u g))
        \<and> (\<forall>a. nonwhite (tmu_step u g) a \<longrightarrow> nonwhite (fold tmu_step us (tmu_step u g)) a)
        \<and> similar (tmu_step u g) (fold tmu_step us (tmu_step u g))"
    proof (rule Cons.IH)
      show "ginv {} {} (tmu_step u g)" using st(1) Cons.prems ku by blast
      show "list_all (has_kind (tmu_step u g) {KUdata}) us"
        using Cons.prems(2) udata_kept [OF s] by simp
      show "luaC_white (tmu_step u g) \<noteq> 0"
        using Cons.prems(3) similarD(9) [OF s] by (simp add: luaC_white_def)
    qed
    then show ?case
      using st(2) [OF Cons.prems(1) ku Cons.prems(3)] similar_trans [OF s] by simp
  qed
  from this [OF assms] show ?thesis
    by (simp add: marktmu_def tmu_step_def [abs_def] fun_eq_iff)
qed

end
