(* ===== verification/LGcSafe.thy ===== *)
theory LGcSafe
  imports LGcAtomic
begin

text \<open>
  Clearing weak tables, and the result of the atomic phase.
\<close>

section \<open>Clearing weak tables\<close>







text \<open>Clearing writes nothing but the heap.\<close>

definition only_heap :: "global_State \<Rightarrow> global_State \<Rightarrow> bool" where
  "only_heap g g' \<longleftrightarrow> g' = g\<lparr>heap := heap g'\<rparr>"

lemma only_heap_refl [simp]: "only_heap g g"
  by (simp add: only_heap_def)
















section \<open>The atomic phase is safe\<close>









section \<open>A small heap\<close>


text \<open>Statements about all objects, checked on the addresses of a heap.\<close>

lemma pred_option_code [code]: "pred_option P None = True" "pred_option P (Some x) = P x"
  by simp_all

lemma keys_unique_code [code]:
  "keys_unique h = distinct (filter (\<lambda>k. case k of GObj _ \<Rightarrow> True | _ \<Rightarrow> False) (map fst (h_node h)))"
proof -
  have "(\<exists>a. k = GObj a) = (case k of GObj _ \<Rightarrow> True | _ \<Rightarrow> False)" for k by (cases k) simp_all
  then show ?thesis by (simp add: keys_unique_def)
qed











end
