(* ===== verification/Spec2Isabelle.thy ===== *)
theory Spec2Isabelle
  imports EventQueue CodeFlow LUndump LString LTableIter TerminalOps OsEvents FileSystem Libraries TableLib StrLibSpec LexerSpec LGcSafe
begin

text \<open>
  A verification library for CraftOSOS, the operating system that boots a machine (on IncludeOS) straight
  into the Lua environment of a ComputerCraft computer. The program is a Lua 5.1.4 interpreter in C
  (\<open>src/lua/\<close>) and the computer's own code in C and C++ (\<open>src/\<close>): a terminal on planar VGA memory, an
  event queue and event loop, a file library, and the tables that show these to Lua programs.

  \<^bold>\<open>Conventions\<close> (\<open>Prelude\<close>). Machine integers are words of their width on the target (\<open>int\<close> 32 bits,
  pointers and \<open>size_t\<close> 64 bits). A raise, a panic or an early return is a value of a sum or option type. A
  pointer into a C array is an index, and an access is checked against the array's length where a property
  says that accesses stay inside. Linked structures are explicit stores from addresses to nodes. Loops are
  recursive functions with a termination proof; the few that need a bound carry it as an argument, listed
  under \<^emph>\<open>Bounds\<close>. Code outside the repository (the reader and writer callbacks of a stream, the
  directory service and timers of IncludeOS, video ports, functions of a Lua program called back) is an
  argument of the definitions that use it.

  \<^bold>\<open>The interpreter's parts\<close>

  \<^item> \<open>LNumber\<close> models the number primitives of \<open>luaconf.h\<close> on the bit patterns of IEEE doubles; \<open>LObject\<close>
    the values and prototypes of \<open>lobject.h\<close> and the generic operations of \<open>lobject.c\<close>. The theorems: the
    integer logarithm is exact, the "floating point byte" rounds up and decodes to what it encodes, and
    \<open>luaO_chunkid\<close> never writes past its buffer.
  \<^item> \<open>Opcodes\<close> models the instruction format (\<open>lopcodes.h\<close>, \<open>lopcodes.c\<close>): fields, accessors, the table of
    operand modes. \<open>LDebug\<close> models the bytecode checker of \<open>ldebug.c\<close> (\<open>precheck\<close>, \<open>symbexec\<close>,
    \<open>luaG_checkcode\<close>): it reads no instruction outside the code. \<open>CodeFlow\<close> gives the control flow of
    \<open>luaV_execute\<close> as a step relation and shows what acceptance by the checker means for it: control stays
    in the code until a return, with the one exception that a theorem exhibits (the skip of \<open>OP_LOADBOOL\<close>).
  \<^item> \<open>LZio\<close> models buffered streams (\<open>lzio.c\<close>) over a reader: what is read does not depend on how the reader
    cuts its input. \<open>LDump\<close> and \<open>LUndump\<close> model the writer and the loader of binary chunks (\<open>ldump.c\<close>,
    \<open>lundump.c\<close>). The loader returns what was dumped, reports every truncated chunk, and hands over no
    function that the checker has not accepted, at any depth of nesting.
  \<^item> \<open>LString\<close> models the string table (\<open>lstring.c\<close>): interning keeps one object for each string, and grows
    the table without losing one.
  \<^item> \<open>LTable\<close> has the operations of \<open>ltable.c\<close>. \<open>LTableChain\<close> states the invariant of the hash part over
    any assignment of main positions (the locale \<open>hash_part\<close>); \<open>LTableGet\<close> interprets it on the main
    positions of the code; \<open>LTableSet\<close> and \<open>LTableRehash\<close> follow an insertion through collisions and
    rehashes, and show that the array part is the largest that is more than half full; \<open>LTableMap\<close> is the
    refinement to a map from keys to values; \<open>LTableIter\<close> shows that a traversal visits every entry once and
    that the length operator ends at a border.
  \<^item> \<open>TableLib\<close> models \<open>ltablib.c\<close>: the quicksort of \<open>table.sort\<close> sorts and permutes for every consistent
    comparison, removal undoes insertion, \<open>concat\<close> joins.
  \<^item> \<open>StrMatch\<close> models the backtracking pattern matcher of \<open>lstrlib.c\<close> as the code has it, continuation by
    continuation (locale \<open>continuation\<close>): no access leaves the subject or the pattern, and captures stay in
    bounds. \<open>StrMatchLang\<close> gives the meaning of patterns as a relation, and shows that the matcher finds a
    match exactly when there is one. \<open>StrLib\<close> and \<open>StrLibSpec\<close> have the library functions on top: \<open>sub\<close>,
    \<open>byte\<close>, \<open>char\<close>, \<open>rep\<close>, \<open>reverse\<close>, \<open>find\<close>, \<open>match\<close>, \<open>gmatch\<close>, \<open>gsub\<close> and the quoting of \<open>format\<close>.
  \<^item> \<open>Lexer\<close> models the lexical analyser (\<open>llex.c\<close>); \<open>LexerSpec\<close> shows that every token but the last
    consumes input and that a string quoted by \<open>%q\<close> is read back as itself.

  \<^bold>\<open>The computer's parts\<close>

  \<^item> \<open>EventQueue\<close> models \<open>queue.c\<close>, a linked list in the heap, and refines it to a FIFO list (locale
    interpreted on the operations of the code).
  \<^item> \<open>OsEvents\<close> models \<open>os.cpp\<close>: scan codes and timers become events, which the event loop hands to the
    program in order, waiting when there are none.
  \<^item> \<open>Terminal\<close>, \<open>TerminalDraw\<close> and \<open>TerminalOps\<close> model \<open>term.cpp\<close>: the grid of cells, the functions of the
    \<open>term\<close> library, and the drawing of a glyph into four bit planes, read back as a picture. No function
    leaves the grid, except \<open>term.blit\<close>, for which a theorem gives the input that does.
  \<^item> \<open>FileSystem\<close> models \<open>fs_handle.c\<close> and \<open>fs.cpp\<close>: path functions, line reading, copying.
  \<^item> \<open>Libraries\<close> models \<open>lib.c\<close>, \<open>bit.h\<close>, \<open>redstone.h\<close> and the tables of functions.

  \<^bold>\<open>Bounds\<close>. Inserting into a table may rehash, and a rehash inserts: the recursion carries
  \<open>rehash_depth\<close>, and the counting lemmas of \<open>LTableRehash\<close> show that one level is enough. \<open>LoadFunction\<close>
  carries the nesting still allowed, as the C code does through \<open>LUAI_MAXCCALLS\<close>-limited recursion; a
  prototype whose nesting is within it loads. The event loop waits for an event that may never come: it is
  a partial function, and the theorems give conditions under which it returns. Everything else ends by a
  measure.
\<close>

end
